(* ===== verification/Prelude.thy ===== *)
theory Prelude
  imports Main "HOL-Library.Word" "HOL-Library.Monad_Syntax"
begin

text \<open>
  Shared vocabulary of the development: the machine integers of the i386
  target, the result of a kernel operation that may panic, bounded loops, and
  the lemmas on lists and words that the component theories use.

  A C function that can trip an \<open>ASSERT\<close> or call \<open>PANIC\<close> or
  \<open>NOT_REACHED\<close> is a function into \<open>'a option\<close>: \<^const>\<open>None\<close> is the kernel
  panic, \<^term>\<open>Some r\<close> a normal return with result \<open>r\<close>. \<open>ASSERT\<close> itself is
  \<open>lib/debug.h\<close>'s macro. The statements of a body are sequenced by the
  \<open>do\<close> notation of the option monad.
\<close>

unbundle bit_operations_syntax

section \<open>Machine integers\<close>

type_synonym u8 = "8 word"
type_synonym u16 = "16 word"
type_synonym u32 = "32 word"
type_synonym u64 = "64 word"

text \<open>Byte-addressed memory of the 32-bit virtual address space.\<close>

type_synonym memory = "u32 \<Rightarrow> u8"

text \<open>The rounding macros of \<open>lib/round.h\<close>, on unsigned 32-bit operands.\<close>

definition ROUND_UP :: "u32 \<Rightarrow> u32 \<Rightarrow> u32" where
  "ROUND_UP x step = (x + step - 1) div step * step"

definition DIV_ROUND_UP :: "u32 \<Rightarrow> u32 \<Rightarrow> u32" where
  "DIV_ROUND_UP x step = (x + step - 1) div step"

definition ROUND_DOWN :: "u32 \<Rightarrow> u32 \<Rightarrow> u32" where
  "ROUND_DOWN x step = x div step * step"

section \<open>Operations that may panic\<close>

definition ASSERT :: "bool \<Rightarrow> unit option" where
  "ASSERT b = (if b then Some () else None)"

lemma ASSERT_True [simp]: "ASSERT True = Some ()"
  by (simp add: ASSERT_def)

lemma ASSERT_False [simp]: "ASSERT False = None"
  by (simp add: ASSERT_def)

lemma ASSERT_eq_Some [simp]: "ASSERT b = Some u \<longleftrightarrow> b"
  by (simp add: ASSERT_def)

lemma bind_ASSERT_eq_Some [simp]:
  "Option.bind (ASSERT b) k = Some r \<longleftrightarrow> b \<and> k () = Some r"
  by (simp add: ASSERT_def)

lemma bind_ASSERT_eq_None [simp]:
  "Option.bind (ASSERT b) k = None \<longleftrightarrow> \<not> b \<or> k () = None"
  by (simp add: ASSERT_def)

lemma bind_ASSERT_holds: "b \<Longrightarrow> Option.bind (ASSERT b) k = k ()"
  by simp

section \<open>Bounded loops\<close>

text \<open>
  \<open>foldM f xs s\<close> is the loop that runs the body \<open>f x\<close> for every \<open>x\<close> of \<open>xs\<close>
  in turn on the state; a body that panics ends the loop with a panic. A C loop
  \<open>for (i = a; i < b; i++)\<close> is \<open>foldM\<close> over \<open>[a..<b]\<close>.
\<close>

fun foldM :: "('a \<Rightarrow> 's \<Rightarrow> 's option) \<Rightarrow> 'a list \<Rightarrow> 's \<Rightarrow> 's option" where
  "foldM f [] s = Some s"
| "foldM f (x # xs) s = do { s' \<leftarrow> f x s; foldM f xs s' }"

text \<open>\<open>findM p xs\<close> is a search loop that returns at the first hit.\<close>

fun findM :: "('a \<Rightarrow> bool option) \<Rightarrow> 'a list \<Rightarrow> 'a option option" where
  "findM p [] = Some None"
| "findM p (x # xs) = do { c \<leftarrow> p x; if c then Some (Some x) else findM p xs }"

lemma foldM_append: "foldM f (xs @ ys) s = Option.bind (foldM f xs s) (foldM f ys)"
  by (induction xs arbitrary: s) (simp_all split: bind_splits)

lemma foldM_total:
  assumes "\<And>x s. x \<in> set xs \<Longrightarrow> P s \<Longrightarrow> \<exists>s'. f x s = Some s' \<and> P s'" and "P s"
  shows "\<exists>s'. foldM f xs s = Some s' \<and> P s'"
  using assms
proof (induction xs arbitrary: s)
  case Nil
  then show ?case by simp
next
  case (Cons x xs)
  then obtain s1 where s1: "f x s = Some s1" "P s1" by (metis list.set_intros(1))
  then have "\<exists>s'. foldM f xs s1 = Some s' \<and> P s'" using Cons by simp
  with s1 show ?case by simp
qed

text \<open>The loop rule: an invariant indexed by the loop counter.\<close>

lemma foldM_upt:
  assumes step: "\<And>i s. a \<le> i \<Longrightarrow> i < b \<Longrightarrow> P i s \<Longrightarrow> \<exists>s'. f i s = Some s' \<and> P (Suc i) s'"
    and init: "P a s" and le: "a \<le> b"
  shows "\<exists>s'. foldM f [a..<b] s = Some s' \<and> P b s'"
  using le step
proof (induction b rule: dec_induct)
  case base
  then show ?case using init by simp
next
  case (step n)
  then obtain s1 where s1: "foldM f [a..<n] s = Some s1" "P n s1"
    by (metis less_Suc_eq)
  from step.prems step.hyps(1) s1(2) obtain s2 where "f n s1 = Some s2" "P (Suc n) s2"
    by blast
  with s1(1) step.hyps(1) show ?case by (simp add: foldM_append)
qed

lemma foldM_upt_eq:
  assumes "\<And>i s. a \<le> i \<Longrightarrow> i < b \<Longrightarrow> P i s \<Longrightarrow> \<exists>s'. f i s = Some s' \<and> P (Suc i) s'"
    and "P a s" and "a \<le> b" and "foldM f [a..<b] s = Some r"
  shows "P b r"
  using foldM_upt [of a b P f s] assms by fastforce

lemma findM_pure:
  assumes "\<And>x. x \<in> set xs \<Longrightarrow> p x = Some (q x)"
  shows "findM p xs = Some (find q xs)"
  using assms by (induction xs) auto

section \<open>Lists\<close>

definition replace_range :: "nat \<Rightarrow> nat \<Rightarrow> 'a \<Rightarrow> 'a list \<Rightarrow> 'a list" where
  "replace_range start cnt v xs =
     map (\<lambda>i. if start \<le> i \<and> i < start + cnt then v else xs ! i) [0..<length xs]"

lemma length_replace_range [simp]: "length (replace_range start cnt v xs) = length xs"
  by (simp add: replace_range_def)

lemma nth_replace_range:
  "i < length xs \<Longrightarrow>
   replace_range start cnt v xs ! i = (if start \<le> i \<and> i < start + cnt then v else xs ! i)"
  by (simp add: replace_range_def)

lemma replace_range_0 [simp]: "replace_range start 0 v xs = xs"
  by (rule nth_equalityI) (auto simp: nth_replace_range)

lemma replace_range_Suc:
  "start + cnt < length xs \<Longrightarrow>
   replace_range start (Suc cnt) v xs = (replace_range start cnt v xs)[start + cnt := v]"
  by (rule nth_equalityI) (auto simp: nth_replace_range nth_list_update)

text \<open>A replaced range is put back by replacing it again.\<close>

lemma replace_range_undo:
  assumes "\<And>i. start \<le> i \<Longrightarrow> i < start + cnt \<Longrightarrow> i < length xs \<Longrightarrow> xs ! i = v"
  shows "replace_range start cnt v (replace_range start cnt w xs) = xs"
  by (rule nth_equalityI) (use assms in \<open>auto simp: nth_replace_range\<close>)

lemma find_upt_Some_iff:
  "find q [a..<b] = Some i \<longleftrightarrow> a \<le> i \<and> i < b \<and> q i \<and> (\<forall>j. a \<le> j \<and> j < i \<longrightarrow> \<not> q j)"
proof
  assume "find q [a..<b] = Some i"
  then obtain k where k: "k < length [a..<b]" "q ([a..<b] ! k)" "i = [a..<b] ! k"
    "\<forall>j<k. \<not> q ([a..<b] ! j)"
    by (auto simp: find_Some_iff)
  have "\<not> q j" if "a \<le> j" "j < i" for j
    using k(4) [rule_format, of "j - a"] that k(1,3) by simp
  with k show "a \<le> i \<and> i < b \<and> q i \<and> (\<forall>j. a \<le> j \<and> j < i \<longrightarrow> \<not> q j)" by simp
next
  assume r: "a \<le> i \<and> i < b \<and> q i \<and> (\<forall>j. a \<le> j \<and> j < i \<longrightarrow> \<not> q j)"
  then show "find q [a..<b] = Some i"
    unfolding find_Some_iff by (intro exI [of _ "i - a"]) auto
qed

lemma find_upt_None_iff: "find q [a..<b] = None \<longleftrightarrow> (\<forall>i. a \<le> i \<and> i < b \<longrightarrow> \<not> q i)"
  by (auto simp: find_None_iff)

section \<open>Words\<close>

named_theorems word_nat \<open>unsigned word arithmetic read as arithmetic on naturals\<close>

lemma unat_of_nat_small [word_nat]:
  "n < 2 ^ LENGTH('a) \<Longrightarrow> unat (of_nat n :: 'a::len word) = n"
  by (simp add: unat_of_nat)

lemma unat_add_small [word_nat]:
  "unat a + unat b < 2 ^ LENGTH('a) \<Longrightarrow> unat (a + b) = unat a + unat b" for a b :: "'a::len word"
  by (simp add: unat_add_lem [symmetric])

lemma unat_mult_small [word_nat]:
  "unat a * unat b < 2 ^ LENGTH('a) \<Longrightarrow> unat (a * b) = unat a * unat b" for a b :: "'a::len word"
  by (simp add: unat_mult_lem [symmetric])

declare unat_div [word_nat] unat_sub [word_nat]

lemma u32_lt [simp]: "unat (w :: u32) < 4294967296"
proof -
  have "unat w < 2 ^ LENGTH(32)" by (rule unsigned_less)
  then show ?thesis by simp
qed

lemma u32_le [simp]: "unat (w :: u32) \<le> 4294967295"
  using u32_lt [of w] by linarith

end
