(* ===== verification/Bitmap.thy ===== *)
theory Bitmap
  imports Prelude
begin

text \<open>
  \<open>lib/kernel/bitmap.c\<close>: an array of bits packed into 32-bit elements
  (\<open>elem_type\<close> is \<open>unsigned long\<close>, 32 bits on the i386 target; \<open>size_t\<close> is
  32 bits wide too, so that \<open>start + cnt\<close> wraps around as it does in C).

  The abstract value of a bitmap is the list of its bits, \<open>bm_abs\<close>. Every
  operation is shown to act on that list the way its comment says; the search
  of \<open>bitmap_scan\<close> is characterised as the least matching run. The interface
  that the page allocator and the free map rely on is the locale
  \<open>bit_array\<close>, interpreted here on the model of the C code.
\<close>

section \<open>Representation\<close>

record bitmap =
  bit_cnt :: u32
  bits :: "u32 list"

definition ELEM_BITS :: u32 where
  "ELEM_BITS = 32"

definition BITMAP_ERROR :: u32 where
  "BITMAP_ERROR = - 1"

definition elem_idx :: "u32 \<Rightarrow> u32" where
  "elem_idx bit_idx = bit_idx div ELEM_BITS"

definition bit_mask :: "u32 \<Rightarrow> u32" where
  "bit_mask bit_idx = push_bit (unat (bit_idx mod ELEM_BITS)) 1"

definition elem_cnt :: "u32 \<Rightarrow> u32" where
  "elem_cnt cnt = DIV_ROUND_UP cnt ELEM_BITS"

definition byte_cnt :: "u32 \<Rightarrow> u32" where
  "byte_cnt cnt = 4 * elem_cnt cnt"

definition last_mask :: "bitmap \<Rightarrow> u32" where
  "last_mask b =
     (let last_bits = bit_cnt b mod ELEM_BITS
      in if last_bits \<noteq> 0 then push_bit (unat last_bits) 1 - 1 else - 1)"

section \<open>Setting and testing single bits\<close>

text \<open>
  A read-modify-write of one element. An element outside the array has no
  defined behaviour in C; the model does not return there.
\<close>

definition upd_elem :: "(u32 \<Rightarrow> u32) \<Rightarrow> bitmap \<Rightarrow> u32 \<Rightarrow> bitmap option" where
  "upd_elem g b bit_idx =
     (let idx = unat (elem_idx bit_idx)
      in if idx < length (bits b) then Some (b\<lparr>bits := (bits b)[idx := g (bits b ! idx)]\<rparr>)
         else None)"

definition bitmap_mark :: "bitmap \<Rightarrow> u32 \<Rightarrow> bitmap option" where
  "bitmap_mark b bit_idx = upd_elem (\<lambda>w. w OR bit_mask bit_idx) b bit_idx"

definition bitmap_reset :: "bitmap \<Rightarrow> u32 \<Rightarrow> bitmap option" where
  "bitmap_reset b bit_idx = upd_elem (\<lambda>w. w AND NOT (bit_mask bit_idx)) b bit_idx"

definition bitmap_flip :: "bitmap \<Rightarrow> u32 \<Rightarrow> bitmap option" where
  "bitmap_flip b bit_idx = upd_elem (\<lambda>w. w XOR bit_mask bit_idx) b bit_idx"

definition bitmap_size :: "bitmap \<Rightarrow> u32" where
  "bitmap_size b = bit_cnt b"

definition bitmap_set :: "bitmap \<Rightarrow> u32 \<Rightarrow> bool \<Rightarrow> bitmap option" where
  "bitmap_set b idx v = do {
     ASSERT (idx < bit_cnt b);
     if v then bitmap_mark b idx else bitmap_reset b idx }"

definition bitmap_test :: "bitmap \<Rightarrow> u32 \<Rightarrow> bool option" where
  "bitmap_test b idx = do {
     ASSERT (idx < bit_cnt b);
     ASSERT (unat (elem_idx idx) < length (bits b));
     Some ((bits b ! unat (elem_idx idx)) AND bit_mask idx \<noteq> 0) }"

section \<open>Setting and testing multiple bits\<close>

definition bitmap_set_multiple :: "bitmap \<Rightarrow> u32 \<Rightarrow> u32 \<Rightarrow> bool \<Rightarrow> bitmap option" where
  "bitmap_set_multiple b start cnt v = do {
     ASSERT (start \<le> bit_cnt b);
     ASSERT (start + cnt \<le> bit_cnt b);
     foldM (\<lambda>i b. bitmap_set b (start + of_nat i) v) [0..<unat cnt] b }"

definition bitmap_set_all :: "bitmap \<Rightarrow> bool \<Rightarrow> bitmap option" where
  "bitmap_set_all b v = bitmap_set_multiple b 0 (bitmap_size b) v"

definition bitmap_count :: "bitmap \<Rightarrow> u32 \<Rightarrow> u32 \<Rightarrow> bool \<Rightarrow> u32 option" where
  "bitmap_count b start cnt v = do {
     ASSERT (start \<le> bit_cnt b);
     ASSERT (start + cnt \<le> bit_cnt b);
     foldM (\<lambda>i n. do { t \<leftarrow> bitmap_test b (start + of_nat i);
                       Some (if t = v then n + 1 else n) })
       [0..<unat cnt] 0 }"

definition bitmap_contains :: "bitmap \<Rightarrow> u32 \<Rightarrow> u32 \<Rightarrow> bool \<Rightarrow> bool option" where
  "bitmap_contains b start cnt v = do {
     ASSERT (start \<le> bit_cnt b);
     ASSERT (start + cnt \<le> bit_cnt b);
     r \<leftarrow> findM (\<lambda>i. do { t \<leftarrow> bitmap_test b (start + of_nat i); Some (t = v) })
            [0..<unat cnt];
     Some (r \<noteq> None) }"

definition bitmap_any :: "bitmap \<Rightarrow> u32 \<Rightarrow> u32 \<Rightarrow> bool option" where
  "bitmap_any b start cnt = bitmap_contains b start cnt True"

definition bitmap_none :: "bitmap \<Rightarrow> u32 \<Rightarrow> u32 \<Rightarrow> bool option" where
  "bitmap_none b start cnt = map_option Not (bitmap_contains b start cnt True)"

definition bitmap_all :: "bitmap \<Rightarrow> u32 \<Rightarrow> u32 \<Rightarrow> bool option" where
  "bitmap_all b start cnt = map_option Not (bitmap_contains b start cnt False)"

section \<open>Finding set or unset bits\<close>

definition bitmap_scan :: "bitmap \<Rightarrow> u32 \<Rightarrow> u32 \<Rightarrow> bool \<Rightarrow> u32 option" where
  "bitmap_scan b start cnt v = do {
     ASSERT (start \<le> bit_cnt b);
     if cnt \<le> bit_cnt b then do {
       let last = bit_cnt b - cnt;
       r \<leftarrow> findM (\<lambda>i. map_option Not (bitmap_contains b (of_nat i) cnt (\<not> v)))
              [unat start..<Suc (unat last)];
       Some (case r of Some i \<Rightarrow> of_nat i | None \<Rightarrow> BITMAP_ERROR) }
     else Some BITMAP_ERROR }"

definition bitmap_scan_and_flip :: "bitmap \<Rightarrow> u32 \<Rightarrow> u32 \<Rightarrow> bool \<Rightarrow> (u32 \<times> bitmap) option" where
  "bitmap_scan_and_flip b start cnt v = do {
     idx \<leftarrow> bitmap_scan b start cnt v;
     b' \<leftarrow> (if idx \<noteq> BITMAP_ERROR then bitmap_set_multiple b idx cnt (\<not> v) else Some b);
     Some (idx, b') }"

section \<open>Creation and destruction\<close>

text \<open>
  \<open>bitmap_create\<close> takes the outcomes of its two \<open>malloc\<close> calls: whether the
  descriptor was allocated, and the (uninitialised) words of the element array.
  The result \<open>Some None\<close> is the null pointer.
\<close>

definition bitmap_create :: "u32 \<Rightarrow> bool \<Rightarrow> u32 list option \<Rightarrow> bitmap option option" where
  "bitmap_create cnt desc_ok elems =
     (if \<not> desc_ok then Some None
      else if elems \<noteq> None \<or> cnt = 0 then do {
        b \<leftarrow> bitmap_set_all
               \<lparr>bit_cnt = cnt, bits = (case elems of Some ws \<Rightarrow> ws | None \<Rightarrow> [])\<rparr> False;
        Some (Some b) }
      else Some None)"

definition bitmap_buf_size :: "u32 \<Rightarrow> u32" where
  "bitmap_buf_size cnt = 8 + byte_cnt cnt"

text \<open>
  \<open>bitmap_create_in_buf\<close> is given the words of the block behind the
  descriptor; the first \<open>elem_cnt\<close> of them are the element array.
\<close>

definition bitmap_create_in_buf :: "u32 \<Rightarrow> u32 list \<Rightarrow> u32 \<Rightarrow> bitmap option" where
  "bitmap_create_in_buf cnt block block_size = do {
     ASSERT (block_size \<ge> bitmap_buf_size cnt);
     bitmap_set_all \<lparr>bit_cnt = cnt, bits = take (unat (elem_cnt cnt)) block\<rparr> False }"

section \<open>Invariant and abstract value\<close>

definition bm_inv :: "bitmap \<Rightarrow> bool" where
  "bm_inv b \<longleftrightarrow> unat (bit_cnt b) + 31 < 2 ^ 32 \<and>
     length (bits b) = (unat (bit_cnt b) + 31) div 32"

definition bm_abs :: "bitmap \<Rightarrow> bool list" where
  "bm_abs b = map (\<lambda>i. bit (bits b ! (i div 32)) (i mod 32)) [0..<unat (bit_cnt b)]"

lemma length_bm_abs [simp]: "length (bm_abs b) = unat (bit_cnt b)"
  by (simp add: bm_abs_def)

lemma nth_bm_abs:
  "i < unat (bit_cnt b) \<Longrightarrow> bm_abs b ! i = bit (bits b ! (i div 32)) (i mod 32)"
  by (simp add: bm_abs_def)

lemma elem_idx_in_range: "bm_inv b \<Longrightarrow> i < bit_cnt b \<Longrightarrow> unat (elem_idx i) < length (bits b)"
  by (auto simp: bm_inv_def elem_idx_def ELEM_BITS_def word_nat word_less_nat_alt)

lemma bit_bit_mask: "bit (bit_mask i) n \<longleftrightarrow> n = unat i mod 32"
  by (auto simp: bit_mask_def ELEM_BITS_def unat_mod bit_simps)

section \<open>Correctness\<close>

lemma upd_elem_abs:
  assumes inv: "bm_inv b" and lt: "i < bit_cnt b"
    and g: "\<And>w n. n < 32 \<Longrightarrow> bit (g w) n = (if n = unat i mod 32 then v w else bit w n)"
  shows "\<exists>b'. upd_elem g b i = Some b' \<and> bm_inv b' \<and> bit_cnt b' = bit_cnt b \<and>
           bm_abs b' = (bm_abs b)[unat i := v (bits b ! (unat i div 32))]"
proof -
  let ?k = "unat i div 32"
  let ?b' = "b\<lparr>bits := (bits b)[?k := g (bits b ! ?k)]\<rparr>"
  have k: "?k < length (bits b)" and idx: "unat (elem_idx i) = ?k"
    using elem_idx_in_range [OF inv lt] by (simp_all add: elem_idx_def ELEM_BITS_def word_nat)
  have "upd_elem g b i = Some ?b'" using k by (simp add: upd_elem_def Let_def idx)
  moreover have "bm_abs ?b' = (bm_abs b)[unat i := v (bits b ! ?k)]"
  proof (rule nth_equalityI)
    fix j assume "j < length (bm_abs ?b')"
    then have j: "j < unat (bit_cnt b)" by simp
    have jk: "j div 32 < length (bits b)" using inv j by (auto simp: bm_inv_def)
    have eq: "j div 32 = ?k \<Longrightarrow> j mod 32 = unat i mod 32 \<Longrightarrow> j = unat i"
      by (metis div_mult_mod_eq)
    show "bm_abs ?b' ! j = (bm_abs b)[unat i := v (bits b ! ?k)] ! j"
      using j jk k eq lt by (auto simp: nth_bm_abs nth_list_update g word_less_nat_alt)
  qed simp
  ultimately show ?thesis using inv by (simp add: bm_inv_def)
qed

lemma bitmap_set_abs:
  assumes "bm_inv b" and "i < bit_cnt b"
  shows "\<exists>b'. bitmap_set b i v = Some b' \<and> bm_inv b' \<and> bit_cnt b' = bit_cnt b \<and>
           bm_abs b' = (bm_abs b)[unat i := v]"
proof (cases v)
  case True
  then show ?thesis
    using upd_elem_abs [OF assms, of "\<lambda>w. w OR bit_mask i" "\<lambda>_. True"] assms(2)
    by (auto simp: bitmap_set_def bitmap_mark_def bit_or_iff bit_bit_mask)
next
  case False
  then show ?thesis
    using upd_elem_abs [OF assms, of "\<lambda>w. w AND NOT (bit_mask i)" "\<lambda>_. False"] assms(2)
    by (auto simp: bitmap_set_def bitmap_reset_def bit_simps bit_bit_mask)
qed

lemma bitmap_flip_abs:
  assumes "bm_inv b" and "i < bit_cnt b"
  shows "\<exists>b'. bitmap_flip b i = Some b' \<and> bm_inv b' \<and> bit_cnt b' = bit_cnt b \<and>
           bm_abs b' = (bm_abs b)[unat i := \<not> bm_abs b ! unat i]"
  using upd_elem_abs [OF assms, of "\<lambda>w. w XOR bit_mask i" "\<lambda>w. \<not> bit w (unat i mod 32)"] assms(2)
  by (auto simp: bitmap_flip_def bit_xor_iff bit_bit_mask nth_bm_abs word_less_nat_alt)

lemma bitmap_test_abs:
  assumes "bm_inv b" and "i < bit_cnt b"
  shows "bitmap_test b i = Some (bm_abs b ! unat i)"
proof -
  have "((bits b ! unat (elem_idx i)) AND bit_mask i \<noteq> 0) = bit (bits b ! unat (elem_idx i)) (unat i mod 32)"
    by (simp add: bit_mask_def ELEM_BITS_def unat_mod bit_iff_and_push_bit_not_eq_0)
  then show ?thesis
    using assms elem_idx_in_range [OF assms]
    by (simp add: bitmap_test_def nth_bm_abs word_less_nat_alt)
      (simp add: elem_idx_def ELEM_BITS_def word_nat)
qed

text \<open>
  A range check that passes without wrap-around: \<open>start + cnt\<close> as computed in C
  is then the sum of the naturals.
\<close>

definition in_range :: "bitmap \<Rightarrow> u32 \<Rightarrow> u32 \<Rightarrow> bool" where
  "in_range b start cnt \<longleftrightarrow> unat start + unat cnt \<le> unat (bit_cnt b)"

lemma in_range_checks:
  "in_range b start cnt \<Longrightarrow> start \<le> bit_cnt b \<and> start + cnt \<le> bit_cnt b"
  unfolding in_range_def word_le_nat_alt using u32_lt [of "bit_cnt b"]
  by (simp add: word_nat del: u32_lt)

lemma in_range_index:
  assumes "in_range b start cnt" and "i < unat cnt"
  shows "unat (start + of_nat i) = unat start + i" and "start + of_nat i < bit_cnt b"
proof -
  have "unat start + i < 2 ^ 32" using assms u32_lt [of "bit_cnt b"] by (simp add: in_range_def del: u32_lt)
  then show *: "unat (start + of_nat i) = unat start + i"
    by (subst unat_add_small) (simp_all add: word_nat)
  show "start + of_nat i < bit_cnt b"
    using assms by (simp add: word_less_nat_alt * in_range_def)
qed

lemma bitmap_set_multiple_abs:
  assumes inv: "bm_inv b" and r: "in_range b start cnt"
  shows "\<exists>b'. bitmap_set_multiple b start cnt v = Some b' \<and> bm_inv b' \<and>
           bit_cnt b' = bit_cnt b \<and>
           bm_abs b' = replace_range (unat start) (unat cnt) v (bm_abs b)"
proof -
  let ?P = "\<lambda>i b'. bm_inv b' \<and> bit_cnt b' = bit_cnt b \<and>
              bm_abs b' = replace_range (unat start) i v (bm_abs b)"
  have "\<exists>b'. foldM (\<lambda>i b. bitmap_set b (start + of_nat i) v) [0..<unat cnt] b = Some b' \<and>
          ?P (unat cnt) b'"
  proof (rule foldM_upt)
    fix i b' assume i: "i < unat cnt" and P: "?P i b'"
    note ix = in_range_index [OF r i]
    show "\<exists>b''. bitmap_set b' (start + of_nat i) v = Some b'' \<and> ?P (Suc i) b''"
      using bitmap_set_abs [of b' "start + of_nat i" v] P ix r i
      by (auto simp: replace_range_Suc in_range_def)
  qed (use inv in auto)
  with in_range_checks [OF r] show ?thesis by (simp add: bitmap_set_multiple_def)
qed

lemma bitmap_contains_abs:
  assumes inv: "bm_inv b" and r: "in_range b start cnt"
  shows "bitmap_contains b start cnt v =
           Some (\<exists>i<unat cnt. bm_abs b ! (unat start + i) = v)"
proof -
  let ?q = "\<lambda>i. bm_abs b ! (unat start + i) = v"
  have "findM (\<lambda>i. do { t \<leftarrow> bitmap_test b (start + of_nat i); Some (t = v) }) [0..<unat cnt]
          = Some (find ?q [0..<unat cnt])"
    by (rule findM_pure)
      (use in_range_index [OF r] in \<open>simp add: bitmap_test_abs [OF inv]\<close>)
  moreover have "find ?q [0..<unat cnt] \<noteq> None \<longleftrightarrow> (\<exists>i<unat cnt. ?q i)"
    by (simp add: find_None_iff del: not_None_eq)
  ultimately show ?thesis using in_range_checks [OF r]
    by (simp add: bitmap_contains_def del: not_None_eq)
qed

lemma bitmap_count_abs:
  assumes inv: "bm_inv b" and r: "in_range b start cnt"
  shows "bitmap_count b start cnt v =
           Some (of_nat (length (filter (\<lambda>i. bm_abs b ! i = v) [unat start..<unat start + unat cnt])))"
proof -
  let ?f = "\<lambda>i n. do { t \<leftarrow> bitmap_test b (start + of_nat i); Some (if t = v then n + 1 else n) }"
  let ?P = "\<lambda>i n. n = (of_nat (length (filter (\<lambda>i. bm_abs b ! i = v)
                           [unat start..<unat start + i])) :: u32)"
  have "\<exists>n. foldM ?f [0..<unat cnt] 0 = Some n \<and> ?P (unat cnt) n"
  proof (rule foldM_upt)
    fix i n assume i: "i < unat cnt" and P: "?P i n"
    show "\<exists>n'. ?f i n = Some n' \<and> ?P (Suc i) n'"
      using bitmap_test_abs [OF inv in_range_index(2) [OF r i]] in_range_index(1) [OF r i] P
      by simp
  qed simp_all
  with in_range_checks [OF r] show ?thesis by (auto simp: bitmap_count_def)
qed

subsection \<open>Searching\<close>

text \<open>
  \<open>run_at bs cnt v i\<close>: the \<open>cnt\<close> bits from index \<open>i\<close> on exist and all have
  value \<open>v\<close>. \<open>first_run\<close> is the least such index from \<open>start\<close> on.
\<close>

definition run_at :: "bool list \<Rightarrow> nat \<Rightarrow> bool \<Rightarrow> nat \<Rightarrow> bool" where
  "run_at bs cnt v i \<longleftrightarrow> i + cnt \<le> length bs \<and> (\<forall>k<cnt. bs ! (i + k) = v)"

definition first_run :: "bool list \<Rightarrow> nat \<Rightarrow> nat \<Rightarrow> bool \<Rightarrow> nat option" where
  "first_run bs start cnt v = find (run_at bs cnt v) [start..<Suc (length bs)]"

lemma first_run_Some_iff:
  "first_run bs start cnt v = Some i \<longleftrightarrow>
     start \<le> i \<and> run_at bs cnt v i \<and> (\<forall>j. start \<le> j \<and> j < i \<longrightarrow> \<not> run_at bs cnt v j)"
  unfolding first_run_def find_upt_Some_iff run_at_def by auto

lemma first_run_None_iff:
  "first_run bs start cnt v = None \<longleftrightarrow> (\<forall>i\<ge>start. \<not> run_at bs cnt v i)"
  unfolding first_run_def find_upt_None_iff run_at_def by auto

lemma run_at_replace_range:
  "i + cnt \<le> length bs \<Longrightarrow> run_at (replace_range i cnt v bs) cnt v i"
  by (simp add: run_at_def nth_replace_range)

lemma find_cong: "(\<And>x. x \<in> set xs \<Longrightarrow> p x = q x) \<Longrightarrow> find p xs = find q xs"
  by (induction xs) auto

lemma first_run_upto_last:
  assumes "cnt \<le> length bs"
  shows "first_run bs start cnt v =
    find (\<lambda>i. \<forall>k<cnt. bs ! (i + k) = v) [start..<Suc (length bs - cnt)]" (is "?l = ?r")
proof (cases ?r)
  case None
  then have "?l = None"
    unfolding find_upt_None_iff first_run_None_iff run_at_def using assms by fastforce
  with None show ?thesis by simp
next
  case (Some i)
  then have "?l = Some i"
    unfolding find_upt_Some_iff first_run_Some_iff run_at_def using assms by auto
  with Some show ?thesis by simp
qed

lemma bitmap_scan_abs:
  assumes inv: "bm_inv b" and start: "start \<le> bit_cnt b"
  shows "bitmap_scan b start cnt v =
    Some (case first_run (bm_abs b) (unat start) (unat cnt) v of
            Some i \<Rightarrow> of_nat i | None \<Rightarrow> BITMAP_ERROR)"
proof (cases "cnt \<le> bit_cnt b")
  case True
  then have le: "unat cnt \<le> unat (bit_cnt b)" by (simp add: word_le_nat_alt)
  have last: "unat (bit_cnt b - cnt) = unat (bit_cnt b) - unat cnt" using True by (rule unat_sub)
  let ?q = "\<lambda>i. \<forall>k<unat cnt. bm_abs b ! (i + k) = v"
  have "findM (\<lambda>i. map_option Not (bitmap_contains b (of_nat i) cnt (\<not> v)))
          [unat start..<Suc (unat (bit_cnt b) - unat cnt)]
        = Some (find ?q [unat start..<Suc (unat (bit_cnt b) - unat cnt)])"
  proof (rule findM_pure)
    fix i assume "i \<in> set [unat start..<Suc (unat (bit_cnt b) - unat cnt)]"
    then have i: "i + unat cnt \<le> unat (bit_cnt b)" using le by auto
    then have ui: "unat (of_nat i :: u32) = i"
      using u32_lt [of "bit_cnt b"] by (simp add: word_nat del: u32_lt)
    then have "in_range b (of_nat i) cnt" using i by (simp add: in_range_def)
    from bitmap_contains_abs [OF inv this, of "\<not> v"]
    show "map_option Not (bitmap_contains b (of_nat i) cnt (\<not> v)) = Some (?q i)"
      by (auto simp: ui)
  qed
  then show ?thesis
    using start True le
    by (simp add: bitmap_scan_def last first_run_upto_last del: upt_Suc split: option.split)
next
  case False
  then have "first_run (bm_abs b) (unat start) (unat cnt) v = None"
    by (auto simp: first_run_None_iff run_at_def word_le_nat_alt)
  with False start show ?thesis by (simp add: bitmap_scan_def)
qed

lemma unat_BITMAP_ERROR [simp]: "unat BITMAP_ERROR = 4294967295"
  by (simp add: BITMAP_ERROR_def unsigned_minus_1_eq_mask mask_eq_exp_minus_1)

lemma of_nat_index_neq_error:
  assumes "bm_inv b" and "i \<le> unat (bit_cnt b)"
  shows "of_nat i \<noteq> BITMAP_ERROR" and "unat (of_nat i :: u32) = i"
proof -
  have i: "i < 2 ^ 32 - 31" using assms by (simp add: bm_inv_def)
  then show u: "unat (of_nat i :: u32) = i" by (simp add: word_nat)
  show "of_nat i \<noteq> BITMAP_ERROR" using u i unat_BITMAP_ERROR by auto
qed

lemma bitmap_scan_and_flip_abs:
  assumes inv: "bm_inv b" and start: "start \<le> bit_cnt b"
  shows "case first_run (bm_abs b) (unat start) (unat cnt) v of
      None \<Rightarrow> bitmap_scan_and_flip b start cnt v = Some (BITMAP_ERROR, b)
    | Some i \<Rightarrow> \<exists>b'. bitmap_scan_and_flip b start cnt v = Some (of_nat i, b') \<and>
        of_nat i \<noteq> BITMAP_ERROR \<and> unat (of_nat i :: u32) = i \<and>
        bm_inv b' \<and> bit_cnt b' = bit_cnt b \<and>
        bm_abs b' = replace_range i (unat cnt) (\<not> v) (bm_abs b)"
proof (cases "first_run (bm_abs b) (unat start) (unat cnt) v")
  case None
  then show ?thesis by (simp add: bitmap_scan_and_flip_def bitmap_scan_abs [OF assms])
next
  case (Some i)
  then have i: "i + unat cnt \<le> unat (bit_cnt b)" by (simp add: first_run_Some_iff run_at_def)
  then have le: "i \<le> unat (bit_cnt b)" by simp
  note n = of_nat_index_neq_error [OF inv le]
  have "in_range b (of_nat i) cnt" using i by (simp add: in_range_def n(2))
  from bitmap_set_multiple_abs [OF inv this, of "\<not> v"] n Some show ?thesis
    by (auto simp: bitmap_scan_and_flip_def bitmap_scan_abs [OF assms])
qed

subsection \<open>Creation\<close>

lemma bitmap_set_all_abs:
  assumes "bm_inv b"
  shows "\<exists>b'. bitmap_set_all b v = Some b' \<and> bm_inv b' \<and> bit_cnt b' = bit_cnt b \<and>
           bm_abs b' = replicate (unat (bit_cnt b)) v"
proof -
  have "replace_range 0 (unat (bit_cnt b)) v (bm_abs b) = replicate (unat (bit_cnt b)) v"
    by (rule nth_equalityI) (auto simp: nth_replace_range)
  moreover have "in_range b 0 (bit_cnt b)" by (simp add: in_range_def)
  ultimately show ?thesis
    using bitmap_set_multiple_abs [OF assms, of 0 "bit_cnt b" v]
    by (auto simp: bitmap_set_all_def bitmap_size_def)
qed

lemma unat_elem_cnt: "unat cnt + 31 < 2 ^ 32 \<Longrightarrow> unat (elem_cnt cnt) = (unat cnt + 31) div 32"
proof -
  assume a: "unat cnt + 31 < 2 ^ 32"
  have "unat (31 + cnt) = unat cnt + 31" using a by (subst unat_add_small) simp_all
  then show ?thesis by (simp add: elem_cnt_def DIV_ROUND_UP_def ELEM_BITS_def word_nat)
qed

lemma bitmap_create_abs:
  assumes "unat cnt + 31 < 2 ^ 32" and "length ws = unat (elem_cnt cnt)"
  shows "\<exists>b. bitmap_create cnt True (Some ws) = Some (Some b) \<and> bm_inv b \<and>
           bit_cnt b = cnt \<and> bm_abs b = replicate (unat cnt) False"
  using bitmap_set_all_abs [of "\<lparr>bit_cnt = cnt, bits = ws\<rparr>" False] assms unat_elem_cnt [of cnt]
  by (auto simp: bitmap_create_def bm_inv_def)

lemma bitmap_create_in_buf_abs:
  assumes "unat cnt + 31 < 2 ^ 32" and "unat (elem_cnt cnt) \<le> length block"
    and "bitmap_buf_size cnt \<le> block_size"
  shows "\<exists>b. bitmap_create_in_buf cnt block block_size = Some b \<and> bm_inv b \<and>
           bit_cnt b = cnt \<and> bm_abs b = replicate (unat cnt) False"
  using bitmap_set_all_abs [of "\<lparr>bit_cnt = cnt, bits = take (unat (elem_cnt cnt)) block\<rparr>" False]
    assms unat_elem_cnt [of cnt]
  by (auto simp: bitmap_create_in_buf_def bm_inv_def)

lemma run_at_nth: "run_at bs cnt v i \<Longrightarrow> i \<le> k \<Longrightarrow> k < i + cnt \<Longrightarrow> bs ! k = v"
  unfolding run_at_def by (metis add_diff_inverse_nat add_less_cancel_left not_less)

section \<open>The interface: allocating runs of a bit array\<close>

text \<open>
  What the page allocator (\<open>palloc.c\<close>) and the free-sector map
  (\<open>free-map.c\<close>) rely on: a set bit is a unit in use; \<open>grab\<close> finds and marks the
  first free run, \<open>mark\<close> sets a run, \<open>all_used\<close> tests one.
\<close>

locale bit_array =
  fixes inv :: "'b \<Rightarrow> bool"
    and abs :: "'b \<Rightarrow> bool list"
    and mark :: "'b \<Rightarrow> u32 \<Rightarrow> u32 \<Rightarrow> bool \<Rightarrow> 'b option"
    and grab :: "'b \<Rightarrow> u32 \<Rightarrow> u32 \<Rightarrow> bool \<Rightarrow> (u32 \<times> 'b) option"
    and all_used :: "'b \<Rightarrow> u32 \<Rightarrow> u32 \<Rightarrow> bool option"
  assumes size_bound: "inv b \<Longrightarrow> length (abs b) < 2 ^ 32 - 1"
    and mark_abs: "inv b \<Longrightarrow> unat start + unat cnt \<le> length (abs b) \<Longrightarrow>
      \<exists>b'. mark b start cnt v = Some b' \<and> inv b' \<and>
        abs b' = replace_range (unat start) (unat cnt) v (abs b)"
    and all_used_abs: "inv b \<Longrightarrow> unat start + unat cnt \<le> length (abs b) \<Longrightarrow>
      all_used b start cnt = Some (run_at (abs b) (unat cnt) True (unat start))"
    and grab_hit: "inv b \<Longrightarrow> first_run (abs b) (unat start) (unat cnt) v = Some i \<Longrightarrow>
      \<exists>b'. grab b start cnt v = Some (of_nat i, b') \<and> inv b' \<and>
        abs b' = replace_range i (unat cnt) (\<not> v) (abs b)"
    and grab_miss: "inv b \<Longrightarrow> unat start \<le> length (abs b) \<Longrightarrow>
      first_run (abs b) (unat start) (unat cnt) v = None \<Longrightarrow>
      grab b start cnt v = Some (BITMAP_ERROR, b)"
begin

lemma index_word:
  assumes "inv b" and "i \<le> length (abs b)"
  shows "unat (of_nat i :: u32) = i" and "of_nat i \<noteq> BITMAP_ERROR"
proof -
  have i: "i < 2 ^ 32 - 1" using size_bound [OF assms(1)] assms(2) by linarith
  then show u: "unat (of_nat i :: u32) = i" by (simp add: word_nat)
  show "of_nat i \<noteq> BITMAP_ERROR" using u i by auto
qed

text \<open>What a successful allocation returns: a free run, which becomes used.\<close>

lemma grab_free:
  assumes "inv b" and "unat start \<le> length (abs b)" and "grab b start cnt False = Some (idx, b')"
    and "idx \<noteq> BITMAP_ERROR"
  shows "inv b'" and "run_at (abs b) (unat cnt) False (unat idx)" and "unat start \<le> unat idx"
    and "abs b' = replace_range (unat idx) (unat cnt) True (abs b)"
proof -
  obtain i where i: "first_run (abs b) (unat start) (unat cnt) False = Some i"
    using grab_miss [OF assms(1,2)] assms(3,4) by (cases "first_run (abs b) (unat start) (unat cnt) False") auto
  then have r: "run_at (abs b) (unat cnt) False i" "unat start \<le> i" by (simp_all add: first_run_Some_iff)
  then have "i \<le> length (abs b)" by (simp add: run_at_def)
  note w = index_word [OF assms(1) this]
  from grab_hit [OF assms(1) i] assms(3) have "idx = of_nat i" "inv b'"
    "abs b' = replace_range i (unat cnt) True (abs b)" by auto
  with r w show "inv b'" "run_at (abs b) (unat cnt) False (unat idx)" "unat start \<le> unat idx"
    "abs b' = replace_range (unat idx) (unat cnt) True (abs b)" by simp_all
qed

text \<open>A live run is never handed out again, and stays live.\<close>

lemma grab_disjoint:
  assumes "inv b" and "unat start \<le> length (abs b)" and "grab b start cnt False = Some (idx, b')"
    and "idx \<noteq> BITMAP_ERROR" and live: "run_at (abs b) m True j"
  shows "{unat idx..<unat idx + unat cnt} \<inter> {j..<j + m} = {}" and "run_at (abs b') m True j"
proof -
  note g = grab_free [OF assms(1-4)]
  show "{unat idx..<unat idx + unat cnt} \<inter> {j..<j + m} = {}"
  proof (rule ccontr)
    assume "{unat idx..<unat idx + unat cnt} \<inter> {j..<j + m} \<noteq> {}"
    then obtain k where k: "unat idx \<le> k" "k < unat idx + unat cnt" "j \<le> k" "k < j + m"
      by (metis IntE atLeastLessThan_iff ex_in_conv)
    from run_at_nth [OF g(2) k(1,2)] run_at_nth [OF live k(3,4)] show False by simp
  qed
  show "run_at (abs b') m True j" using live by (auto simp: run_at_def g(4) nth_replace_range)
qed

text \<open>Freeing what was just allocated restores the array.\<close>

lemma grab_mark_restores:
  assumes "inv b" and "unat start \<le> length (abs b)" and "grab b start cnt False = Some (idx, b')"
    and "idx \<noteq> BITMAP_ERROR"
  shows "all_used b' idx cnt = Some True"
    and "\<exists>b''. mark b' idx cnt False = Some b'' \<and> inv b'' \<and> abs b'' = abs b"
proof -
  note g = grab_free [OF assms]
  from g(2) have le: "unat idx + unat cnt \<le> length (abs b)" by (simp add: run_at_def)
  then have le': "unat idx + unat cnt \<le> length (abs b')" by (simp add: g(4))
  show "all_used b' idx cnt = Some True"
    using all_used_abs [OF g(1) le'] run_at_replace_range [OF le] by (simp add: g(4))
  have "replace_range (unat idx) (unat cnt) False (abs b') = abs b"
    unfolding g(4) using g(2)
    by (intro replace_range_undo) (rule run_at_nth)
  then show "\<exists>b''. mark b' idx cnt False = Some b'' \<and> inv b'' \<and> abs b'' = abs b"
    using mark_abs [OF g(1) le', of False] by auto
qed

text \<open>The allocation fails exactly when no free run is left at or after \<open>start\<close>.\<close>

lemma grab_error_iff:
  assumes "inv b" and "unat start \<le> length (abs b)"
  shows "\<exists>idx b'. grab b start cnt False = Some (idx, b') \<and>
    (idx = BITMAP_ERROR \<longleftrightarrow> (\<forall>i\<ge>unat start. \<not> run_at (abs b) (unat cnt) False i))"
proof (cases "first_run (abs b) (unat start) (unat cnt) False")
  case None
  then show ?thesis using grab_miss [OF assms None] by (simp add: first_run_None_iff)
next
  case (Some i)
  then have "i \<le> length (abs b)" by (simp add: first_run_Some_iff run_at_def)
  then show ?thesis using grab_hit [OF assms(1) Some] index_word(2) [OF assms(1)] Some
    by (auto simp: first_run_Some_iff)
qed

end

lemma bitmap_all_abs:
  assumes "bm_inv b" and "in_range b start cnt"
  shows "bitmap_all b start cnt = Some (run_at (bm_abs b) (unat cnt) True (unat start))"
  using assms(2) by (auto simp: bitmap_all_def bitmap_contains_abs [OF assms] run_at_def in_range_def)

interpretation bm: bit_array bm_inv bm_abs bitmap_set_multiple bitmap_scan_and_flip bitmap_all
proof
  show "length (bm_abs b) < 2 ^ 32 - 1" if "bm_inv b" for b
    using that by (simp add: bm_inv_def)
  show "\<exists>b'. bitmap_set_multiple b start cnt v = Some b' \<and> bm_inv b' \<and>
      bm_abs b' = replace_range (unat start) (unat cnt) v (bm_abs b)"
    if "bm_inv b" "unat start + unat cnt \<le> length (bm_abs b)" for b start cnt v
    using bitmap_set_multiple_abs [of b start cnt v] that by (auto simp: in_range_def)
  show "bitmap_all b start cnt = Some (run_at (bm_abs b) (unat cnt) True (unat start))"
    if "bm_inv b" "unat start + unat cnt \<le> length (bm_abs b)" for b start cnt
    using bitmap_all_abs [of b start cnt] that by (simp add: in_range_def)
  show "\<exists>b'. bitmap_scan_and_flip b start cnt v = Some (of_nat i, b') \<and> bm_inv b' \<and>
      bm_abs b' = replace_range i (unat cnt) (\<not> v) (bm_abs b)"
    if "bm_inv b" "first_run (bm_abs b) (unat start) (unat cnt) v = Some i" for b start cnt v i
  proof -
    have "start \<le> bit_cnt b" using that(2) by (simp add: first_run_Some_iff run_at_def word_le_nat_alt)
    then show ?thesis using bitmap_scan_and_flip_abs [OF that(1), of start cnt v] that(2) by auto
  qed
  show "bitmap_scan_and_flip b start cnt v = Some (BITMAP_ERROR, b)"
    if "bm_inv b" "unat start \<le> length (bm_abs b)"
      "first_run (bm_abs b) (unat start) (unat cnt) v = None" for b start cnt v
    using bitmap_scan_and_flip_abs [OF that(1), of start cnt v] that(2,3)
    by (simp add: word_le_nat_alt)
qed

end
