(* ===== verification/Vaddr.thy ===== *)
theory Vaddr
  imports Prelude
begin

text \<open>
  \<open>threads/vaddr.h\<close> and \<open>threads/pte.h\<close>: virtual addresses, the 1:1 mapping
  of physical memory at \<open>PHYS_BASE\<close> (\<open>threads/loader.h\<close>), and the entries of
  x86 page directories and page tables. Addresses are 32-bit words; the null
  pointer is address 0.
\<close>

section \<open>Virtual addresses\<close>

definition BITMASK :: "nat \<Rightarrow> nat \<Rightarrow> u32" where
  "BITMASK sh cnt = push_bit sh (push_bit cnt 1 - 1)"

definition PGBITS :: nat where "PGBITS = 12"

definition PGSIZE :: u32 where "PGSIZE = push_bit PGBITS 1"

definition PGMASK :: u32 where "PGMASK = BITMASK 0 PGBITS"

definition pg_ofs :: "u32 \<Rightarrow> u32" where
  "pg_ofs va = va AND PGMASK"

definition pg_no :: "u32 \<Rightarrow> u32" where
  "pg_no va = drop_bit PGBITS va"

definition pg_round_up :: "u32 \<Rightarrow> u32" where
  "pg_round_up va = (va + PGSIZE - 1) AND NOT PGMASK"

definition pg_round_down :: "u32 \<Rightarrow> u32" where
  "pg_round_down va = va AND NOT PGMASK"

definition PHYS_BASE :: u32 where "PHYS_BASE = 0xc0000000"

definition is_user_vaddr :: "u32 \<Rightarrow> bool" where
  "is_user_vaddr vaddr \<longleftrightarrow> vaddr < PHYS_BASE"

definition is_kernel_vaddr :: "u32 \<Rightarrow> bool" where
  "is_kernel_vaddr vaddr \<longleftrightarrow> vaddr \<ge> PHYS_BASE"

definition ptov :: "u32 \<Rightarrow> u32 option" where
  "ptov paddr = do { ASSERT (paddr < PHYS_BASE); Some (paddr + PHYS_BASE) }"

definition vtop :: "u32 \<Rightarrow> u32 option" where
  "vtop vaddr = do { ASSERT (is_kernel_vaddr vaddr); Some (vaddr - PHYS_BASE) }"

section \<open>Page directories and page tables\<close>

definition PTSHIFT :: nat where "PTSHIFT = PGBITS"
definition PTBITS :: nat where "PTBITS = 10"
definition PTMASK :: u32 where "PTMASK = BITMASK PTSHIFT PTBITS"
definition PDSHIFT :: nat where "PDSHIFT = PTSHIFT + PTBITS"

definition pt_no :: "u32 \<Rightarrow> u32" where
  "pt_no va = drop_bit PTSHIFT (va AND PTMASK)"

definition pd_no :: "u32 \<Rightarrow> u32" where
  "pd_no va = drop_bit PDSHIFT va"

definition PTE_ADDR :: u32 where "PTE_ADDR = 0xfffff000"
definition PTE_P :: u32 where "PTE_P = 1"
definition PTE_W :: u32 where "PTE_W = 2"
definition PTE_U :: u32 where "PTE_U = 4"
definition PTE_A :: u32 where "PTE_A = 0x20"
definition PTE_D :: u32 where "PTE_D = 0x40"

definition pde_create :: "u32 \<Rightarrow> u32 option" where
  "pde_create pt = do {
     ASSERT (pg_ofs pt = 0);
     p \<leftarrow> vtop pt;
     Some (p OR PTE_U OR PTE_P OR PTE_W) }"

definition pde_get_pt :: "u32 \<Rightarrow> u32 option" where
  "pde_get_pt pde = do { ASSERT (pde AND PTE_P \<noteq> 0); ptov (pde AND PTE_ADDR) }"

definition pte_create_kernel :: "u32 \<Rightarrow> bool \<Rightarrow> u32 option" where
  "pte_create_kernel page writable = do {
     ASSERT (pg_ofs page = 0);
     p \<leftarrow> vtop page;
     Some (p OR PTE_P OR (if writable then PTE_W else 0)) }"

definition pte_create_user :: "u32 \<Rightarrow> bool \<Rightarrow> u32 option" where
  "pte_create_user page writable = do {
     pte \<leftarrow> pte_create_kernel page writable;
     Some (pte OR PTE_U) }"

definition pte_get_page :: "u32 \<Rightarrow> u32 option" where
  "pte_get_page pte = ptov (pte AND PTE_ADDR)"

section \<open>Lemmas\<close>

lemma PGMASK_mask: "PGMASK = mask 12"
  by (simp add: PGMASK_def BITMASK_def PGBITS_def mask_eq_exp_minus_1)

lemma PGSIZE_val [simp]: "PGSIZE = 4096"
  by (simp add: PGSIZE_def PGBITS_def)

lemma PTE_ADDR_mask: "PTE_ADDR = NOT PGMASK"
  by (simp add: PTE_ADDR_def PGMASK_mask mask_eq_exp_minus_1)

lemma pg_ofs_take_bit: "pg_ofs va = take_bit 12 va"
  by (simp add: pg_ofs_def PGMASK_mask take_bit_eq_mask)

lemma unat_pg_ofs: "unat (pg_ofs va) = unat va mod 4096"
  by (simp add: pg_ofs_take_bit take_bit_eq_mod unat_mod)

lemma unat_pg_no: "unat (pg_no va) = unat va div 4096"
  by (simp add: pg_no_def PGBITS_def drop_bit_eq_div unat_div)

lemma and_not_mask: "w AND NOT (mask n) = w - take_bit n w" for w :: "'a::len word"
proof -
  have "w AND NOT (mask n) = push_bit n (drop_bit n w)"
    by (rule bit_word_eqI) (auto simp: bit_simps)
  then show ?thesis using bits_ident [of n w] by (simp add: algebra_simps)
qed

lemma take_bit_word_le: "take_bit n w \<le> w" for w :: "'a::len word"
  by (simp add: word_le_nat_alt unsigned_take_bit_eq take_bit_nat_less_eq_self)

lemma unat_pg_round_down: "unat (pg_round_down va) = unat va - unat va mod 4096"
proof -
  have "unat (va - take_bit 12 va) = unat va - unat (take_bit 12 va)"
    using take_bit_word_le by (rule unat_sub)
  then show ?thesis
    by (simp add: pg_round_down_def PGMASK_mask and_not_mask take_bit_eq_mod unat_mod)
qed

lemma unat_pt_no: "unat (pt_no va) = unat va div 4096 mod 1024"
proof -
  have m: "PTMASK = push_bit 12 (mask 10)"
    by (simp add: PTMASK_def PTSHIFT_def PTBITS_def PGBITS_def BITMASK_def mask_eq_exp_minus_1)
  have "pt_no va = take_bit 10 (drop_bit 12 va)"
    by (rule bit_word_eqI) (auto simp: pt_no_def m PTSHIFT_def PGBITS_def bit_simps)
  then show ?thesis by (simp add: take_bit_eq_mod drop_bit_eq_div unat_div unat_mod)
qed

lemma unat_pd_no: "unat (pd_no va) = unat va div 4194304"
  by (simp add: pd_no_def PDSHIFT_def PTSHIFT_def PTBITS_def PGBITS_def drop_bit_eq_div
      unat_div)

text \<open>A page-aligned address is a multiple of the page size.\<close>

lemma pg_ofs_0_iff: "pg_ofs va = 0 \<longleftrightarrow> 4096 dvd unat va"
  by (metis dvd_eq_mod_eq_0 unat_0 unat_eq_zero unat_pg_ofs)

lemma vtop_ptov: "is_kernel_vaddr va \<Longrightarrow> va - PHYS_BASE < PHYS_BASE \<Longrightarrow>
   Option.bind (vtop va) ptov = Some va"
  by (simp add: vtop_def ptov_def)

lemma phys_below_base: "is_kernel_vaddr va \<Longrightarrow> va - PHYS_BASE < PHYS_BASE"
proof -
  assume "is_kernel_vaddr va"
  then have "unat (va - PHYS_BASE) = unat va - unat PHYS_BASE"
    by (simp add: is_kernel_vaddr_def unat_sub)
  then show ?thesis using u32_lt [of va] by (simp add: word_less_nat_alt PHYS_BASE_def del: u32_lt)
qed

lemma or_flags_and_addr:
  assumes "take_bit 12 p = (0 :: u32)" and "f = take_bit 12 f"
  shows "(p OR f) AND PTE_ADDR = p" and "(p OR f) AND (take_bit 12 g) = f AND take_bit 12 g"
proof -
  have p: "\<not> bit p n" if "n < 12" for n
    using assms(1) that by (metis bit_take_bit_iff bit_0_eq bot_fun_def bot_bool_def)
  have f: "n < 12" if "bit f n" for n using that assms(2) by (metis bit_take_bit_iff)
  show "(p OR f) AND PTE_ADDR = p"
    by (rule bit_word_eqI) (auto simp: PTE_ADDR_mask PGMASK_mask bit_simps dest: f p intro: ccontr [of "12 \<le> _"])
  show "(p OR f) AND (take_bit 12 g) = f AND take_bit 12 g"
    by (rule bit_word_eqI) (auto simp: bit_simps dest: p)
qed

lemma kernel_page_phys:
  assumes "is_kernel_vaddr page" and "pg_ofs page = 0"
  shows "take_bit 12 (page - PHYS_BASE) = 0"
proof -
  have "4096 dvd unat page" using assms(2) by (simp add: pg_ofs_0_iff)
  moreover have "unat (page - PHYS_BASE) = unat page - 3221225472"
    using assms(1) by (simp add: is_kernel_vaddr_def unat_sub PHYS_BASE_def)
  moreover have "(4096::nat) dvd 3221225472" by simp
  ultimately have "4096 dvd unat (page - PHYS_BASE)" by (metis dvd_diff_nat)
  then show ?thesis by (metis pg_ofs_0_iff pg_ofs_take_bit)
qed

lemma pde_ok:
  assumes "is_kernel_vaddr pt" and "pg_ofs pt = 0"
  shows "\<exists>pde. pde_create pt = Some pde \<and> pde_get_pt pde = Some pt \<and> pde \<noteq> 0"
proof -
  let ?f = "PTE_U OR PTE_P OR PTE_W"
  let ?p = "pt - PHYS_BASE"
  have f: "?f = take_bit 12 ?f" by (simp add: PTE_P_def PTE_W_def PTE_U_def)
  note a = or_flags_and_addr [OF kernel_page_phys [OF assms] f]
  have "pde_create pt = Some (?p OR ?f)" using assms by (simp add: pde_create_def vtop_def or.assoc)
  moreover have P: "(?p OR ?f) AND PTE_P = PTE_P"
    using a(2) [of PTE_P] by (simp add: PTE_P_def PTE_W_def PTE_U_def)
  moreover have "PTE_P \<noteq> 0" by (simp add: PTE_P_def)
  moreover have "?p OR ?f \<noteq> 0" using P by (auto simp: PTE_P_def)
  ultimately show ?thesis
    using phys_below_base [OF assms(1)] by (simp add: pde_get_pt_def ptov_def a(1))
qed

lemma pte_user_ok:
  assumes "is_kernel_vaddr page" and "pg_ofs page = 0"
  shows "\<exists>pte. pte_create_user page writable = Some pte \<and> pte_get_page pte = Some page \<and>
    pte AND PTE_P \<noteq> 0 \<and> pte AND PTE_U \<noteq> 0 \<and> (pte AND PTE_W \<noteq> 0) = writable"
proof -
  let ?f = "PTE_P OR (if writable then PTE_W else 0) OR PTE_U"
  let ?p = "page - PHYS_BASE"
  have f: "?f = take_bit 12 ?f"
    by (cases writable) (simp_all add: PTE_P_def PTE_W_def PTE_U_def)
  note a = or_flags_and_addr [OF kernel_page_phys [OF assms] f]
  have "pte_create_user page writable = Some (?p OR ?f)"
    using assms by (simp add: pte_create_user_def pte_create_kernel_def vtop_def or.assoc)
  moreover have "pte_get_page (?p OR ?f) = Some page"
    using phys_below_base [OF assms(1)] by (simp add: pte_get_page_def ptov_def a(1))
  moreover have "(?p OR ?f) AND PTE_P = PTE_P" "(?p OR ?f) AND PTE_U = PTE_U"
    "(?p OR ?f) AND PTE_W = (if writable then PTE_W else 0)"
    using a(2) [of PTE_P] a(2) [of PTE_U] a(2) [of PTE_W]
    by (auto simp: PTE_P_def PTE_W_def PTE_U_def)
  moreover have "PTE_P \<noteq> 0" "PTE_U \<noteq> 0" "PTE_W \<noteq> 0"
    by (simp_all add: PTE_P_def PTE_W_def PTE_U_def)
  ultimately show ?thesis by simp
qed



end
