(* ===== verification/Cstring.thy ===== *)
theory Cstring
  imports Prelude
begin

text \<open>
  \<open>lib/string.c\<close> over byte-addressed memory. A block operation takes the
  memory and returns the new one; pointers are 32-bit addresses and 0 is the
  null pointer, which the \<open>ASSERT\<close>s of the source reject. A loop that runs up
  to a terminating null byte is a \<open>partial_function\<close>: memory that never shows
  one makes it diverge, and the theorems prove that it returns on a string.

  \<open>cstr m p s\<close> says that memory \<open>m\<close> holds the null-terminated string of bytes
  \<open>s\<close> at address \<open>p\<close>.
\<close>

fun cstr :: "memory \<Rightarrow> u32 \<Rightarrow> u8 list \<Rightarrow> bool" where
  "cstr m p [] \<longleftrightarrow> m p = 0"
| "cstr m p (x # xs) \<longleftrightarrow> x \<noteq> 0 \<and> m p = x \<and> cstr m (p + 1) xs"

text \<open>The bytes of a block.\<close>

fun block_at :: "memory \<Rightarrow> u32 \<Rightarrow> nat \<Rightarrow> u8 list" where
  "block_at m p 0 = []"
| "block_at m p (Suc n) = m p # block_at m (p + 1) n"

section \<open>Blocks of memory\<close>

fun copy_fwd :: "nat \<Rightarrow> memory \<Rightarrow> u32 \<Rightarrow> u32 \<Rightarrow> memory" where
  "copy_fwd 0 m dst src = m"
| "copy_fwd (Suc n) m dst src = copy_fwd n (m(dst := m src)) (dst + 1) (src + 1)"

fun copy_bwd :: "nat \<Rightarrow> memory \<Rightarrow> u32 \<Rightarrow> u32 \<Rightarrow> memory" where
  "copy_bwd 0 m dst src = m"
| "copy_bwd (Suc n) m dst src = copy_bwd n (m(dst - 1 := m (src - 1))) (dst - 1) (src - 1)"

definition memcpy :: "memory \<Rightarrow> u32 \<Rightarrow> u32 \<Rightarrow> u32 \<Rightarrow> (memory \<times> u32) option" where
  "memcpy m dst src sz = do {
     ASSERT (dst \<noteq> 0 \<or> sz = 0);
     ASSERT (src \<noteq> 0 \<or> sz = 0);
     Some (copy_fwd (unat sz) m dst src, dst) }"

text \<open>
  \<open>memmove\<close> returns its working pointer \<open>dst\<close>, not \<open>dst_\<close>: after the forward
  loop that is one past the block.
\<close>

definition memmove :: "memory \<Rightarrow> u32 \<Rightarrow> u32 \<Rightarrow> u32 \<Rightarrow> (memory \<times> u32) option" where
  "memmove m dst src sz = do {
     ASSERT (dst \<noteq> 0 \<or> sz = 0);
     ASSERT (src \<noteq> 0 \<or> sz = 0);
     if dst < src then Some (copy_fwd (unat sz) m dst src, dst + sz)
     else Some (copy_bwd (unat sz) m (dst + sz) (src + sz), dst + sz - sz) }"

fun memcmp_loop :: "nat \<Rightarrow> memory \<Rightarrow> u32 \<Rightarrow> u32 \<Rightarrow> int" where
  "memcmp_loop 0 m a b = 0"
| "memcmp_loop (Suc n) m a b =
     (if m a \<noteq> m b then (if m a > m b then 1 else - 1) else memcmp_loop n m (a + 1) (b + 1))"

definition memcmp :: "memory \<Rightarrow> u32 \<Rightarrow> u32 \<Rightarrow> u32 \<Rightarrow> int option" where
  "memcmp m a b sz = do {
     ASSERT (a \<noteq> 0 \<or> sz = 0);
     ASSERT (b \<noteq> 0 \<or> sz = 0);
     Some (memcmp_loop (unat sz) m a b) }"

fun memchr_loop :: "nat \<Rightarrow> memory \<Rightarrow> u32 \<Rightarrow> u8 \<Rightarrow> u32" where
  "memchr_loop 0 m p c = 0"
| "memchr_loop (Suc n) m p c = (if m p = c then p else memchr_loop n m (p + 1) c)"

definition memchr :: "memory \<Rightarrow> u32 \<Rightarrow> u8 \<Rightarrow> u32 \<Rightarrow> u32 option" where
  "memchr m block ch sz = do {
     ASSERT (block \<noteq> 0 \<or> sz = 0);
     Some (memchr_loop (unat sz) m block ch) }"

fun fill :: "nat \<Rightarrow> memory \<Rightarrow> u32 \<Rightarrow> u8 \<Rightarrow> memory" where
  "fill 0 m p v = m"
| "fill (Suc n) m p v = fill n (m(p := v)) (p + 1) v"

definition memset :: "memory \<Rightarrow> u32 \<Rightarrow> u8 \<Rightarrow> u32 \<Rightarrow> (memory \<times> u32) option" where
  "memset m dst v sz = do {
     ASSERT (dst \<noteq> 0 \<or> sz = 0);
     Some (fill (unat sz) m dst v, dst) }"

section \<open>Strings\<close>

partial_function (option) strcmp_loop :: "memory \<Rightarrow> u32 \<Rightarrow> u32 \<Rightarrow> int option" where
  "strcmp_loop m a b =
     (if m a \<noteq> 0 \<and> m a = m b then strcmp_loop m (a + 1) (b + 1)
      else Some (if m a < m b then - 1 else if m a > m b then 1 else 0))"

definition strcmp :: "memory \<Rightarrow> u32 \<Rightarrow> u32 \<Rightarrow> int option" where
  "strcmp m a b = do { ASSERT (a \<noteq> 0); ASSERT (b \<noteq> 0); strcmp_loop m a b }"

partial_function (option) strchr_loop :: "memory \<Rightarrow> u32 \<Rightarrow> u8 \<Rightarrow> u32 option" where
  "strchr_loop m p c =
     (if m p = c then Some p else if m p = 0 then Some 0 else strchr_loop m (p + 1) c)"

definition strchr :: "memory \<Rightarrow> u32 \<Rightarrow> u8 \<Rightarrow> u32 option" where
  "strchr m p c = do { ASSERT (p \<noteq> 0); strchr_loop m p c }"

partial_function (option) strcspn_loop :: "memory \<Rightarrow> u32 \<Rightarrow> u32 \<Rightarrow> u32 \<Rightarrow> u32 option" where
  "strcspn_loop m p stop len =
     (if m (p + len) = 0 then Some len
      else Option.bind (strchr m stop (m (p + len))) (\<lambda>q.
        if q \<noteq> 0 then Some len else strcspn_loop m p stop (len + 1)))"

definition strcspn :: "memory \<Rightarrow> u32 \<Rightarrow> u32 \<Rightarrow> u32 option" where
  "strcspn m p stop = strcspn_loop m p stop 0"

partial_function (option) strspn_loop :: "memory \<Rightarrow> u32 \<Rightarrow> u32 \<Rightarrow> u32 \<Rightarrow> u32 option" where
  "strspn_loop m p skip len =
     (if m (p + len) = 0 then Some len
      else Option.bind (strchr m skip (m (p + len))) (\<lambda>q.
        if q = 0 then Some len else strspn_loop m p skip (len + 1)))"

definition strspn :: "memory \<Rightarrow> u32 \<Rightarrow> u32 \<Rightarrow> u32 option" where
  "strspn m p skip = strspn_loop m p skip 0"

partial_function (option) strpbrk :: "memory \<Rightarrow> u32 \<Rightarrow> u32 \<Rightarrow> u32 option" where
  "strpbrk m p stop =
     (if m p = 0 then Some 0
      else Option.bind (strchr m stop (m p)) (\<lambda>q.
        if q \<noteq> 0 then Some p else strpbrk m (p + 1) stop))"

partial_function (option) strrchr_loop :: "memory \<Rightarrow> u32 \<Rightarrow> u8 \<Rightarrow> u32 \<Rightarrow> u32 option" where
  "strrchr_loop m p c lst =
     (if m p = 0 then Some lst
      else strrchr_loop m (p + 1) c (if m p = c then p else lst))"

definition strrchr :: "memory \<Rightarrow> u32 \<Rightarrow> u8 \<Rightarrow> u32 option" where
  "strrchr m p c = strrchr_loop m p c 0"

partial_function (option) scan_nul :: "memory \<Rightarrow> u32 \<Rightarrow> u32 option" where
  "scan_nul m p = (if m p = 0 then Some p else scan_nul m (p + 1))"

definition strlen :: "memory \<Rightarrow> u32 \<Rightarrow> u32 option" where
  "strlen m p = do { ASSERT (p \<noteq> 0); q \<leftarrow> scan_nul m p; Some (q - p) }"

fun strnlen_loop :: "nat \<Rightarrow> memory \<Rightarrow> u32 \<Rightarrow> u32 \<Rightarrow> u32" where
  "strnlen_loop 0 m p len = len"
| "strnlen_loop (Suc n) m p len =
     (if m (p + len) \<noteq> 0 then strnlen_loop n m p (len + 1) else len)"

definition strnlen :: "memory \<Rightarrow> u32 \<Rightarrow> u32 \<Rightarrow> u32" where
  "strnlen m p maxlen = strnlen_loop (unat maxlen) m p 0"

definition strstr :: "memory \<Rightarrow> u32 \<Rightarrow> u32 \<Rightarrow> u32 option" where
  "strstr m haystack needle = do {
     hl \<leftarrow> strlen m haystack;
     nl \<leftarrow> strlen m needle;
     if hl \<ge> nl then do {
       r \<leftarrow> findM (\<lambda>i. map_option (\<lambda>c. c = 0) (memcmp m (haystack + of_nat i) needle nl))
              [0..<Suc (unat (hl - nl))];
       Some (case r of Some i \<Rightarrow> haystack + of_nat i | None \<Rightarrow> 0) }
     else Some 0 }"

definition strlcpy :: "memory \<Rightarrow> u32 \<Rightarrow> u32 \<Rightarrow> u32 \<Rightarrow> (memory \<times> u32) option" where
  "strlcpy m dst src sz = do {
     ASSERT (dst \<noteq> 0);
     ASSERT (src \<noteq> 0);
     src_len \<leftarrow> strlen m src;
     if sz > 0 then do {
       let dst_len = (if src_len < sz - 1 then src_len else sz - 1);
       (m', _) \<leftarrow> memcpy m dst src dst_len;
       Some (m'(dst + dst_len := 0), src_len) }
     else Some (m, src_len) }"

definition strlcat :: "memory \<Rightarrow> u32 \<Rightarrow> u32 \<Rightarrow> u32 \<Rightarrow> (memory \<times> u32) option" where
  "strlcat m dst src sz = do {
     ASSERT (dst \<noteq> 0);
     ASSERT (src \<noteq> 0);
     src_len \<leftarrow> strlen m src;
     dst_len \<leftarrow> strlen m dst;
     if sz > 0 \<and> dst_len < sz then do {
       let copy_cnt = (if src_len < sz - dst_len - 1 then src_len else sz - dst_len - 1);
       (m', _) \<leftarrow> memcpy m (dst + dst_len) src copy_cnt;
       Some (m'(dst + dst_len + copy_cnt := 0), src_len + dst_len) }
     else Some (m, src_len + dst_len) }"

text \<open>
  \<open>strtok_r\<close>: the two loops, then the whole call. The result is the memory, the
  value stored in \<open>*save_ptr\<close> and the token pointer.
\<close>

partial_function (option) skip_delims :: "memory \<Rightarrow> u32 \<Rightarrow> u32 \<Rightarrow> (u32 \<times> bool) option" where
  "skip_delims m delims s =
     Option.bind (strchr m delims (m s)) (\<lambda>q.
       if q = 0 then Some (s, False)
       else if m s = 0 then Some (s, True)
       else skip_delims m delims (s + 1))"

partial_function (option) skip_token :: "memory \<Rightarrow> u32 \<Rightarrow> u32 \<Rightarrow> u32 option" where
  "skip_token m delims s =
     Option.bind (strchr m delims (m s)) (\<lambda>q.
       if q = 0 then skip_token m delims (s + 1) else Some s)"

definition strtok_r :: "memory \<Rightarrow> u32 \<Rightarrow> u32 \<Rightarrow> u32 \<Rightarrow> (memory \<times> u32 \<times> u32) option" where
  "strtok_r m s0 delims save = do {
     let s = (if s0 = 0 then save else s0);
     ASSERT (delims \<noteq> 0);
     ASSERT (s \<noteq> 0);
     (tok, at_end) \<leftarrow> skip_delims m delims s;
     if at_end then Some (m, tok, 0)
     else do {
       e \<leftarrow> skip_token m delims tok;
       if m e \<noteq> 0 then Some (m(e := 0), e + 1, tok) else Some (m, e, tok) } }"

section \<open>Correctness of the block operations\<close>

lemma unat_offset_Suc:
  fixes a p :: u32
  assumes "n < 2 ^ 32"
  shows "unat (a - p) < Suc n \<longleftrightarrow> a = p \<or> a \<noteq> p \<and> unat (a - (p + 1)) < n"
proof (cases "a = p")
  case False
  then have "unat (a - p - 1) = unat (a - p) - 1" and "0 < unat (a - p)"
    by (simp_all add: unat_minus_one unat_gt_0)
  then show ?thesis using False by (auto simp: diff_diff_eq)
qed simp

lemma fill_apply:
  "n \<le> 2 ^ 32 \<Longrightarrow> fill n m p v a = (if unat (a - p) < n then v else m a)"
proof (induction n arbitrary: m p)
  case (Suc n)
  then show ?case using unat_offset_Suc [of n a p] by auto
qed simp

lemma nth_block_at: "i < n \<Longrightarrow> block_at m p n ! i = m (p + of_nat i)"
  by (induction n arbitrary: m p i) (auto simp: nth_Cons' algebra_simps)

lemma length_block_at [simp]: "length (block_at m p n) = n"
  by (induction n arbitrary: p) auto

lemma copy_fwd_apply:
  assumes "n \<le> 2 ^ 32" and "dst = src \<or> n \<le> unat (dst - src)"
  shows "copy_fwd n m dst src a = (if unat (a - dst) < n then m (src + (a - dst)) else m a)"
  using assms
proof (induction n arbitrary: m dst src)
  case (Suc n)
  have n: "n < 2 ^ 32" using Suc.prems(1) by simp
  have far: "a \<noteq> dst \<Longrightarrow> unat (a - (dst + 1)) < n \<Longrightarrow> dst \<noteq> src \<Longrightarrow> src + (a - dst) \<noteq> dst"
    using unat_offset_Suc [OF n, of a dst] Suc.prems(2)
    by (metis add_diff_cancel_left' not_less)
  have step: "n \<le> 2 ^ 32" "dst + 1 = src + 1 \<or> n \<le> unat (dst + 1 - (src + 1))"
    using Suc.prems by auto
  have "src + 1 + (a - (dst + 1)) = src + (a - dst)" by simp
  then have "copy_fwd n (m(dst := m src)) (dst + 1) (src + 1) a =
      (if unat (a - (dst + 1)) < n then (m(dst := m src)) (src + (a - dst)) else (m(dst := m src)) a)"
    by (simp only: Suc.IH [OF step])
  moreover have "\<not> unat (dst - (dst + 1)) < n"
    using n by (simp add: unsigned_minus_1_eq_mask mask_eq_exp_minus_1)
  ultimately show ?case
    using far unat_offset_Suc [OF n, of a dst] by (cases "dst = src"; cases "a = dst") simp_all
qed simp

lemma unat_offset_last:
  fixes a p :: u32
  assumes "n < 2 ^ 32"
  shows "unat (a - p) < Suc n \<longleftrightarrow> a = p + of_nat n \<or> a \<noteq> p + of_nat n \<and> unat (a - p) < n"
proof -
  have "unat (a - p) = n \<longleftrightarrow> a - p = of_nat n"
    using assms by (auto simp: unat_of_nat_small)
  then show ?thesis by (auto simp: less_Suc_eq algebra_simps)
qed

lemma copy_bwd_apply:
  assumes "n \<le> 2 ^ 32" and "dst = src \<or> n \<le> unat (src - dst)"
  shows "copy_bwd n m (dst + of_nat n) (src + of_nat n) a =
    (if unat (a - dst) < n then m (src + (a - dst)) else m a)"
  using assms
proof (induction n arbitrary: m)
  case (Suc n)
  let ?d = "dst + of_nat n" and ?s = "src + of_nat n"
  let ?m = "m(?d := m ?s)"
  have n: "n < 2 ^ 32" using Suc.prems(1) by simp
  have step: "n \<le> 2 ^ 32" "dst = src \<or> n \<le> unat (src - dst)" using Suc.prems by auto
  have far: "unat (a - dst) < n \<Longrightarrow> dst \<noteq> src \<Longrightarrow> src + (a - dst) \<noteq> ?d"
  proof
    assume lt: "unat (a - dst) < n" and ne: "dst \<noteq> src" and eq: "src + (a - dst) = ?d"
    have "src - dst = (src + (a - dst)) - dst - (a - dst)" by simp
    also have "\<dots> = of_nat n - (a - dst)" unfolding eq by simp
    finally have d: "src - dst = of_nat n - (a - dst)" .
    have u: "unat (of_nat n :: u32) = n" using n by (simp add: unat_of_nat_small)
    have "a - dst \<le> of_nat n" using lt unfolding word_le_nat_alt u by simp
    then have "unat (src - dst) = n - unat (a - dst)" unfolding d by (simp only: unat_sub u)
    then show False using Suc.prems(2) ne by simp
  qed
  have "dst + of_nat (Suc n) - 1 = ?d" "src + of_nat (Suc n) - 1 = ?s" by simp_all
  then have "copy_bwd (Suc n) m (dst + of_nat (Suc n)) (src + of_nat (Suc n)) a =
      (if unat (a - dst) < n then ?m (src + (a - dst)) else ?m a)"
    by (simp only: copy_bwd.simps Suc.IH [OF step])
  then show ?case using far unat_offset_last [OF n, of a dst]
    by (cases "dst = src"; cases "a = ?d") simp_all
qed simp

text \<open>C30: \<open>memmove\<close> copies a block correctly even where source and destination overlap, and
  changes nothing outside the destination. Its result is the destination pointer only when it
  copied backwards; after the forward copy it is the end of the block, although the comment
  says that it returns \<open>DST\<close>.\<close>

theorem memmove_correct:
  assumes "dst \<noteq> 0" and "src \<noteq> 0"
    and "unat dst + unat n \<le> 2 ^ 32" and "unat src + unat n \<le> 2 ^ 32"
  shows "\<exists>m' r. memmove m dst src n = Some (m', r) \<and>
    block_at m' dst (unat n) = block_at m src (unat n) \<and>
    (\<forall>a. unat n \<le> unat (a - dst) \<longrightarrow> m' a = m a) \<and>
    r = (if dst < src then dst + n else dst)"
proof -
  have le: "unat n \<le> 2 ^ 32" using u32_lt [of n] by (simp del: u32_lt)
  define m' where "m' = (if dst < src then copy_fwd (unat n) m dst src
    else copy_bwd (unat n) m (dst + n) (src + n))"
  have m': "m' a = (if unat (a - dst) < unat n then m (src + (a - dst)) else m a)" for a
  proof (cases "dst < src")
    case True
    then have "unat (dst - src) = unat dst + 2 ^ 32 - unat src"
      by (simp add: unat_sub_if' word_less_nat_alt)
    then have "unat n \<le> unat (dst - src)" using assms(4) by simp
    with True show ?thesis using copy_fwd_apply [OF le, of dst src m a] by (simp add: m'_def)
  next
    case False
    have "dst = src \<or> unat n \<le> unat (src - dst)"
    proof (rule disjCI)
      assume "\<not> unat n \<le> unat (src - dst)"
      then show "dst = src" using False assms(3)
        by (simp add: unat_sub_if' word_less_nat_alt word_unat_eq_iff split: if_splits)
    qed
    with False show ?thesis using copy_bwd_apply [OF le, of dst src m a] by (simp add: m'_def)
  qed
  have "memmove m dst src n = Some (m', if dst < src then dst + n else dst)"
    using assms(1,2) by (simp add: memmove_def m'_def)
  moreover have "block_at m' dst (unat n) = block_at m src (unat n)"
    by (rule nth_equalityI) (simp_all add: nth_block_at m' unat_of_nat_small less_trans [OF _ u32_lt])
  ultimately show ?thesis by (simp add: m')
qed

theorem memmove_correct_witness:
  "\<exists>m' r. memmove (\<lambda>a. ucast a) 0x1000 0x1002 8 = Some (m', r) \<and>
    block_at m' 0x1000 8 = [2, 3, 4, 5, 6, 7, 8, 9] \<and> r = 0x1008"
proof -
  have e: "block_at (\<lambda>a. ucast a) 0x1002 8 = [2, 3, 4, 5, 6, 7, 8, 9 :: u8]"
    by code_simp
  have u: "unat (8 :: u32) = 8" by simp
  show ?thesis
    using memmove_correct [of "0x1000" "0x1002" 8 "\<lambda>a. ucast a"] unfolding u e by auto
qed

section \<open>Correctness of the string operations\<close>

lemma cstr_nth: "cstr m p s \<Longrightarrow> i < length s \<Longrightarrow> m (p + of_nat i) = s ! i \<and> s ! i \<noteq> 0"
proof (induction s arbitrary: p i)
  case (Cons x s)
  show ?case
  proof (cases i)
    case (Suc j)
    then show ?thesis using Cons.IH [of "p + 1" j] Cons.prems by (simp add: add.assoc)
  qed (use Cons.prems in simp)
qed simp

lemma cstr_end: "cstr m p s \<Longrightarrow> m (p + of_nat (length s)) = 0"
  by (induction s arbitrary: p) (simp_all add: add.assoc [symmetric])

lemma cstrI:
  assumes "\<And>i. i < length s \<Longrightarrow> m (p + of_nat i) = s ! i \<and> s ! i \<noteq> 0"
    and "m (p + of_nat (length s)) = 0"
  shows "cstr m p s"
  using assms
proof (induction s arbitrary: p)
  case (Cons x s)
  have "cstr m (p + 1) s"
  proof (rule Cons.IH)
    show "m (p + 1 + of_nat i) = s ! i \<and> s ! i \<noteq> 0" if "i < length s" for i
      using Cons.prems(1) [of "Suc i"] that by (simp add: algebra_simps)
    show "m (p + 1 + of_nat (length s)) = 0" using Cons.prems(2) by (simp add: algebra_simps)
  qed
  with Cons.prems(1) [of 0] show ?case by simp
qed simp

text \<open>A string never fills the whole address space.\<close>

lemma cstr_length: "cstr m p s \<Longrightarrow> length s < 2 ^ 32"
proof (rule ccontr)
  assume s: "cstr m p s" and "\<not> length s < 2 ^ 32"
  then have n: "length s - 2 ^ 32 < length s" "length s = (length s - 2 ^ 32) + 2 ^ 32" by simp_all
  have z: "(of_nat (2 ^ 32) :: u32) = 0" by simp
  have "(of_nat (length s) :: u32) = of_nat (length s - 2 ^ 32) + of_nat (2 ^ 32)"
    using arg_cong [OF n(2), of "of_nat :: nat \<Rightarrow> u32"] by (simp only: of_nat_add)
  then have "p + of_nat (length s) = p + of_nat (length s - 2 ^ 32)" by (simp only: z add_0_right)
  then show False using cstr_nth [OF s n(1)] cstr_end [OF s] by metis
qed

lemma cstr_app: "cstr m p (xs @ ys) \<Longrightarrow> cstr m (p + of_nat (length xs)) ys"
  by (induction xs arbitrary: p) (simp_all add: add.assoc [symmetric])

lemma cstr_drop: "cstr m p s \<Longrightarrow> n \<le> length s \<Longrightarrow> cstr m (p + of_nat n) (drop n s)"
  using cstr_app [of m p "take n s" "drop n s"] by simp

lemma scan_nul_cstr: "cstr m p s \<Longrightarrow> scan_nul m p = Some (p + of_nat (length s))"
  by (induction s arbitrary: p) (subst scan_nul.simps, simp add: algebra_simps)+

lemma strlen_cstr: "cstr m p s \<Longrightarrow> p \<noteq> 0 \<Longrightarrow> strlen m p = Some (of_nat (length s))"
  by (simp add: strlen_def scan_nul_cstr)

lemma unat_cstr_length: "cstr m p s \<Longrightarrow> unat (of_nat (length s) :: u32) = length s"
  using cstr_length by (simp add: unat_of_nat_small)

text \<open>The order \<open>strcmp\<close> decides: lexicographic on unsigned bytes.\<close>

fun byte_cmp :: "u8 list \<Rightarrow> u8 list \<Rightarrow> int" where
  "byte_cmp [] [] = 0"
| "byte_cmp [] (y # ys) = - 1"
| "byte_cmp (x # xs) [] = 1"
| "byte_cmp (x # xs) (y # ys) = (if x < y then - 1 else if x > y then 1 else byte_cmp xs ys)"

lemma byte_cmp_0_iff: "byte_cmp s t = 0 \<longleftrightarrow> s = t"
  by (induction s t rule: byte_cmp.induct) auto

lemma strcmp_loop_cstr:
  "cstr m a s \<Longrightarrow> cstr m b t \<Longrightarrow> strcmp_loop m a b = Some (byte_cmp s t)"
proof (induction s t arbitrary: a b rule: byte_cmp.induct)
  case 1
  then show ?case by (subst strcmp_loop.simps) simp
next
  case (2 y ys)
  then show ?case by (subst strcmp_loop.simps) (auto simp: word_gt_0)
next
  case (3 x xs)
  then show ?case by (subst strcmp_loop.simps) (auto simp: word_gt_0)
next
  case (4 x xs y ys)
  then show ?case by (subst strcmp_loop.simps) auto
qed

text \<open>C31: \<open>strcmp\<close> returns on any two strings, with the sign of their unsigned lexicographic
  comparison; the result is zero exactly on equal strings.\<close>

theorem strcmp_correct:
  assumes "cstr m a s" and "cstr m b t" and "a \<noteq> 0" and "b \<noteq> 0"
  shows "strcmp m a b = Some (byte_cmp s t) \<and> (strcmp m a b = Some 0 \<longleftrightarrow> s = t)"
  using strcmp_loop_cstr [OF assms(1,2)] assms(3,4) by (simp add: strcmp_def byte_cmp_0_iff)

theorem strcmp_correct_witness:
  "\<exists>m. cstr m 0x100 [97, 200] \<and> cstr m 0x200 [97, 98] \<and> strcmp m 0x100 0x200 = Some 1"
proof -
  let ?m = "(\<lambda>_. 0)(0x100 := 97, 0x101 := 200, 0x200 := 97, 0x201 := 98) :: memory"
  have c: "cstr ?m 0x100 [97, 200]" "cstr ?m 0x200 [97, 98]" by simp_all
  have "byte_cmp [97, 200] [97, 98] = 1" by code_simp
  with strcmp_correct [OF c] c show ?thesis by (intro exI [of _ ?m]) auto
qed

text \<open>Where \<open>strchr\<close> finds a byte: its first index, counting the terminator.\<close>

fun index_of :: "u8 \<Rightarrow> u8 list \<Rightarrow> nat option" where
  "index_of c [] = (if c = 0 then Some 0 else None)"
| "index_of c (x # xs) = (if x = c then Some 0 else map_option Suc (index_of c xs))"

lemma index_of_None_iff: "index_of c s = None \<longleftrightarrow> c \<notin> set s \<and> c \<noteq> 0"
  by (induction s) auto

lemma index_of_le: "index_of c s = Some i \<Longrightarrow> i \<le> length s"
  by (induction s arbitrary: i) (auto split: if_splits)

lemma strchr_loop_cstr:
  "cstr m p s \<Longrightarrow>
   strchr_loop m p c = Some (case index_of c s of Some i \<Rightarrow> p + of_nat i | None \<Rightarrow> 0)"
proof (induction s arbitrary: p)
  case Nil
  then show ?case by (subst strchr_loop.simps) auto
next
  case (Cons x s)
  then have "strchr_loop m (p + 1) c =
      Some (case index_of c s of Some i \<Rightarrow> p + 1 + of_nat i | None \<Rightarrow> 0)" by simp
  with Cons.prems show ?case
    by (subst strchr_loop.simps) (auto simp: add.assoc split: option.splits)
qed

text \<open>
  A string of delimiters that does not reach the end of the address space, so
  that a pointer into it is never null: \<open>strchr\<close> on it decides membership.
\<close>

definition delim_str :: "memory \<Rightarrow> u32 \<Rightarrow> u8 list \<Rightarrow> bool" where
  "delim_str m p ds \<longleftrightarrow> cstr m p ds \<and> p \<noteq> 0 \<and> unat p + length ds < 2 ^ 32"

lemma strchr_delim:
  assumes "delim_str m p ds"
  shows "\<exists>q. strchr m p c = Some q \<and> (q = 0 \<longleftrightarrow> c \<notin> set ds \<and> c \<noteq> 0)"
proof (cases "index_of c ds")
  case None
  then have "c \<notin> set ds \<and> c \<noteq> 0" by (simp add: index_of_None_iff)
  then show ?thesis
    using assms None strchr_loop_cstr [of m p ds c] by (simp add: strchr_def delim_str_def)
next
  case (Some i)
  then have "i \<le> length ds" by (rule index_of_le)
  then have "unat (p + of_nat i) = unat p + i" using assms
    by (subst unat_add_small) (auto simp: delim_str_def unat_of_nat_small)
  moreover have "0 < unat p" using assms by (simp add: delim_str_def unat_gt_0)
  ultimately have "p + of_nat i \<noteq> 0" by (metis add_is_0 less_numeral_extra(3) unat_0)
  moreover have "\<not> (c \<notin> set ds \<and> c \<noteq> 0)" using Some by (metis index_of_None_iff option.distinct(1))
  ultimately show ?thesis
    using assms Some strchr_loop_cstr [of m p ds c] by (simp add: strchr_def delim_str_def)
qed
lemma skip_delims_cstr:
  assumes "delim_str m d ds" and "cstr m s xs"
  shows "skip_delims m d s =
    Some (s + of_nat (length (takeWhile (\<lambda>c. c \<in> set ds) xs)), dropWhile (\<lambda>c. c \<in> set ds) xs = [])"
  using assms(2)
proof (induction xs arbitrary: s)
  case Nil
  obtain q where "strchr m d (m s) = Some q" "q \<noteq> 0"
    using strchr_delim [OF assms(1), of "m s"] Nil by auto
  with Nil show ?case by (subst skip_delims.simps) simp
next
  case (Cons x xs)
  obtain q where "strchr m d (m s) = Some q" "q = 0 \<longleftrightarrow> x \<notin> set ds"
    using strchr_delim [OF assms(1), of "m s"] Cons.prems by auto
  with Cons show ?case by (subst skip_delims.simps) (simp add: add.assoc)
qed

lemma skip_token_cstr:
  assumes "delim_str m d ds" and "cstr m s xs"
  shows "skip_token m d s = Some (s + of_nat (length (takeWhile (\<lambda>c. c \<notin> set ds) xs)))"
  using assms(2)
proof (induction xs arbitrary: s)
  case Nil
  obtain q where "strchr m d (m s) = Some q" "q \<noteq> 0"
    using strchr_delim [OF assms(1), of "m s"] Nil by auto
  with Nil show ?case by (subst skip_token.simps) simp
next
  case (Cons x xs)
  obtain q where "strchr m d (m s) = Some q" "q = 0 \<longleftrightarrow> x \<notin> set ds"
    using strchr_delim [OF assms(1), of "m s"] Cons.prems by auto
  with Cons show ?case by (subst skip_token.simps) (simp add: add.assoc)
qed

lemma cstr_upd_outside:
  assumes "cstr m p s" and "\<And>i. i \<le> length s \<Longrightarrow> p + of_nat i \<noteq> a"
  shows "cstr (m(a := v)) p s"
  by (rule cstrI) (use cstr_nth [OF assms(1)] cstr_end [OF assms(1)] assms(2) in auto)

lemma of_nat_neq_0: "0 < i \<Longrightarrow> i < 2 ^ 32 \<Longrightarrow> (of_nat i :: u32) \<noteq> 0"
  by (auto simp: word_of_nat_eq_0_iff dest: nat_dvd_not_less)

lemma cstr_cut:
  assumes "cstr m p (tok @ c # rest)"
  shows "cstr (m(p + of_nat (length tok) := 0)) p tok"
    and "cstr (m(p + of_nat (length tok) := 0)) (p + of_nat (length tok) + 1) rest"
proof -
  let ?e = "p + of_nat (length tok)"
  have len: "length tok + Suc (length rest) < 2 ^ 32" using cstr_length [OF assms] by simp
  show "cstr (m(?e := 0)) p tok"
  proof (rule cstrI)
    fix i assume i: "i < length tok"
    have "(of_nat (length tok - i) :: u32) \<noteq> 0" using i len by (intro of_nat_neq_0) auto
    then have "p + of_nat i \<noteq> ?e" using i by (auto simp: of_nat_diff)
    then show "(m(?e := 0)) (p + of_nat i) = tok ! i \<and> tok ! i \<noteq> 0"
      using cstr_nth [OF assms, of i] i by (auto simp: nth_append)
  qed simp
  have "cstr m (?e + 1) rest" using cstr_app [OF assms] by simp
  then show "cstr (m(?e := 0)) (?e + 1) rest"
  proof (rule cstr_upd_outside)
    fix i assume "i \<le> length rest"
    then have "(of_nat (Suc i) :: u32) \<noteq> 0" using len by (intro of_nat_neq_0) auto
    then show "?e + 1 + of_nat i \<noteq> ?e" by (simp add: add.assoc)
  qed
qed

text \<open>C32: One call of \<open>strtok_r\<close> on a string: it returns, skips the leading delimiters, cuts off
  the next token (never empty) as a string of its own and leaves the save pointer at the rest;
  if only delimiters are left it returns null. Only the delimiter after the token is changed.\<close>

theorem strtok_r_token:
  assumes "cstr m s xs" and "delim_str m d ds" and "s \<noteq> 0"
    and "rest = dropWhile (\<lambda>c. c \<in> set ds) xs" and "tok = takeWhile (\<lambda>c. c \<notin> set ds) rest"
    and "p = s + of_nat (length xs - length rest)"
  shows "if rest = [] then strtok_r m s d save = Some (m, p, 0)
    else \<exists>m' save'. strtok_r m s d save = Some (m', save', p) \<and> tok \<noteq> [] \<and>
      cstr m' p tok \<and> cstr m' save' (drop (Suc (length tok)) rest) \<and>
      (\<forall>a. a \<noteq> p + of_nat (length tok) \<longrightarrow> m' a = m a)"
proof -
  have d: "d \<noteq> 0" using assms(2) by (simp add: delim_str_def)
  have k: "length (takeWhile (\<lambda>c. c \<in> set ds) xs) = length xs - length rest"
    unfolding assms(4) by (metis add_diff_cancel_right' length_append takeWhile_dropWhile_id)
  have sk: "skip_delims m d s = Some (p, rest = [])"
    using skip_delims_cstr [OF assms(2,1)] unfolding k assms(4) [symmetric] assms(6) .
  have rest: "cstr m p rest"
    using cstr_app [of m s "takeWhile (\<lambda>c. c \<in> set ds) xs" rest] assms(1)
    unfolding k assms(6) by (simp add: assms(4))
  show ?thesis
  proof (cases "rest = []")
    case True
    then show ?thesis using sk assms(3) d by (simp add: strtok_r_def)
  next
    case False
    then have tok: "tok \<noteq> []" unfolding assms(4,5) using hd_dropWhile [of "\<lambda>c. c \<in> set ds" xs]
      by (cases "dropWhile (\<lambda>c. c \<in> set ds) xs") auto
    let ?e = "p + of_nat (length tok)"
    have e: "skip_token m d p = Some ?e" using skip_token_cstr [OF assms(2) rest] by (simp add: assms(5))
    show ?thesis
    proof (cases "drop (length tok) rest")
      case Nil
      then have "tok = rest" by (metis append.right_neutral append_take_drop_id assms(5) takeWhile_eq_take)
      then show ?thesis using sk e tok assms(3) d rest cstr_end [OF rest] False
        by (auto simp: strtok_r_def)
    next
      case (Cons c tl)
      then have split: "rest = tok @ c # tl" by (metis append_take_drop_id assms(5) takeWhile_eq_take)
      note cut = cstr_cut [OF rest [unfolded split]]
      have "m ?e \<noteq> 0" using cstr_nth [OF rest, of "length tok"] by (simp add: split)
      then show ?thesis using sk e tok assms(3) d False cut by (auto simp: strtok_r_def split)
    qed
  qed
qed

theorem strtok_r_token_witness:
  "\<exists>m. cstr m 0x100 [32, 97, 98, 32, 99] \<and> delim_str m 0x200 [32] \<and>
    (\<exists>m' save'. strtok_r m 0x100 0x200 0 = Some (m', save', 0x101) \<and>
      cstr m' 0x101 [97, 98] \<and> cstr m' save' [99])"
proof -
  let ?m = "(\<lambda>_. 0)(0x100 := 32, 0x101 := 97, 0x102 := 98, 0x103 := 32, 0x104 := 99, 0x200 := 32) :: memory"
  have c: "cstr ?m 0x100 [32, 97, 98, 32, 99]" and d: "delim_str ?m 0x200 [32]"
    by (simp_all add: delim_str_def)
  from strtok_r_token [OF c d _ refl refl refl, of 0] c d show ?thesis
    by (intro exI [of _ ?m]) auto
qed

lemma copied_string:
  assumes c: "cstr m src s" and n: "n \<le> length s"
    and apart: "dst = src \<or> n \<le> unat (dst - src)"
  shows "cstr ((copy_fwd n m dst src)(dst + of_nat n := 0)) dst (take n s)"
proof (rule cstrI)
  have n32: "n < 2 ^ 32" using cstr_length [OF c] n by simp
  fix i assume "i < length (take n s)"
  then have i: "i < n" using n by simp
  have "(of_nat (n - i) :: u32) \<noteq> 0" using i n32 by (intro of_nat_neq_0) auto
  then have "dst + of_nat i \<noteq> dst + of_nat n" using i by (auto simp: of_nat_diff)
  moreover have "unat (of_nat i :: u32) = i" using i n32 by (simp add: unat_of_nat_small)
  ultimately show "((copy_fwd n m dst src)(dst + of_nat n := 0)) (dst + of_nat i) = take n s ! i \<and>
      take n s ! i \<noteq> 0"
    using copy_fwd_apply [of n dst src m "dst + of_nat i"] apart n32 cstr_nth [OF c, of i] i n
    by simp
qed (use n in \<open>simp add: min_def\<close>)

text \<open>C33: \<open>strlcpy\<close> always leaves a null-terminated string: the source, cut to \<open>SIZE - 1\<close>
  bytes. It returns the length of the source and writes nothing outside the \<open>SIZE\<close> bytes of the
  destination.\<close>

theorem strlcpy_correct:
  assumes "cstr m src s" and "dst \<noteq> 0" and "src \<noteq> 0" and "0 < sz"
    and "dst = src \<or> length s \<le> unat (dst - src)"
  shows "\<exists>m'. strlcpy m dst src sz = Some (m', of_nat (length s)) \<and>
    cstr m' dst (take (unat sz - 1) s) \<and> (\<forall>a. unat sz \<le> unat (a - dst) \<longrightarrow> m' a = m a)"
proof -
  let ?n = "min (length s) (unat sz - 1)"
  let ?l = "if (of_nat (length s) :: u32) < sz - 1 then of_nat (length s) else sz - 1"
  have sz: "unat (sz - 1) = unat sz - 1" "0 < unat sz"
    using assms(4) by (simp_all add: unat_minus_one unat_gt_0 word_gt_0)
  have l: "unat ?l = ?n" "?l = of_nat ?n"
    using sz unat_cstr_length [OF assms(1)] by (auto simp: word_less_nat_alt min_def of_nat_diff)
  have n: "?n \<le> length s" and n32: "?n \<le> 2 ^ 32" using cstr_length [OF assms(1)] by simp_all
  have apart: "dst = src \<or> ?n \<le> unat (dst - src)" using assms(5) by auto
  let ?m = "(copy_fwd ?n m dst src)(dst + of_nat ?n := 0)"
  have "strlcpy m dst src sz = Some (?m, of_nat (length s))"
    using assms strlen_cstr [OF assms(1,3)] l unfolding strlcpy_def memcpy_def Let_def by simp
  moreover have "cstr ?m dst (take (unat sz - 1) s)"
    using copied_string [OF assms(1) n apart] by (simp add: min_def split: if_splits)
  moreover have "?m a = m a" if "unat sz \<le> unat (a - dst)" for a
  proof -
    have lt: "?n < unat sz" using sz(2) by linarith
    have un: "unat (of_nat ?n :: u32) = ?n" using l by argo
    have "a \<noteq> dst + of_nat ?n"
    proof
      assume "a = dst + of_nat ?n"
      then have "a - dst = of_nat ?n" by simp
      then show False using that lt un by simp
    qed
    moreover have "\<not> unat (a - dst) < ?n" using that lt by linarith
    ultimately show ?thesis
      using copy_fwd_apply [OF n32 apart, of m a] by (simp only: fun_upd_apply if_False)
  qed
  ultimately show ?thesis by blast
qed

theorem strlcpy_correct_witness:
  "\<exists>m. cstr m 0x100 [97, 98, 99, 100] \<and>
    (\<exists>m'. strlcpy m 0x200 0x100 3 = Some (m', 4) \<and> cstr m' 0x200 [97, 98] \<and> m' 0x203 = m 0x203)"
proof -
  let ?m = "(\<lambda>_. 0)(0x100 := 97, 0x101 := 98, 0x102 := 99, 0x103 := 100) :: memory"
  have c: "cstr ?m 0x100 [97, 98, 99, 100]" by simp
  have t: "take (unat (3 :: u32) - 1) [97, 98, 99, 100 :: u8] = [97, 98]" by (simp add: take_Cons')
  have u: "unat (3 :: u32) \<le> unat ((0x203 :: u32) - 0x200)" by simp
  show ?thesis
    using strlcpy_correct [OF c, where dst = "0x200" and sz = 3] c u unfolding t by (intro exI [of _ ?m]) auto
qed

end
