(* ===== verification/Synch.thy ===== *)
theory Synch
  imports Prelude
begin

text \<open>
  \<open>threads/synch.c\<close>, the part that never sleeps: semaphores and locks as data.
  A thread is named by the address of its \<open>struct thread\<close>, 0 being the null
  pointer; the current thread is an argument of the operations that ask for it.
  The operations that put the caller to sleep are in theory \<open>Sched\<close>, on top of
  the scheduler.

  The other components run inside critical sections. Their models use
  \<open>lock_enter\<close> and \<open>lock_leave\<close>: acquiring a lock that is free does what
  \<open>lock_try_acquire\<close> does; when the lock is taken the caller sleeps, so the
  sequential model has no result there.
\<close>

type_synonym tptr = u32

record semaphore =
  sema_value :: u32
  waiters :: "tptr list"

record lock =
  holder :: tptr
  lock_sema :: semaphore

definition sema_init :: "u32 \<Rightarrow> semaphore" where
  "sema_init v = \<lparr>sema_value = v, waiters = []\<rparr>"

definition sema_try_down :: "semaphore \<Rightarrow> semaphore \<times> bool" where
  "sema_try_down s =
     (if sema_value s > 0 then (s\<lparr>sema_value := sema_value s - 1\<rparr>, True) else (s, False))"

text \<open>
  The data part of \<open>sema_up\<close>: the first waiter, if any, leaves the queue (the
  caller makes it ready to run) and the value goes up.
\<close>

definition sema_up_data :: "semaphore \<Rightarrow> semaphore \<times> tptr option" where
  "sema_up_data s =
     (case waiters s of
        [] \<Rightarrow> (s\<lparr>sema_value := sema_value s + 1\<rparr>, None)
      | t # ts \<Rightarrow> (s\<lparr>waiters := ts, sema_value := sema_value s + 1\<rparr>, Some t))"

definition lock_init :: lock where
  "lock_init = \<lparr>holder = 0, lock_sema = sema_init 1\<rparr>"

definition lock_held_by_current_thread :: "tptr \<Rightarrow> lock \<Rightarrow> bool" where
  "lock_held_by_current_thread cur l \<longleftrightarrow> holder l = cur"

definition lock_try_acquire :: "tptr \<Rightarrow> lock \<Rightarrow> (lock \<times> bool) option" where
  "lock_try_acquire cur l = do {
     ASSERT (\<not> lock_held_by_current_thread cur l);
     let (s, success) = sema_try_down (lock_sema l);
     Some (if success then (l\<lparr>lock_sema := s, holder := cur\<rparr>, True)
           else (l\<lparr>lock_sema := s\<rparr>, False)) }"

definition lock_release_data :: "tptr \<Rightarrow> lock \<Rightarrow> (lock \<times> tptr option) option" where
  "lock_release_data cur l = do {
     ASSERT (lock_held_by_current_thread cur l);
     let (s, woken) = sema_up_data (lock_sema l);
     Some (l\<lparr>holder := 0, lock_sema := s\<rparr>, woken) }"

section \<open>Critical sections of the sequential components\<close>

definition lock_enter :: "tptr \<Rightarrow> lock \<Rightarrow> lock option" where
  "lock_enter cur l = do {
     (l', success) \<leftarrow> lock_try_acquire cur l;
     ASSERT success;
     Some l' }"

definition lock_leave :: "tptr \<Rightarrow> lock \<Rightarrow> lock option" where
  "lock_leave cur l = map_option fst (lock_release_data cur l)"

text \<open>A lock that nobody holds and nobody waits for, as \<open>lock_init\<close> leaves it.\<close>

definition lock_free :: "lock \<Rightarrow> bool" where
  "lock_free l \<longleftrightarrow> l = lock_init"

lemma lock_free_init [simp]: "lock_free lock_init"
  by (simp add: lock_free_def)

lemma lock_enter_free:
  "lock_free l \<Longrightarrow> cur \<noteq> 0 \<Longrightarrow>
   lock_enter cur l = Some \<lparr>holder = cur, lock_sema = sema_init 0\<rparr>"
  by (simp add: lock_enter_def lock_try_acquire_def lock_held_by_current_thread_def lock_free_def
      lock_init_def sema_try_down_def sema_init_def)

lemma lock_leave_held:
  "lock_leave cur \<lparr>holder = cur, lock_sema = sema_init 0\<rparr> = Some lock_init"
  by (simp add: lock_leave_def lock_release_data_def lock_held_by_current_thread_def
      sema_up_data_def sema_init_def lock_init_def)

text \<open>Entering and leaving a critical section leaves the lock as it was.\<close>

lemma lock_enter_leave:
  assumes "lock_free l" and "cur \<noteq> 0"
  shows "\<exists>l'. lock_enter cur l = Some l' \<and> lock_leave cur l' = Some l \<and> holder l' = cur"
  using assms by (auto simp: lock_enter_free lock_leave_held lock_free_def)

lemma lock_enter_taken:
  "sema_value (lock_sema l) = 0 \<Longrightarrow> lock_enter cur l = None"
  by (simp add: lock_enter_def lock_try_acquire_def sema_try_down_def split: bind_splits)

end
