(* ===== verification/Bytes.thy ===== *)
theory Bytes
  imports Cstring
begin

text \<open>
  Little-endian loads and stores of 16- and 32-bit values in the byte memory,
  as the i386 does them for every \<open>uint16_t\<close>, \<open>uint32_t\<close>, \<open>int\<close> or pointer the
  source reads from or writes to raw memory.
\<close>

unbundle bit_operations_syntax

definition load16 :: "memory \<Rightarrow> u32 \<Rightarrow> u16" where
  "load16 m a = ucast (m a) OR push_bit 8 (ucast (m (a + 1)))"

definition load32 :: "memory \<Rightarrow> u32 \<Rightarrow> u32" where
  "load32 m a = ucast (m a) OR push_bit 8 (ucast (m (a + 1))) OR
     push_bit 16 (ucast (m (a + 2))) OR push_bit 24 (ucast (m (a + 3)))"

definition store32 :: "memory \<Rightarrow> u32 \<Rightarrow> u32 \<Rightarrow> memory" where
  "store32 m a v = m(a := ucast v, a + 1 := ucast (drop_bit 8 v),
     a + 2 := ucast (drop_bit 16 v), a + 3 := ucast (drop_bit 24 v))"

fun words_at :: "memory \<Rightarrow> u32 \<Rightarrow> nat \<Rightarrow> u32 list" where
  "words_at m a 0 = []"
| "words_at m a (Suc n) = load32 m a # words_at m (a + 4) n"

lemma length_words_at [simp]: "length (words_at m a n) = n"
  by (induction n arbitrary: a) auto

text \<open>The four bytes of a value put together again.\<close>

lemma bytes_of_word:
  fixes v :: u32
  shows "ucast (ucast v :: u8) OR push_bit 8 (ucast (ucast (drop_bit 8 v) :: u8)) OR
    push_bit 16 (ucast (ucast (drop_bit 16 v) :: u8)) OR
    push_bit 24 (ucast (ucast (drop_bit 24 v) :: u8)) = v"
proof (rule bit_word_eqI)
  fix n assume "n < LENGTH(32)"
  then have n: "n < 32" by simp
  consider "n < 8" | "8 \<le> n" "n < 16" | "16 \<le> n" "n < 24" | "24 \<le> n" by linarith
  then show "bit (ucast (ucast v :: u8) OR push_bit 8 (ucast (ucast (drop_bit 8 v) :: u8)) OR
    push_bit 16 (ucast (ucast (drop_bit 16 v) :: u8)) OR
    push_bit 24 (ucast (ucast (drop_bit 24 v) :: u8)) :: u32) n = bit v n"
    by cases (use n in \<open>auto simp: bit_simps\<close>)
qed

lemma offset_neq:
  "a + 1 \<noteq> (a :: u32)" "a + 2 \<noteq> a" "a + 3 \<noteq> a" "a + 1 \<noteq> a + 2" "a + 1 \<noteq> a + 3" "a + 2 \<noteq> a + 3"
  by simp_all

lemma load32_store32_same [simp]: "load32 (store32 m a v) a = v"
  unfolding load32_def store32_def using offset_neq [of a] bytes_of_word [of v] by simp

text \<open>Two aligned words are the same word or do not overlap.\<close>

definition aligned4 :: "u32 \<Rightarrow> bool" where
  "aligned4 a \<longleftrightarrow> a AND 3 = 0"

lemma store32_outside:
  "b - a \<ge> 4 \<Longrightarrow> store32 m a v b = m b"
  by (auto simp: store32_def word_le_nat_alt)

lemma load32_cong:
  "(\<And>k. k < 4 \<Longrightarrow> m (a + k) = m' (a + k)) \<Longrightarrow> load32 m a = load32 m' a"
proof -
  assume k: "\<And>k. k < 4 \<Longrightarrow> m (a + k) = m' (a + k)"
  from k [of 0] k [of 1] k [of 2] k [of 3] show ?thesis by (simp add: load32_def)
qed

lemma load32_store32_other:
  assumes "b - a \<ge> 4" and "a - b \<ge> 4"
  shows "load32 (store32 m a v) b = load32 m b"
proof (rule load32_cong)
  fix k :: u32 assume k: "k < 4"
  have "b + k - a \<ge> 4"
  proof (rule ccontr)
    assume "\<not> b + k - a \<ge> 4"
    then have j: "b + k - a < 4" by simp
    define j where "j = b + k - a"
    have "a - b = k - j" "b - a = j - k" by (simp_all add: j_def algebra_simps)
    moreover have "k - j < 4 \<or> j - k < 4"
      using k j unfolding j_def [symmetric]
      by (cases "j \<le> k") (auto simp: word_less_nat_alt word_le_nat_alt unat_sub_if')
    ultimately show False using assms by auto
  qed
  then show "store32 m a v (b + k) = m (b + k)" by (rule store32_outside)
qed

lemma aligned4_apart:
  assumes "aligned4 a" and "aligned4 b" and "a \<noteq> b"
  shows "b - a \<ge> 4" and "a - b \<ge> 4"
proof -
  have m: "unat x mod 4 = 0" if "aligned4 x" for x
  proof -
    have "x AND mask 2 = 0" using that by (simp add: aligned4_def mask_eq_exp_minus_1)
    then have "take_bit 2 x = 0" by (simp add: take_bit_eq_mask)
    then have "unat (x mod 4) = 0" by (simp add: take_bit_eq_mod)
    then show ?thesis by (simp add: unat_mod)
  qed
  have "4 \<le> y - x" if "aligned4 x" "aligned4 y" "x \<noteq> y" for x y :: u32
  proof -
    have d: "unat x \<noteq> unat y" using that(3) by (simp add: word_unat_eq_iff)
    have "4 dvd unat x" "4 dvd unat y" using m [OF that(1)] m [OF that(2)] by auto
    then obtain p q where pq: "unat x = 4 * p" "unat y = 4 * q" by (auto simp: dvd_def)
    have "4 \<le> unat (y - x)"
      using d pq u32_lt [of x] u32_lt [of y] by (auto simp: unat_sub_if' simp del: u32_lt)
    then show ?thesis by (simp add: word_le_nat_alt)
  qed
  with assms show "b - a \<ge> 4" "a - b \<ge> 4" by metis+
qed

lemma load32_store32_aligned:
  assumes "aligned4 a" and "aligned4 b"
  shows "load32 (store32 m a v) b = (if b = a then v else load32 m b)"
  using load32_store32_other [OF aligned4_apart [OF assms]] by auto

end
