(* ===== verification/Palloc.thy ===== *)
theory Palloc
  imports Bitmap Vaddr Bytes Synch
begin

text \<open>
  \<open>threads/palloc.c\<close>: the page allocator. Its state is the two pools, the
  allocation policy with the next-fit cursor, and the kernel's memory. The
  pool's bitmap lives in the first pages of the pool in C; here it is a field of
  the pool, outside the pages that are handed out.
\<close>

unbundle bit_operations_syntax

record pool =
  pool_lock :: lock
  used_map :: bitmap
  base :: u32

datatype polloc_policys = FIRSTFIT | NEXTFIT

record kmem =
  kernel_pool :: pool
  user_pool :: pool
  policy :: polloc_policys
  nextfitStart :: u32
  mem :: memory

definition PAL_ASSERT :: u32 where "PAL_ASSERT = 1"
definition PAL_ZERO :: u32 where "PAL_ZERO = 2"
definition PAL_USER :: u32 where "PAL_USER = 4"

definition flag :: "u32 \<Rightarrow> u32 \<Rightarrow> bool" where
  "flag flags f \<longleftrightarrow> flags AND f \<noteq> 0"

definition page_from_pool :: "pool \<Rightarrow> u32 \<Rightarrow> bool" where
  "page_from_pool p page =
     (let page_no = pg_no page;
          start_page = pg_no (base p);
          end_page = start_page + bitmap_size (used_map p)
      in page_no \<ge> start_page \<and> page_no < end_page)"

text \<open>The element array of the new bitmap follows its 8-byte descriptor at \<open>b\<close>.\<close>

definition init_pool :: "memory \<Rightarrow> u32 \<Rightarrow> u32 \<Rightarrow> pool option" where
  "init_pool m b page_cnt = do {
     let bm_pages = DIV_ROUND_UP (bitmap_buf_size page_cnt) PGSIZE;
     ASSERT (\<not> bm_pages > page_cnt);
     let page_cnt = page_cnt - bm_pages;
     bm \<leftarrow> bitmap_create_in_buf page_cnt
            (words_at m (b + 8) (unat ((bm_pages * PGSIZE - 8) div 4))) (bm_pages * PGSIZE);
     Some \<lparr>pool_lock = lock_init, used_map = bm, base = b + bm_pages * PGSIZE\<rparr> }"

text \<open>The policy is a static variable that starts as \<open>NEXTFIT\<close> and is never assigned.\<close>

definition palloc_init_policy :: "polloc_policys \<Rightarrow> memory \<Rightarrow> u32 \<Rightarrow> u32 \<Rightarrow> kmem option" where
  "palloc_init_policy pol m init_ram_pages user_page_limit = do {
     free_start \<leftarrow> ptov (1024 * 1024);
     free_end \<leftarrow> ptov (init_ram_pages * PGSIZE);
     let free_pages = (free_end - free_start) div PGSIZE;
     let user_pages = free_pages div 2;
     let user_pages = (if user_pages > user_page_limit then user_page_limit else user_pages);
     let kernel_pages = free_pages - user_pages;
     kp \<leftarrow> init_pool m free_start kernel_pages;
     up \<leftarrow> init_pool m (free_start + kernel_pages * PGSIZE) user_pages;
     Some \<lparr>kernel_pool = kp, user_pool = up, policy = pol, nextfitStart = 0, mem = m\<rparr> }"

definition palloc_init :: "memory \<Rightarrow> u32 \<Rightarrow> u32 \<Rightarrow> kmem option" where
  "palloc_init = palloc_init_policy NEXTFIT"

definition get_pool :: "u32 \<Rightarrow> kmem \<Rightarrow> pool" where
  "get_pool flags st = (if flag flags PAL_USER then user_pool st else kernel_pool st)"

definition set_pool :: "u32 \<Rightarrow> pool \<Rightarrow> kmem \<Rightarrow> kmem" where
  "set_pool flags p st =
     (if flag flags PAL_USER then st\<lparr>user_pool := p\<rparr> else st\<lparr>kernel_pool := p\<rparr>)"

text \<open>
  The search under the pool's lock: the page index, the new bitmap and the new
  next-fit cursor.
\<close>

definition scan_pool :: "polloc_policys \<Rightarrow> u32 \<Rightarrow> pool \<Rightarrow> u32 \<Rightarrow> (u32 \<times> bitmap \<times> u32) option" where
  "scan_pool pol next p page_cnt =
     (case pol of
        FIRSTFIT \<Rightarrow> do {
          (page_idx, bm) \<leftarrow> bitmap_scan_and_flip (used_map p) 0 page_cnt False;
          Some (page_idx, bm, next) }
      | NEXTFIT \<Rightarrow> do {
          (page_idx, bm) \<leftarrow> bitmap_scan_and_flip (used_map p) next page_cnt False;
          (page_idx, bm) \<leftarrow> (if page_idx = BITMAP_ERROR
                             then bitmap_scan_and_flip bm 0 page_cnt False
                             else Some (page_idx, bm));
          Some (page_idx, bm, base p + PGSIZE * (page_idx + page_cnt)) })"

definition palloc_get_multiple :: "tptr \<Rightarrow> kmem \<Rightarrow> u32 \<Rightarrow> u32 \<Rightarrow> (kmem \<times> u32) option" where
  "palloc_get_multiple cur st flags page_cnt =
     (let p = get_pool flags st in
      if page_cnt = 0 then Some (st, 0) else do {
        l \<leftarrow> lock_enter cur (pool_lock p);
        (page_idx, bm, next) \<leftarrow> scan_pool (policy st) (nextfitStart st) p page_cnt;
        l \<leftarrow> lock_leave cur l;
        let st = set_pool flags (p\<lparr>pool_lock := l, used_map := bm\<rparr>) (st\<lparr>nextfitStart := next\<rparr>);
        let pages = (if page_idx \<noteq> BITMAP_ERROR then base p + PGSIZE * page_idx else 0);
        if pages \<noteq> 0 then
          (if flag flags PAL_ZERO then do {
             (m, _) \<leftarrow> memset (mem st) pages 0 (PGSIZE * page_cnt);
             Some (st\<lparr>mem := m\<rparr>, pages) }
           else Some (st, pages))
        else do {
          ASSERT (\<not> flag flags PAL_ASSERT);
          Some (st, pages) } })"

definition palloc_get_page :: "tptr \<Rightarrow> kmem \<Rightarrow> u32 \<Rightarrow> (kmem \<times> u32) option" where
  "palloc_get_page cur st flags = palloc_get_multiple cur st flags 1"

definition palloc_free_multiple :: "kmem \<Rightarrow> u32 \<Rightarrow> u32 \<Rightarrow> kmem option" where
  "palloc_free_multiple st pages page_cnt = do {
     ASSERT (pg_ofs pages = 0);
     if pages = 0 \<or> page_cnt = 0 then Some st else do {
       flags \<leftarrow> (if page_from_pool (kernel_pool st) pages then Some 0
                 else if page_from_pool (user_pool st) pages then Some PAL_USER
                 else None);
       let p = get_pool flags st;
       let page_idx = pg_no pages - pg_no (base p);
       (m, _) \<leftarrow> memset (mem st) pages 0xcc (PGSIZE * page_cnt);
       used \<leftarrow> bitmap_all (used_map p) page_idx page_cnt;
       ASSERT used;
       bm \<leftarrow> bitmap_set_multiple (used_map p) page_idx page_cnt False;
       Some (set_pool flags (p\<lparr>used_map := bm\<rparr>) (st\<lparr>mem := m\<rparr>)) } }"

definition palloc_free_page :: "kmem \<Rightarrow> u32 \<Rightarrow> kmem option" where
  "palloc_free_page st page = palloc_free_multiple st page 1"

section \<open>Invariant\<close>

text \<open>The pages of a pool lie above \<open>PHYS_BASE\<close> and below the end of the address space.\<close>

definition pool_inv :: "pool \<Rightarrow> bool" where
  "pool_inv p \<longleftrightarrow> bm_inv (used_map p) \<and> lock_free (pool_lock p) \<and> pg_ofs (base p) = 0 \<and>
     PHYS_BASE \<le> base p \<and> unat (base p) + 4096 * unat (bit_cnt (used_map p)) < 2 ^ 32"

definition pool_bytes :: "pool \<Rightarrow> nat set" where
  "pool_bytes p = {unat (base p) ..< unat (base p) + 4096 * unat (bit_cnt (used_map p))}"

definition kmem_inv :: "kmem \<Rightarrow> bool" where
  "kmem_inv st \<longleftrightarrow> pool_inv (kernel_pool st) \<and> pool_inv (user_pool st) \<and>
     pool_bytes (kernel_pool st) \<inter> pool_bytes (user_pool st) = {}"

text \<open>The pages of a pool as an abstract array of \<open>used\<close> flags, and the address of each.\<close>

definition used :: "pool \<Rightarrow> bool list" where
  "used p = bm_abs (used_map p)"

definition page_addr :: "pool \<Rightarrow> nat \<Rightarrow> u32" where
  "page_addr p i = base p + PGSIZE * of_nat i"

section \<open>Addresses of a pool\<close>

lemma unat_PGSIZE [simp]: "unat PGSIZE = 4096"
  by (simp add: PGSIZE_def PGBITS_def)

lemma unat_PHYS_BASE [simp]: "unat PHYS_BASE = 3221225472"
  by (simp add: PHYS_BASE_def)

lemma unat_page_addr:
  assumes "pool_inv p" and "i \<le> unat (bit_cnt (used_map p))"
  shows "unat (page_addr p i) = unat (base p) + 4096 * i"
proof -
  have b: "unat (base p) + 4096 * i < 2 ^ 32" using assms by (auto simp: pool_inv_def)
  then have "unat (of_nat i :: u32) = i" by (simp add: word_nat)
  moreover from this have "unat (PGSIZE * of_nat i :: u32) = 4096 * i"
    using b by (subst unat_mult_small) simp_all
  ultimately show ?thesis unfolding page_addr_def using b by (subst unat_add_small) simp_all
qed

lemma page_addr_props:
  assumes "pool_inv p" and "i \<le> unat (bit_cnt (used_map p))"
  shows "pg_ofs (page_addr p i) = 0" and "PHYS_BASE \<le> page_addr p i" and "page_addr p i \<noteq> 0"
    and "unat (pg_no (page_addr p i)) = unat (pg_no (base p)) + i"
proof -
  note u = unat_page_addr [OF assms]
  have b: "unat (base p) mod 4096 = 0" "3221225472 \<le> unat (base p)"
    using assms(1) by (simp_all add: pool_inv_def unat_pg_ofs [symmetric] word_le_nat_alt)
  show "pg_ofs (page_addr p i) = 0" using b by (simp add: word_unat_eq_iff unat_pg_ofs u)
  show "PHYS_BASE \<le> page_addr p i" using b by (simp add: word_le_nat_alt u)
  then show "page_addr p i \<noteq> 0" by (auto simp: word_le_nat_alt)
  show "unat (pg_no (page_addr p i)) = unat (pg_no (base p)) + i" by (simp add: unat_pg_no u)
qed

lemma pool_end_page:
  assumes "pool_inv p"
  shows "unat (pg_no (base p) + bit_cnt (used_map p)) =
    unat (pg_no (base p)) + unat (bit_cnt (used_map p))"
proof (rule unat_add_small)
  have "unat (base p) div 4096 \<le> unat (base p)" by simp
  moreover have "unat (base p) + 4096 * unat (bit_cnt (used_map p)) < 4294967296"
    using assms by (simp add: pool_inv_def)
  ultimately have "unat (base p) div 4096 + unat (bit_cnt (used_map p)) < 4294967296" by linarith
  then show "unat (pg_no (base p)) + unat (bit_cnt (used_map p)) < 2 ^ LENGTH(32)"
    by (simp add: unat_pg_no)
qed

lemma page_idx_of_addr:
  assumes "pool_inv p" and "i \<le> unat (bit_cnt (used_map p))"
  shows "pg_no (page_addr p i) - pg_no (base p) = of_nat i"
    and "i < unat (bit_cnt (used_map p)) \<Longrightarrow> page_from_pool p (page_addr p i)"
proof -
  note n = page_addr_props(4) [OF assms]
  have "pg_no (base p) + of_nat i = pg_no (page_addr p i)"
    using arg_cong [OF n, of "of_nat :: nat \<Rightarrow> u32"] by simp
  then show "pg_no (page_addr p i) - pg_no (base p) = of_nat i" by (simp add: algebra_simps)
  show "i < unat (bit_cnt (used_map p)) \<Longrightarrow> page_from_pool p (page_addr p i)"
    by (simp add: page_from_pool_def bitmap_size_def word_le_nat_alt word_less_nat_alt n pool_end_page [OF assms(1)])
qed

text \<open>A page address belongs to the pool that \<open>page_from_pool\<close> says, and to one pool only.\<close>

lemma page_from_pool_bytes:
  assumes "pool_inv p" and "pg_ofs a = 0" and "page_from_pool p a"
  shows "unat a \<in> pool_bytes p"
proof -
  have m: "unat a mod 4096 = 0" "unat (base p) mod 4096 = 0"
    using assms(1,2) by (simp_all add: pool_inv_def unat_pg_ofs [symmetric])
  from assms(3) have "unat (base p) div 4096 \<le> unat a div 4096"
    "unat a div 4096 < unat (base p) div 4096 + unat (bit_cnt (used_map p))"
    by (simp_all add: page_from_pool_def bitmap_size_def word_le_nat_alt word_less_nat_alt unat_pg_no
        pool_end_page [OF assms(1)])
  moreover have "unat a = 4096 * (unat a div 4096)" "unat (base p) = 4096 * (unat (base p) div 4096)"
    using m mult_div_mod_eq [of 4096 "unat a"] mult_div_mod_eq [of 4096 "unat (base p)"] by simp_all
  ultimately show ?thesis unfolding pool_bytes_def atLeastLessThan_iff by linarith
qed

section \<open>Allocation\<close>

text \<open>What an allocation of \<open>cnt\<close> pages at index \<open>i\<close> does to the bitmap.\<close>

definition grabbed :: "bitmap \<Rightarrow> nat \<Rightarrow> nat \<Rightarrow> bitmap \<Rightarrow> bool" where
  "grabbed b i cnt b' \<longleftrightarrow> run_at (bm_abs b) cnt False i \<and> bm_inv b' \<and> bit_cnt b' = bit_cnt b \<and>
     bm_abs b' = replace_range i cnt True (bm_abs b) \<and>
     of_nat i \<noteq> BITMAP_ERROR \<and> unat (of_nat i :: u32) = i"

lemma grab_cases:
  assumes "bm_inv b" and "start \<le> bit_cnt b"
  obtains i b' where "bitmap_scan_and_flip b start cnt False = Some (of_nat i, b')"
      "grabbed b i (unat cnt) b'" "unat start \<le> i"
    | "bitmap_scan_and_flip b start cnt False = Some (BITMAP_ERROR, b)"
      "\<forall>i\<ge>unat start. \<not> run_at (bm_abs b) (unat cnt) False i"
proof (cases "first_run (bm_abs b) (unat start) (unat cnt) False")
  case None
  show ?thesis
  proof (rule that(2))
    show "bitmap_scan_and_flip b start cnt False = Some (BITMAP_ERROR, b)"
      using bitmap_scan_and_flip_abs [OF assms, of cnt False] None by simp
    show "\<forall>i\<ge>unat start. \<not> run_at (bm_abs b) (unat cnt) False i"
      using None by (simp add: first_run_None_iff)
  qed
next
  case (Some i)
  then have r: "run_at (bm_abs b) (unat cnt) False i" "unat start \<le> i"
    by (simp_all add: first_run_Some_iff)
  from bitmap_scan_and_flip_abs [OF assms, of cnt False] Some
  obtain b' where s: "bitmap_scan_and_flip b start cnt False = Some (of_nat i, b')"
    and "of_nat i \<noteq> BITMAP_ERROR" "unat (of_nat i :: u32) = i" "bm_inv b'" "bit_cnt b' = bit_cnt b"
    "bm_abs b' = replace_range i (unat cnt) True (bm_abs b)"
    by auto
  then have "grabbed b i (unat cnt) b'" using r(1) by (simp add: grabbed_def)
  from that(1) [OF s this r(2)] show ?thesis .
qed

lemma scan_bad_start:
  assumes "bit_cnt b < start"
  shows "bitmap_scan_and_flip b start cnt v = None"
proof -
  from assms have "\<not> start \<le> bit_cnt b" by simp
  then have "ASSERT (start \<le> bit_cnt b) = None" by (simp add: ASSERT_def)
  then have "bitmap_scan b start cnt v = None" unfolding bitmap_scan_def by (simp only: bind.bind_lzero)
  then show ?thesis unfolding bitmap_scan_and_flip_def by (simp only: bind.bind_lzero)
qed

definition start_ok :: "polloc_policys \<Rightarrow> u32 \<Rightarrow> pool \<Rightarrow> bool" where
  "start_ok pol next p \<longleftrightarrow> pol = FIRSTFIT \<or> next \<le> bit_cnt (used_map p)"

lemma scan_pool_returns:
  assumes "scan_pool pol next p cnt = Some r"
  shows "start_ok pol next p"
proof (rule ccontr)
  assume "\<not> start_ok pol next p"
  then have "pol = NEXTFIT" "bit_cnt (used_map p) < next"
    by (cases pol; simp add: start_ok_def)+
  with assms show False by (simp add: scan_pool_def scan_bad_start)
qed

lemma scan_pool_cases:
  assumes "pool_inv p" and ok: "start_ok pol next p"
  obtains i bm next' where "scan_pool pol next p cnt = Some (of_nat i, bm, next')"
      "grabbed (used_map p) i (unat cnt) bm"
      "next' = (if pol = FIRSTFIT then next else base p + PGSIZE * (of_nat i + cnt))"
    | next' where "scan_pool pol next p cnt = Some (BITMAP_ERROR, used_map p, next')"
      "\<forall>i. \<not> run_at (used p) (unat cnt) False i"
proof -
  have inv: "bm_inv (used_map p)" using assms(1) by (simp add: pool_inv_def)
  have z: "(0 :: u32) \<le> bit_cnt (used_map p)" by simp
  show ?thesis
  proof (cases pol)
    case FIRSTFIT
    show ?thesis
    proof (cases rule: grab_cases [OF inv z, of cnt])
      case (1 i b')
      then show ?thesis using FIRSTFIT by (intro that(1) [of i b' "next"]) (simp_all add: scan_pool_def)
    next
      case 2
      then show ?thesis using FIRSTFIT
        by (intro that(2) [of "next"]) (simp_all add: scan_pool_def used_def)
    qed
  next
    case NEXTFIT
    then have s: "next \<le> bit_cnt (used_map p)" using ok by (simp add: start_ok_def)
    show ?thesis
    proof (cases rule: grab_cases [OF inv s, of cnt])
      case (1 i b')
      then show ?thesis using NEXTFIT
        by (intro that(1) [of i b' "base p + PGSIZE * (of_nat i + cnt)"])
          (simp_all add: scan_pool_def grabbed_def)
    next
      case e: 2
      show ?thesis
      proof (cases rule: grab_cases [OF inv z, of cnt])
        case (1 i b')
        then show ?thesis using NEXTFIT e(1)
          by (intro that(1) [of i b' "base p + PGSIZE * (of_nat i + cnt)"])
            (simp_all add: scan_pool_def)
      next
        case 2
        then show ?thesis using NEXTFIT e(1)
          by (intro that(2) [of "base p + PGSIZE * (BITMAP_ERROR + cnt)"])
            (simp_all add: scan_pool_def used_def)
      qed
    qed
  qed
qed

text \<open>The state after a successful allocation, the zeroing apart.\<close>

definition took :: "u32 \<Rightarrow> kmem \<Rightarrow> nat \<Rightarrow> nat \<Rightarrow> kmem \<Rightarrow> bool" where
  "took flags st i cnt st' \<longleftrightarrow>
     (\<exists>bm. grabbed (used_map (get_pool flags st)) i cnt bm \<and>
        st' = set_pool flags ((get_pool flags st)\<lparr>used_map := bm\<rparr>)
                (st\<lparr>nextfitStart := nextfitStart st', mem := mem st'\<rparr>))"

lemma get_pool_inv: "kmem_inv st \<Longrightarrow> pool_inv (get_pool flags st)"
  by (simp add: kmem_inv_def get_pool_def)

lemma get_set_pool [simp]:
  "get_pool flags (set_pool flags p st) = p"
  "flag flags' PAL_USER \<noteq> flag flags PAL_USER \<Longrightarrow> get_pool flags' (set_pool flags p st) = get_pool flags' st"
  "mem (set_pool flags p st) = mem st" "policy (set_pool flags p st) = policy st"
  "nextfitStart (set_pool flags p st) = nextfitStart st"
  by (auto simp: get_pool_def set_pool_def)

lemma get_pool_upd [simp]:
  "get_pool flags (st\<lparr>nextfitStart := n\<rparr>) = get_pool flags st"
  "get_pool flags (st\<lparr>mem := m\<rparr>) = get_pool flags st"
  by (simp_all add: get_pool_def)

lemma set_pool_upd:
  "(set_pool flags p st)\<lparr>nextfitStart := n\<rparr> = set_pool flags p (st\<lparr>nextfitStart := n\<rparr>)"
  "(set_pool flags p st)\<lparr>mem := m\<rparr> = set_pool flags p (st\<lparr>mem := m\<rparr>)"
  by (simp_all add: set_pool_def)

lemma set_get_pool [simp]: "set_pool flags (get_pool flags st) st = st"
  by (simp add: set_pool_def get_pool_def)

lemma palloc_get_cases:
  fixes st flags
  defines "p \<equiv> get_pool flags st"
  assumes inv: "kmem_inv st" and cur: "cur \<noteq> 0" and cnt: "cnt \<noteq> 0"
    and ok: "start_ok (policy st) (nextfitStart st) p"
  obtains i st' where "palloc_get_multiple cur st flags cnt = Some (st', page_addr p i)"
      "took flags st i (unat cnt) st'"
      "mem st' = (if flag flags PAL_ZERO then fill (unat (PGSIZE * cnt)) (mem st) (page_addr p i) 0
                  else mem st)"
      "nextfitStart st' = (if policy st = FIRSTFIT then nextfitStart st
                           else page_addr p (i + unat cnt))"
    | next' where "palloc_get_multiple cur st flags cnt =
        (if flag flags PAL_ASSERT then None else Some (st\<lparr>nextfitStart := next'\<rparr>, 0))"
      "\<forall>i. \<not> run_at (used p) (unat cnt) False i"
proof -
  have pinv: "pool_inv p" unfolding p_def using inv by (rule get_pool_inv)
  then have lf: "lock_free (pool_lock p)" by (simp add: pool_inv_def)
  have unlocked: "pool_lock p = lock_init" using lf by (simp add: lock_free_def)
  note lk = lock_enter_free [OF lf cur] lock_leave_held [of cur]
  have same: "p\<lparr>pool_lock := lock_init, used_map := bm\<rparr> = p\<lparr>used_map := bm\<rparr>" for bm
    using unlocked by simp
  show ?thesis
  proof (cases rule: scan_pool_cases [OF pinv ok, of cnt])
    case (1 i bm next')
    then have g: "grabbed (used_map p) i (unat cnt) bm" by simp
    then have le: "i \<le> unat (bit_cnt (used_map p))" and e: "of_nat i \<noteq> BITMAP_ERROR"
      by (simp_all add: grabbed_def run_at_def)
    note a = page_addr_props(3) [OF pinv le, unfolded page_addr_def]
    define st1 where "st1 = set_pool flags (p\<lparr>used_map := bm\<rparr>) (st\<lparr>nextfitStart := next'\<rparr>)"
    define st2 where "st2 = (if flag flags PAL_ZERO
      then st1\<lparr>mem := fill (unat (PGSIZE * cnt)) (mem st) (page_addr p i) 0\<rparr> else st1)"
    have t: "took flags st i (unat cnt) st2"
      unfolding took_def p_def [symmetric] by (rule exI [of _ bm]) (use g in \<open>simp add: st2_def st1_def set_pool_upd\<close>)
    have r: "palloc_get_multiple cur st flags cnt = Some (st2, page_addr p i)"
      using 1(1) lk cnt e a
      by (simp add: palloc_get_multiple_def p_def [symmetric] Let_def same memset_def st2_def st1_def
          page_addr_def)
    have "nextfitStart st2 = next'" by (simp add: st2_def st1_def)
    moreover have "base p + PGSIZE * (of_nat i + cnt) = page_addr p (i + unat cnt)"
      by (simp add: page_addr_def)
    ultimately show ?thesis using 1(3)
      by (intro that(1) [OF r t]) (simp_all add: st2_def st1_def)
  next
    case (2 next')
    have "palloc_get_multiple cur st flags cnt =
        (if flag flags PAL_ASSERT then None else Some (st\<lparr>nextfitStart := next'\<rparr>, 0))"
    proof -
      have "set_pool flags p (st\<lparr>nextfitStart := next'\<rparr>) = st\<lparr>nextfitStart := next'\<rparr>"
        using set_get_pool [of flags "st\<lparr>nextfitStart := next'\<rparr>"] by (simp add: p_def)
      moreover have "p\<lparr>pool_lock := lock_init\<rparr> = p" using unlocked by simp
      ultimately show ?thesis
        using 2(1) lk cnt by (simp add: palloc_get_multiple_def p_def [symmetric] Let_def ASSERT_def)
    qed
    then show ?thesis using 2(2) by (rule that(2))
  qed
qed

definition same_shape :: "pool \<Rightarrow> pool \<Rightarrow> bool" where
  "same_shape p p' \<longleftrightarrow> base p' = base p \<and> bit_cnt (used_map p') = bit_cnt (used_map p) \<and>
     pool_lock p' = pool_lock p \<and> bm_inv (used_map p')"

lemma same_shape_inv: "pool_inv p \<Longrightarrow> same_shape p p' \<Longrightarrow> pool_inv p' \<and> pool_bytes p' = pool_bytes p"
  by (simp add: same_shape_def pool_inv_def pool_bytes_def)

lemma kmem_inv_set_pool:
  assumes "kmem_inv st" and "same_shape (get_pool flags st) p"
  shows "kmem_inv (set_pool flags p st)"
  using assms same_shape_inv [of "get_pool flags st" p]
  by (auto simp: kmem_inv_def get_pool_def set_pool_def split: if_splits)

lemma kmem_inv_upd [simp]:
  "kmem_inv (st\<lparr>nextfitStart := n\<rparr>) = kmem_inv st" "kmem_inv (st\<lparr>mem := m\<rparr>) = kmem_inv st"
  by (simp_all add: kmem_inv_def)

lemma took_props:
  assumes "kmem_inv st" and "took flags st i cnt st'"
  shows "kmem_inv st'" and "run_at (used (get_pool flags st)) cnt False i"
    and "used (get_pool flags st') = replace_range i cnt True (used (get_pool flags st))"
    and "base (get_pool flags st') = base (get_pool flags st)"
    and "bit_cnt (used_map (get_pool flags st')) = bit_cnt (used_map (get_pool flags st))"
    and "policy st' = policy st"
    and "flag flags' PAL_USER \<noteq> flag flags PAL_USER \<Longrightarrow> get_pool flags' st' = get_pool flags' st"
proof -
  from assms(2) obtain bm where g: "grabbed (used_map (get_pool flags st)) i cnt bm"
    and st': "st' = set_pool flags ((get_pool flags st)\<lparr>used_map := bm\<rparr>)
      (st\<lparr>nextfitStart := nextfitStart st', mem := mem st'\<rparr>)"
    unfolding took_def by blast
  show "kmem_inv st'" by (subst st', rule kmem_inv_set_pool)
      (use assms(1) g in \<open>simp_all add: same_shape_def grabbed_def\<close>)
  show "run_at (used (get_pool flags st)) cnt False i" using g by (simp add: grabbed_def used_def)
  have p: "get_pool flags st' = (get_pool flags st)\<lparr>used_map := bm\<rparr>" by (subst st') simp
  show "used (get_pool flags st') = replace_range i cnt True (used (get_pool flags st))"
    "base (get_pool flags st') = base (get_pool flags st)"
    "bit_cnt (used_map (get_pool flags st')) = bit_cnt (used_map (get_pool flags st))"
    using g by (simp_all add: p grabbed_def used_def)
  show "policy st' = policy st" by (subst st') simp
  show "flag flags' PAL_USER \<noteq> flag flags PAL_USER \<Longrightarrow> get_pool flags' st' = get_pool flags' st"
    by (subst st') simp
qed

text \<open>The bytes of a run of pages, and that filling them changes nothing else.\<close>

lemma fill_pages:
  assumes "pool_inv p" and "i + unat cnt \<le> unat (bit_cnt (used_map p))"
  shows "fill (unat (PGSIZE * cnt)) m (page_addr p i) v a =
    (if unat a \<in> {unat (page_addr p i)..<unat (page_addr p i) + 4096 * unat cnt} then v else m a)"
proof -
  have i: "i \<le> unat (bit_cnt (used_map p))" using assms(2) by simp
  note u = unat_page_addr [OF assms(1) i]
  have b: "unat (page_addr p i) + 4096 * unat cnt < 2 ^ 32"
    using assms unfolding u by (simp add: pool_inv_def)
  then have "unat (PGSIZE * cnt) = 4096 * unat cnt" by (subst unat_mult_small) simp_all
  moreover have "unat (a - page_addr p i) < 4096 * unat cnt \<longleftrightarrow>
      unat a \<in> {unat (page_addr p i)..<unat (page_addr p i) + 4096 * unat cnt}"
    using b u32_lt [of a] by (auto simp: unat_sub_if' word_le_nat_alt simp del: u32_lt)
  ultimately show ?thesis using b by (simp add: fill_apply)
qed

lemma used_length [simp]: "length (used p) = unat (bit_cnt (used_map p))"
  by (simp add: used_def)


text \<open>A small machine: two pools of four pages, the first page of each in use.\<close>

definition small_pool :: "u32 \<Rightarrow> pool" where
  "small_pool b = \<lparr>pool_lock = lock_init, used_map = \<lparr>bit_cnt = 4, bits = [1]\<rparr>, base = b\<rparr>"

definition small_kmem :: "polloc_policys \<Rightarrow> kmem" where
  "small_kmem pol = \<lparr>kernel_pool = small_pool 0xc0101000, user_pool = small_pool 0xc0201000,
     policy = pol, nextfitStart = 0, mem = (\<lambda>_. 7)\<rparr>"

lemma small_kmem_inv: "kmem_inv (small_kmem pol)"
  by (simp add: kmem_inv_def small_kmem_def small_pool_def pool_inv_def bm_inv_def pool_bytes_def
      PHYS_BASE_def pg_ofs_0_iff)

lemma small_used: "used (get_pool flags (small_kmem pol)) = [True, False, False, False]"
proof -
  have "[0..<4] = [0, 1, 2, 3 :: nat]" by code_simp
  then show ?thesis
    by (simp add: used_def bm_abs_def small_kmem_def small_pool_def get_pool_def)
qed

lemma small_start: "start_ok pol 0 p"
  by (simp add: start_ok_def)


section \<open>Freeing\<close>

lemma free_pool_flags:
  assumes inv: "kmem_inv st" and i: "i < unat (bit_cnt (used_map (get_pool flags st)))"
  shows "(if page_from_pool (kernel_pool st) (page_addr (get_pool flags st) i) then Some 0
      else if page_from_pool (user_pool st) (page_addr (get_pool flags st) i) then Some PAL_USER
      else None) = Some (if flag flags PAL_USER then PAL_USER else 0)"
proof -
  note pinv = get_pool_inv [OF inv, of flags]
  have own: "page_from_pool (get_pool flags st) (page_addr (get_pool flags st) i)"
    using page_idx_of_addr(2) [OF pinv] i by simp
  have ofs: "pg_ofs (page_addr (get_pool flags st) i) = 0"
    using page_addr_props(1) [OF pinv] i by simp
  note b = page_from_pool_bytes [OF _ ofs]
  show ?thesis
  proof (cases "flag flags PAL_USER")
    case True
    then have u: "get_pool flags st = user_pool st" by (simp add: get_pool_def)
    have "\<not> page_from_pool (kernel_pool st) (page_addr (user_pool st) i)"
      using b [of "kernel_pool st"] b [of "user_pool st"] own inv by (auto simp: u kmem_inv_def)
    with True own show ?thesis by (simp add: u)
  next
    case False
    then show ?thesis using own by (simp add: get_pool_def)
  qed
qed

lemma flag_canonical:
  "get_pool (if flag flags PAL_USER then PAL_USER else 0) st = get_pool flags st"
  "set_pool (if flag flags PAL_USER then PAL_USER else 0) p st = set_pool flags p st"
  by (simp_all add: get_pool_def set_pool_def flag_def PAL_USER_def)

lemma palloc_free_eq:
  assumes inv: "kmem_inv st" and i: "i + unat cnt \<le> unat (bit_cnt (used_map (get_pool flags st)))"
    and cnt: "cnt \<noteq> 0"
  shows "palloc_free_multiple st (page_addr (get_pool flags st) i) cnt =
    (if run_at (used (get_pool flags st)) (unat cnt) True i
     then do {
       bm \<leftarrow> bitmap_set_multiple (used_map (get_pool flags st)) (of_nat i) cnt False;
       Some (set_pool flags ((get_pool flags st)\<lparr>used_map := bm\<rparr>)
         (st\<lparr>mem := fill (unat (PGSIZE * cnt)) (mem st) (page_addr (get_pool flags st) i) 0xcc\<rparr>)) }
     else None)"
proof -
  let ?p = "get_pool flags st"
  note pinv = get_pool_inv [OF inv, of flags]
  have bi: "bm_inv (used_map ?p)" using pinv by (simp add: pool_inv_def)
  have c: "0 < unat cnt" using cnt by (simp add: unat_gt_0)
  then have lt: "i < unat (bit_cnt (used_map ?p))" and le: "i \<le> unat (bit_cnt (used_map ?p))"
    using i by simp_all
  have ui: "unat (of_nat i :: u32) = i" by (rule of_nat_index_neq_error(2) [OF bi le])
  have all: "bitmap_all (used_map ?p) (of_nat i) cnt = Some (run_at (used ?p) (unat cnt) True i)"
    using bitmap_all_abs [OF bi, of "of_nat i" cnt] i by (simp add: in_range_def ui used_def)
  show ?thesis
    using page_addr_props(1,3) [OF pinv le] cnt all page_idx_of_addr(1) [OF pinv le]
    by (simp add: palloc_free_multiple_def free_pool_flags [OF inv lt] flag_canonical Let_def
        memset_def ASSERT_def del: PGSIZE_val split: if_split)
qed

lemma palloc_free_run:
  assumes "kmem_inv st" and "cnt \<noteq> 0"
    and "i + unat cnt \<le> unat (bit_cnt (used_map (get_pool flags st)))"
    and True: "run_at (used (get_pool flags st)) (unat cnt) True i"
  shows "\<exists>st'. palloc_free_multiple st (page_addr (get_pool flags st) i) cnt = Some st' \<and> kmem_inv st' \<and>
      used (get_pool flags st') = replace_range i (unat cnt) False (used (get_pool flags st)) \<and>
      (\<forall>f. flag f PAL_USER \<noteq> flag flags PAL_USER \<longrightarrow> get_pool f st' = get_pool f st) \<and>
      (\<forall>a. mem st' a = (if unat a \<in> {unat (page_addr (get_pool flags st) i)..<
                               unat (page_addr (get_pool flags st) i) + 4096 * unat cnt}
                        then 0xcc else mem st a))"
proof -
  let ?p = "get_pool flags st"
  note pinv = get_pool_inv [OF assms(1), of flags]
  have bi: "bm_inv (used_map ?p)" using pinv by (simp add: pool_inv_def)
  have "i \<le> unat (bit_cnt (used_map ?p))" using assms(3) by simp
  from of_nat_index_neq_error(2) [OF bi this] have ui: "unat (of_nat i :: u32) = i" .
  obtain bm where bm: "bitmap_set_multiple (used_map ?p) (of_nat i) cnt False = Some bm"
    "bm_inv bm" "bit_cnt bm = bit_cnt (used_map ?p)"
    "bm_abs bm = replace_range i (unat cnt) False (used ?p)"
    using bitmap_set_multiple_abs [OF bi, of "of_nat i" cnt False] assms(3)
    by (auto simp: in_range_def ui used_def)
  define st' where "st' = set_pool flags (?p\<lparr>used_map := bm\<rparr>)
    (st\<lparr>mem := fill (unat (PGSIZE * cnt)) (mem st) (page_addr ?p i) 0xcc\<rparr>)"
  have "palloc_free_multiple st (page_addr ?p i) cnt = Some st'"
    using palloc_free_eq [OF assms(1,3,2)] True bm(1) by (simp add: st'_def del: PGSIZE_val)
  moreover have "kmem_inv st'" unfolding st'_def
    by (rule kmem_inv_set_pool) (use assms(1) bm in \<open>simp_all add: same_shape_def\<close>)
  moreover have "mem st' a = (if unat a \<in> {unat (page_addr ?p i)..<
      unat (page_addr ?p i) + 4096 * unat cnt} then 0xcc else mem st a)" for a
  proof -
    have "mem st' a = fill (unat (PGSIZE * cnt)) (mem st) (page_addr ?p i) 0xcc a"
      by (simp add: st'_def del: PGSIZE_val)
    then show ?thesis by (simp only: fill_pages [OF pinv assms(3)])
  qed
  ultimately show ?thesis using True bm(4) by (simp add: st'_def used_def)
qed

text \<open>C18: Freeing a run of pages of a pool. If all of them are in use they become free, they are filled
  with \<open>0xcc\<close>, no other byte and no other page changes and the invariant holds again; if one of
  them is not in use (a double free, say) the kernel panics.\<close>

theorem palloc_free_multiple_correct:
  assumes "kmem_inv st" and "cnt \<noteq> 0"
    and "i + unat cnt \<le> unat (bit_cnt (used_map (get_pool flags st)))"
  shows "if run_at (used (get_pool flags st)) (unat cnt) True i
    then \<exists>st'. palloc_free_multiple st (page_addr (get_pool flags st) i) cnt = Some st' \<and> kmem_inv st' \<and>
      used (get_pool flags st') = replace_range i (unat cnt) False (used (get_pool flags st)) \<and>
      (\<forall>f. flag f PAL_USER \<noteq> flag flags PAL_USER \<longrightarrow> get_pool f st' = get_pool f st) \<and>
      (\<forall>a. mem st' a = (if unat a \<in> {unat (page_addr (get_pool flags st) i)..<
                               unat (page_addr (get_pool flags st) i) + 4096 * unat cnt}
                        then 0xcc else mem st a))
    else palloc_free_multiple st (page_addr (get_pool flags st) i) cnt = None"
  using palloc_free_run [OF assms] palloc_free_eq [OF assms(1,3,2)] by auto

theorem palloc_free_multiple_correct_witness:
  "palloc_free_multiple (small_kmem NEXTFIT) (page_addr (get_pool 0 (small_kmem NEXTFIT)) 0) 2 = None \<and>
   (\<exists>st'. palloc_free_multiple (small_kmem NEXTFIT) (page_addr (get_pool 0 (small_kmem NEXTFIT)) 0) 1 = Some st' \<and>
      used (get_pool 0 st') = replace_range 0 1 False [True, False, False, False])"
proof -
  have b: "bit_cnt (used_map (get_pool 0 (small_kmem NEXTFIT))) = 4"
    by (simp add: get_pool_def small_kmem_def small_pool_def)
  have "\<not> run_at [True, False, False, False] 2 True 0" "run_at [True, False, False, False] 1 True 0"
    by (auto simp: run_at_def intro: exI [of _ 1])
  then show ?thesis
    using palloc_free_multiple_correct [OF small_kmem_inv, of 2 0 0 NEXTFIT]
      palloc_free_multiple_correct [OF small_kmem_inv, of 1 0 0 NEXTFIT]
    unfolding b small_used by auto
qed

section \<open>Allocation followed by freeing\<close>

lemma palloc_get_some:
  assumes "kmem_inv st" and "cur \<noteq> 0" and "cnt \<noteq> 0"
    and r: "palloc_get_multiple cur st flags cnt = Some (st', a)" and a: "a \<noteq> 0"
  obtains i where "a = page_addr (get_pool flags st) i" "took flags st i (unat cnt) st'"
    "mem st' = (if flag flags PAL_ZERO then fill (unat (PGSIZE * cnt)) (mem st) a 0 else mem st)"
    "nextfitStart st' = (if policy st = FIRSTFIT then nextfitStart st
                         else page_addr (get_pool flags st) (i + unat cnt))"
proof -
  have ok: "start_ok (policy st) (nextfitStart st) (get_pool flags st)"
  proof -
    from r assms(3) obtain x where "scan_pool (policy st) (nextfitStart st) (get_pool flags st) cnt = Some x"
      by (auto simp: palloc_get_multiple_def Let_def split: bind_splits)
    then show ?thesis by (rule scan_pool_returns)
  qed
  show ?thesis
  proof (cases rule: palloc_get_cases [OF assms(1-3) ok])
    case (1 i st1)
    then show ?thesis using r by (intro that [of i]) simp_all
  next
    case (2 next')
    then show ?thesis using r a by (simp split: if_splits)
  qed
qed

text \<open>C16: Freeing the pages an allocation returned succeeds and gives both pools back as they were.\<close>

theorem palloc_get_free_restores:
  assumes "kmem_inv st" and "cur \<noteq> 0" and "cnt \<noteq> 0"
    and "palloc_get_multiple cur st flags cnt = Some (st', a)" and "a \<noteq> 0"
  shows "\<exists>st''. palloc_free_multiple st' a cnt = Some st'' \<and> kmem_inv st'' \<and>
    used (kernel_pool st'') = used (kernel_pool st) \<and> used (user_pool st'') = used (user_pool st)"
proof -
  obtain i where i: "a = page_addr (get_pool flags st) i" "took flags st i (unat cnt) st'"
    by (rule palloc_get_some [OF assms])
  note t = took_props [OF assms(1) i(2)]
  let ?p = "get_pool flags st" and ?p' = "get_pool flags st'"
  have a: "a = page_addr ?p' i" using i(1) t(4) by (simp add: page_addr_def)
  have le: "i + unat cnt \<le> length (used ?p)" using t(2) by (simp add: run_at_def)
  then have le': "i + unat cnt \<le> unat (bit_cnt (used_map ?p'))" by (simp add: t(5))
  have run: "run_at (used ?p') (unat cnt) True i" using run_at_replace_range [OF le] by (simp add: t(3))
  from palloc_free_run [OF t(1) assms(3) le' run] obtain st'' where
    free: "palloc_free_multiple st' a cnt = Some st''" and inv: "kmem_inv st''" and
    u: "used (get_pool flags st'') = replace_range i (unat cnt) False (used ?p')" and
    o: "\<forall>f. flag f PAL_USER \<noteq> flag flags PAL_USER \<longrightarrow> get_pool f st'' = get_pool f st'"
    unfolding a by blast
  have "replace_range i (unat cnt) False (replace_range i (unat cnt) True (used ?p)) = used ?p"
    by (rule replace_range_undo) (use run_at_nth [OF t(2)] in simp)
  then have own: "used (get_pool flags st'') = used ?p" by (simp add: u t(3))
  have other: "get_pool f st'' = get_pool f st" if "flag f PAL_USER \<noteq> flag flags PAL_USER" for f
    using t(7) [OF that] o that by simp
  have fl: "flag PAL_USER PAL_USER" "\<not> flag 0 PAL_USER" by (simp_all add: flag_def PAL_USER_def)
  have "used (kernel_pool st'') = used (kernel_pool st) \<and> used (user_pool st'') = used (user_pool st)"
    using own other [of 0] other [of PAL_USER] fl by (cases "flag flags PAL_USER") (simp_all add: get_pool_def)
  with free inv show ?thesis by blast
qed

lemma small_get:
  assumes "cnt = 1 \<or> cnt = 2"
  shows "\<exists>st' a. palloc_get_multiple 0xc0100000 (small_kmem pol) 0 cnt = Some (st', a) \<and> a \<noteq> 0"
proof -
  have ok: "start_ok (policy (small_kmem pol)) (nextfitStart (small_kmem pol)) (get_pool 0 (small_kmem pol))"
    by (simp add: start_ok_def small_kmem_def)
  have c: "cnt \<noteq> 0" and u: "unat cnt \<le> 2" using assms by auto
  have r: "run_at (used (get_pool 0 (small_kmem pol))) (unat cnt) False 1"
    using assms by (auto simp: small_used run_at_def less_2_cases_iff)
  note pinv = get_pool_inv [OF small_kmem_inv [of pol], of 0]
  have cur: "(0xc0100000 :: u32) \<noteq> 0" by simp
  show ?thesis
  proof (cases rule: palloc_get_cases [OF small_kmem_inv cur c ok])
    case (1 i st')
    have "i \<le> unat (bit_cnt (used_map (get_pool 0 (small_kmem pol))))"
      using took_props(2) [OF small_kmem_inv 1(2)] by (simp add: run_at_def)
    from page_addr_props(3) [OF pinv this] 1(1) show ?thesis by blast
  next
    case (2 next')
    with r show ?thesis by blast
  qed
qed

theorem palloc_get_free_restores_witness:
  "\<exists>st' a st''. palloc_get_multiple 0xc0100000 (small_kmem FIRSTFIT) 0 2 = Some (st', a) \<and>
     palloc_free_multiple st' a 2 = Some st'' \<and>
     used (kernel_pool st'') = used (kernel_pool (small_kmem FIRSTFIT))"
proof -
  obtain st' a where g: "palloc_get_multiple 0xc0100000 (small_kmem FIRSTFIT) 0 2 = Some (st', a)" "a \<noteq> 0"
    using small_get [of 2] by blast
  from palloc_get_free_restores [OF small_kmem_inv _ _ this] g show ?thesis by auto
qed

section \<open>The next-fit cursor\<close>

text \<open>C35: With the policy the kernel is compiled with, the allocator works once: after the first
  successful allocation the next-fit cursor holds the address of a page instead of a page index, so
  that any further allocation, from either pool, fails an assertion of \<open>bitmap_scan\<close> and the
  kernel panics.\<close>

theorem nextfit_second_allocation_panics:
  assumes "kmem_inv st" and "cur \<noteq> 0" and "cnt \<noteq> 0" and "policy st = NEXTFIT"
    and "palloc_get_multiple cur st flags cnt = Some (st', a)" and "a \<noteq> 0" and "cnt' \<noteq> 0"
  shows "palloc_get_multiple cur' st' flags' cnt' = None"
proof (rule ccontr)
  assume "palloc_get_multiple cur' st' flags' cnt' \<noteq> None"
  then obtain r where "scan_pool (policy st') (nextfitStart st') (get_pool flags' st') cnt' = Some r"
    using assms(7) by (auto simp: palloc_get_multiple_def Let_def split: bind_splits)
  then have ok: "start_ok (policy st') (nextfitStart st') (get_pool flags' st')"
    by (rule scan_pool_returns)
  obtain i where i: "took flags st i (unat cnt) st'"
    "nextfitStart st' = page_addr (get_pool flags st) (i + unat cnt)"
    by (rule palloc_get_some [OF assms(1-3,5,6)]) (use assms(4) in simp)
  note t = took_props [OF assms(1) i(1)]
  have "i + unat cnt \<le> unat (bit_cnt (used_map (get_pool flags st)))"
    using t(2) by (simp add: run_at_def)
  from page_addr_props(2) [OF get_pool_inv [OF assms(1)] this]
  have "3221225472 \<le> unat (nextfitStart st')" by (simp add: i(2) word_le_nat_alt)
  moreover have "unat (bit_cnt (used_map (get_pool flags' st'))) < 3221225472"
    using get_pool_inv [OF t(1), of flags'] by (simp add: pool_inv_def word_le_nat_alt)
  ultimately show False using ok assms(4) t(6) by (simp add: start_ok_def word_le_nat_alt)
qed

theorem nextfit_second_allocation_panics_witness:
  "\<exists>st' a. palloc_get_multiple 0xc0100000 (small_kmem NEXTFIT) 0 1 = Some (st', a) \<and>
     palloc_get_multiple 0xc0100000 st' PAL_USER 1 = None"
proof -
  obtain st' a where g: "palloc_get_multiple 0xc0100000 (small_kmem NEXTFIT) 0 1 = Some (st', a)" "a \<noteq> 0"
    using small_get [of 1] by blast
  have "policy (small_kmem NEXTFIT) = NEXTFIT" by (simp add: small_kmem_def)
  from nextfit_second_allocation_panics [OF small_kmem_inv _ _ this g, of 1] g show ?thesis by auto
qed

section \<open>Initialization\<close>

lemma init_pool_spec:
  assumes n: "1 \<le> unat n" "unat n \<le> 262144" and top: "unat b + 4096 * unat n < 2 ^ 32"
    and b: "pg_ofs b = 0" "PHYS_BASE \<le> b"
  shows "\<exists>p. init_pool m b n = Some p \<and> pool_inv p \<and> (\<forall>i<length (used p). \<not> used p ! i) \<and>
    pool_bytes p \<subseteq> {unat b..<unat b + 4096 * unat n}"
proof -
  define e where "e k = (k + 31) div (32 :: nat)" for k
  define q where "q = (8 + 4 * e (unat n) + 4095) div 4096"
  define bp where "bp = DIV_ROUND_UP (bitmap_buf_size n) PGSIZE"
  have en: "e (unat n) \<le> 8192" using n by (simp add: e_def)
  have size: "unat (bitmap_buf_size k) = 8 + 4 * e (unat k)" if "unat k \<le> 262144" for k
  proof -
    have ek: "unat (elem_cnt k) = e (unat k)" using unat_elem_cnt [of k] that by (simp add: e_def)
    have "e (unat k) \<le> 8192" using that by (simp add: e_def)
    then have "unat (byte_cnt k) = 4 * e (unat k)" unfolding byte_cnt_def
      by (subst unat_mult_small) (simp_all add: ek)
    then show ?thesis using \<open>e (unat k) \<le> 8192\<close> unfolding bitmap_buf_size_def
      by (subst unat_add_small) simp_all
  qed
  have bp: "unat bp = q"
  proof -
    have "unat (4095 + bitmap_buf_size n) = 8 + 4 * e (unat n) + 4095"
      using en by (subst unat_add_small) (simp_all add: size [OF n(2)])
    then show ?thesis by (simp add: bp_def DIV_ROUND_UP_def word_nat q_def)
  qed
  have q1: "8 + 4 * e (unat n) \<le> 4096 * q" "4096 * q < 8 + 4 * e (unat n) + 4096"
    unfolding q_def by linarith+
  have qn: "q \<le> unat n"
  proof (cases "unat n \<le> 32")
    case True
    then have "e (unat n) = 1" using n(1) by (simp add: e_def)
    then show ?thesis using n(1) by (simp add: q_def)
  next
    case False
    have "q \<le> 9" using q1(2) en by linarith
    with False show ?thesis by simp
  qed
  have sub: "unat (n - bp) = unat n - q" using qn by (subst unat_sub) (simp_all add: word_le_nat_alt bp)
  have area: "unat (bp * PGSIZE) = 4096 * q" using qn n(2) by (subst unat_mult_small) (simp_all add: bp)
  have mono: "e (unat n - q) \<le> e (unat n)" by (simp add: e_def div_le_mono)
  have u: "unat (n - bp) + 31 < 2 ^ 32" using n(2) by (simp add: sub)
  have blk: "unat (elem_cnt (n - bp)) \<le> length (words_at m (b + 8) (unat ((bp * PGSIZE - 8) div 4)))"
  proof -
    have "unat (bp * PGSIZE - 8) = 4096 * q - 8" using q1(1)
      by (subst unat_sub) (simp_all add: word_le_nat_alt area del: PGSIZE_val)
    moreover have "e (unat n - q) \<le> (4096 * q - 8) div 4" using q1(1) mono by linarith
    ultimately show ?thesis using unat_elem_cnt [OF u]
      by (simp add: sub e_def word_nat del: PGSIZE_val)
  qed
  have bs: "bitmap_buf_size (n - bp) \<le> bp * PGSIZE"
    using size [of "n - bp"] n(2) q1(1) mono by (simp add: word_le_nat_alt sub area del: PGSIZE_val)
  obtain bm where bm: "bitmap_create_in_buf (n - bp) (words_at m (b + 8) (unat ((bp * PGSIZE - 8) div 4)))
      (bp * PGSIZE) = Some bm" "bm_inv bm" "bit_cnt bm = n - bp"
      "bm_abs bm = replicate (unat (n - bp)) False"
    using bitmap_create_in_buf_abs [OF u blk bs] by blast
  define p where "p = \<lparr>pool_lock = lock_init, used_map = bm, base = b + bp * PGSIZE\<rparr>"
  have "\<not> n < bp" using qn by (simp add: word_less_nat_alt bp)
  then have "init_pool m b n = Some p"
    using bm(1) by (simp add: init_pool_def bp_def [symmetric] Let_def p_def ASSERT_def del: PGSIZE_val)
  moreover have ub: "unat (base p) = unat b + 4096 * q"
    using top qn unfolding p_def by (simp del: PGSIZE_val, subst unat_add_small) (simp_all add: area del: PGSIZE_val)
  moreover have "pool_inv p"
    using bm(2,3) b top qn
    by (simp add: pool_inv_def ub word_le_nat_alt word_unat_eq_iff unat_pg_ofs sub)
      (simp add: p_def sub)
  moreover have "pool_bytes p \<subseteq> {unat b..<unat b + 4096 * unat n}"
  proof -
    have "4096 * q + 4096 * (unat n - q) = 4096 * unat n" using qn by (simp add: algebra_simps)
    moreover have "bit_cnt (used_map p) = n - bp" by (simp add: p_def bm(3))
    ultimately show ?thesis by (simp add: pool_bytes_def ub sub)
  qed
  moreover have "\<forall>i<length (used p). \<not> used p ! i" by (simp add: used_def p_def bm(4) bm(3))
  ultimately show ?thesis by blast
qed

text \<open>C17: On a machine with between 258 pages and just under 1 GB of memory, and at least one page
  allowed for the user pool, the allocator starts in a state that satisfies its invariant: the pools
  are disjoint and lie between 1 MB and the end of memory, and every page is free.\<close>

theorem palloc_init_correct:
  assumes "258 \<le> unat ram" and "unat ram < 262144" and "1 \<le> unat limit"
  shows "\<exists>st. palloc_init m ram limit = Some st \<and> kmem_inv st \<and> policy st = NEXTFIT \<and>
    nextfitStart st = 0 \<and>
    (\<forall>b \<in> set (used (kernel_pool st)) \<union> set (used (user_pool st)). \<not> b) \<and>
    pool_bytes (kernel_pool st) \<union> pool_bytes (user_pool st) \<subseteq>
      {3221225472 + 1048576..<3221225472 + 4096 * unat ram}"
proof -
  have z: "ptov 1048576 = Some 0xc0100000" by (simp add: ptov_def PHYS_BASE_def ASSERT_def)
  have r: "unat (ram * PGSIZE) = 4096 * unat ram" using assms(2) by (subst unat_mult_small) simp_all
  define fe where "fe = ram * PGSIZE + PHYS_BASE"
  have fe: "unat fe = 3221225472 + 4096 * unat ram"
    using assms(2) unfolding fe_def by (subst unat_add_small) (simp_all add: r del: PGSIZE_val)
  have pe: "ptov (ram * PGSIZE) = Some fe"
    using assms(2) r by (simp add: ptov_def ASSERT_def fe_def word_less_nat_alt del: PGSIZE_val)
  define fp where "fp = (fe - 0xc0100000) div PGSIZE"
  have fp: "unat fp = unat ram - 256"
  proof -
    have "unat (fe - 0xc0100000) = 4096 * unat ram - 1048576"
      using assms(1) by (subst unat_sub) (simp_all add: word_le_nat_alt fe)
    moreover have "4096 * unat ram - 1048576 = 4096 * (unat ram - 256)" by simp
    ultimately have "unat (fe - 0xc0100000) = 4096 * (unat ram - 256)" by (simp only:)
    then show ?thesis by (simp add: fp_def word_nat)
  qed
  define up where "up = (if fp div 2 > limit then limit else fp div 2)"
  have upb: "1 \<le> unat up" "2 * unat up \<le> unat fp"
    using assms(1,3) by (auto simp: up_def word_nat word_less_nat_alt fp)
  define kp where "kp = fp - up"
  have kp: "unat kp = unat fp - unat up"
    unfolding kp_def by (rule unat_sub) (use upb in \<open>simp add: word_le_nat_alt\<close>)
  define ub where "ub = 0xc0100000 + kp * PGSIZE"
  have kb: "unat (kp * PGSIZE) = 4096 * unat kp"
    using assms(2) by (subst unat_mult_small) (simp_all add: kp fp)
  have ub: "unat ub = 3222274048 + 4096 * unat kp" unfolding ub_def
    using assms(2) by (subst unat_add_small) (simp_all add: kb kp fp del: PGSIZE_val)
  have sum: "unat kp + unat up = unat ram - 256" using upb by (simp add: kp fp)
  have kpl: "unat kp < 261888" "unat up < 261888" using sum assms(2) upb(1) by linarith+
  have "1 \<le> unat kp" using upb kp by simp
  then obtain p1 where p1: "init_pool m 0xc0100000 kp = Some p1" "pool_inv p1"
    "\<forall>i<length (used p1). \<not> used p1 ! i"
    "pool_bytes p1 \<subseteq> {3222274048..<3222274048 + 4096 * unat kp}"
    using init_pool_spec [of kp "0xc0100000" m] kpl
    by (auto simp: pg_ofs_0_iff PHYS_BASE_def)
  have "pg_ofs ub = 0" by (simp add: word_unat_eq_iff unat_pg_ofs ub mod_simps)
  moreover have tot: "3222274048 + 4096 * unat kp + 4096 * unat up < 4294967296"
    using sum assms(2) by linarith
  moreover have "PHYS_BASE \<le> ub" by (simp add: word_le_nat_alt ub)
  ultimately obtain p2 where p2: "init_pool m ub up = Some p2" "pool_inv p2"
    "\<forall>i<length (used p2). \<not> used p2 ! i"
    "pool_bytes p2 \<subseteq> {unat ub..<unat ub + 4096 * unat up}"
    using init_pool_spec [of up ub m] kpl(2) tot upb(1) by (auto simp: ub)
  define st where "st = \<lparr>kernel_pool = p1, user_pool = p2, policy = NEXTFIT, nextfitStart = 0, mem = m\<rparr>"
  have "palloc_init m ram limit = Some st"
    using p1(1) p2(1)
    by (auto simp: palloc_init_def palloc_init_policy_def z pe fp_def [symmetric] up_def kp_def ub_def
        Let_def st_def simp del: PGSIZE_val split: if_splits)
  moreover have "pool_bytes p1 \<inter> pool_bytes p2 = {}" using p1(4) p2(4) by (force simp: ub)
  then have "kmem_inv st" using p1(2) p2(2) by (simp add: kmem_inv_def st_def)
  moreover have "pool_bytes p1 \<union> pool_bytes p2 \<subseteq> {3222274048..<3221225472 + 4096 * unat ram}"
    using p1(4) p2(4) sum assms(1) unfolding ub by fastforce
  ultimately show ?thesis using p1(3) p2(3) by (auto simp: st_def in_set_conv_nth)
qed

theorem palloc_init_correct_witness:
  "\<exists>st. palloc_init (\<lambda>_. 0) 1024 1024 = Some st \<and> kmem_inv st"
  using palloc_init_correct [of 1024 1024 "\<lambda>_. 0"] by auto

section \<open>The interface: pages that are live\<close>

text \<open>
  What the rest of the kernel relies on: a page that is handed out was not live
  before, pages stay live until they are freed, and freeing one page leaves the
  others alone.
\<close>

definition live :: "kmem \<Rightarrow> u32 \<Rightarrow> bool" where
  "live st a \<longleftrightarrow> (\<exists>p \<in> {kernel_pool st, user_pool st}. \<exists>i < length (used p). a = page_addr p i \<and> used p ! i)"

locale page_allocator =
  fixes inv :: "'m \<Rightarrow> bool"
    and alive :: "'m \<Rightarrow> u32 \<Rightarrow> bool"
    and get :: "tptr \<Rightarrow> 'm \<Rightarrow> u32 \<Rightarrow> ('m \<times> u32) option"
    and free :: "'m \<Rightarrow> u32 \<Rightarrow> 'm option"
  assumes get_inv: "inv m \<Longrightarrow> cur \<noteq> 0 \<Longrightarrow> get cur m flags = Some (m', a) \<Longrightarrow> inv m'"
    and get_keeps: "inv m \<Longrightarrow> cur \<noteq> 0 \<Longrightarrow> get cur m flags = Some (m', a) \<Longrightarrow> alive m b \<Longrightarrow> alive m' b"
    and get_fresh: "inv m \<Longrightarrow> cur \<noteq> 0 \<Longrightarrow> get cur m flags = Some (m', a) \<Longrightarrow> a \<noteq> 0 \<Longrightarrow>
      \<not> alive m a \<and> alive m' a"
    and free_inv: "inv m \<Longrightarrow> alive m a \<Longrightarrow> free m a = Some m' \<Longrightarrow> inv m'"
    and free_keeps: "inv m \<Longrightarrow> alive m a \<Longrightarrow> free m a = Some m' \<Longrightarrow> b \<noteq> a \<Longrightarrow> alive m b \<Longrightarrow> alive m' b"
    and free_dead: "inv m \<Longrightarrow> alive m a \<Longrightarrow> free m a = Some m' \<Longrightarrow> \<not> alive m' a"
begin

text \<open>A client that owns a set of pages: a new page is disjoint from them, and they survive.\<close>

lemma own_get:
  assumes "inv m" and "cur \<noteq> 0" and "get cur m flags = Some (m', a)" and "a \<noteq> 0" and "\<forall>x\<in>S. alive m x"
  shows "a \<notin> S" and "\<forall>x\<in>insert a S. alive m' x" and "inv m'"
  using get_inv [OF assms(1-3)] get_keeps [OF assms(1-3)] get_fresh [OF assms(1-4)] assms(5) by auto

lemma own_free:
  assumes "inv m" and "a \<in> S" and "free m a = Some m'" and "\<forall>x\<in>S. alive m x"
  shows "\<forall>x\<in>S - {a}. alive m' x" and "inv m'"
  using free_inv [OF assms(1) _ assms(3)] free_keeps [OF assms(1) _ assms(3)] assms(2,4) by auto

text \<open>Two pages obtained one after the other are different.\<close>

lemma get_get_distinct:
  assumes "inv m" and "cur \<noteq> 0" and "get cur m f1 = Some (m1, a)" and "get cur m1 f2 = Some (m2, b)"
    and "a \<noteq> 0" and "b \<noteq> 0"
  shows "a \<noteq> b"
  using get_fresh [OF assms(1-3,5)] get_fresh [OF get_inv [OF assms(1-3)] assms(2,4,6)] by auto

end

lemma live_iff:
  "live st a \<longleftrightarrow> (\<exists>f. \<exists>i < length (used (get_pool f st)). a = page_addr (get_pool f st) i \<and> used (get_pool f st) ! i)"
proof -
  have "{kernel_pool st, user_pool st} = range (\<lambda>f. get_pool f st)"
  proof (intro equalityI subsetI)
    fix p assume "p \<in> {kernel_pool st, user_pool st}"
    moreover have "get_pool 0 st = kernel_pool st" "get_pool PAL_USER st = user_pool st"
      by (simp_all add: get_pool_def flag_def PAL_USER_def)
    ultimately show "p \<in> range (\<lambda>f. get_pool f st)" by (auto intro: range_eqI sym)
  qed (auto simp: get_pool_def)
  then show ?thesis unfolding live_def by simp
qed

lemma page_addr_bytes:
  assumes "pool_inv p" and "i < length (used p)"
  shows "unat (page_addr p i) \<in> pool_bytes p"
  using unat_page_addr [OF assms(1), of i] assms(2) by (simp add: pool_bytes_def)

text \<open>An address determines the pool and the index of its page.\<close>

lemma page_addr_inj:
  assumes "kmem_inv st" and "i < length (used (get_pool f st))" and "j < length (used (get_pool g st))"
    and "page_addr (get_pool f st) i = page_addr (get_pool g st) j"
  shows "get_pool f st = get_pool g st" and "i = j"
proof -
  note p = get_pool_inv [OF assms(1)]
  have b: "unat (page_addr (get_pool f st) i) \<in> pool_bytes (get_pool f st)"
    "unat (page_addr (get_pool g st) j) \<in> pool_bytes (get_pool g st)"
    using page_addr_bytes [OF p assms(2)] page_addr_bytes [OF p assms(3)] by simp_all
  then have "pool_bytes (get_pool f st) \<inter> pool_bytes (get_pool g st) \<noteq> {}" using assms(4) by auto
  then show e: "get_pool f st = get_pool g st"
    using assms(1) by (auto simp: kmem_inv_def get_pool_def Int_commute split: if_splits)
  have "unat (page_addr (get_pool f st) i) = unat (page_addr (get_pool g st) j)" using assms(4) by simp
  then show "i = j" using unat_page_addr [OF p, of i f] unat_page_addr [OF p, of j g] assms(2,3) e by simp
qed

lemma palloc_get_null:
  assumes "kmem_inv st" and "cur \<noteq> 0" and r: "palloc_get_multiple cur st flags cnt = Some (st', a)"
    and True: "cnt = 0 \<or> a = 0"
  shows "\<exists>n. st' = st\<lparr>nextfitStart := n\<rparr>"
proof (cases "cnt = 0")
  case True
  then show ?thesis using r by (intro exI [of _ "nextfitStart st"]) (simp add: palloc_get_multiple_def Let_def)
next
  case False
  then obtain x where "scan_pool (policy st) (nextfitStart st) (get_pool flags st) cnt = Some x"
    using r by (auto simp: palloc_get_multiple_def Let_def split: bind_splits)
  from scan_pool_returns [OF this] show ?thesis
  proof (cases rule: palloc_get_cases [OF assms(1,2) False, consumes 1])
    case (1 i st1)
    have "i \<le> unat (bit_cnt (used_map (get_pool flags st)))"
      using took_props(2) [OF assms(1) 1(2)] by (simp add: run_at_def)
    from page_addr_props(3) [OF get_pool_inv [OF assms(1)] this] 1(1) r True False show ?thesis by simp
  next
    case (2 next')
    then show ?thesis using r by (auto split: if_splits)
  qed
qed

lemma get_live:
  assumes "kmem_inv st" and "cur \<noteq> 0" and r: "palloc_get_multiple cur st flags cnt = Some (st', a)"
  shows "kmem_inv st'" and "live st b \<Longrightarrow> live st' b"
    and "a \<noteq> 0 \<Longrightarrow> cnt \<noteq> 0 \<Longrightarrow> \<not> live st a \<and> live st' a"
proof -
  have "kmem_inv st' \<and> (live st b \<longrightarrow> live st' b) \<and> (a \<noteq> 0 \<longrightarrow> cnt \<noteq> 0 \<longrightarrow> \<not> live st a \<and> live st' a)"
  proof (cases "cnt = 0 \<or> a = 0")
    case True
    have "\<exists>n. st' = st\<lparr>nextfitStart := n\<rparr>" using palloc_get_null [OF assms True] .
    then show ?thesis using assms(1) True by (auto simp: live_def)
  next
    case False
    then have nz: "cnt \<noteq> 0" "a \<noteq> 0" by simp_all
    then have pos: "0 < unat cnt" by (simp add: unat_gt_0)
    obtain i where i: "a = page_addr (get_pool flags st) i" "took flags st i (unat cnt) st'"
      by (rule palloc_get_some [OF assms(1,2) nz(1) r nz(2)])
    note t = took_props [OF assms(1) i(2)]
    have le: "i < length (used (get_pool flags st))"
      using t(2) pos by (auto simp: run_at_def)
    have free: "\<not> used (get_pool flags st) ! i"
      using run_at_nth [OF t(2), of i] pos by simp
    have u': "length (used (get_pool f st')) = length (used (get_pool f st))"
      "page_addr (get_pool f st') j = page_addr (get_pool f st) j"
      "j < length (used (get_pool f st)) \<Longrightarrow> used (get_pool f st) ! j \<Longrightarrow> used (get_pool f st') ! j" for f j
    proof -
      have "(length (used (get_pool f st')) = length (used (get_pool f st))) \<and>
        page_addr (get_pool f st') j = page_addr (get_pool f st) j \<and>
        (j < length (used (get_pool f st)) \<longrightarrow> used (get_pool f st) ! j \<longrightarrow> used (get_pool f st') ! j)"
      proof (cases "flag f PAL_USER = flag flags PAL_USER")
        case True
        then have e: "get_pool f st = get_pool flags st" "get_pool f st' = get_pool flags st'"
          by (simp_all add: get_pool_def)
        show ?thesis unfolding e using t(3,4,5) by (simp add: page_addr_def nth_replace_range)
      qed (simp add: t(7))
      then show "length (used (get_pool f st')) = length (used (get_pool f st))"
        "page_addr (get_pool f st') j = page_addr (get_pool f st) j"
        "j < length (used (get_pool f st)) \<Longrightarrow> used (get_pool f st) ! j \<Longrightarrow> used (get_pool f st') ! j" by simp_all
    qed
    have "\<not> live st a"
      using page_addr_inj [OF assms(1) le] free unfolding live_iff i(1) by metis
    moreover have "used (get_pool flags st') ! i"
      using t(3) le pos by (simp add: nth_replace_range)
    then have "live st' a" unfolding live_iff i(1) using le u' by metis
    moreover have "live st b \<longrightarrow> live st' b" unfolding live_iff using u' by metis
    ultimately show ?thesis using t(1) by simp
  qed
  then show "kmem_inv st'" "live st b \<Longrightarrow> live st' b"
    "a \<noteq> 0 \<Longrightarrow> cnt \<noteq> 0 \<Longrightarrow> \<not> live st a \<and> live st' a" by blast+
qed

lemma free_effect:
  assumes inv: "kmem_inv st" and a: "live st a"
  obtains flags i st' where "i < length (used (get_pool flags st))" "a = page_addr (get_pool flags st) i"
    "used (get_pool flags st) ! i" "palloc_free_page st a = Some st'" "kmem_inv st'"
    "used (get_pool flags st') = (used (get_pool flags st))[i := False]"
    "\<And>f. flag f PAL_USER \<noteq> flag flags PAL_USER \<Longrightarrow> get_pool f st' = get_pool f st"
    "base (get_pool flags st') = base (get_pool flags st)"
proof -
  from a obtain flags i where i: "i < length (used (get_pool flags st))"
    "a = page_addr (get_pool flags st) i" "used (get_pool flags st) ! i" unfolding live_iff by blast
  have run: "run_at (used (get_pool flags st)) (unat (1 :: u32)) True i" using i by (simp add: run_at_def)
  have le: "i + unat (1 :: u32) \<le> unat (bit_cnt (used_map (get_pool flags st)))" using i(1) by simp
  obtain st' where f: "palloc_free_page st a = Some st'" "kmem_inv st'"
    and u: "used (get_pool flags st') = (used (get_pool flags st))[i := False]"
    and o: "\<And>f. flag f PAL_USER \<noteq> flag flags PAL_USER \<Longrightarrow> get_pool f st' = get_pool f st"
    using palloc_free_run [OF inv _ le run] i(1)
    by (auto simp: palloc_free_page_def i(2) replace_range_Suc)
  have base: "base (get_pool flags st') = base (get_pool flags st)"
    using f(1) le run palloc_free_eq [OF inv le]
    by (auto simp: palloc_free_page_def i(2) split: bind_splits if_splits)
  show ?thesis by (rule that [OF i f u o base])
qed

lemma free_live:
  assumes inv: "kmem_inv st" and a: "live st a"
  shows "\<exists>st'. palloc_free_page st a = Some st' \<and> kmem_inv st' \<and> \<not> live st' a \<and>
    (\<forall>b. b \<noteq> a \<longrightarrow> live st' b = live st b)"
proof -
  from free_effect [OF inv a] obtain flags i st' where i: "i < length (used (get_pool flags st))"
      "a = page_addr (get_pool flags st) i" "used (get_pool flags st) ! i"
    and f: "palloc_free_page st a = Some st'" "kmem_inv st'"
    and u: "used (get_pool flags st') = (used (get_pool flags st))[i := False]"
    and o: "\<And>f. flag f PAL_USER \<noteq> flag flags PAL_USER \<Longrightarrow> get_pool f st' = get_pool f st"
    and base: "base (get_pool flags st') = base (get_pool flags st)" by metis
  have u': "length (used (get_pool f st')) = length (used (get_pool f st))"
    "page_addr (get_pool f st') j = page_addr (get_pool f st) j"
    "j < length (used (get_pool f st)) \<Longrightarrow> used (get_pool f st') ! j \<longleftrightarrow>
       used (get_pool f st) ! j \<and> \<not> (get_pool f st = get_pool flags st \<and> j = i)" for f j
  proof -
    have "length (used (get_pool f st')) = length (used (get_pool f st)) \<and>
      page_addr (get_pool f st') j = page_addr (get_pool f st) j \<and>
      (j < length (used (get_pool f st)) \<longrightarrow> (used (get_pool f st') ! j \<longleftrightarrow>
       used (get_pool f st) ! j \<and> \<not> (get_pool f st = get_pool flags st \<and> j = i)))"
    proof (cases "flag f PAL_USER = flag flags PAL_USER")
      case True
      then have e: "get_pool f st = get_pool flags st" "get_pool f st' = get_pool flags st'"
        by (simp_all add: get_pool_def)
      have "length (used (get_pool flags st')) = length (used (get_pool flags st))" by (simp only: u length_list_update)
      then show ?thesis unfolding e using i(1) by (auto simp: page_addr_def base u nth_list_update)
    next
      case False
      have "get_pool f st \<noteq> get_pool flags st"
        using page_addr_bytes [OF get_pool_inv [OF inv] i(1)] inv False
        by (auto simp: kmem_inv_def get_pool_def split: if_splits)
      then show ?thesis by (simp add: o [OF False])
    qed
    then show "length (used (get_pool f st')) = length (used (get_pool f st))"
      "page_addr (get_pool f st') j = page_addr (get_pool f st) j"
      "j < length (used (get_pool f st)) \<Longrightarrow> used (get_pool f st') ! j \<longleftrightarrow>
       used (get_pool f st) ! j \<and> \<not> (get_pool f st = get_pool flags st \<and> j = i)" by simp_all
  qed
  have "live st' b \<longleftrightarrow> live st b \<and> b \<noteq> a" for b
  proof
    assume "live st' b"
    then obtain f j where j: "j < length (used (get_pool f st))" "b = page_addr (get_pool f st) j"
      "used (get_pool f st') ! j" unfolding live_iff u'(1,2) by blast
    note uj = u'(3) [OF j(1)]
    have "b \<noteq> a"
    proof
      assume "b = a"
      then have "page_addr (get_pool f st) j = page_addr (get_pool flags st) i" using j(2) i(2) by simp
      from page_addr_inj [OF inv j(1) i(1) this] uj j(3) show False by simp
    qed
    moreover have "live st b" unfolding live_iff using j uj by blast
    ultimately show "live st b \<and> b \<noteq> a" by simp
  next
    assume r: "live st b \<and> b \<noteq> a"
    then obtain f j where j: "j < length (used (get_pool f st))" "b = page_addr (get_pool f st) j"
      "used (get_pool f st) ! j" unfolding live_iff by blast
    have "\<not> (get_pool f st = get_pool flags st \<and> j = i)" using r j(2) i(2) by auto
    then show "live st' b" unfolding live_iff u'(1,2) using j u'(3) [OF j(1)] by blast
  qed
  then show ?thesis using f by blast
qed

interpretation pg: page_allocator kmem_inv live palloc_get_page palloc_free_page
proof
  fix m cur flags m' a b
  assume m: "kmem_inv m" "cur \<noteq> 0" "palloc_get_page cur m flags = Some (m', a)"
  note g = get_live [OF m(1,2) m(3) [unfolded palloc_get_page_def]]
  show "kmem_inv m'" by (rule g(1))
  show "live m b \<Longrightarrow> live m' b" by (rule g(2))
  show "a \<noteq> 0 \<Longrightarrow> \<not> live m a \<and> live m' a" using g(3) by simp
next
  fix m a m' b
  assume m: "kmem_inv m" "live m a" "palloc_free_page m a = Some m'"
  note f = free_live [OF m(1,2)]
  show "kmem_inv m'" "\<not> live m' a" using f m(3) by auto
  show "b \<noteq> a \<Longrightarrow> live m b \<Longrightarrow> live m' b" using f m(3) by auto
qed

section \<open>The bytes of the pools\<close>

definition arena :: "kmem \<Rightarrow> nat set" where
  "arena st = pool_bytes (kernel_pool st) \<union> pool_bytes (user_pool st)"

lemma arena_iff: "x \<in> arena st \<longleftrightarrow> (\<exists>f. x \<in> pool_bytes (get_pool f st))"
proof -
  have "get_pool 0 st = kernel_pool st" "get_pool PAL_USER st = user_pool st"
    by (simp_all add: get_pool_def flag_def PAL_USER_def)
  then show ?thesis unfolding arena_def by (metis Un_iff get_pool_def)
qed

lemma arena_mem [simp]: "arena (st\<lparr>mem := m\<rparr>) = arena st" "arena (st\<lparr>nextfitStart := n\<rparr>) = arena st"
  by (simp_all add: arena_def)

lemma live_mem [simp]: "live (st\<lparr>mem := m\<rparr>) a = live st a"
  by (simp add: live_def)

lemma arena_same:
  assumes "\<And>f. base (get_pool f st') = base (get_pool f st)"
    and "\<And>f. bit_cnt (used_map (get_pool f st')) = bit_cnt (used_map (get_pool f st))"
  shows "arena st' = arena st"
  using assms by (auto simp: arena_iff pool_bytes_def)

lemma get_arena:
  assumes "kmem_inv st" and "cur \<noteq> 0" and r: "palloc_get_multiple cur st flags cnt = Some (st', a)"
  shows "arena st' = arena st" and "a \<noteq> 0 \<Longrightarrow> cnt \<noteq> 0 \<Longrightarrow> unat a \<in> arena st"
proof -
  have "arena st' = arena st \<and> (a \<noteq> 0 \<longrightarrow> cnt \<noteq> 0 \<longrightarrow> unat a \<in> arena st)"
  proof (cases "cnt = 0 \<or> a = 0")
    case True
    have "\<exists>n. st' = st\<lparr>nextfitStart := n\<rparr>" using palloc_get_null [OF assms True] .
    then show ?thesis using True by auto
  next
    case False
    then have nz: "cnt \<noteq> 0" "a \<noteq> 0" by simp_all
    then have pos: "0 < unat cnt" by (simp add: unat_gt_0)
    obtain i where i: "a = page_addr (get_pool flags st) i" "took flags st i (unat cnt) st'"
      by (rule palloc_get_some [OF assms(1,2) nz(1) r nz(2)])
    note t = took_props [OF assms(1) i(2)]
    have same: "base (get_pool f st') = base (get_pool f st) \<and>
      bit_cnt (used_map (get_pool f st')) = bit_cnt (used_map (get_pool f st))" for f
    proof (cases "flag f PAL_USER = flag flags PAL_USER")
      case True
      then have e: "get_pool f st = get_pool flags st" "get_pool f st' = get_pool flags st'"
        by (simp_all add: get_pool_def)
      show ?thesis unfolding e using t(4,5) by simp
    qed (simp add: t(7))
    have "i < length (used (get_pool flags st))" using t(2) pos by (auto simp: run_at_def)
    from page_addr_bytes [OF get_pool_inv [OF assms(1)] this] arena_same same show ?thesis
      unfolding i(1) arena_iff by blast
  qed
  then show "arena st' = arena st" "a \<noteq> 0 \<Longrightarrow> cnt \<noteq> 0 \<Longrightarrow> unat a \<in> arena st" by blast+
qed

lemma free_arena:
  assumes inv: "kmem_inv st" and a: "live st a" and r: "palloc_free_page st a = Some st'"
  shows "arena st' = arena st"
proof -
  from free_effect [OF inv a] obtain flags i st2 where f: "palloc_free_page st a = Some st2"
    and u: "used (get_pool flags st2) = (used (get_pool flags st))[i := False]"
    and o: "\<And>f. flag f PAL_USER \<noteq> flag flags PAL_USER \<Longrightarrow> get_pool f st2 = get_pool f st"
    and base: "base (get_pool flags st2) = base (get_pool flags st)" by metis
  have "unat (bit_cnt (used_map (get_pool flags st2))) = unat (bit_cnt (used_map (get_pool flags st)))"
    using arg_cong [OF u, of length] by simp
  then have len: "bit_cnt (used_map (get_pool flags st2)) = bit_cnt (used_map (get_pool flags st))"
    by (simp only: word_unat_eq_iff)
  have "base (get_pool f st2) = base (get_pool f st) \<and>
      bit_cnt (used_map (get_pool f st2)) = bit_cnt (used_map (get_pool f st))" for f
  proof (cases "flag f PAL_USER = flag flags PAL_USER")
    case True
    then have e: "get_pool f st = get_pool flags st" "get_pool f st2 = get_pool flags st2"
      by (simp_all add: get_pool_def)
    show ?thesis unfolding e using base len by simp
  qed (simp add: o)
  then have "arena st2 = arena st" using arena_same by blast
  then show ?thesis using f r by simp
qed

end
