(* ===== verification/Kernel_List.thy ===== *)
theory Kernel_List
  imports Prelude "HOL-Library.Multiset"
begin

text \<open>
  \<open>lib/kernel/list.c\<close>: intrusive doubly linked lists, at the level of the
  pointers. The heap gives the \<open>prev\<close> and \<open>next\<close> member of the \<open>struct list_elem\<close>
  at an address; a \<open>struct list\<close> at address \<open>l\<close> is its head element at \<open>l\<close> and its
  tail element at \<open>l + 8\<close>. A comparison function is a predicate on element
  addresses (it reads the enclosing structures, not the links). Following a null
  pointer, like a failed assertion, has no result.
\<close>

record lheap =
  prv :: "u32 \<Rightarrow> u32"
  nxt :: "u32 \<Rightarrow> u32"

type_synonym less_func = "u32 \<Rightarrow> u32 \<Rightarrow> bool"

definition head_of :: "u32 \<Rightarrow> u32" where "head_of l = l"
definition tail_of :: "u32 \<Rightarrow> u32" where "tail_of l = l + 8"

definition set_prev :: "u32 \<Rightarrow> u32 \<Rightarrow> lheap \<Rightarrow> lheap" where
  "set_prev e v h = h\<lparr>prv := (prv h)(e := v)\<rparr>"

definition set_next :: "u32 \<Rightarrow> u32 \<Rightarrow> lheap \<Rightarrow> lheap" where
  "set_next e v h = h\<lparr>nxt := (nxt h)(e := v)\<rparr>"

definition is_head :: "lheap \<Rightarrow> u32 \<Rightarrow> bool" where
  "is_head h elem \<longleftrightarrow> elem \<noteq> 0 \<and> prv h elem = 0 \<and> nxt h elem \<noteq> 0"

definition is_interior :: "lheap \<Rightarrow> u32 \<Rightarrow> bool" where
  "is_interior h elem \<longleftrightarrow> elem \<noteq> 0 \<and> prv h elem \<noteq> 0 \<and> nxt h elem \<noteq> 0"

definition is_tail :: "lheap \<Rightarrow> u32 \<Rightarrow> bool" where
  "is_tail h elem \<longleftrightarrow> elem \<noteq> 0 \<and> prv h elem \<noteq> 0 \<and> nxt h elem = 0"

definition list_init :: "lheap \<Rightarrow> u32 \<Rightarrow> lheap option" where
  "list_init h l = do {
     ASSERT (l \<noteq> 0);
     Some (set_next (tail_of l) 0 (set_prev (tail_of l) (head_of l)
            (set_next (head_of l) (tail_of l) (set_prev (head_of l) 0 h)))) }"

definition list_begin :: "lheap \<Rightarrow> u32 \<Rightarrow> u32 option" where
  "list_begin h l = do { ASSERT (l \<noteq> 0); Some (nxt h (head_of l)) }"

definition list_next :: "lheap \<Rightarrow> u32 \<Rightarrow> u32 option" where
  "list_next h elem = do { ASSERT (is_head h elem \<or> is_interior h elem); Some (nxt h elem) }"

definition list_end :: "u32 \<Rightarrow> u32 option" where
  "list_end l = do { ASSERT (l \<noteq> 0); Some (tail_of l) }"

definition list_rbegin :: "lheap \<Rightarrow> u32 \<Rightarrow> u32 option" where
  "list_rbegin h l = do { ASSERT (l \<noteq> 0); Some (prv h (tail_of l)) }"

definition list_prev :: "lheap \<Rightarrow> u32 \<Rightarrow> u32 option" where
  "list_prev h elem = do { ASSERT (is_interior h elem \<or> is_tail h elem); Some (prv h elem) }"

definition list_rend :: "u32 \<Rightarrow> u32 option" where
  "list_rend l = do { ASSERT (l \<noteq> 0); Some (head_of l) }"

definition list_head :: "u32 \<Rightarrow> u32 option" where
  "list_head l = do { ASSERT (l \<noteq> 0); Some (head_of l) }"

definition list_tail :: "u32 \<Rightarrow> u32 option" where
  "list_tail l = do { ASSERT (l \<noteq> 0); Some (tail_of l) }"

definition list_insert :: "lheap \<Rightarrow> u32 \<Rightarrow> u32 \<Rightarrow> lheap option" where
  "list_insert h before elem = do {
     ASSERT (is_interior h before \<or> is_tail h before);
     ASSERT (elem \<noteq> 0);
     let h = set_prev elem (prv h before) h;
     let h = set_next elem before h;
     let h = set_next (prv h before) elem h;
     let h = set_prev before elem h;
     Some h }"

definition list_splice :: "lheap \<Rightarrow> u32 \<Rightarrow> u32 \<Rightarrow> u32 \<Rightarrow> lheap option" where
  "list_splice h before first lst = do {
     ASSERT (is_interior h before \<or> is_tail h before);
     if first = lst then Some h else do {
       lst \<leftarrow> list_prev h lst;
       ASSERT (is_interior h first);
       ASSERT (is_interior h lst);
       let h = set_next (prv h first) (nxt h lst) h;
       let h = set_prev (nxt h lst) (prv h first) h;
       let h = set_prev first (prv h before) h;
       let h = set_next lst before h;
       let h = set_next (prv h before) first h;
       let h = set_prev before lst h;
       Some h } }"

definition list_push_front :: "lheap \<Rightarrow> u32 \<Rightarrow> u32 \<Rightarrow> lheap option" where
  "list_push_front h l elem = do { b \<leftarrow> list_begin h l; list_insert h b elem }"

definition list_push_back :: "lheap \<Rightarrow> u32 \<Rightarrow> u32 \<Rightarrow> lheap option" where
  "list_push_back h l elem = do { b \<leftarrow> list_end l; list_insert h b elem }"

definition list_remove :: "lheap \<Rightarrow> u32 \<Rightarrow> (lheap \<times> u32) option" where
  "list_remove h elem = do {
     ASSERT (is_interior h elem);
     let h = set_next (prv h elem) (nxt h elem) h;
     let h = set_prev (nxt h elem) (prv h elem) h;
     Some (h, nxt h elem) }"

definition list_empty :: "lheap \<Rightarrow> u32 \<Rightarrow> bool option" where
  "list_empty h l = do { b \<leftarrow> list_begin h l; e \<leftarrow> list_end l; Some (b = e) }"

definition list_front :: "lheap \<Rightarrow> u32 \<Rightarrow> u32 option" where
  "list_front h l = do { e \<leftarrow> list_empty h l; ASSERT (\<not> e); Some (nxt h (head_of l)) }"

definition list_back :: "lheap \<Rightarrow> u32 \<Rightarrow> u32 option" where
  "list_back h l = do { e \<leftarrow> list_empty h l; ASSERT (\<not> e); Some (prv h (tail_of l)) }"

definition list_pop_front :: "lheap \<Rightarrow> u32 \<Rightarrow> (lheap \<times> u32) option" where
  "list_pop_front h l = do {
     front \<leftarrow> list_front h l;
     (h, _) \<leftarrow> list_remove h front;
     Some (h, front) }"

definition list_pop_back :: "lheap \<Rightarrow> u32 \<Rightarrow> (lheap \<times> u32) option" where
  "list_pop_back h l = do {
     back \<leftarrow> list_back h l;
     (h, _) \<leftarrow> list_remove h back;
     Some (h, back) }"

partial_function (option) size_loop :: "lheap \<Rightarrow> u32 \<Rightarrow> u32 \<Rightarrow> u32 \<Rightarrow> u32 option" where
  "size_loop h lst e cnt =
     (if e = lst then Some cnt else do { e \<leftarrow> list_next h e; size_loop h lst e (cnt + 1) })"

definition list_size :: "lheap \<Rightarrow> u32 \<Rightarrow> u32 option" where
  "list_size h l = do { b \<leftarrow> list_begin h l; e \<leftarrow> list_end l; size_loop h e b 0 }"

section \<open>Reversal\<close>

text \<open>\<open>swap (&e->prev, &e->next)\<close>.\<close>

definition swap_links :: "u32 \<Rightarrow> lheap \<Rightarrow> lheap" where
  "swap_links e h = set_next e (prv h e) (set_prev e (nxt h e) h)"

partial_function (option) reverse_loop :: "lheap \<Rightarrow> u32 \<Rightarrow> u32 \<Rightarrow> lheap option" where
  "reverse_loop h lst e =
     (if e = lst then Some h
      else do {
        ASSERT (e \<noteq> 0);
        let h = swap_links e h;
        reverse_loop h lst (prv h e) })"

definition list_reverse :: "lheap \<Rightarrow> u32 \<Rightarrow> lheap option" where
  "list_reverse h l = do {
     em \<leftarrow> list_empty h l;
     if em then Some h else do {
       b \<leftarrow> list_begin h l;
       e \<leftarrow> list_end l;
       h \<leftarrow> reverse_loop h e b;
       let t = nxt h (head_of l);
       let h = set_next (head_of l) (prv h (tail_of l)) h;
       let h = set_prev (tail_of l) t h;
       let f = nxt h (head_of l);
       let g = prv h (tail_of l);
       ASSERT (f \<noteq> 0 \<and> g \<noteq> 0);
       let t = prv h f;
       let h = set_prev f (nxt h g) h;
       Some (set_next g t h) } }"

section \<open>Sorting and ordered lists\<close>

partial_function (option) is_sorted_loop :: "less_func \<Rightarrow> lheap \<Rightarrow> u32 \<Rightarrow> u32 \<Rightarrow> bool option" where
  "is_sorted_loop lt h a b = do {
     a \<leftarrow> list_next h a;
     if a = b then Some True else do {
       p \<leftarrow> list_prev h a;
       if lt a p then Some False else is_sorted_loop lt h a b } }"

definition is_sorted :: "less_func \<Rightarrow> lheap \<Rightarrow> u32 \<Rightarrow> u32 \<Rightarrow> bool option" where
  "is_sorted lt h a b = (if a \<noteq> b then is_sorted_loop lt h a b else Some True)"

partial_function (option) end_of_run_loop :: "less_func \<Rightarrow> lheap \<Rightarrow> u32 \<Rightarrow> u32 \<Rightarrow> u32 option" where
  "end_of_run_loop lt h a b = do {
     a \<leftarrow> list_next h a;
     if a = b then Some a else do {
       p \<leftarrow> list_prev h a;
       if lt a p then Some a else end_of_run_loop lt h a b } }"

definition find_end_of_run :: "less_func \<Rightarrow> lheap \<Rightarrow> u32 \<Rightarrow> u32 \<Rightarrow> u32 option" where
  "find_end_of_run lt h a b = do {
     ASSERT (a \<noteq> 0);
     ASSERT (b \<noteq> 0);
     ASSERT (a \<noteq> b);
     end_of_run_loop lt h a b }"

partial_function (option) merge_loop :: "less_func \<Rightarrow> lheap \<Rightarrow> u32 \<Rightarrow> u32 \<Rightarrow> u32 \<Rightarrow> lheap option" where
  "merge_loop lt h a0 a1b0 b1 =
     (if a0 = a1b0 \<or> a1b0 = b1 then Some h
      else if \<not> lt a1b0 a0 then do {
        a0 \<leftarrow> list_next h a0;
        merge_loop lt h a0 a1b0 b1 }
      else do {
        a1b0 \<leftarrow> list_next h a1b0;
        p \<leftarrow> list_prev h a1b0;
        h \<leftarrow> list_splice h a0 p a1b0;
        merge_loop lt h a0 a1b0 b1 })"

definition inplace_merge :: "less_func \<Rightarrow> lheap \<Rightarrow> u32 \<Rightarrow> u32 \<Rightarrow> u32 \<Rightarrow> lheap option" where
  "inplace_merge lt h a0 a1b0 b1 = do {
     ASSERT (a0 \<noteq> 0);
     ASSERT (a1b0 \<noteq> 0);
     ASSERT (b1 \<noteq> 0);
     s1 \<leftarrow> is_sorted lt h a0 a1b0;
     ASSERT s1;
     s2 \<leftarrow> is_sorted lt h a1b0 b1;
     ASSERT s2;
     merge_loop lt h a0 a1b0 b1 }"

text \<open>One pass of \<open>list_sort\<close>: the inner \<open>for\<close> loop, with the count of output runs.\<close>

partial_function (option) sort_pass :: "less_func \<Rightarrow> lheap \<Rightarrow> u32 \<Rightarrow> u32 \<Rightarrow> u32 \<Rightarrow> (lheap \<times> u32) option" where
  "sort_pass lt h lst a0 output_run_cnt =
     (if a0 = lst then Some (h, output_run_cnt)
      else do {
        let output_run_cnt = output_run_cnt + 1;
        a1b0 \<leftarrow> find_end_of_run lt h a0 lst;
        if a1b0 = lst then Some (h, output_run_cnt)
        else do {
          b1 \<leftarrow> find_end_of_run lt h a1b0 lst;
          h \<leftarrow> inplace_merge lt h a0 a1b0 b1;
          sort_pass lt h lst b1 output_run_cnt } })"

partial_function (option) sort_loop :: "less_func \<Rightarrow> lheap \<Rightarrow> u32 \<Rightarrow> lheap option" where
  "sort_loop lt h l = do {
     b \<leftarrow> list_begin h l;
     e \<leftarrow> list_end l;
     (h, output_run_cnt) \<leftarrow> sort_pass lt h e b 0;
     if output_run_cnt > 1 then sort_loop lt h l else Some h }"

definition list_sort :: "less_func \<Rightarrow> lheap \<Rightarrow> u32 \<Rightarrow> lheap option" where
  "list_sort lt h l = do {
     ASSERT (l \<noteq> 0);
     h \<leftarrow> sort_loop lt h l;
     b \<leftarrow> list_begin h l;
     e \<leftarrow> list_end l;
     s \<leftarrow> is_sorted lt h b e;
     ASSERT s;
     Some h }"

partial_function (option) find_larger :: "less_func \<Rightarrow> lheap \<Rightarrow> u32 \<Rightarrow> u32 \<Rightarrow> u32 \<Rightarrow> u32 option" where
  "find_larger lt h lst elem e =
     (if e = lst then Some e
      else if lt elem e then Some e
      else do { e \<leftarrow> list_next h e; find_larger lt h lst elem e })"

definition list_insert_ordered :: "less_func \<Rightarrow> lheap \<Rightarrow> u32 \<Rightarrow> u32 \<Rightarrow> lheap option" where
  "list_insert_ordered lt h l elem = do {
     ASSERT (l \<noteq> 0);
     ASSERT (elem \<noteq> 0);
     b \<leftarrow> list_begin h l;
     lst \<leftarrow> list_end l;
     e \<leftarrow> find_larger lt h lst elem b;
     list_insert h e elem }"

text \<open>The list of duplicates is an address, 0 when the caller passes a null pointer.\<close>

partial_function (option) unique_loop :: "less_func \<Rightarrow> lheap \<Rightarrow> u32 \<Rightarrow> u32 \<Rightarrow> u32 \<Rightarrow> lheap option" where
  "unique_loop lt h l duplicates elem = do {
     next \<leftarrow> list_next h elem;
     lst \<leftarrow> list_end l;
     if next = lst then Some h
     else if \<not> lt elem next \<and> \<not> lt next elem then do {
       (h, _) \<leftarrow> list_remove h next;
       h \<leftarrow> (if duplicates \<noteq> 0 then list_push_back h duplicates next else Some h);
       unique_loop lt h l duplicates elem }
     else unique_loop lt h l duplicates next }"

definition list_unique :: "less_func \<Rightarrow> lheap \<Rightarrow> u32 \<Rightarrow> u32 \<Rightarrow> lheap option" where
  "list_unique lt h l duplicates = do {
     ASSERT (l \<noteq> 0);
     em \<leftarrow> list_empty h l;
     if em then Some h else do {
       b \<leftarrow> list_begin h l;
       unique_loop lt h l duplicates b } }"

text \<open>
  \<open>list_max\<close> and \<open>list_min\<close> differ in the order of the arguments of \<open>less\<close> only;
  \<open>better e best\<close> says that \<open>e\<close> replaces the best element so far.
\<close>

partial_function (option) best_loop :: "(u32 \<Rightarrow> u32 \<Rightarrow> bool) \<Rightarrow> lheap \<Rightarrow> u32 \<Rightarrow> u32 \<Rightarrow> u32 \<Rightarrow> u32 option" where
  "best_loop better h lst e best =
     (if e = lst then Some best
      else do {
        let best = (if better e best then e else best);
        e \<leftarrow> list_next h e;
        best_loop better h lst e best })"

definition list_best :: "(u32 \<Rightarrow> u32 \<Rightarrow> bool) \<Rightarrow> lheap \<Rightarrow> u32 \<Rightarrow> u32 option" where
  "list_best better h l = do {
     best \<leftarrow> list_begin h l;
     lst \<leftarrow> list_end l;
     if best \<noteq> lst then do {
       e \<leftarrow> list_next h best;
       best_loop better h lst e best }
     else Some best }"

definition list_max :: "less_func \<Rightarrow> lheap \<Rightarrow> u32 \<Rightarrow> u32 option" where
  "list_max lt = list_best (\<lambda>e best. lt best e)"

definition list_min :: "less_func \<Rightarrow> lheap \<Rightarrow> u32 \<Rightarrow> u32 option" where
  "list_min lt = list_best (\<lambda>e best. lt e best)"

section \<open>Well-formed lists\<close>

text \<open>Consecutive nodes point at each other.\<close>

fun links :: "lheap \<Rightarrow> u32 list \<Rightarrow> bool" where
  "links h [] \<longleftrightarrow> True"
| "links h [a] \<longleftrightarrow> True"
| "links h (a # b # ns) \<longleftrightarrow> nxt h a = b \<and> prv h b = a \<and> links h (b # ns)"

definition nodes :: "u32 \<Rightarrow> u32 list \<Rightarrow> u32 list" where
  "nodes l xs = head_of l # xs @ [tail_of l]"

text \<open>The list at \<open>l\<close> holds the elements \<open>xs\<close>, in this order.\<close>

definition dll :: "lheap \<Rightarrow> u32 \<Rightarrow> u32 list \<Rightarrow> bool" where
  "dll h l xs \<longleftrightarrow> distinct (nodes l xs) \<and> 0 \<notin> set (nodes l xs) \<and>
     prv h (head_of l) = 0 \<and> nxt h (tail_of l) = 0 \<and> links h (nodes l xs)"

text \<open>The one pointer operation behind insertion, removal and splicing: \<open>q\<close> follows \<open>p\<close>.\<close>

definition join :: "u32 \<Rightarrow> u32 \<Rightarrow> lheap \<Rightarrow> lheap" where
  "join p q h = set_prev q p (set_next p q h)"

lemma join_simps [simp]:
  "nxt (join p q h) = (nxt h)(p := q)" "prv (join p q h) = (prv h)(q := p)"
  by (simp_all add: join_def set_prev_def set_next_def)

lemma links_append:
  "links h (us @ x # vs) \<longleftrightarrow> links h (us @ [x]) \<and> links h (x # vs)"
  by (induction h us rule: links.induct) auto

lemma links_cong:
  "(\<And>a. a \<in> set (butlast ns) \<Longrightarrow> nxt h' a = nxt h a) \<Longrightarrow>
   (\<And>a. a \<in> set (tl ns) \<Longrightarrow> prv h' a = prv h a) \<Longrightarrow> links h' ns = links h ns"
  by (induction h ns rule: links.induct) auto

lemma links_join_frame:
  assumes "links h ns" and "p \<notin> set (butlast ns)" and "q \<notin> set (tl ns)"
  shows "links (join p q h) ns"
proof -
  have "links (join p q h) ns = links h ns" by (rule links_cong) (use assms in auto)
  then show ?thesis using assms(1) by simp
qed

lemma in_set_tl: "x \<in> set (tl xs) \<Longrightarrow> x \<in> set xs"
  by (cases xs) auto

lemma links_join:
  assumes "links h (us @ [p])" and "links h (q # vs)" and "distinct (us @ p # q # vs)"
  shows "links (join p q h) (us @ p # q # vs)"
proof -
  have "links (join p q h) (us @ [p])"
    by (rule links_join_frame [OF assms(1)]) (use assms(3) in \<open>auto dest: in_set_tl\<close>)
  moreover have "links (join p q h) (q # vs)"
    by (rule links_join_frame [OF assms(2)]) (use assms(3) in \<open>auto dest: in_set_butlastD\<close>)
  ultimately show ?thesis by (subst links_append) simp
qed

text \<open>A chain of nodes from a list head to a list tail.\<close>

definition chain :: "lheap \<Rightarrow> u32 list \<Rightarrow> bool" where
  "chain h ns \<longleftrightarrow> distinct ns \<and> 0 \<notin> set ns \<and> 2 \<le> length ns \<and>
     prv h (hd ns) = 0 \<and> nxt h (last ns) = 0 \<and> links h ns"

lemma dll_chain: "dll h l xs \<longleftrightarrow> chain h (nodes l xs)"
  by (auto simp: dll_def chain_def nodes_def)

lemma chain_links:
  assumes "chain h (us @ a # b # vs)"
  shows "nxt h a = b" and "prv h b = a" and "a \<noteq> 0" and "b \<noteq> 0"
    and "list_next h a = Some b" and "list_prev h b = Some a"
proof -
  have "links h (a # b # vs)" using assms links_append [of h us a "b # vs"] by (simp add: chain_def)
  then show n: "nxt h a = b" "prv h b = a" by simp_all
  show z: "a \<noteq> 0" "b \<noteq> 0" using assms by (auto simp: chain_def)
  then show "list_next h a = Some b" "list_prev h b = Some a"
    using n by (simp_all add: list_next_def list_prev_def is_head_def is_interior_def is_tail_def ASSERT_def)
qed

lemma chain_interior:
  assumes "chain h (us @ a # x # b # vs)"
  shows "is_interior h x"
  using chain_links [OF assms] chain_links [of h "us @ [a]" x b vs] assms
  by (simp add: is_interior_def)

lemma chain_before:
  assumes "chain h (us @ a # x # vs)"
  shows "is_interior h x \<or> is_tail h x"
  using chain_links [OF assms] by (auto simp: is_interior_def is_tail_def)

lemma chain_join_frame:
  assumes "chain h ns" and "p \<notin> set ns" and "q \<notin> set ns"
  shows "chain (join p q h) ns"
proof -
  have ne: "ns \<noteq> []" using assms(1) by (auto simp: chain_def)
  have "links (join p q h) ns"
    by (rule links_join_frame) (use assms in \<open>auto simp: chain_def dest: in_set_butlastD in_set_tl\<close>)
  moreover have "hd ns \<noteq> q" "last ns \<noteq> p" using assms ne by auto
  ultimately show ?thesis using assms(1) by (simp add: chain_def)
qed

lemma links_segment: "links h (us @ ms @ vs) \<Longrightarrow> links h ms"
proof (induction us)
  case Nil
  then show ?case
  proof (induction h ms rule: links.induct)
    case (3 h a b ns)
    then show ?case by simp
  qed auto
next
  case (Cons u us)
  then show ?case by (cases "us @ ms @ vs") auto
qed

text \<open>Joining the two ends around a removed segment.\<close>

lemma chain_cut:
  assumes "chain h (us @ p # ms @ q # vs)"
  shows "chain (join p q h) (us @ p # q # vs)" and "ms \<noteq> [] \<Longrightarrow> links (join p q h) ms"
proof -
  have d: "distinct (us @ p # ms @ q # vs)" "0 \<notin> set (us @ p # ms @ q # vs)"
    and l: "links h (us @ p # ms @ q # vs)" using assms by (auto simp: chain_def)
  have "links h (us @ [p])" using links_segment [of h "[]" "us @ [p]" "ms @ q # vs"] l by simp
  moreover have "links h (q # vs)" using links_segment [of h "us @ p # ms" "q # vs" "[]"] l by simp
  ultimately have j: "links (join p q h) (us @ p # q # vs)" by (rule links_join) (use d(1) in auto)
  have "hd (us @ p # q # vs) = hd (us @ p # ms @ q # vs)" by (cases us) simp_all
  then have hp: "prv h (hd (us @ p # q # vs)) = 0" using assms by (simp add: chain_def)
  have tn: "nxt h (last (us @ p # q # vs)) = 0" using assms by (simp add: chain_def)
  have "hd (us @ p # q # vs) \<noteq> q" using d(1) by (cases us) auto
  moreover have "last (us @ p # q # vs) \<noteq> p" using d(1) by auto
  ultimately show "chain (join p q h) (us @ p # q # vs)"
    using j d hp tn by (auto simp: chain_def)
  assume "ms \<noteq> []"
  have "links h ms" using links_segment [of h "us @ [p]" ms "q # vs"] l by simp
  then show "links (join p q h) ms"
    by (rule links_join_frame) (use d(1) in \<open>auto dest: in_set_butlastD in_set_tl\<close>)
qed

text \<open>Inserting a linked segment between two nodes.\<close>

lemma chain_paste:
  assumes c: "chain h (us @ p # b # vs)" and l: "links h ms" and ne: "ms \<noteq> []"
    and d: "distinct ms" "set ms \<inter> set (us @ p # b # vs) = {}" "0 \<notin> set ms"
  shows "chain (join (last ms) b (join p (hd ms) h)) (us @ p # ms @ b # vs)"
proof -
  let ?h1 = "join p (hd ms) h" and ?f = "hd ms" and ?e = "last ms"
  obtain m ms' where ms: "ms = m # ms'" using ne by (cases ms) auto
  have cd: "distinct (us @ p # b # vs)" "0 \<notin> set (us @ p # b # vs)"
    and cl: "links h (us @ p # b # vs)" using c by (auto simp: chain_def)
  have dd: "distinct (us @ p # ms @ b # vs)" using cd d by auto
  have in_ms: "?f \<in> set ms" "?e \<in> set ms" using ne by auto
  have "links h (us @ [p])" using links_segment [of h "[]" "us @ [p]" "b # vs"] cl by simp
  then have "links (join p m h) (us @ p # m # ms')" by (rule links_join) (use l dd ms in auto)
  then have a: "links ?h1 ((us @ p # butlast ms) @ [?e])" by (auto simp: ms)
  have "links h (b # vs)" using links_segment [of h "us @ [p]" "b # vs" "[]"] cl by simp
  then have b: "links ?h1 (b # vs)"
    by (rule links_join_frame) (use dd in_ms d(2) in \<open>auto dest: in_set_butlastD\<close>)
  have eq: "(us @ p # butlast ms) @ ?e # b # vs = us @ p # ms @ b # vs"
    using ne by (metis append.assoc append_Cons append_Nil append_butlast_last_id)
  have "links (join ?e b ?h1) ((us @ p # butlast ms) @ ?e # b # vs)"
    by (rule links_join [OF a b]) (simp only: eq dd)
  then have links: "links (join ?e b ?h1) (us @ p # ms @ b # vs)" by (simp only: eq)
  have hd_eq: "hd (us @ p # ms @ b # vs) = hd (us @ p # b # vs)" by (cases us) simp_all
  have "hd (us @ p # b # vs) \<noteq> b" "hd (us @ p # b # vs) \<noteq> ?f"
    using cd(1) d(2) in_ms by (cases us; auto)+
  moreover have "last (b # vs) \<noteq> p" "last (b # vs) \<noteq> ?e"
    using cd(1) d(2) in_ms last_in_set [of "b # vs"] by auto
  ultimately show ?thesis using links c dd d(3) by (auto simp: chain_def hd_eq)
qed

section \<open>Insertion, removal, splicing\<close>

lemma list_insert_chain:
  assumes c: "chain h (us @ p # b # vs)" and e: "e \<noteq> 0" "e \<notin> set (us @ p # b # vs)"
  shows "list_insert h b e = Some (join e b (join p e h))"
    and "chain (join e b (join p e h)) (us @ p # e # b # vs)"
proof -
  have pb: "prv h b = p" using chain_links [OF c] by simp
  have "b \<noteq> e" "p \<noteq> e" using e by auto
  then have "set_prev b e (set_next p e (set_next e b (set_prev e p h))) = join e b (join p e h)"
    by (simp add: set_prev_def set_next_def join_def fun_upd_twist)
  then show "list_insert h b e = Some (join e b (join p e h))"
    using chain_before [OF c] e \<open>b \<noteq> e\<close>
    by (simp add: list_insert_def Let_def pb) (simp add: set_prev_def set_next_def pb)
  show "chain (join e b (join p e h)) (us @ p # e # b # vs)"
    using chain_paste [OF c, of "[e]"] e by auto
qed

lemma list_remove_chain:
  assumes c: "chain h (us @ p # e # q # vs)"
  shows "list_remove h e = Some (join p q h, q)" and "chain (join p q h) (us @ p # q # vs)"
proof -
  have l: "prv h e = p" "nxt h e = q" using chain_links [OF c] chain_links [of h "us @ [p]" e q vs] c by simp_all
  have "e \<noteq> p" using c by (auto simp: chain_def)
  then show "list_remove h e = Some (join p q h, q)"
    using chain_interior [OF c] l
    by (simp add: list_remove_def Let_def set_next_def set_prev_def join_def)
  show "chain (join p q h) (us @ p # q # vs)" using chain_cut(1) [of h us p "[e]" q vs] c by simp
qed

lemma lheap_eqI: "prv h = prv h' \<Longrightarrow> nxt h = nxt h' \<Longrightarrow> h = (h' :: lheap)"
  by (cases h; cases h') simp

text \<open>
  The writes of \<open>list_splice\<close> are three joins: around the removed segment, and
  on both sides of it in its new place.
\<close>

lemma list_splice_joins:
  assumes before: "is_interior h b \<or> is_tail h b" and int: "is_interior h f" "is_interior h lst"
    and lst: "list_prev h s = Some lst" "nxt h lst = s" and ne: "f \<noteq> s"
    and r: "prv h f = r" and p: "prv (join r s h) b = p"
    and d: "lst \<noteq> r" "p \<noteq> lst" "f \<noteq> b" "f \<noteq> s"
  shows "list_splice h b f s = Some (join lst b (join p f (join r s h)))"
proof -
  have "prv h b = p" if "b \<noteq> s" using p that by simp
  moreover have "p = r" if "b = s" using p that by simp
  ultimately show ?thesis
    using assms
    by (auto simp: list_splice_def Let_def ASSERT_def set_prev_def set_next_def fun_eq_iff intro!: lheap_eqI)
qed

lemma segment_snoc: "ms \<noteq> [] \<Longrightarrow> (us @ r # butlast ms) @ last ms # vs = us @ r # ms @ vs"
  by (cases ms rule: rev_cases) simp_all

lemma chain_middle:
  assumes "chain h (us @ r # ms @ s # zs)" and "x \<in> set ms"
  shows "is_interior h x"
proof -
  obtain as bs where ms: "ms = as @ x # bs" using assms(2) by (auto simp: in_set_conv_decomp)
  have l: "r # as = butlast (r # as) @ [last (r # as)]" by (simp del: butlast.simps last.simps)
  have "us @ r # ms @ s # zs = (us @ butlast (r # as)) @ last (r # as) # x # hd (bs @ s # zs) # tl (bs @ s # zs)"
    using l by (cases bs) (simp_all add: ms del: butlast.simps last.simps)
  then show ?thesis using assms(1) chain_interior by metis
qed

text \<open>Moving a segment to another list.\<close>

lemma list_splice_chains:
  assumes a: "chain h (us @ p # b # vs)" and c: "chain h (ws @ r # ms @ s # zs)" and ne: "ms \<noteq> []"
    and d: "set (us @ p # b # vs) \<inter> set (ws @ r # ms @ s # zs) = {}"
  obtains h' where "list_splice h b (hd ms) s = Some h'"
    "chain h' (us @ p # ms @ b # vs)" "chain h' (ws @ r # s # zs)"
proof -
  let ?f = "hd ms" and ?e = "last ms"
  let ?h1 = "join r s h"
  let ?h = "join ?e b (join p ?f ?h1)"
  have in_ms: "?f \<in> set ms" "?e \<in> set ms" using ne by auto
  have dc: "distinct (ws @ r # ms @ s # zs)" "0 \<notin> set (ws @ r # ms @ s # zs)" using c by (auto simp: chain_def)
  have rs: "r \<notin> set (us @ p # b # vs)" "s \<notin> set (us @ p # b # vs)" using d by auto
  obtain m ms' where m: "ms = m # ms'" using ne by (cases ms) auto
  have f: "is_interior h ?f" "is_interior h ?e" using chain_middle [OF c] in_ms by auto
  have r: "prv h ?f = r" using c chain_links(2) [of h ws r m "ms' @ s # zs"] by (simp add: m)
  have c': "chain h ((ws @ r # butlast ms) @ ?e # s # zs)"
    unfolding segment_snoc [OF ne] by (rule c)
  note e = chain_links [OF c']
  have "r \<notin> set ms" "s \<notin> set ms" using dc(1) by auto
  then have sd: "?e \<noteq> r" "?f \<noteq> s" using in_ms by metis+
  have "p \<notin> set ms" "b \<notin> set ms" using d by auto
  then have pd: "p \<noteq> ?e" "?f \<noteq> b" using in_ms by metis+
  have "prv ?h1 b = p" using chain_links(2) [OF a] rs(2) by auto
  then have splice: "list_splice h b ?f s = Some ?h"
    by (rule list_splice_joins [OF chain_before [OF a] f e(6,1) sd(2) r _ sd(1) pd sd(2)])
  note cut = chain_cut [OF c]
  have "chain ?h1 (us @ p # b # vs)" by (rule chain_join_frame [OF a rs])
  then have "chain ?h (us @ p # ms @ b # vs)"
    by (rule chain_paste [OF _ cut(2) [OF ne] ne]) (use dc d in auto)
  moreover have "?e \<notin> set (ws @ r # s # zs)" "?f \<notin> set (ws @ r # s # zs)"
    "p \<notin> set (ws @ r # s # zs)" "b \<notin> set (ws @ r # s # zs)"
    using d dc(1) in_ms by auto
  then have "chain ?h (ws @ r # s # zs)" by (intro chain_join_frame cut(1))
  ultimately show ?thesis using splice that by blast
qed

section \<open>Refinement: linked lists as lists of elements\<close>

text \<open>\<open>framed h h' S\<close>: every list whose nodes avoid \<open>S\<close> is unaffected.\<close>

definition framed :: "lheap \<Rightarrow> lheap \<Rightarrow> u32 set \<Rightarrow> bool" where
  "framed h h' S \<longleftrightarrow> (\<forall>l ys. dll h l ys \<and> set (nodes l ys) \<inter> S = {} \<longrightarrow> dll h' l ys)"

lemma framed_join: "framed h h' S \<Longrightarrow> p \<in> S \<Longrightarrow> q \<in> S \<Longrightarrow> framed h (join p q h') S"
  unfolding framed_def dll_chain by (meson chain_join_frame disjoint_iff)

lemma framed_refl [simp]: "framed h h S"
  by (simp add: framed_def)

lemma framed_trans: "framed h h1 S \<Longrightarrow> framed h1 h2 S \<Longrightarrow> framed h h2 S"
  by (simp add: framed_def)

lemma nodes_split:
  "nodes l (us @ vs) = (head_of l # us) @ (vs @ [tail_of l])"
  by (simp add: nodes_def)

lemma dll_nodes:
  assumes "dll h l xs"
  shows "l \<noteq> 0" and "tail_of l \<noteq> 0" and "head_of l \<noteq> tail_of l" and "distinct xs" and "0 \<notin> set xs"
    and "head_of l \<notin> set xs" and "tail_of l \<notin> set xs"
  using assms by (auto simp: dll_def nodes_def head_of_def)

lemma dll_begin:
  assumes "dll h l xs"
  shows "list_begin h l = Some (hd (xs @ [tail_of l]))" and "nxt h (head_of l) = hd (xs @ [tail_of l])"
    and "list_end l = Some (tail_of l)"
proof -
  have "chain h ([] @ head_of l # hd (xs @ [tail_of l]) # tl (xs @ [tail_of l]))"
    using assms by (cases xs) (simp_all add: dll_chain nodes_def)
  from chain_links(1) [OF this] show n: "nxt h (head_of l) = hd (xs @ [tail_of l])" .
  show "list_begin h l = Some (hd (xs @ [tail_of l]))" "list_end l = Some (tail_of l)"
    using dll_nodes(1) [OF assms] n by (simp_all add: list_begin_def list_end_def)
qed

lemma dll_rbegin:
  assumes "dll h l xs"
  shows "prv h (tail_of l) = last (head_of l # xs)"
proof -
  have "nodes l xs = butlast (head_of l # xs) @ last (head_of l # xs) # tail_of l # []"
    by (cases xs rule: rev_cases) (simp_all add: nodes_def)
  then show ?thesis using assms chain_links(2) by (metis dll_chain)
qed

lemma list_empty_dll: "dll h l xs \<Longrightarrow> list_empty h l = Some (xs = [])"
  using dll_nodes(7) [of h l xs] by (cases xs) (auto simp: list_empty_def dll_begin)

lemma list_init_dll:
  assumes "l \<noteq> 0" and "l + 8 \<noteq> 0"
  shows "\<exists>h'. list_init h l = Some h' \<and> dll h' l [] \<and> framed h h' {l, l + 8}"
proof -
  have "l \<noteq> l + 8" by simp
  then have "dll (set_next (tail_of l) 0 (set_prev (tail_of l) (head_of l)
      (set_next (head_of l) (tail_of l) (set_prev (head_of l) 0 h)))) l []"
    using assms by (simp add: dll_def nodes_def head_of_def tail_of_def set_next_def set_prev_def)
  moreover have "links h' ns = links h ns"
    if "h' = set_next (tail_of l) 0 (set_prev (tail_of l) (head_of l)
      (set_next (head_of l) (tail_of l) (set_prev (head_of l) 0 h)))"
      "set ns \<inter> {l, l + 8} = {}" for h' ns
    by (rule links_cong) (use that in \<open>auto simp: set_next_def set_prev_def head_of_def tail_of_def
        dest: in_set_butlastD in_set_tl\<close>)
  ultimately show ?thesis using assms
    by (auto simp: list_init_def framed_def dll_def set_next_def set_prev_def head_of_def tail_of_def nodes_def)
qed

text \<open>Insertion before any element or before the tail.\<close>

lemma list_insert_dll:
  assumes d: "dll h l (us @ vs)" and e: "e \<noteq> 0" "e \<notin> set (nodes l (us @ vs))"
  shows "\<exists>h'. list_insert h (hd (vs @ [tail_of l])) e = Some h' \<and> dll h' l (us @ e # vs) \<and>
    framed h h' (insert e (set (nodes l (us @ vs))))"
proof -
  let ?b = "hd (vs @ [tail_of l])" and ?p = "last (head_of l # us)"
  have eq: "nodes l (us @ vs) = butlast (head_of l # us) @ ?p # ?b # tl (vs @ [tail_of l])"
    unfolding nodes_split by (cases us rule: rev_cases; cases vs) simp_all
  have c: "chain h (butlast (head_of l # us) @ ?p # ?b # tl (vs @ [tail_of l]))"
    using d by (simp only: dll_chain eq)
  have eq': "butlast (head_of l # us) @ ?p # e # ?b # tl (vs @ [tail_of l]) = nodes l (us @ e # vs)"
    by (cases us rule: rev_cases; cases vs) (simp_all add: nodes_def)
  note i = list_insert_chain [OF c e(1) e(2) [unfolded eq]]
  have "?p \<in> set (nodes l (us @ vs))" "?b \<in> set (nodes l (us @ vs))"
    by (cases vs; auto simp: nodes_def)+
  then have "framed h (join e ?b (join ?p e h)) (insert e (set (nodes l (us @ vs))))"
    by (intro framed_join) simp_all
  with i show ?thesis unfolding dll_chain eq' by blast
qed

lemma list_remove_dll:
  assumes d: "dll h l (us @ e # vs)"
  shows "\<exists>h'. list_remove h e = Some (h', hd (vs @ [tail_of l])) \<and> dll h' l (us @ vs) \<and>
    framed h h' (set (nodes l (us @ vs)))"
proof -
  let ?b = "hd (vs @ [tail_of l])" and ?p = "last (head_of l # us)"
  have eq: "nodes l (us @ e # vs) = butlast (head_of l # us) @ ?p # e # ?b # tl (vs @ [tail_of l])"
    by (cases us rule: rev_cases; cases vs) (simp_all add: nodes_def)
  have c: "chain h (butlast (head_of l # us) @ ?p # e # ?b # tl (vs @ [tail_of l]))"
    using d by (simp only: dll_chain eq)
  have eq': "butlast (head_of l # us) @ ?p # ?b # tl (vs @ [tail_of l]) = nodes l (us @ vs)"
    unfolding nodes_split by (cases us rule: rev_cases; cases vs) simp_all
  note i = list_remove_chain [OF c]
  have "?p \<in> set (nodes l (us @ vs))" "?b \<in> set (nodes l (us @ vs))"
    by (cases vs; auto simp: nodes_def)+
  then have "framed h (join ?p ?b h) (set (nodes l (us @ vs)))" by (intro framed_join) simp_all
  with i show ?thesis unfolding dll_chain eq' by blast
qed

lemma list_push_back_dll:
  assumes "dll h l xs" and "e \<noteq> 0" and "e \<notin> set (nodes l xs)"
  shows "\<exists>h'. list_push_back h l e = Some h' \<and> dll h' l (xs @ [e]) \<and> framed h h' (insert e (set (nodes l xs)))"
  using list_insert_dll [of h l xs "[]" e] assms dll_begin(3) [OF assms(1)]
  by (simp add: list_push_back_def)

lemma list_push_front_dll:
  assumes "dll h l xs" and "e \<noteq> 0" and "e \<notin> set (nodes l xs)"
  shows "\<exists>h'. list_push_front h l e = Some h' \<and> dll h' l (e # xs) \<and> framed h h' (insert e (set (nodes l xs)))"
  using list_insert_dll [of h l "[]" xs e] assms dll_begin(1) [OF assms(1)]
  by (simp add: list_push_front_def)

lemma list_pop_front_dll:
  assumes "dll h l (x # xs)"
  shows "\<exists>h'. list_pop_front h l = Some (h', x) \<and> dll h' l xs \<and> framed h h' (set (nodes l xs))"
proof -
  have "list_front h l = Some x"
    using list_empty_dll [OF assms] dll_begin(2) [OF assms] by (simp add: list_front_def)
  then show ?thesis using list_remove_dll [of h l "[]" x xs] assms by (auto simp: list_pop_front_def)
qed

lemma list_pop_back_dll:
  assumes "dll h l (xs @ [x])"
  shows "\<exists>h'. list_pop_back h l = Some (h', x) \<and> dll h' l xs \<and> framed h h' (set (nodes l xs))"
proof -
  have "list_back h l = Some x"
    using list_empty_dll [OF assms] dll_rbegin [OF assms] by (simp add: list_back_def)
  then show ?thesis using list_remove_dll [of h l xs x "[]"] assms by (auto simp: list_pop_back_def)
qed

lemma list_pop_empty: "dll h l [] \<Longrightarrow> list_pop_front h l = None \<and> list_pop_back h l = None"
  by (simp add: list_pop_front_def list_pop_back_def list_front_def list_back_def list_empty_dll)

section \<open>The interface: double-ended queues of elements\<close>

text \<open>
  What the scheduler and the semaphores rely on: a representation of a list of
  elements, insertion at both ends, and removal at both ends and in the middle.
\<close>

fun pop_many :: "('h \<Rightarrow> u32 \<Rightarrow> ('h \<times> u32) option) \<Rightarrow> nat \<Rightarrow> 'h \<Rightarrow> u32 \<Rightarrow> ('h \<times> u32 list) option" where
  "pop_many pop 0 h l = Some (h, [])"
| "pop_many pop (Suc n) h l = do {
     (h, x) \<leftarrow> pop h l;
     (h, xs) \<leftarrow> pop_many pop n h l;
     Some (h, x # xs) }"

locale deque =
  fixes rep :: "'h \<Rightarrow> u32 \<Rightarrow> u32 list \<Rightarrow> bool"
    and used_nodes :: "u32 \<Rightarrow> u32 list \<Rightarrow> u32 set"
    and push_back push_front :: "'h \<Rightarrow> u32 \<Rightarrow> u32 \<Rightarrow> 'h option"
    and pop_front pop_back :: "'h \<Rightarrow> u32 \<Rightarrow> ('h \<times> u32) option"
    and remove :: "'h \<Rightarrow> u32 \<Rightarrow> ('h \<times> u32) option"
  assumes used_nodes_append: "used_nodes l (xs @ ys) = used_nodes l xs \<union> set ys"
    and push_back_rep: "rep h l xs \<Longrightarrow> e \<noteq> 0 \<Longrightarrow> e \<notin> used_nodes l xs \<Longrightarrow>
      \<exists>h'. push_back h l e = Some h' \<and> rep h' l (xs @ [e])"
    and push_front_rep: "rep h l xs \<Longrightarrow> e \<noteq> 0 \<Longrightarrow> e \<notin> used_nodes l xs \<Longrightarrow>
      \<exists>h'. push_front h l e = Some h' \<and> rep h' l (e # xs)"
    and pop_front_rep: "rep h l (x # xs) \<Longrightarrow> \<exists>h'. pop_front h l = Some (h', x) \<and> rep h' l xs"
    and pop_back_rep: "rep h l (xs @ [x]) \<Longrightarrow> \<exists>h'. pop_back h l = Some (h', x) \<and> rep h' l xs"
    and remove_rep: "rep h l (xs @ x # ys) \<Longrightarrow> \<exists>h' n. remove h x = Some (h', n) \<and> rep h' l (xs @ ys)"
begin

lemma push_back_all:
  assumes "rep h l xs" and "distinct es" and "0 \<notin> set es" and "set es \<inter> used_nodes l xs = {}"
  shows "\<exists>h'. foldM (\<lambda>e h. push_back h l e) es h = Some h' \<and> rep h' l (xs @ es)"
  using assms
proof (induction es arbitrary: h xs)
  case (Cons e es)
  then obtain h1 where h1: "push_back h l e = Some h1" "rep h1 l (xs @ [e])"
    using push_back_rep [of h l xs e] by auto
  moreover have "set es \<inter> used_nodes l (xs @ [e]) = {}"
    using Cons.prems by (auto simp: used_nodes_append)
  ultimately show ?case using Cons.IH [of h1 "xs @ [e]"] Cons.prems by auto
qed simp

lemma pop_front_all:
  "rep h l (es @ xs) \<Longrightarrow> \<exists>h'. pop_many pop_front (length es) h l = Some (h', es) \<and> rep h' l xs"
proof (induction es arbitrary: h)
  case (Cons e es)
  then obtain h1 where "pop_front h l = Some (h1, e)" "rep h1 l (es @ xs)"
    using pop_front_rep [of h l e "es @ xs"] by auto
  then show ?case using Cons.IH [of h1] by auto
qed simp

text \<open>First in, first out, whatever was in the queue before.\<close>

lemma fifo:
  assumes "rep h l xs" and "distinct es" and "0 \<notin> set es" and "set es \<inter> used_nodes l xs = {}"
  shows "\<exists>h1 h2. foldM (\<lambda>e h. push_back h l e) es h = Some h1 \<and>
    pop_many pop_front (length xs + length es) h1 l = Some (h2, xs @ es) \<and> rep h2 l []"
  using push_back_all [OF assms] pop_front_all [of _ l "xs @ es" "[]"] by fastforce

end

interpretation kl: deque dll "\<lambda>l xs. set (nodes l xs)" list_push_back list_push_front
  list_pop_front list_pop_back list_remove
proof
  show "set (nodes l (xs @ ys)) = set (nodes l xs) \<union> set ys" for l xs ys
    by (auto simp: nodes_def)
  show "\<exists>h'. list_push_back h l e = Some h' \<and> dll h' l (xs @ [e])"
    if "dll h l xs" "e \<noteq> 0" "e \<notin> set (nodes l xs)" for h l xs e
    using list_push_back_dll [OF that] by blast
  show "\<exists>h'. list_push_front h l e = Some h' \<and> dll h' l (e # xs)"
    if "dll h l xs" "e \<noteq> 0" "e \<notin> set (nodes l xs)" for h l xs e
    using list_push_front_dll [OF that] by blast
  show "\<exists>h'. list_pop_front h l = Some (h', x) \<and> dll h' l xs" if "dll h l (x # xs)" for h l x xs
    using list_pop_front_dll [OF that] by blast
  show "\<exists>h'. list_pop_back h l = Some (h', x) \<and> dll h' l xs" if "dll h l (xs @ [x])" for h l x xs
    using list_pop_back_dll [OF that] by blast
  show "\<exists>h' n. list_remove h x = Some (h', n) \<and> dll h' l (xs @ ys)" if "dll h l (xs @ x # ys)" for h l x xs ys
    using list_remove_dll [OF that] by blast
qed

section \<open>Traversal\<close>

lemma dll_next:
  assumes "dll h l (us @ x # vs)"
  shows "list_next h x = Some (hd (vs @ [tail_of l]))" and "nxt h x = hd (vs @ [tail_of l])"
    and "list_prev h x = Some (last (head_of l # us))" and "prv h x = last (head_of l # us)"
proof -
  have "nodes l (us @ x # vs) = (head_of l # us) @ x # hd (vs @ [tail_of l]) # tl (vs @ [tail_of l])"
    by (cases vs) (simp_all add: nodes_def)
  then have "chain h ((head_of l # us) @ x # hd (vs @ [tail_of l]) # tl (vs @ [tail_of l]))"
    using assms by (simp only: dll_chain)
  from chain_links [OF this] show "list_next h x = Some (hd (vs @ [tail_of l]))"
    "nxt h x = hd (vs @ [tail_of l])" by simp_all
  have "nodes l (us @ x # vs) = butlast (head_of l # us) @ last (head_of l # us) # x # (vs @ [tail_of l])"
    by (cases us rule: rev_cases) (simp_all add: nodes_def)
  then have "chain h (butlast (head_of l # us) @ last (head_of l # us) # x # (vs @ [tail_of l]))"
    using assms by (simp only: dll_chain)
  from chain_links [OF this] show "list_prev h x = Some (last (head_of l # us))"
    "prv h x = last (head_of l # us)" by simp_all
qed

lemma dll_neq_tail: "dll h l (us @ x # vs) \<Longrightarrow> x \<noteq> tail_of l"
  using dll_nodes(7) by fastforce

text \<open>
  A forward traversal from an element to the tail: the code's position is the
  first of the remaining elements, or the tail.
\<close>

lemma size_loop_dll:
  "dll h l (us @ vs) \<Longrightarrow>
   size_loop h (tail_of l) (hd (vs @ [tail_of l])) cnt = Some (cnt + of_nat (length vs))"
proof (induction vs arbitrary: us cnt)
  case Nil
  then show ?case by (simp add: size_loop.simps)
next
  case (Cons v vs)
  note n = dll_next(1) [OF Cons.prems] dll_neq_tail [OF Cons.prems]
  have "dll h l ((us @ [v]) @ vs)" using Cons.prems by simp
  from Cons.IH [OF this, of "cnt + 1"] n show ?case by (subst size_loop.simps) (simp add: add.assoc)
qed

lemma list_size_dll: "dll h l xs \<Longrightarrow> list_size h l = Some (of_nat (length xs))"
  using size_loop_dll [of h l "[]" xs 0] dll_begin [of h l xs] by (simp add: list_size_def)

section \<open>Reversal\<close>

lemma swap_links_simps [simp]:
  "nxt (swap_links e h) = (nxt h)(e := prv h e)" "prv (swap_links e h) = (prv h)(e := nxt h e)"
  by (simp_all add: swap_links_def set_next_def set_prev_def)

lemma fold_swap_links:
  assumes "distinct es"
  shows "nxt (fold swap_links es h) a = (if a \<in> set es then prv h a else nxt h a)"
    and "prv (fold swap_links es h) a = (if a \<in> set es then nxt h a else prv h a)"
  using assms by (induction es arbitrary: h) auto

lemma reverse_loop_links:
  "links h (es @ [t]) \<Longrightarrow> distinct (es @ [t]) \<Longrightarrow> 0 \<notin> set es \<Longrightarrow>
   reverse_loop h t (hd (es @ [t])) = Some (fold swap_links es h)"
proof (induction es arbitrary: h)
  case Nil
  then show ?case by (simp add: reverse_loop.simps)
next
  case (Cons e es)
  have n: "nxt h e = hd (es @ [t])" and l: "links h (es @ [t])"
    using Cons.prems(1) by (cases es; simp)+
  have "links (swap_links e h) (es @ [t]) = links h (es @ [t])"
    by (rule links_cong) (use Cons.prems(2) in \<open>auto dest: in_set_tl\<close>)
  then have "reverse_loop (swap_links e h) t (hd (es @ [t])) = Some (fold swap_links es (swap_links e h))"
    using Cons l by simp
  moreover have "e \<noteq> t" "e \<noteq> 0" using Cons.prems by auto
  ultimately show ?case by (subst reverse_loop.simps) (simp add: n Let_def)
qed

lemma links_rev:
  "links h ns \<Longrightarrow> (\<And>a. a \<in> set (butlast ns) \<Longrightarrow> prv h' a = nxt h a) \<Longrightarrow>
   (\<And>a. a \<in> set (tl ns) \<Longrightarrow> nxt h' a = prv h a) \<Longrightarrow> links h' (rev ns)"
proof (induction h ns rule: links.induct)
  case (3 h a b ns)
  have "links h' (rev (b # ns))"
    by (rule "3.IH") (use 3 in \<open>auto dest: in_set_tl\<close>)
  moreover have "links h' [b, a]" using 3 by simp
  ultimately show ?case using links_append [of h' "rev ns" b "[a]"] by simp
qed auto

lemma list_reverse_dll:
  assumes d: "dll h l xs"
  shows "\<exists>h'. list_reverse h l = Some h' \<and> dll h' l (rev xs)"
proof (cases "xs = []")
  case True
  then show ?thesis using d list_empty_dll [OF d] by (auto simp: list_reverse_def)
next
  case False
  let ?H = "head_of l" and ?T = "tail_of l" and ?f = "hd xs" and ?g = "last xs"
  let ?h1 = "fold swap_links xs h"
  note nd = dll_nodes [OF d]
  have mem: "?f \<in> set xs" "?g \<in> set xs" using False by auto
  have neq: "?H \<noteq> ?T" "?f \<noteq> ?H" "?f \<noteq> ?T" "?g \<noteq> ?H" "?g \<noteq> ?T" "?f \<noteq> 0" "?g \<noteq> 0"
    using nd mem by metis+
  have lk: "links h (nodes l xs)" using d by (simp add: dll_def)
  have "links h (xs @ [?T])" using lk links_segment [of h "[?H]" "xs @ [?T]" "[]"] by (simp add: nodes_def)
  then have loop: "reverse_loop h ?T (hd (xs @ [?T])) = Some ?h1"
    using reverse_loop_links nd(4,5,7) by simp
  have fg: "nxt h ?H = ?f" "prv h ?T = ?g" "prv h ?f = ?H" "nxt h ?g = ?T"
  proof -
    show "nxt h ?H = ?f" "prv h ?T = ?g" using dll_begin(2) [OF d] dll_rbegin [OF d] False by simp_all
    have "xs = [] @ ?f # tl xs" "xs = butlast xs @ ?g # []" using False by simp_all
    with d dll_next(4) [of h l "[]" ?f "tl xs"] dll_next(2) [of h l "butlast xs" ?g "[]"]
    show "prv h ?f = ?H" "nxt h ?g = ?T" by (metis last.simps, metis append_Nil list.sel(1))
  qed
  note s = fold_swap_links [OF nd(4), of h]
  define h2 where "h2 = set_next ?f ?T (set_prev ?g ?H (set_prev ?T ?f (set_next ?H ?g ?h1)))"
  have res: "list_reverse h l = Some h2"
    using False list_empty_dll [OF d] dll_begin [OF d] loop fg neq nd(6,7) mem
    by (simp add: list_reverse_def Let_def set_next_def set_prev_def s h2_def)
  have h2: "nxt h2 a = (if a = ?f then ?T else if a = ?H then ?g else if a \<in> set xs then prv h a else nxt h a)"
    "prv h2 a = (if a = ?g then ?H else if a = ?T then ?f else if a \<in> set xs then nxt h a else prv h a)" for a
    by (simp_all add: h2_def set_next_def set_prev_def s)
  have lr: "links h2 (rev xs)"
  proof (rule links_rev)
    show "links h xs" using lk links_segment [of h "[?H]" xs "[?T]"] by (simp add: nodes_def)
    fix a assume a: "a \<in> set (butlast xs)"
    moreover have "?g \<notin> set (butlast xs)" using nd(4) False
      by (metis append_butlast_last_id distinct_append disjoint_iff list.set_intros(1))
    ultimately have "a \<noteq> ?g" by metis
    with a show "prv h2 a = nxt h a" using nd(7) by (auto simp: h2 dest: in_set_butlastD)
  next
    fix a assume a: "a \<in> set (tl xs)"
    moreover have "?f \<notin> set (tl xs)" using nd(4) False by (metis distinct.simps(2) list.exhaust_sel)
    ultimately have "a \<noteq> ?f" by metis
    with a show "nxt h2 a = prv h a" using nd(6) by (auto simp: h2 dest: in_set_tl)
  qed
  have r1: "rev xs = ?g # tl (rev xs)" using False by (cases xs rule: rev_cases) simp_all
  have r2: "rev xs = butlast (rev xs) @ [?f]" using False by (cases xs) simp_all
  have "links h2 (butlast (rev xs) @ [?f])" using lr r2 by simp
  moreover have "links h2 [?f, ?T]" using neq mem by (simp add: h2)
  ultimately have "links h2 (butlast (rev xs) @ ?f # [?T])" by (subst links_append) simp
  then have "links h2 (rev xs @ [?T])" by (subst r2) simp
  then have "links h2 (?g # tl (rev xs) @ [?T])" using r1 by (metis append_Cons)
  moreover have "nxt h2 ?H = ?g" "prv h2 ?g = ?H" using neq nd(6) by (auto simp: h2)
  ultimately have "links h2 (?H # ?g # tl (rev xs) @ [?T])" by simp
  then have "links h2 (?H # rev xs @ [?T])" using r1 by (metis append_Cons)
  then have "dll h2 l (rev xs)"
    using d neq nd h2 mem by (auto simp: dll_def nodes_def)
  with res show ?thesis by blast
qed

end
