(* ===== verification/List_Sort.thy ===== *)
theory List_Sort
  imports Kernel_List
begin

text \<open>
  Correctness of \<open>list_sort\<close> and of the other operations of \<open>lib/kernel/list.c\<close>
  that compare elements. The pointer code is related to functions on lists of
  elements (\<open>run_len\<close>, \<open>merge_runs\<close>, \<open>pass\<close>), and these are shown to sort.
\<close>

section \<open>Sorting by merging natural runs, on lists\<close>

text \<open>What \<open>list_less_func\<close> must be: the strict part of a total preorder.\<close>

definition weak_order :: "less_func \<Rightarrow> bool" where
  "weak_order lt \<longleftrightarrow> (\<forall>x y. lt x y \<longrightarrow> \<not> lt y x) \<and> (\<forall>x y z. \<not> lt y x \<longrightarrow> \<not> lt z y \<longrightarrow> \<not> lt z x)"

fun adj :: "less_func \<Rightarrow> u32 list \<Rightarrow> bool" where
  "adj lt (x # y # zs) \<longleftrightarrow> \<not> lt y x \<and> adj lt (y # zs)"
| "adj lt xs \<longleftrightarrow> True"

text \<open>How many elements after \<open>x\<close> continue the nondecreasing run that starts at \<open>x\<close>.\<close>

fun run_len :: "less_func \<Rightarrow> u32 \<Rightarrow> u32 list \<Rightarrow> nat" where
  "run_len lt x [] = 0"
| "run_len lt x (v # vs) = (if lt v x then 0 else Suc (run_len lt v vs))"

fun merge_runs :: "less_func \<Rightarrow> u32 list \<Rightarrow> u32 list \<Rightarrow> u32 list" where
  "merge_runs lt [] bs = bs"
| "merge_runs lt as [] = as"
| "merge_runs lt (a # as) (b # bs) =
     (if \<not> lt b a then a # merge_runs lt as (b # bs) else b # merge_runs lt (a # as) bs)"

function pass :: "less_func \<Rightarrow> u32 list \<Rightarrow> u32 list \<times> nat" where
  "pass lt [] = ([], 0)"
| "pass lt (x # vs) =
     (case drop (run_len lt x vs) vs of
        [] \<Rightarrow> (x # vs, 1)
      | y # ys \<Rightarrow>
          (let (ws, n) = pass lt (drop (run_len lt y ys) ys)
           in (merge_runs lt (x # take (run_len lt x vs) vs) (y # take (run_len lt y ys) ys) @ ws, Suc n)))"
  by pat_completeness auto
termination
proof (relation "measure (\<lambda>(lt, xs). length xs)")
  fix lt :: less_func and x vs y ys
  assume "drop (run_len lt x vs) vs = y # ys"
  then have "length (y # ys) \<le> length vs" by (metis length_drop diff_le_self)
  then show "((lt, drop (run_len lt y ys) ys), lt, x # vs) \<in> measure (\<lambda>(lt, xs). length xs)" by simp
qed simp

lemma run_len_le: "run_len lt x vs \<le> length vs"
  by (induction lt x vs rule: run_len.induct) auto

lemma adj_run: "adj lt (x # take (run_len lt x vs) vs)"
  by (induction lt x vs rule: run_len.induct) auto

lemma adj_sorted: "weak_order lt \<Longrightarrow> adj lt xs \<longleftrightarrow> sorted_wrt (\<lambda>x y. \<not> lt y x) xs"
proof (induction lt xs rule: adj.induct)
  case (1 lt x y zs)
  have tr: "transp (\<lambda>x y. \<not> lt y x)" using "1.prems" unfolding weak_order_def transp_def by blast
  show ?case unfolding adj.simps sorted_wrt2 [OF tr] using "1.IH" [OF "1.prems"] by blast
qed auto

lemma mset_merge_runs: "mset (merge_runs lt as bs) = mset as + mset bs"
  by (induction lt as bs rule: merge_runs.induct) auto

lemma set_merge_runs: "set (merge_runs lt as bs) = set as \<union> set bs"
  by (induction lt as bs rule: merge_runs.induct) auto

lemma sorted_merge_runs:
  "weak_order lt \<Longrightarrow> sorted_wrt (\<lambda>x y. \<not> lt y x) as \<Longrightarrow> sorted_wrt (\<lambda>x y. \<not> lt y x) bs \<Longrightarrow>
    sorted_wrt (\<lambda>x y. \<not> lt y x) (merge_runs lt as bs)"
proof (induction lt as bs rule: merge_runs.induct)
  case (3 lt a as b bs)
  have asym: "lt x y \<Longrightarrow> \<not> lt y x" and trans: "\<not> lt y x \<Longrightarrow> \<not> lt z y \<Longrightarrow> \<not> lt z x" for x y z
    using "3.prems"(1) unfolding weak_order_def by blast+
  show ?case
  proof (cases "lt b a")
    case True
    have "\<not> lt z b" if "z \<in> set (merge_runs lt (a # as) bs)" for z
    proof (cases "z \<in> set bs")
      case False
      then have "\<not> lt z a" using that "3.prems"(2) asym [of a a] by (auto simp: set_merge_runs)
      then show ?thesis using trans [OF asym [OF True]] by blast
    qed (use "3.prems"(3) in simp)
    then show ?thesis using "3.IH"(2) "3.prems" True by simp
  next
    case False
    have "\<not> lt z a" if "z \<in> set (merge_runs lt as (b # bs))" for z
    proof (cases "z \<in> set as")
      case f: False
      then have "\<not> lt z b" using that "3.prems"(3) asym [of b b] by (auto simp: set_merge_runs)
      then show ?thesis using trans [OF False] by blast
    qed (use "3.prems"(2) in simp)
    then show ?thesis using "3.IH"(1) "3.prems" False by simp
  qed
qed auto

text \<open>The number of nondecreasing runs of a list.\<close>

fun descents :: "less_func \<Rightarrow> u32 list \<Rightarrow> nat" where
  "descents lt (x # y # zs) = (if lt y x then 1 else 0) + descents lt (y # zs)"
| "descents lt xs = 0"

definition runs :: "less_func \<Rightarrow> u32 list \<Rightarrow> nat" where
  "runs lt xs = (if xs = [] then 0 else Suc (descents lt xs))"

lemma descents_adj: "descents lt xs = 0 \<longleftrightarrow> adj lt xs"
  by (induction lt xs rule: adj.induct) auto

lemma descents_append: "descents lt (xs @ ys) \<le> descents lt xs + 1 + descents lt ys"
proof (induction lt xs rule: descents.induct)
  show "descents lt ([v] @ ys) \<le> descents lt [v] + 1 + descents lt ys" for lt v
    by (cases ys) auto
qed auto

lemma descents_run:
  "descents lt (x # vs) =
    (if drop (run_len lt x vs) vs = [] then 0 else Suc (descents lt (drop (run_len lt x vs) vs)))"
  by (induction lt x vs rule: run_len.induct) auto

lemma runs_Cons: "runs lt (x # vs) = Suc (runs lt (drop (run_len lt x vs) vs))"
  by (simp add: runs_def descents_run)

lemma runs_append: "adj lt xs \<Longrightarrow> runs lt (xs @ ys) \<le> Suc (runs lt ys)"
  using descents_append [of lt xs ys] by (auto simp: runs_def descents_adj [symmetric])

lemma pass_count: "snd (pass lt xs) = (runs lt xs + 1) div 2"
proof (induction lt xs rule: pass.induct)
  case (2 lt x vs)
  show ?case
  proof (cases "drop (run_len lt x vs) vs")
    case Nil
    then show ?thesis by (simp add: runs_Cons) (simp add: runs_def)
  next
    case (Cons y ys)
    obtain ws n where p: "pass lt (drop (run_len lt y ys) ys) = (ws, n)" by (rule prod.exhaust)
    have "snd (pass lt (x # vs)) = Suc n" using Cons p by (simp del: merge_runs.simps)
    moreover have "n = (runs lt (drop (run_len lt y ys) ys) + 1) div 2" using 2 [OF Cons] p by simp
    moreover have "runs lt (x # vs) = Suc (Suc (runs lt (drop (run_len lt y ys) ys)))"
      unfolding runs_Cons [of lt x vs] Cons runs_Cons [of lt y ys] ..
    ultimately show ?thesis by simp
  qed
qed (simp add: runs_def)

lemma pass_mset: "mset (fst (pass lt xs)) = mset xs"
proof (induction lt xs rule: pass.induct)
  case (2 lt x vs)
  show ?case
  proof (cases "drop (run_len lt x vs) vs")
    case (Cons y ys)
    have v: "mset vs = mset (take (run_len lt x vs) vs) + mset (y # ys)"
      using Cons by (metis append_take_drop_id mset_append)
    have y: "mset ys = mset (take (run_len lt y ys) ys) + mset (drop (run_len lt y ys) ys)"
      by (metis append_take_drop_id mset_append)
    obtain ws n where p: "pass lt (drop (run_len lt y ys) ys) = (ws, n)" by (rule prod.exhaust)
    show ?thesis using 2 [OF Cons] Cons v y
      by (simp add: mset_merge_runs p del: merge_runs.simps)
  qed simp
qed simp

lemma pass_runs:
  assumes "weak_order lt"
  shows "runs lt (fst (pass lt xs)) \<le> snd (pass lt xs)"
  using assms
proof (induction lt xs rule: pass.induct)
  case (2 lt x vs)
  show ?case
  proof (cases "drop (run_len lt x vs) vs")
    case Nil
    have "runs lt (x # vs) = 1" using Nil by (simp add: runs_Cons) (simp add: runs_def)
    then show ?thesis using Nil by simp
  next
    case (Cons y ys)
    let ?m = "merge_runs lt (x # take (run_len lt x vs) vs) (y # take (run_len lt y ys) ys)"
    have "adj lt ?m"
      using sorted_merge_runs [OF 2(2)] adj_run [of lt x vs] adj_run [of lt y ys]
      by (simp only: adj_sorted [OF 2(2)])
    from runs_append [OF this] have ra: "runs lt (?m @ ws) \<le> Suc (runs lt ws)" for ws .
    obtain ws n where p: "pass lt (drop (run_len lt y ys) ys) = (ws, n)" by (rule prod.exhaust)
    have "runs lt ws \<le> n" using 2(1) [OF Cons 2(2)] unfolding p by simp
    with ra [of ws] have "runs lt (?m @ ws) \<le> Suc n" by linarith
    then show ?thesis using Cons by (simp add: p del: merge_runs.simps)
  qed
qed (simp add: runs_def)

lemma runs_1_adj: "runs lt xs \<le> 1 \<Longrightarrow> adj lt xs"
  by (cases "xs = []") (auto simp: runs_def descents_adj)

section \<open>The pointer code\<close>

lemma dll_interior: "dll h l (us @ x # vs) \<Longrightarrow> is_interior h x"
  using chain_middle [of h "[]" "head_of l" "us @ x # vs" "tail_of l" "[]" x]
  by (simp add: dll_chain nodes_def)

lemma dll_prev_next:
  assumes "dll h l (us @ x # vs)"
  shows "list_prev h (hd (vs @ [tail_of l])) = Some x"
proof -
  have "nodes l (us @ x # vs) = (head_of l # us) @ x # hd (vs @ [tail_of l]) # tl (vs @ [tail_of l])"
    by (cases vs) (simp_all add: nodes_def)
  then have "chain h ((head_of l # us) @ x # hd (vs @ [tail_of l]) # tl (vs @ [tail_of l]))"
    using assms by (simp only: dll_chain)
  from chain_links(6) [OF this] show ?thesis .
qed

text \<open>Moving one element backwards within its list.\<close>

lemma list_splice_move:
  assumes d: "dll h l (us @ a # as @ b # ws)"
  shows "\<exists>h'. list_splice h a b (hd (ws @ [tail_of l])) = Some h' \<and> dll h' l (us @ b # a # as @ ws) \<and>
    framed h h' (set (nodes l (us @ a # as @ b # ws)))"
proof -
  let ?H = "head_of l" and ?T = "tail_of l"
  let ?s = "hd (ws @ [?T])" and ?r = "last (a # as)" and ?p = "last (?H # us)"
  let ?S = "set (nodes l (us @ a # as @ b # ws))"
  have d2: "dll h l ((us @ a # as) @ b # ws)" using d by simp
  have dis: "distinct (nodes l (us @ a # as @ b # ws))" using d by (simp add: dll_def)
  have mem: "?r \<in> set (a # as)" "?p \<in> set (?H # us)" "?s \<in> set (ws @ [?T])"
    by (rule last_in_set, simp)+ (rule hd_in_set, simp)
  have "b \<notin> set (a # as)" "b \<notin> set (?H # us)" "b \<notin> set (ws @ [?T])" "a \<notin> set (ws @ [?T])"
    using dis by (auto simp: nodes_def)
  then have neq: "b \<noteq> ?r" "?p \<noteq> b" "b \<noteq> a" "b \<noteq> ?s" "a \<noteq> ?s"
    using mem by (metis, metis, simp, metis, metis)
  have pa: "prv h a = ?p" using dll_next(4) [OF d] by simp
  have pb: "prv h b = ?r" using dll_next(4) [OF d2] by simp
  have nb: "nxt h b = ?s" using dll_next(2) [OF d2] .
  have "prv (join ?r ?s h) a = ?p" using pa neq(5) by auto
  then have splice: "list_splice h a b ?s = Some (join b a (join ?p b (join ?r ?s h)))"
    using list_splice_joins [of h a b b ?s ?r ?p] dll_interior [OF d] dll_interior [OF d2]
      dll_prev_next [OF d2] nb pb neq by blast
  have eq1: "nodes l (us @ a # as @ b # ws) = (?H # us @ butlast (a # as)) @ ?r # [b] @ ?s # tl (ws @ [?T])"
    by (cases ws; cases as rule: rev_cases) (simp_all add: nodes_def)
  have eq2: "(?H # us @ butlast (a # as)) @ ?r # ?s # tl (ws @ [?T]) =
      butlast (?H # us) @ ?p # a # (as @ ws @ [?T])"
    by (cases ws; cases as rule: rev_cases; cases us rule: rev_cases) simp_all
  have c: "chain (join ?r ?s h) (butlast (?H # us) @ ?p # a # (as @ ws @ [?T]))"
    using chain_cut(1) [of h "?H # us @ butlast (a # as)" ?r "[b]" ?s "tl (ws @ [?T])"] d
    unfolding dll_chain eq1 eq2 .
  have eq3: "butlast (?H # us) @ ?p # [b] @ a # (as @ ws @ [?T]) = nodes l (us @ b # a # as @ ws)"
    by (cases us rule: rev_cases) (simp_all add: nodes_def)
  have eq4: "set (butlast (?H # us) @ ?p # a # (as @ ws @ [?T])) = set (nodes l (us @ a # as @ ws))"
    by (cases us rule: rev_cases) (simp_all add: nodes_def)
  have "b \<notin> set (nodes l (us @ a # as @ ws))" "b \<noteq> 0"
    using d dis by (auto simp: nodes_def dll_def)
  then have "chain (join b a (join ?p b (join ?r ?s h))) (nodes l (us @ b # a # as @ ws))"
    using chain_paste [OF c, of "[b]"] unfolding eq3 eq4 by simp
  moreover have "framed h (join b a (join ?p b (join ?r ?s h))) ?S"
    by (intro framed_join framed_refl) (use mem in \<open>auto simp: nodes_def simp del: last.simps\<close>)
  ultimately show ?thesis using splice by (simp add: dll_chain)
qed

lemma end_of_run_loop_dll:
  "dll h l (us @ x # vs) \<Longrightarrow>
   end_of_run_loop lt h x (tail_of l) = Some (hd (drop (run_len lt x vs) vs @ [tail_of l]))"
proof (induction vs arbitrary: us x)
  case Nil
  then show ?case using dll_next(1) [OF Nil] by (subst end_of_run_loop.simps) simp
next
  case (Cons v vs)
  have d: "dll h l ((us @ [x]) @ v # vs)" using Cons.prems by simp
  have "list_next h x = Some v" "list_prev h v = Some x" "v \<noteq> tail_of l"
    using dll_next(1) [OF Cons.prems] dll_next(3) [OF d] dll_neq_tail [OF d] by simp_all
  then show ?case using Cons.IH [OF d] by (subst end_of_run_loop.simps) simp
qed

lemma find_end_of_run_dll:
  assumes "dll h l (us @ x # vs)"
  shows "find_end_of_run lt h x (tail_of l) = Some (hd (drop (run_len lt x vs) vs @ [tail_of l]))"
  using end_of_run_loop_dll [OF assms] dll_nodes(2,5) [OF assms] dll_neq_tail [OF assms]
  by (auto simp: find_end_of_run_def ASSERT_def)

lemma is_sorted_loop_dll:
  "dll h l (us @ x # ms @ vs) \<Longrightarrow>
   is_sorted_loop lt h x (hd (vs @ [tail_of l])) = Some (adj lt (x # ms))"
proof (induction ms arbitrary: us x)
  case Nil
  then show ?case using dll_next(1) [of h l us x vs] by (subst is_sorted_loop.simps) simp
next
  case (Cons m ms)
  have d: "dll h l ((us @ [x]) @ m # ms @ vs)" using Cons.prems by simp
  have "m \<noteq> hd (vs @ [tail_of l])"
    using dll_nodes(4,7) [OF d] by (cases vs) auto
  moreover have "list_next h x = Some m" "list_prev h m = Some x"
    using dll_next(1) [of h l us x "m # ms @ vs"] Cons.prems dll_next(3) [OF d] by simp_all
  ultimately show ?case using Cons.IH [OF d] by (subst is_sorted_loop.simps) simp
qed

lemma is_sorted_dll:
  assumes "dll h l (us @ ms @ vs)"
  shows "is_sorted lt h (hd (ms @ vs @ [tail_of l])) (hd (vs @ [tail_of l])) = Some (adj lt ms)"
proof (cases ms)
  case (Cons m ms')
  have d: "dll h l (us @ m # ms' @ vs)" using assms Cons by simp
  have "m \<noteq> hd (vs @ [tail_of l])" using dll_nodes(4,7) [OF d] by (cases vs) auto
  then show ?thesis using is_sorted_loop_dll [OF d] by (simp add: is_sorted_def Cons)
qed (simp add: is_sorted_def)

lemma merge_loop_dll:
  "dll h l (us @ as @ bs @ vs) \<Longrightarrow>
   \<exists>h'. merge_loop lt h (hd (as @ bs @ vs @ [tail_of l])) (hd (bs @ vs @ [tail_of l])) (hd (vs @ [tail_of l])) = Some h' \<and>
     dll h' l (us @ merge_runs lt as bs @ vs) \<and> framed h h' (set (nodes l (us @ as @ bs @ vs)))"
proof (induction lt as bs arbitrary: us h rule: merge_runs.induct)
  case (1 lt bs)
  then show ?case by (subst merge_loop.simps) simp
next
  case (2 lt a as)
  then show ?case by (subst merge_loop.simps) simp
next
  case (3 lt a as b bs)
  let ?T = "tail_of l"
  have d: "dll h l (us @ a # as @ b # bs @ vs)" using "3.prems" by simp
  have db: "dll h l ((us @ a # as) @ b # bs @ vs)" using d by simp
  have "b \<noteq> hd (vs @ [?T])" using dll_nodes(4,7) [OF d] by (cases vs) auto
  moreover have "a \<noteq> b" using dll_nodes(4) [OF d] by auto
  ultimately have go: "\<not> (a = b \<or> b = hd (vs @ [?T]))" by simp
  show ?case
  proof (cases "lt b a")
    case False
    have "list_next h a = Some (hd (as @ b # bs @ vs @ [?T]))" using dll_next(1) [OF d] by simp
    moreover obtain h' where "merge_loop lt h (hd (as @ (b # bs) @ vs @ [?T])) (hd ((b # bs) @ vs @ [?T])) (hd (vs @ [?T])) = Some h'"
      "dll h' l ((us @ [a]) @ merge_runs lt as (b # bs) @ vs)"
      "framed h h' (set (nodes l ((us @ [a]) @ as @ (b # bs) @ vs)))"
      using "3.IH"(1) [of h "us @ [a]"] False d by auto
    ultimately show ?thesis using go False by (subst merge_loop.simps) simp
  next
    case True
    have n: "list_next h b = Some (hd (bs @ vs @ [?T]))" "list_prev h (hd (bs @ vs @ [?T])) = Some b"
      using dll_next(1) [OF db] dll_prev_next [OF db] by simp_all
    obtain h1 where h1: "list_splice h a b (hd (bs @ vs @ [?T])) = Some h1"
      "dll h1 l (us @ b # a # as @ bs @ vs)" "framed h h1 (set (nodes l (us @ a # as @ b # bs @ vs)))"
      using list_splice_move [OF d] by auto
    obtain h' where h': "merge_loop lt h1 (hd ((a # as) @ bs @ vs @ [?T])) (hd (bs @ vs @ [?T])) (hd (vs @ [?T])) = Some h'"
      "dll h' l ((us @ [b]) @ merge_runs lt (a # as) bs @ vs)"
      "framed h1 h' (set (nodes l ((us @ [b]) @ (a # as) @ bs @ vs)))"
      using "3.IH"(2) [of h1 "us @ [b]"] True h1(2) by auto
    have "set (nodes l ((us @ [b]) @ (a # as) @ bs @ vs)) = set (nodes l (us @ a # as @ b # bs @ vs))"
      by (auto simp: nodes_def)
    then have "framed h h' (set (nodes l (us @ a # as @ b # bs @ vs)))"
      using framed_trans [OF h1(3)] h'(3) by simp
    then show ?thesis using go True n h1 h' by (subst merge_loop.simps) simp
  qed
qed

lemma inplace_merge_dll:
  assumes d: "dll h l (us @ (a # as) @ (b # bs) @ vs)" and "adj lt (a # as)" and "adj lt (b # bs)"
  shows "\<exists>h'. inplace_merge lt h a b (hd (vs @ [tail_of l])) = Some h' \<and>
     dll h' l (us @ merge_runs lt (a # as) (b # bs) @ vs) \<and>
     framed h h' (set (nodes l (us @ (a # as) @ (b # bs) @ vs)))"
proof -
  have s1: "is_sorted lt h a b = Some True"
    using is_sorted_dll [of h l us "a # as" "b # bs @ vs" lt] d assms(2) by simp
  have d2: "dll h l ((us @ a # as) @ (b # bs) @ vs)" using d by simp
  have s2: "is_sorted lt h b (hd (vs @ [tail_of l])) = Some True"
    using is_sorted_dll [OF d2, of lt] assms(3) by simp
  have nz: "a \<noteq> 0" "b \<noteq> 0" "hd (vs @ [tail_of l]) \<noteq> 0"
    using dll_nodes(2,5) [OF d] by (cases vs; auto)+
  show ?thesis
    using merge_loop_dll [OF d, of lt] s1 s2 nz
    by (simp add: inplace_merge_def del: merge_runs.simps)
qed

lemma sort_pass_dll:
  "dll h l (us @ vs) \<Longrightarrow>
   \<exists>h'. sort_pass lt h (tail_of l) (hd (vs @ [tail_of l])) cnt = Some (h', cnt + of_nat (snd (pass lt vs))) \<and>
     dll h' l (us @ fst (pass lt vs)) \<and> framed h h' (set (nodes l (us @ vs)))"
proof (induction lt vs arbitrary: us h cnt rule: pass.induct)
  case (1 lt)
  then show ?case by (subst sort_pass.simps) simp
next
  case (2 lt x vs)
  let ?T = "tail_of l"
  note d = "2.prems"
  have xT: "x \<noteq> ?T" using dll_neq_tail [OF d] .
  note f1 = find_end_of_run_dll [OF d, of lt]
  show ?case
  proof (cases "drop (run_len lt x vs) vs")
    case Nil
    then show ?thesis using f1 xT d by (subst sort_pass.simps) simp
  next
    case (Cons y ys)
    let ?as = "take (run_len lt x vs) vs" and ?bs = "take (run_len lt y ys) ys" and ?rest = "drop (run_len lt y ys) ys"
    have vs: "vs = ?as @ y # ys" using Cons by (metis append_take_drop_id)
    have ys: "ys = ?bs @ ?rest" by simp
    have split: "us @ x # vs = us @ (x # ?as) @ (y # ?bs) @ ?rest" using vs ys by simp
    have d1: "dll h l (us @ (x # ?as) @ (y # ?bs) @ ?rest)" using d split by metis
    have d2: "dll h l ((us @ x # ?as) @ y # ys)" using d vs by simp
    have yT: "y \<noteq> ?T" using dll_neq_tail [OF d2] .
    note f2 = find_end_of_run_dll [OF d2, of lt]
    obtain h1 where h1: "inplace_merge lt h x y (hd (?rest @ [?T])) = Some h1"
      "dll h1 l (us @ merge_runs lt (x # ?as) (y # ?bs) @ ?rest)"
      "framed h h1 (set (nodes l (us @ (x # ?as) @ (y # ?bs) @ ?rest)))"
      using inplace_merge_dll [OF d1 adj_run adj_run] by blast
    let ?m = "merge_runs lt (x # ?as) (y # ?bs)"
    obtain ws n where p: "pass lt ?rest = (ws, n)" by (rule prod.exhaust)
    have "dll h1 l ((us @ ?m) @ ?rest)" using h1(2) by simp
    from "2.IH" [OF Cons this, of "cnt + 1"] p obtain h2 where
      h2: "sort_pass lt h1 ?T (hd (?rest @ [?T])) (cnt + 1) = Some (h2, cnt + 1 + of_nat n)"
      "dll h2 l (us @ ?m @ ws)" "framed h1 h2 (set (nodes l ((us @ ?m) @ ?rest)))" by auto
    have "set (nodes l ((us @ ?m) @ ?rest)) = set (nodes l (us @ (x # ?as) @ (y # ?bs) @ ?rest))"
      unfolding nodes_def list.set set_append set_merge_runs by blast
    then have fr: "framed h h2 (set (nodes l (us @ x # vs)))"
      using framed_trans [OF h1(3)] h2(3) unfolding split by simp
    have ps: "pass lt (x # vs) = (?m @ ws, Suc n)" using Cons p by (simp del: merge_runs.simps)
    show ?thesis unfolding ps
      using h2 fr xT yT f1 f2 h1(1) Cons
      by (subst sort_pass.simps) (simp add: Let_def add.assoc del: merge_runs.simps)
  qed
qed

lemma dll_length: "dll h l xs \<Longrightarrow> length xs < 2 ^ 32"
proof -
  assume d: "dll h l xs"
  have "length (0 # xs) = card (set (0 # xs))"
    by (rule distinct_card [symmetric]) (use dll_nodes(4,5) [OF d] in simp)
  also have "\<dots> \<le> card (UNIV :: u32 set)" by (rule card_mono) simp_all
  finally show ?thesis by (simp add: card_word)
qed

lemma runs_le_length: "runs lt xs \<le> length xs"
proof -
  have "descents lt xs \<le> length xs - 1" for xs
    by (induction lt xs rule: descents.induct) auto
  from this [of xs] show ?thesis by (cases xs) (auto simp: runs_def)
qed

lemma sort_loop_dll:
  assumes "weak_order lt"
  shows "dll h l xs \<Longrightarrow>
    \<exists>h' ys. sort_loop lt h l = Some h' \<and> dll h' l ys \<and> mset ys = mset xs \<and> adj lt ys \<and>
      framed h h' (set (nodes l xs))"
proof (induction "runs lt xs" arbitrary: h xs rule: less_induct)
  case less
  let ?n = "snd (pass lt xs)" and ?ys = "fst (pass lt xs)"
  obtain h1 where h1: "sort_pass lt h (tail_of l) (hd (xs @ [tail_of l])) 0 = Some (h1, of_nat ?n)"
    "dll h1 l ?ys" "framed h h1 (set (nodes l xs))"
    using sort_pass_dll [of h l "[]" xs lt 0] less.prems by auto
  have n: "?n = (runs lt xs + 1) div 2" by (rule pass_count)
  have "?n < 2 ^ 32" using n runs_le_length [of lt xs] dll_length [OF less.prems] by linarith
  then have cnt: "(of_nat ?n :: u32) > 1 \<longleftrightarrow> ?n > 1"
    by (simp add: word_less_nat_alt unat_of_nat_small)
  note b = dll_begin [OF less.prems]
  show ?case
  proof (cases "?n > 1")
    case True
    have "runs lt ?ys < runs lt xs" using pass_runs [OF assms, of xs] n True by linarith
    from less.hyps [OF this h1(2)] obtain h2 ys where
      h2: "sort_loop lt h1 l = Some h2" "dll h2 l ys" "mset ys = mset ?ys" "adj lt ys"
        "framed h1 h2 (set (nodes l ?ys))" by blast
    have "set ?ys = set xs" using pass_mset [of lt xs] by (metis set_mset_mset)
    then have "framed h h2 (set (nodes l xs))"
      using framed_trans [OF h1(3)] h2(5) by (simp add: nodes_def)
    then show ?thesis using h1 h2 True cnt b pass_mset [of lt xs]
      by (subst sort_loop.simps) auto
  next
    case False
    then have "adj lt ?ys" using runs_1_adj pass_runs [OF assms, of xs] by simp
    then show ?thesis using h1 False cnt b pass_mset [of lt xs]
      by (subst sort_loop.simps) auto
  qed
qed

lemma list_sort_dll:
  assumes w: "weak_order lt" and d: "dll h l xs"
  shows "\<exists>h' ys. list_sort lt h l = Some h' \<and> dll h' l ys \<and> mset ys = mset xs \<and>
    sorted_wrt (\<lambda>x y. \<not> lt y x) ys \<and> framed h h' (set (nodes l xs))"
proof -
  obtain h' ys where s: "sort_loop lt h l = Some h'" "dll h' l ys" "mset ys = mset xs" "adj lt ys"
    "framed h h' (set (nodes l xs))" using sort_loop_dll [OF assms] by blast
  have "is_sorted lt h' (hd (ys @ [tail_of l])) (tail_of l) = Some True"
    using is_sorted_dll [of h' l "[]" ys "[]" lt] s by simp
  then have "list_sort lt h l = Some h'"
    using s dll_begin [OF s(2)] dll_nodes(1) [OF d] by (simp add: list_sort_def)
  then show ?thesis using s adj_sorted [OF w] by auto
qed

section \<open>Ordered insertion, extremal elements, duplicates\<close>

lemma find_larger_dll:
  "dll h l (us @ vs) \<Longrightarrow>
   find_larger lt h (tail_of l) e (hd (vs @ [tail_of l])) =
     Some (hd (dropWhile (\<lambda>x. \<not> lt e x) vs @ [tail_of l]))"
proof (induction vs arbitrary: us)
  case Nil
  then show ?case by (subst find_larger.simps) simp
next
  case (Cons v vs)
  have d: "dll h l ((us @ [v]) @ vs)" using Cons.prems by simp
  show ?case using Cons.IH [OF d] dll_next(1) [OF Cons.prems] dll_neq_tail [OF Cons.prems]
    by (subst find_larger.simps) simp
qed

lemma list_insert_ordered_dll:
  assumes d: "dll h l xs" and e: "e \<noteq> 0" "e \<notin> set (nodes l xs)"
  shows "\<exists>h'. list_insert_ordered lt h l e = Some h' \<and>
    dll h' l (takeWhile (\<lambda>x. \<not> lt e x) xs @ e # dropWhile (\<lambda>x. \<not> lt e x) xs) \<and>
    framed h h' (insert e (set (nodes l xs)))"
  using list_insert_dll [of h l "takeWhile (\<lambda>x. \<not> lt e x) xs" "dropWhile (\<lambda>x. \<not> lt e x) xs" e]
    find_larger_dll [of h l "[]" xs lt e] dll_begin [OF d] dll_nodes(1) [OF d] assms
  by (simp add: list_insert_ordered_def)

lemma best_loop_dll:
  "dll h l (us @ vs) \<Longrightarrow>
   best_loop better h (tail_of l) (hd (vs @ [tail_of l])) best =
     Some (foldl (\<lambda>b e. if better e b then e else b) best vs)"
proof (induction vs arbitrary: us best)
  case Nil
  then show ?case by (subst best_loop.simps) simp
next
  case (Cons v vs)
  have d: "dll h l ((us @ [v]) @ vs)" using Cons.prems by simp
  show ?case using Cons.IH [OF d] dll_next(1) [OF Cons.prems] dll_neq_tail [OF Cons.prems]
    by (subst best_loop.simps) (simp add: Let_def)
qed

lemma list_best_dll:
  assumes "dll h l (x # xs)"
  shows "list_best better h l = Some (foldl (\<lambda>b e. if better e b then e else b) x xs)"
  using best_loop_dll [of h l "[x]" xs better x] assms dll_begin [OF assms]
    dll_next(1) [of h l "[]" x xs] dll_neq_tail [of h l "[]" x xs]
  by (simp add: list_best_def)

text \<open>The first of the elements that no element beats.\<close>

lemma foldl_best:
  assumes asym: "\<And>x y. better x y \<Longrightarrow> \<not> better y x" and tr: "\<And>x y z. \<not> better y x \<Longrightarrow> \<not> better z y \<Longrightarrow> \<not> better z x"
  shows "\<exists>us vs. x # xs = us @ foldl (\<lambda>b e. if better e b then e else b) x xs # vs \<and>
    (\<forall>u\<in>set us. better (foldl (\<lambda>b e. if better e b then e else b) x xs) u) \<and>
    (\<forall>v\<in>set vs. \<not> better v (foldl (\<lambda>b e. if better e b then e else b) x xs))"
proof (induction xs rule: rev_induct)
  case Nil
  show ?case by (rule exI [of _ "[]"]) simp
next
  case (snoc e xs)
  let ?b = "foldl (\<lambda>b e. if better e b then e else b) x xs"
  from snoc obtain us vs where s: "x # xs = us @ ?b # vs" "\<forall>u\<in>set us. better ?b u"
    "\<forall>v\<in>set vs. \<not> better v ?b" by blast
  show ?case
  proof (cases "better e ?b")
    case True
    have "better e y" if "y \<in> set (x # xs)" for y
    proof (rule ccontr)
      assume n: "\<not> better e y"
      have "y \<in> set us \<or> y = ?b \<or> y \<in> set vs" using that unfolding s(1) by auto
      then have "\<not> better y ?b" using s(2,3) asym by blast
      from tr [OF this n] True show False by blast
    qed
    then show ?thesis using True by (intro exI [of _ "x # xs"] exI [of _ "[]"]) simp
  next
    case False
    then show ?thesis using s by (intro exI [of _ us] exI [of _ "vs @ [e]"]) auto
  qed
qed

text \<open>The elements \<open>list_unique\<close> keeps and those it moves to the list of duplicates.\<close>

fun uniq :: "less_func \<Rightarrow> u32 \<Rightarrow> u32 list \<Rightarrow> u32 list \<times> u32 list" where
  "uniq lt x [] = ([], [])"
| "uniq lt x (y # ys) =
     (if \<not> lt x y \<and> \<not> lt y x then (let (k, d) = uniq lt x ys in (k, y # d))
      else (let (k, d) = uniq lt y ys in (y # k, d)))"

definition dup_list :: "lheap \<Rightarrow> u32 \<Rightarrow> u32 list \<Rightarrow> u32 set \<Rightarrow> bool" where
  "dup_list h dup ds S \<longleftrightarrow> dup = 0 \<or> dll h dup ds \<and> set (nodes dup ds) \<inter> S = {}"

lemma unique_loop_dll:
  "dll h l (us @ x # vs) \<Longrightarrow> dup_list h dup ds (set (nodes l (us @ x # vs))) \<Longrightarrow>
   \<exists>h'. unique_loop lt h l dup x = Some h' \<and> dll h' l (us @ x # fst (uniq lt x vs)) \<and>
     dup_list h' dup (ds @ snd (uniq lt x vs)) (set (nodes l (us @ x # fst (uniq lt x vs))))"
proof (induction vs arbitrary: h us x ds)
  case Nil
  then show ?case using dll_next(1) [OF Nil(1)] dll_begin(3) [OF Nil(1)]
    by (subst unique_loop.simps) simp
next
  case (Cons y ys)
  note d = Cons.prems(1)
  have dy: "dll h l ((us @ [x]) @ y # ys)" using d by simp
  have next_y: "list_next h x = Some y" "y \<noteq> tail_of l"
    using dll_next(1) [OF d] dll_neq_tail [OF dy] by simp_all
  obtain k u where u: "uniq lt x ys = (k, u)" by (rule prod.exhaust)
  obtain k' u' where u': "uniq lt y ys = (k', u')" by (rule prod.exhaust)
  show ?case
  proof (cases "\<not> lt x y \<and> \<not> lt y x")
    case True
    obtain h1 r where h1: "list_remove h y = Some (h1, r)" "dll h1 l (us @ x # ys)"
      "framed h h1 (set (nodes l (us @ x # ys)))"
      using list_remove_dll [OF dy] by auto
    have y: "y \<noteq> 0" "y \<notin> set (nodes l (us @ x # ys))" using dy by (auto simp: dll_def nodes_def)
    have sub: "set (nodes l (us @ x # ys)) \<subseteq> set (nodes l (us @ x # y # ys))" "y \<in> set (nodes l (us @ x # y # ys))"
      by (auto simp: nodes_def)
    have "\<exists>h2. (if dup \<noteq> 0 then list_push_back h1 dup y else Some h1) = Some h2 \<and> dll h2 l (us @ x # ys) \<and>
        dup_list h2 dup (ds @ [y]) (set (nodes l (us @ x # ys)))"
    proof (cases "dup = 0")
      case False
      then have dd: "dll h dup ds" "set (nodes dup ds) \<inter> set (nodes l (us @ x # y # ys)) = {}"
        using Cons.prems(2) by (auto simp: dup_list_def)
      then have "dll h1 dup ds" using h1(3) sub(1) unfolding framed_def by blast
      moreover have "y \<notin> set (nodes dup ds)" using dd(2) sub(2) by blast
      ultimately obtain h2 where h2: "list_push_back h1 dup y = Some h2" "dll h2 dup (ds @ [y])"
        "framed h1 h2 (insert y (set (nodes dup ds)))" using list_push_back_dll y(1) by blast
      have "dll h2 l (us @ x # ys)" using h2(3) h1(2) dd(2) sub(1) y(2) unfolding framed_def by blast
      moreover have "set (nodes dup (ds @ [y])) \<inter> set (nodes l (us @ x # ys)) = {}"
        using dd(2) sub(1) y(2) kl.used_nodes_append [of dup ds "[y]"] by auto
      ultimately show ?thesis using h2 False by (simp add: dup_list_def)
    qed (use h1(2) in \<open>simp add: dup_list_def\<close>)
    then obtain h2 where h2: "(if dup \<noteq> 0 then list_push_back h1 dup y else Some h1) = Some h2"
      "dll h2 l (us @ x # ys)" "dup_list h2 dup (ds @ [y]) (set (nodes l (us @ x # ys)))" by blast
    show ?thesis using Cons.IH [OF h2(2,3)] next_y dll_begin(3) [OF d] True h1(1) h2(1) u
      by (subst unique_loop.simps) simp
  next
    case False
    have "dup_list h dup ds (set (nodes l ((us @ [x]) @ y # ys)))" using Cons.prems(2) by simp
    from Cons.IH [OF dy this] show ?thesis using next_y dll_begin(3) [OF d] False u'
      by (subst unique_loop.simps) auto
  qed
qed

lemma mset_uniq: "mset (fst (uniq lt x vs)) + mset (snd (uniq lt x vs)) = mset vs"
  by (induction lt x vs rule: uniq.induct) (auto split: prod.splits)

text \<open>No two neighbours of the result are equivalent.\<close>

lemma uniq_adjacent:
  "successively (\<lambda>a b. lt a b \<or> lt b a) (x # fst (uniq lt x vs))"
  by (induction lt x vs rule: uniq.induct) (auto split: prod.splits)

section \<open>Properties\<close>

text \<open>C10: \<open>list_sort\<close> returns for every well-formed list and every comparison that is a strict weak
  order: the list then holds the same elements in nondecreasing order, its links are well formed,
  and no other list is affected.\<close>

theorem list_sort_correct:
  assumes "weak_order lt" and "dll h l xs"
  shows "\<exists>h' ys. list_sort lt h l = Some h' \<and> dll h' l ys \<and> mset ys = mset xs \<and>
    sorted_wrt (\<lambda>x y. \<not> lt y x) ys \<and> framed h h' (set (nodes l xs))"
  using assms by (rule list_sort_dll)

text \<open>A list at \<open>0x1000\<close> with the elements \<open>0x30\<close>, \<open>0x10\<close>, \<open>0x20\<close>.\<close>

definition demo_heap :: lheap where
  "demo_heap = \<lparr>prv = (\<lambda>_. 0)(0x30 := 0x1000, 0x10 := 0x30, 0x20 := 0x10, 0x1008 := 0x20),
     nxt = (\<lambda>_. 0)(0x1000 := 0x30, 0x30 := 0x10, 0x10 := 0x20, 0x20 := 0x1008)\<rparr>"

lemma demo_dll: "dll demo_heap 0x1000 [0x30, 0x10, 0x20]"
  by (simp add: dll_def nodes_def head_of_def tail_of_def demo_heap_def)

lemma weak_order_less: "weak_order (<)"
  by (auto simp: weak_order_def)

theorem list_sort_correct_witness:
  "\<exists>h' ys. list_sort (<) demo_heap 0x1000 = Some h' \<and> dll h' 0x1000 ys \<and>
     mset ys = {#0x30, 0x10, 0x20#} \<and> sorted_wrt (\<lambda>x y. \<not> y < x) ys"
  using list_sort_correct [OF weak_order_less demo_dll] by auto


definition demo_heap2 :: lheap where
  "demo_heap2 = demo_heap\<lparr>prv := (prv demo_heap)(0x2008 := 0x2000), nxt := (nxt demo_heap)(0x2000 := 0x2008)\<rparr>"


text \<open>C23: \<open>list_max\<close> returns the first of the largest elements of a nonempty list, as its comment
  promises: every earlier element is smaller and no later one is larger.\<close>

theorem list_max_correct:
  assumes "weak_order lt" and "dll h l xs" and "xs \<noteq> []"
  shows "\<exists>us m vs. list_max lt h l = Some m \<and> xs = us @ m # vs \<and>
    (\<forall>u\<in>set us. lt u m) \<and> (\<forall>v\<in>set vs. \<not> lt m v)"
proof -
  obtain x xs' where xs: "xs = x # xs'" using assms(3) by (cases xs) auto
  have w: "\<And>x y. lt y x \<Longrightarrow> \<not> lt x y" "\<And>x y z. \<not> lt x y \<Longrightarrow> \<not> lt y z \<Longrightarrow> \<not> lt x z"
    using assms(1) unfolding weak_order_def by blast+
  show ?thesis
    using foldl_best [of "\<lambda>e b. lt b e" x xs'] w list_best_dll [of h l x xs' "\<lambda>e b. lt b e"] assms(2)
    unfolding list_max_def xs by blast
qed

theorem list_max_correct_witness:
  "\<exists>us m vs. list_max (<) demo_heap 0x1000 = Some m \<and> [0x30, 0x10, 0x20] = us @ m # vs \<and>
     (\<forall>v\<in>set vs. \<not> m < v)"
  using list_max_correct [OF weak_order_less demo_dll] by blast

text \<open>C24: The ready queue and the wait queues are first in, first out: appending elements to a list with
  \<open>list_push_back\<close> and taking them all with \<open>list_pop_front\<close> gives them back in order, behind what
  was there before, and leaves the list empty.\<close>

theorem list_fifo:
  assumes "dll h l xs" and "distinct es" and "0 \<notin> set es" and "set es \<inter> set (nodes l xs) = {}"
  shows "\<exists>h1 h2. foldM (\<lambda>e h. list_push_back h l e) es h = Some h1 \<and>
    pop_many list_pop_front (length xs + length es) h1 l = Some (h2, xs @ es) \<and> dll h2 l []"
  using assms by (rule kl.fifo)

theorem list_fifo_witness:
  "\<exists>h1 h2. foldM (\<lambda>e h. list_push_back h 0x1000 e) [0x50, 0x40] demo_heap = Some h1 \<and>
     pop_many list_pop_front 5 h1 0x1000 = Some (h2, [0x30, 0x10, 0x20, 0x50, 0x40])"
proof -
  have e: "length [0x30, 0x10, 0x20 :: u32] + length [0x50, 0x40 :: u32] = 5" by simp
  have "distinct [0x50, 0x40 :: u32]" "0 \<notin> set [0x50, 0x40 :: u32]"
    "set [0x50, 0x40] \<inter> set (nodes 0x1000 [0x30, 0x10, 0x20]) = {}"
    by (simp_all add: nodes_def head_of_def tail_of_def)
  from list_fifo [OF demo_dll this] show ?thesis unfolding e by auto
qed

text \<open>C25: \<open>list_splice\<close> moves the elements from one list into another, before a given position,
  keeping their order, and both lists are well formed afterwards.\<close>

theorem list_splice_correct:
  assumes "dll h l1 (us @ vs)" and "dll h l2 (ws @ ms @ zs)" and "ms \<noteq> []"
    and "set (nodes l1 (us @ vs)) \<inter> set (nodes l2 (ws @ ms @ zs)) = {}"
  shows "\<exists>h'. list_splice h (hd (vs @ [tail_of l1])) (hd ms) (hd (zs @ [tail_of l2])) = Some h' \<and>
    dll h' l1 (us @ ms @ vs) \<and> dll h' l2 (ws @ zs)"
proof -
  let ?A = "butlast (head_of l1 # us)" and ?p = "last (head_of l1 # us)"
  let ?b = "hd (vs @ [tail_of l1])" and ?V = "tl (vs @ [tail_of l1])"
  let ?W = "butlast (head_of l2 # ws)" and ?r = "last (head_of l2 # ws)"
  let ?s = "hd (zs @ [tail_of l2])" and ?Z = "tl (zs @ [tail_of l2])"
  have e: "nodes l1 (us @ ns @ vs) = ?A @ ?p # ns @ ?b # ?V" "nodes l2 (ws @ ns @ zs) = ?W @ ?r # ns @ ?s # ?Z" for ns
    by (cases us rule: rev_cases; cases vs; simp add: nodes_def)
      (cases ws rule: rev_cases; cases zs; simp add: nodes_def)
  have a: "chain h (?A @ ?p # ?b # ?V)" using assms(1) e(1) [of "[]"] unfolding dll_chain by simp
  have c: "chain h (?W @ ?r # ms @ ?s # ?Z)" using assms(2) unfolding dll_chain e(2) .
  have d: "set (?A @ ?p # ?b # ?V) \<inter> set (?W @ ?r # ms @ ?s # ?Z) = {}"
    using assms(4) e(1) [of "[]"] unfolding e(2) by simp
  obtain h' where h': "list_splice h ?b (hd ms) ?s = Some h'" "chain h' (?A @ ?p # ms @ ?b # ?V)"
    "chain h' (?W @ ?r # ?s # ?Z)" by (rule list_splice_chains [OF a c assms(3) d])
  have "dll h' l1 (us @ ms @ vs)" unfolding dll_chain e(1) by (rule h'(2))
  moreover have "dll h' l2 (ws @ zs)" using h'(3) e(2) [of "[]"] unfolding dll_chain by simp
  ultimately show ?thesis using h'(1) by blast
qed

theorem list_splice_correct_witness:
  "\<exists>h'. list_splice demo_heap2 0x2008 0x10 0x1008 = Some h' \<and> dll h' 0x2000 [0x10, 0x20] \<and> dll h' 0x1000 [0x30]"
proof -
  have "dll demo_heap2 0x2000 ([] @ [])" "dll demo_heap2 0x1000 ([0x30] @ [0x10, 0x20] @ [])"
    "set (nodes 0x2000 ([] @ [])) \<inter> set (nodes 0x1000 ([0x30] @ [0x10, 0x20] @ [])) = {}"
    by (simp_all add: dll_def nodes_def head_of_def tail_of_def demo_heap_def demo_heap2_def)
  from list_splice_correct [OF this(1,2) _ this(3)] show ?thesis by (simp add: tail_of_def)
qed

text \<open>C26: \<open>list_reverse\<close> leaves a well-formed list of the same elements in reverse order.\<close>

theorem list_reverse_correct:
  assumes "dll h l xs"
  shows "\<exists>h'. list_reverse h l = Some h' \<and> dll h' l (rev xs)"
  using assms by (rule list_reverse_dll)

theorem list_reverse_correct_witness:
  "\<exists>h'. list_reverse demo_heap 0x1000 = Some h' \<and> dll h' 0x1000 [0x20, 0x10, 0x30]"
  using list_reverse_correct [OF demo_dll] by simp

end
