(* ===== verification/Pagedir.thy ===== *)
theory Pagedir
  imports Palloc
begin

text \<open>
  \<open>userprog/pagedir.c\<close>: page directories and page tables in kernel memory. The
  state adds to the page allocator the page directory base register, the
  translation cache of the processor (emptied by every load of \<open>cr3\<close>), the boot
  page directory and the number of pages of memory. A page directory and a page
  table are pages of 1024 entries of four bytes.
\<close>

unbundle bit_operations_syntax

record vm =
  km :: kmem
  cr3 :: u32
  tlb :: "u32 \<rightharpoonup> u32"
  init_page_dir :: u32
  init_ram_pages :: u32

text \<open>The address of entry \<open>i\<close> of a table.\<close>

definition slot :: "u32 \<Rightarrow> u32 \<Rightarrow> u32" where
  "slot b i = b + 4 * i"

definition rd :: "vm \<Rightarrow> u32 \<Rightarrow> u32" where
  "rd st a = load32 (mem (km st)) a"

definition wr :: "u32 \<Rightarrow> u32 \<Rightarrow> vm \<Rightarrow> vm" where
  "wr a v st = st\<lparr>km := (km st)\<lparr>mem := store32 (mem (km st)) a v\<rparr>\<rparr>"

definition pagedir_create :: "tptr \<Rightarrow> vm \<Rightarrow> (vm \<times> u32) option" where
  "pagedir_create cur st = do {
     (k, pd) \<leftarrow> palloc_get_page cur (km st) 0;
     if pd \<noteq> 0 then do {
       (m, _) \<leftarrow> memcpy (mem k) pd (init_page_dir st) PGSIZE;
       Some (st\<lparr>km := k\<lparr>mem := m\<rparr>\<rparr>, pd) }
     else Some (st\<lparr>km := k\<rparr>, pd) }"

definition free_page :: "u32 \<Rightarrow> vm \<Rightarrow> vm option" where
  "free_page a st = do { k \<leftarrow> palloc_free_page (km st) a; Some (st\<lparr>km := k\<rparr>) }"

text \<open>
  The two loops of \<open>pagedir_destroy\<close>. The entries are read from memory as the
  loops advance, after the pages of earlier entries have been freed.
\<close>

definition destroy_pt :: "u32 \<Rightarrow> vm \<Rightarrow> vm option" where
  "destroy_pt pt st = foldM (\<lambda>i st.
     let pte = rd st (slot pt (of_nat i)) in
     if pte AND PTE_P \<noteq> 0 then do { page \<leftarrow> pte_get_page pte; free_page page st }
     else Some st) [0..<1024] st"

definition pagedir_destroy :: "u32 \<Rightarrow> vm \<Rightarrow> vm option" where
  "pagedir_destroy pd st =
     (if pd = 0 then Some st else do {
        ASSERT (pd \<noteq> init_page_dir st);
        st \<leftarrow> foldM (\<lambda>i st.
          let pde = rd st (slot pd (of_nat i)) in
          if pde AND PTE_P \<noteq> 0 then do {
            pt \<leftarrow> pde_get_pt pde;
            st \<leftarrow> destroy_pt pt st;
            free_page pt st }
          else Some st) [0..<unat (pd_no PHYS_BASE)] st;
        free_page pd st })"

text \<open>The entry's address, 0 for the null pointer.\<close>

definition lookup_page :: "tptr \<Rightarrow> u32 \<Rightarrow> u32 \<Rightarrow> bool \<Rightarrow> vm \<Rightarrow> (vm \<times> u32) option" where
  "lookup_page cur pd vaddr create st = do {
     ASSERT (pd \<noteq> 0);
     ASSERT (\<not> create \<or> is_user_vaddr vaddr);
     let pde = slot pd (pd_no vaddr);
     if rd st pde = 0 then
       (if create then do {
          (k, pt) \<leftarrow> palloc_get_page cur (km st) PAL_ZERO;
          let st = st\<lparr>km := k\<rparr>;
          if pt = 0 then Some (st, 0)
          else do {
            e \<leftarrow> pde_create pt;
            let st = wr pde e st;
            pt \<leftarrow> pde_get_pt (rd st pde);
            Some (st, slot pt (pt_no vaddr)) } }
        else Some (st, 0))
     else do {
       pt \<leftarrow> pde_get_pt (rd st pde);
       Some (st, slot pt (pt_no vaddr)) } }"

definition pagedir_set_page :: "tptr \<Rightarrow> u32 \<Rightarrow> u32 \<Rightarrow> u32 \<Rightarrow> bool \<Rightarrow> vm \<Rightarrow> (vm \<times> bool) option" where
  "pagedir_set_page cur pd upage kpage writable st = do {
     ASSERT (pg_ofs upage = 0);
     ASSERT (pg_ofs kpage = 0);
     ASSERT (is_user_vaddr upage);
     p \<leftarrow> vtop kpage;
     ASSERT (drop_bit PTSHIFT p < init_ram_pages st);
     ASSERT (pd \<noteq> init_page_dir st);
     (st, pte) \<leftarrow> lookup_page cur pd upage True st;
     if pte \<noteq> 0 then do {
       ASSERT (rd st pte AND PTE_P = 0);
       e \<leftarrow> pte_create_user kpage writable;
       Some (wr pte e st, True) }
     else Some (st, False) }"

definition pagedir_get_page :: "tptr \<Rightarrow> u32 \<Rightarrow> u32 \<Rightarrow> vm \<Rightarrow> u32 option" where
  "pagedir_get_page cur pd uaddr st = do {
     ASSERT (is_user_vaddr uaddr);
     (st, pte) \<leftarrow> lookup_page cur pd uaddr False st;
     if pte \<noteq> 0 \<and> rd st pte AND PTE_P \<noteq> 0 then do {
       page \<leftarrow> pte_get_page (rd st pte);
       Some (page + pg_ofs uaddr) }
     else Some 0 }"

definition pagedir_activate :: "u32 \<Rightarrow> vm \<Rightarrow> vm option" where
  "pagedir_activate pd st = do {
     p \<leftarrow> vtop (if pd = 0 then init_page_dir st else pd);
     Some (st\<lparr>cr3 := p, tlb := Map.empty\<rparr>) }"

definition active_pd :: "vm \<Rightarrow> u32 option" where
  "active_pd st = ptov (cr3 st)"

definition invalidate_pagedir :: "u32 \<Rightarrow> vm \<Rightarrow> vm option" where
  "invalidate_pagedir pd st = do {
     a \<leftarrow> active_pd st;
     if a = pd then pagedir_activate pd st else Some st }"

definition pagedir_clear_page :: "tptr \<Rightarrow> u32 \<Rightarrow> u32 \<Rightarrow> vm \<Rightarrow> vm option" where
  "pagedir_clear_page cur pd upage st = do {
     ASSERT (pg_ofs upage = 0);
     ASSERT (is_user_vaddr upage);
     (st, pte) \<leftarrow> lookup_page cur pd upage False st;
     if pte \<noteq> 0 \<and> rd st pte AND PTE_P \<noteq> 0
     then invalidate_pagedir pd (wr pte (rd st pte AND NOT PTE_P) st)
     else Some st }"

text \<open>
  The dirty and the accessed bit are handled alike; \<open>bit\<close> is \<open>PTE_D\<close> or
  \<open>PTE_A\<close>.
\<close>

definition pagedir_test_bit :: "u32 \<Rightarrow> tptr \<Rightarrow> u32 \<Rightarrow> u32 \<Rightarrow> vm \<Rightarrow> bool option" where
  "pagedir_test_bit b cur pd vpage st = do {
     (st, pte) \<leftarrow> lookup_page cur pd vpage False st;
     Some (pte \<noteq> 0 \<and> rd st pte AND b \<noteq> 0) }"

definition pagedir_put_bit :: "u32 \<Rightarrow> tptr \<Rightarrow> u32 \<Rightarrow> u32 \<Rightarrow> bool \<Rightarrow> vm \<Rightarrow> vm option" where
  "pagedir_put_bit b cur pd vpage v st = do {
     (st, pte) \<leftarrow> lookup_page cur pd vpage False st;
     if pte \<noteq> 0 then
       (if v then Some (wr pte (rd st pte OR b) st)
        else invalidate_pagedir pd (wr pte (rd st pte AND NOT b) st))
     else Some st }"

definition pagedir_is_dirty :: "tptr \<Rightarrow> u32 \<Rightarrow> u32 \<Rightarrow> vm \<Rightarrow> bool option" where
  "pagedir_is_dirty = pagedir_test_bit PTE_D"

definition pagedir_set_dirty :: "tptr \<Rightarrow> u32 \<Rightarrow> u32 \<Rightarrow> bool \<Rightarrow> vm \<Rightarrow> vm option" where
  "pagedir_set_dirty = pagedir_put_bit PTE_D"

definition pagedir_is_accessed :: "tptr \<Rightarrow> u32 \<Rightarrow> u32 \<Rightarrow> vm \<Rightarrow> bool option" where
  "pagedir_is_accessed = pagedir_test_bit PTE_A"

definition pagedir_set_accessed :: "tptr \<Rightarrow> u32 \<Rightarrow> u32 \<Rightarrow> bool \<Rightarrow> vm \<Rightarrow> vm option" where
  "pagedir_set_accessed = pagedir_put_bit PTE_A"

section \<open>Tables in memory\<close>

lemma aligned_bound: "pg_ofs b = 0 \<Longrightarrow> unat b + 4096 \<le> 2 ^ 32"
proof -
  assume "pg_ofs b = 0"
  then obtain k where "unat b = 4096 * k" unfolding pg_ofs_0_iff by (auto simp: dvd_def)
  then show ?thesis using u32_lt [of b] by (simp del: u32_lt)
qed

lemma unat_slot:
  assumes "pg_ofs b = 0" and "unat i < 1024"
  shows "unat (slot b i) = unat b + 4 * unat i"
proof -
  have "unat (4 * i) = 4 * unat i" using assms(2) by (subst unat_mult_small) simp_all
  moreover have "unat b + 4 * unat i < 2 ^ 32" using aligned_bound [OF assms(1)] assms(2) by linarith
  ultimately show ?thesis unfolding slot_def by (subst unat_add_small) simp_all
qed

lemma page_of_offset:
  assumes "pg_ofs b = 0" and "k < 4096" and "unat a = unat b + k"
  shows "unat a div 4096 = unat b div 4096" and "unat a mod 4096 = k"
  using assms by (auto simp: pg_ofs_0_iff)

lemma aligned_eq_iff: "pg_ofs b = 0 \<Longrightarrow> pg_ofs c = 0 \<Longrightarrow> b = c \<longleftrightarrow> unat b div 4096 = unat c div 4096"
  unfolding pg_ofs_0_iff by (auto simp: word_unat_eq_iff dvd_def)

lemma slot_inj:
  assumes "pg_ofs b = 0" and "pg_ofs c = 0" and "unat i < 1024" and "unat j < 1024"
  shows "slot b i = slot c j \<longleftrightarrow> b = c \<and> i = j"
proof
  assume "slot b i = slot c j"
  then have e: "unat (slot b i) = unat (slot c j)" by simp
  note p = page_of_offset [OF assms(1) _ unat_slot [OF assms(1,3)]]
    page_of_offset [OF assms(2) _ unat_slot [OF assms(2,4)]]
  have "unat b div 4096 = unat c div 4096" "4 * unat i = 4 * unat j"
    using p e assms(3,4) by auto
  then show "b = c \<and> i = j" using aligned_eq_iff [OF assms(1,2)] by (simp add: word_unat_eq_iff)
qed simp

lemma aligned4_iff: "aligned4 a \<longleftrightarrow> unat a mod 4 = 0"
proof -
  have "a AND 3 = take_bit 2 a" by (simp add: take_bit_eq_mask mask_eq_exp_minus_1)
  then have "unat (a AND 3) = unat a mod 4" by (simp add: take_bit_eq_mod unat_mod)
  then show ?thesis by (simp add: aligned4_def word_unat_eq_iff)
qed

lemma aligned4_slot: "pg_ofs b = 0 \<Longrightarrow> unat i < 1024 \<Longrightarrow> aligned4 (slot b i)"
  unfolding aligned4_iff by (auto simp: unat_slot pg_ofs_0_iff dvd_def)

lemma rd_wr:
  assumes "pg_ofs b = 0" and "pg_ofs c = 0" and "unat i < 1024" and "unat j < 1024"
  shows "rd (wr (slot b i) v st) (slot c j) = (if b = c \<and> i = j then v else rd st (slot c j))"
  using load32_store32_aligned [OF aligned4_slot [OF assms(1,3)] aligned4_slot [OF assms(2,4)]]
    slot_inj [OF assms] by (auto simp: rd_def wr_def)

lemma wr_simps [simp]:
  "kmem_inv (km (wr a v st)) = kmem_inv (km st)" "live (km (wr a v st)) = live (km st)"
  "init_page_dir (wr a v st) = init_page_dir st" "cr3 (wr a v st) = cr3 st"
  "init_ram_pages (wr a v st) = init_ram_pages st" "tlb (wr a v st) = tlb st"
  by (simp_all add: wr_def live_def fun_eq_iff)

lemma live_page:
  assumes "kmem_inv st" and "live st a"
  shows "pg_ofs a = 0" and "is_kernel_vaddr a" and "a \<noteq> 0"
proof -
  obtain f i where i: "i < length (used (get_pool f st))" "a = page_addr (get_pool f st) i"
    using assms(2) unfolding live_iff by blast
  have "i \<le> unat (bit_cnt (used_map (get_pool f st)))" using i(1) by simp
  from page_addr_props [OF get_pool_inv [OF assms(1)] this] i(2)
  show "pg_ofs a = 0" "is_kernel_vaddr a" "a \<noteq> 0" by (auto simp: is_kernel_vaddr_def)
qed

text \<open>What obtaining a page does to memory.\<close>

lemma get_page_mem:
  assumes "kmem_inv k" and "cur \<noteq> 0" and r: "palloc_get_page cur k flags = Some (k', a)" and "a \<noteq> 0"
  shows "mem k' x = (if flag flags PAL_ZERO \<and> unat x \<in> {unat a..<unat a + 4096} then 0 else mem k x)"
proof -
  have one: "(1 :: u32) \<noteq> 0" by simp
  obtain i where i: "a = page_addr (get_pool flags k) i" "took flags k i (unat (1 :: u32)) k'"
    "mem k' = (if flag flags PAL_ZERO then fill (unat (PGSIZE * 1)) (mem k) a 0 else mem k)"
    by (rule palloc_get_some [OF assms(1,2) one r [unfolded palloc_get_page_def] assms(4)])
  have le: "i + unat (1 :: u32) \<le> unat (bit_cnt (used_map (get_pool flags k)))"
    using took_props(2) [OF assms(1) i(2)] by (simp add: run_at_def)
  from fill_pages [OF get_pool_inv [OF assms(1)] le, of "mem k" 0 x] i(1,3) show ?thesis by auto
qed

lemma load_slot_cong:
  assumes "pg_ofs b = 0" and "unat i < 1024"
    and "\<And>x. unat x \<in> {unat b..<unat b + 4096} \<Longrightarrow> m x = m' x"
  shows "load32 m (slot b i) = load32 m' (slot b i)"
proof (rule load32_cong, rule assms(3))
  fix k :: u32 assume k: "k < 4"
  have "unat (slot b i) + unat k < 2 ^ 32"
    using aligned_bound [OF assms(1)] assms(2) k by (simp add: unat_slot [OF assms(1,2)] word_less_nat_alt)
  then have "unat (slot b i + k) = unat b + 4 * unat i + unat k"
    by (subst unat_add_small) (simp_all add: unat_slot [OF assms(1,2)])
  then show "unat (slot b i + k) \<in> {unat b..<unat b + 4096}" using k assms(2) by (simp add: word_less_nat_alt)
qed

lemma get_page_slots:
  assumes "kmem_inv k" and "cur \<noteq> 0" and "palloc_get_page cur k flags = Some (k', a)" and "a \<noteq> 0"
    and "unat i < 1024"
  shows "pg_ofs b = 0 \<Longrightarrow> b \<noteq> a \<Longrightarrow> load32 (mem k') (slot b i) = load32 (mem k) (slot b i)"
    and "flag flags PAL_ZERO \<Longrightarrow> load32 (mem k') (slot a i) = 0"
proof -
  note m = get_page_mem [OF assms(1-4)]
  have al: "pg_ofs a = 0" using live_page(1) pg.get_inv [OF assms(1-3)] pg.get_fresh [OF assms(1-4)] by blast
  show "load32 (mem k') (slot b i) = load32 (mem k) (slot b i)" if b: "pg_ofs b = 0" "b \<noteq> a"
  proof (rule load_slot_cong [OF b(1) assms(5)])
    fix x :: u32 assume x: "unat x \<in> {unat b..<unat b + 4096}"
    obtain p q where pq: "unat a = 4096 * p" "unat b = 4096 * q"
      using al b(1) unfolding pg_ofs_0_iff dvd_def by blast
    then have "p \<noteq> q" using b(2) by (auto simp: word_unat_eq_iff)
    then have "p < q \<or> q < p" by linarith
    then have "unat x \<notin> {unat a..<unat a + 4096}" using x unfolding pq atLeastLessThan_iff by linarith
    then show "mem k' x = mem k x" by (auto simp: m)
  qed
  show "load32 (mem k') (slot a i) = 0" if z: "flag flags PAL_ZERO"
  proof -
    have "load32 (mem k') (slot a i) = load32 (\<lambda>_. 0) (slot a i)"
      by (rule load_slot_cong [OF al assms(5)]) (simp add: m z)
    then show ?thesis by (simp add: load32_def)
  qed
qed

section \<open>Well-formed page directories\<close>

text \<open>
  The directory and the tables of its user half are distinct live pages. The
  user half has \<open>pd_no PHYS_BASE\<close> = 768 entries.
\<close>

definition pd_ok :: "vm \<Rightarrow> u32 \<Rightarrow> bool" where
  "pd_ok st pd \<longleftrightarrow> kmem_inv (km st) \<and> live (km st) pd \<and>
     (\<forall>i<768. rd st (slot pd i) \<noteq> 0 \<longrightarrow>
        (\<exists>pt. pde_get_pt (rd st (slot pd i)) = Some pt \<and> live (km st) pt \<and> pt \<noteq> pd)) \<and>
     (\<forall>i<768. \<forall>j<768. i \<noteq> j \<longrightarrow> rd st (slot pd i) \<noteq> 0 \<longrightarrow> rd st (slot pd j) \<noteq> 0 \<longrightarrow>
        pde_get_pt (rd st (slot pd i)) \<noteq> pde_get_pt (rd st (slot pd j)))"

text \<open>The page table entry of a user address, if it has a page table.\<close>

definition pte_at :: "vm \<Rightarrow> u32 \<Rightarrow> u32 \<Rightarrow> u32 option" where
  "pte_at st pd va =
     (let e = rd st (slot pd (pd_no va)) in
      if e = 0 then None
      else map_option (\<lambda>pt. rd st (slot pt (pt_no va))) (pde_get_pt e))"

lemma user_pd_no: "is_user_vaddr va \<Longrightarrow> pd_no va < 768"
  unfolding is_user_vaddr_def word_less_nat_alt unat_pd_no by (simp add: PHYS_BASE_def div_less_mono)

lemma unat_pd_no_lt: "i < (768 :: u32) \<Longrightarrow> unat i < 1024"
  by (simp add: word_less_nat_alt)

lemma unat_pt_no_lt [simp]: "unat (pt_no va) < 1024"
  by (simp add: unat_pt_no)

lemma div_mod_eq_iff: "a div n = b div n \<and> a mod n = b mod n \<longleftrightarrow> a = (b :: nat)"
  by (metis div_mult_mod_eq)

lemma same_page_iff:
  assumes "pg_ofs up = 0"
  shows "pd_no va = pd_no up \<and> pt_no va = pt_no up \<longleftrightarrow> pg_round_down va = up"
proof -
  have q: "unat x div 4194304 = unat x div 4096 div 1024" for x :: u32
    by (simp add: div_mult2_eq [symmetric])
  have "pd_no va = pd_no up \<and> pt_no va = pt_no up \<longleftrightarrow> unat va div 4096 = unat up div 4096"
    unfolding word_unat_eq_iff unat_pd_no unat_pt_no q by (rule div_mod_eq_iff)
  moreover have "pg_round_down va = up \<longleftrightarrow> unat va div 4096 = unat up div 4096"
  proof -
    have "unat va - unat va mod 4096 = 4096 * (unat va div 4096)" by (simp add: minus_mod_eq_mult_div)
    moreover have "unat up = 4096 * (unat up div 4096)" using assms by (simp add: pg_ofs_0_iff)
    ultimately show ?thesis unfolding word_unat_eq_iff unat_pg_round_down by auto
  qed
  ultimately show ?thesis by simp
qed

lemma pd_ok_table:
  assumes "pd_ok st pd" and "is_user_vaddr va" and "rd st (slot pd (pd_no va)) \<noteq> 0"
  obtains pt where "pde_get_pt (rd st (slot pd (pd_no va))) = Some pt" "live (km st) pt" "pt \<noteq> pd"
    "pg_ofs pt = 0" "pg_ofs pd = 0" "pt \<noteq> 0" "slot pt (pt_no va) \<noteq> 0"
proof -
  from assms user_pd_no [OF assms(2)] obtain pt where pt:
    "pde_get_pt (rd st (slot pd (pd_no va))) = Some pt" "live (km st) pt" "pt \<noteq> pd"
    unfolding pd_ok_def by blast
  have "kmem_inv (km st)" "live (km st) pd" using assms(1) by (auto simp: pd_ok_def)
  with live_page pt(2) have l: "pg_ofs pt = 0" "pg_ofs pd = 0" "pt \<noteq> 0" by blast+
  then have "unat (slot pt (pt_no va)) \<noteq> 0" by (simp add: unat_slot unat_eq_zero)
  then have "slot pt (pt_no va) \<noteq> 0" by (metis unat_0)
  with pt l show ?thesis using that by blast
qed

lemma get_page_pte:
  assumes ok: "pd_ok st pd" and u: "is_user_vaddr ua"
  shows "pagedir_get_page cur pd ua st =
    (case pte_at st pd ua of
       None \<Rightarrow> Some 0
     | Some pte \<Rightarrow> if pte AND PTE_P \<noteq> 0 then map_option (\<lambda>p. p + pg_ofs ua) (pte_get_page pte) else Some 0)"
proof -
  have nz: "pd \<noteq> 0" using ok live_page(3) by (auto simp: pd_ok_def)
  show ?thesis
  proof (cases "rd st (slot pd (pd_no ua)) = 0")
    case True
    then show ?thesis using u nz by (simp add: pagedir_get_page_def lookup_page_def pte_at_def)
  next
    case False
    obtain pt where pt: "pde_get_pt (rd st (slot pd (pd_no ua))) = Some pt" "slot pt (pt_no ua) \<noteq> 0"
      by (rule pd_ok_table [OF ok u False])
    then show ?thesis using False u nz
      by (cases "pte_get_page (rd st (slot pt (pt_no ua)))")
        (simp_all add: pagedir_get_page_def lookup_page_def pte_at_def Let_def)
  qed
qed

lemma pd_okD:
  assumes "pd_ok st pd"
  shows "kmem_inv (km st)" and "live (km st) pd"
    and "i < 768 \<Longrightarrow> rd st (slot pd i) \<noteq> 0 \<Longrightarrow>
      \<exists>pt. pde_get_pt (rd st (slot pd i)) = Some pt \<and> live (km st) pt \<and> pt \<noteq> pd"
    and "i < 768 \<Longrightarrow> j < 768 \<Longrightarrow> i \<noteq> j \<Longrightarrow> rd st (slot pd i) \<noteq> 0 \<Longrightarrow> rd st (slot pd j) \<noteq> 0 \<Longrightarrow>
      pde_get_pt (rd st (slot pd i)) \<noteq> pde_get_pt (rd st (slot pd j))"
  using assms by (simp_all add: pd_ok_def)

lemma lookup_existing:
  assumes ok: "pd_ok st pd" and u: "is_user_vaddr va" and nz: "rd st (slot pd (pd_no va)) \<noteq> 0"
    and pt: "pde_get_pt (rd st (slot pd (pd_no va))) = Some pt"
  shows "lookup_page cur pd va create st = Some (st, slot pt (pt_no va))"
proof -
  have "pd \<noteq> 0" using ok live_page(3) by (auto simp: pd_ok_def)
  with u nz pt show ?thesis by (simp add: lookup_page_def)
qed

text \<open>Writing one entry of a page table of the directory.\<close>

lemma wr_pte:
  fixes v
  assumes ok: "pd_ok st pd" and u: "is_user_vaddr va" and nz: "rd st (slot pd (pd_no va)) \<noteq> 0"
    and pt: "pde_get_pt (rd st (slot pd (pd_no va))) = Some pt"
  defines "st' \<equiv> wr (slot pt (pt_no va)) v st"
  shows "pd_ok st' pd"
    and "is_user_vaddr ua \<Longrightarrow> pte_at st' pd ua =
      (if pd_no ua = pd_no va \<and> pt_no ua = pt_no va then Some v else pte_at st pd ua)"
proof -
  have l: "live (km st) pt" "pt \<noteq> pd" "pg_ofs pt = 0" "pg_ofs pd = 0"
    using pd_ok_table [OF ok u nz] pt by (metis option.inject)+
  have dir: "rd st' (slot pd i) = rd st (slot pd i)" if "i < 768" for i
    using rd_wr [OF l(3,4) _ unat_pd_no_lt [OF that]] l(2) unfolding st'_def by simp
  show "pd_ok st' pd" using ok unfolding pd_ok_def by (simp add: dir) (simp add: st'_def)
  show "pte_at st' pd ua = (if pd_no ua = pd_no va \<and> pt_no ua = pt_no va then Some v else pte_at st pd ua)"
    if ua: "is_user_vaddr ua"
  proof (cases "rd st (slot pd (pd_no ua)) = 0")
    case True
    then show ?thesis using nz by (auto simp: pte_at_def Let_def dir [OF user_pd_no [OF ua]])
  next
    case False
    obtain pt' where pt': "pde_get_pt (rd st (slot pd (pd_no ua))) = Some pt'" "pg_ofs pt' = 0"
      by (rule pd_ok_table [OF ok ua False])
    have "pt' = pt \<longleftrightarrow> pd_no ua = pd_no va"
      using ok user_pd_no [OF ua] user_pd_no [OF u] False nz pt' pt unfolding pd_ok_def by force
    moreover have "rd st' (slot pt' (pt_no ua)) =
        (if pt = pt' \<and> pt_no va = pt_no ua then v else rd st (slot pt' (pt_no ua)))"
      unfolding st'_def by (rule rd_wr [OF l(3) pt'(2)]) simp_all
    ultimately show ?thesis using False pt'
      by (auto simp: pte_at_def Let_def dir [OF user_pd_no [OF ua]])
  qed
qed

text \<open>Creating a page table on demand.\<close>

lemma lookup_create:
  assumes ok: "pd_ok st pd" and cur: "cur \<noteq> 0" and u: "is_user_vaddr va"
    and z: "rd st (slot pd (pd_no va)) = 0"
    and r: "lookup_page cur pd va True st = Some (st', p)"
  obtains "p = 0" "pd_ok st' pd" "\<And>ua. pte_at st' pd ua = pte_at st pd ua" "init_page_dir st' = init_page_dir st"
    | pt where "p = slot pt (pt_no va)" "p \<noteq> 0" "pd_ok st' pd"
      "rd st' (slot pd (pd_no va)) \<noteq> 0" "pde_get_pt (rd st' (slot pd (pd_no va))) = Some pt"
      "\<And>ua. is_user_vaddr ua \<Longrightarrow>
        pte_at st' pd ua = (if pd_no ua = pd_no va then Some 0 else pte_at st pd ua)"
      "init_page_dir st' = init_page_dir st"
proof -
  let ?i = "pd_no va"
  have inv: "kmem_inv (km st)" and pl: "live (km st) pd" using ok by (auto simp: pd_ok_def)
  have pd: "pd \<noteq> 0" "pg_ofs pd = 0" using live_page [OF inv pl] by simp_all
  obtain k pt where g: "palloc_get_page cur (km st) PAL_ZERO = Some (k, pt)"
    using r z u pd by (auto simp: lookup_page_def Let_def split: bind_splits)
  show ?thesis
  proof (cases "pt = 0")
    case True
    then have st': "p = 0" "st' = st\<lparr>km := k\<rparr>" using r z u pd g by (simp_all add: lookup_page_def)
    obtain n where k: "k = (km st)\<lparr>nextfitStart := n\<rparr>"
      using palloc_get_null [OF inv cur g [unfolded palloc_get_page_def]] True by blast
    have e: "rd st' a = rd st a" for a by (simp add: st' k rd_def)
    have "live (km st') = live (km st)" "kmem_inv (km st') = kmem_inv (km st)"
      by (simp_all add: st' k live_def fun_eq_iff)
    then have "pd_ok st' pd" using ok by (simp add: pd_ok_def e)
    moreover have "pte_at st' pd ua = pte_at st pd ua" for ua by (simp add: pte_at_def e Let_def)
    ultimately show ?thesis using that(1) st' by simp
  next
    case False
    note f = pg.get_fresh [OF inv cur g False]
    note inv' = pg.get_inv [OF inv cur g]
    note keep = pg.get_keeps [OF inv cur g]
    note sl = get_page_slots [OF inv cur g False]
    have lp: "pg_ofs pt = 0" "is_kernel_vaddr pt" using live_page [OF inv'] f by blast+
    obtain e where e: "pde_create pt = Some e" "pde_get_pt e = Some pt" "e \<noteq> 0" using pde_ok [OF lp(2,1)] by blast
    define st1 where "st1 = st\<lparr>km := k\<rparr>"
    define st2 where "st2 = wr (slot pd ?i) e st1"
    have ptpd: "pt \<noteq> pd" using f pl by auto
    note i768 = user_pd_no [OF u] and i1024 = unat_pd_no_lt [OF user_pd_no [OF u]]
    have zf: "flag PAL_ZERO PAL_ZERO" by (simp add: flag_def PAL_ZERO_def)
    have rd2: "rd st2 (slot b j) = (if b = pd \<and> j = ?i then e else if b = pt then 0 else rd st (slot b j))"
      if "pg_ofs b = 0" "unat j < 1024" for b j
      using rd_wr [OF pd(2) that(1) i1024 that(2), of e st1] sl [OF that(2)] that ptpd zf
      by (auto simp: st2_def st1_def rd_def)
    have res: "rd st2 (slot pd ?i) = e" using rd2 [OF pd(2) i1024] by simp
    have w: "wr (slot pd ?i) e (st\<lparr>km := k\<rparr>) = st2" by (simp add: st2_def st1_def)
    have "lookup_page cur pd va True st = Some (st2, slot pt (pt_no va))"
      using u pd(1) False by (simp add: lookup_page_def z g e(1,2) w res)
    then have st': "p = slot pt (pt_no va)" "st' = st2" using r by simp_all
    have live2: "live (km st2) = live k" "kmem_inv (km st2)" using inv' by (simp_all add: st2_def st1_def)
    have dir: "rd st2 (slot pd j) = (if j = ?i then e else rd st (slot pd j))" if "j < 768" for j
      using rd2 [OF pd(2) unat_pd_no_lt [OF that]] ptpd by simp
    have others: "pde_get_pt (rd st (slot pd j)) \<noteq> Some pt" if "j < 768" "rd st (slot pd j) \<noteq> 0" for j
      using pd_okD(3) [OF ok that] f by auto
    have "pd_ok st2 pd" unfolding pd_ok_def
    proof (intro conjI allI impI)
      show "kmem_inv (km st2)" by (rule live2)
      show "live (km st2) pd" using keep [OF pl] by (simp add: live2)
      fix j assume j: "j < (768 :: u32)" "rd st2 (slot pd j) \<noteq> 0"
      show "\<exists>pt. pde_get_pt (rd st2 (slot pd j)) = Some pt \<and> live (km st2) pt \<and> pt \<noteq> pd"
      proof (cases "j = ?i")
        case True
        then show ?thesis using e f ptpd by (simp add: res live2)
      next
        case False
        then have "rd st2 (slot pd j) = rd st (slot pd j)" using dir [OF j(1)] by simp
        then show ?thesis using pd_okD(3) [OF ok j(1)] j(2) keep by (auto simp: live2)
      qed
    next
      fix i j assume ij: "i < (768 :: u32)" "j < (768 :: u32)" "i \<noteq> j"
        "rd st2 (slot pd i) \<noteq> 0" "rd st2 (slot pd j) \<noteq> 0"
      then show "pde_get_pt (rd st2 (slot pd i)) \<noteq> pde_get_pt (rd st2 (slot pd j))"
        using others [of i] others [of j] e(2) pd_okD(4) [OF ok ij(1-3)]
        by (simp add: dir split: if_splits)
    qed
    moreover have "pte_at st2 pd ua = (if pd_no ua = ?i then Some 0 else pte_at st pd ua)"
      if ua: "is_user_vaddr ua" for ua
    proof (cases "pd_no ua = ?i")
      case True
      then show ?thesis using e rd2 [OF lp(1) unat_pt_no_lt] ptpd by (simp add: pte_at_def Let_def res)
    next
      case False
      have d: "rd st2 (slot pd (pd_no ua)) = rd st (slot pd (pd_no ua))"
        using dir [OF user_pd_no [OF ua]] False by simp
      show ?thesis
      proof (cases "rd st (slot pd (pd_no ua)) = 0")
        case True
        then show ?thesis using False by (simp add: pte_at_def d)
      next
        case nz: False
        obtain pt' where pt': "pde_get_pt (rd st (slot pd (pd_no ua))) = Some pt'" "pg_ofs pt' = 0" "pt' \<noteq> pd"
          by (rule pd_ok_table [OF ok ua nz])
        have "pt' \<noteq> pt" using others [OF user_pd_no [OF ua] nz] pt'(1) by auto
        then show ?thesis using False nz pt' rd2 [OF pt'(2) unat_pt_no_lt] by (simp add: pte_at_def d Let_def)
      qed
    qed
    moreover have "slot pt (pt_no va) \<noteq> 0"
    proof -
      have "pt \<noteq> 0" by (rule False)
      then have "unat (slot pt (pt_no va)) \<noteq> 0" using lp(1) by (simp add: unat_slot unat_eq_zero)
      then show ?thesis by (metis unat_0)
    qed
    moreover have "init_page_dir st2 = init_page_dir st" by (simp add: st2_def st1_def)
    ultimately show ?thesis using that(2) [of pt] st' e res by simp
  qed
qed

section \<open>Properties\<close>

lemma set_page_effect:
  assumes "pd_ok st pd" and "cur \<noteq> 0"
    and "pagedir_set_page cur pd upage kpage writable st = Some (st', ok)"
  shows "pd_ok st' pd \<and> (\<forall>ua. is_user_vaddr ua \<longrightarrow>
    pagedir_get_page cur pd ua st' =
      (if ok \<and> pg_round_down ua = upage then Some (kpage + pg_ofs ua) else pagedir_get_page cur pd ua st))"
proof -
  have u: "is_user_vaddr upage" "pg_ofs upage = 0" "pg_ofs kpage = 0" "is_kernel_vaddr kpage"
    using assms(3) by (auto simp: pagedir_set_page_def vtop_def split: bind_splits)
  obtain e where e: "pte_create_user kpage writable = Some e" "pte_get_page e = Some kpage" "e AND PTE_P \<noteq> 0"
    using pte_user_ok [OF u(4,3), of writable] by blast
  obtain st1 p where l: "lookup_page cur pd upage True st = Some (st1, p)"
    using assms(3) by (auto simp: pagedir_set_page_def split: bind_splits)
  have st': "if p \<noteq> 0 then rd st1 p AND PTE_P = 0 \<and> st' = wr p e st1 \<and> ok else st' = st1 \<and> \<not> ok"
    using assms(3) l e(1) by (auto simp: pagedir_set_page_def split: bind_splits if_splits)
  note same = same_page_iff [OF u(2)]
  have "pd_ok st' pd \<and> (\<forall>ua. is_user_vaddr ua \<longrightarrow>
      (if ok \<and> pg_round_down ua = upage then pte_at st' pd ua = Some e
       else pte_at st' pd ua = pte_at st pd ua \<or> pte_at st' pd ua = Some 0 \<and> pte_at st pd ua = None))"
  proof (cases "rd st (slot pd (pd_no upage)) = 0")
    case True
    show ?thesis
    proof (cases rule: lookup_create [OF assms(1,2) u(1) True l])
      case 1
      then show ?thesis using st' by simp
    next
      case (2 pt)
      have w: "st' = wr (slot pt (pt_no upage)) e st1" "ok" using st' 2(1,2) by auto
      have none: "pte_at st pd ua = None" if "pd_no ua = pd_no upage" for ua
        using that True by (simp add: pte_at_def)
      show ?thesis
        using wr_pte [OF 2(3) u(1) 2(4,5), where v = e] 2(6) none same w by auto
    qed
  next
    case False
    obtain pt where pt: "pde_get_pt (rd st (slot pd (pd_no upage))) = Some pt" "slot pt (pt_no upage) \<noteq> 0"
      by (rule pd_ok_table [OF assms(1) u(1) False])
    have "st1 = st" "p = slot pt (pt_no upage)"
      using lookup_existing [OF assms(1) u(1) False pt(1)] l by simp_all
    then have "st' = wr (slot pt (pt_no upage)) e st" "ok" using st' pt(2) by auto
    then show ?thesis using wr_pte [OF assms(1) u(1) False pt(1), where v = e] same by auto
  qed
  then have ok': "pd_ok st' pd" and pte: "\<And>ua. is_user_vaddr ua \<Longrightarrow>
      (if ok \<and> pg_round_down ua = upage then pte_at st' pd ua = Some e
       else pte_at st' pd ua = pte_at st pd ua \<or> pte_at st' pd ua = Some 0 \<and> pte_at st pd ua = None)"
    by blast+
  have "pagedir_get_page cur pd ua st' =
      (if ok \<and> pg_round_down ua = upage then Some (kpage + pg_ofs ua) else pagedir_get_page cur pd ua st)"
    if ua: "is_user_vaddr ua" for ua
    using pte [OF ua] e(2,3) unfolding get_page_pte [OF ok' ua] get_page_pte [OF assms(1) ua]
    by (auto split: if_splits)
  with ok' show ?thesis by blast
qed

definition unmapped :: "vm \<Rightarrow> u32 \<Rightarrow> u32 \<Rightarrow> bool" where
  "unmapped st pd up \<longleftrightarrow> (case pte_at st pd up of None \<Rightarrow> True | Some pte \<Rightarrow> pte AND PTE_P = 0)"

definition alloc_ready :: "kmem \<Rightarrow> bool" where
  "alloc_ready k \<longleftrightarrow> start_ok (policy k) (nextfitStart k) (kernel_pool k)"

lemma get_page_returns:
  assumes "kmem_inv k" and "cur \<noteq> 0" and "alloc_ready k" and "f = 0 \<or> f = PAL_ZERO"
  shows "\<exists>k' a. palloc_get_page cur k f = Some (k', a)"
proof -
  have fl: "\<not> flag f PAL_USER" "\<not> flag f PAL_ASSERT"
    using assms(4) by (auto simp: flag_def PAL_ZERO_def PAL_USER_def PAL_ASSERT_def)
  then have p: "get_pool f k = kernel_pool k" by (simp add: get_pool_def)
  have ok: "start_ok (policy k) (nextfitStart k) (get_pool f k)" using assms(3) p by (simp add: alloc_ready_def)
  have one: "(1 :: u32) \<noteq> 0" by simp
  show ?thesis unfolding palloc_get_page_def
    by (cases rule: palloc_get_cases [OF assms(1,2) one ok]) (use fl in auto)
qed

lemma set_page_returns:
  assumes ok: "pd_ok st pd" and cur: "cur \<noteq> 0" and ready: "alloc_ready (km st)"
    and up: "is_user_vaddr upage" "pg_ofs upage = 0" "unmapped st pd upage"
    and kp: "is_kernel_vaddr kpage" "pg_ofs kpage = 0" "pg_no (kpage - PHYS_BASE) < init_ram_pages st"
    and pd: "pd \<noteq> init_page_dir st"
  shows "\<exists>st' r. pagedir_set_page cur pd upage kpage writable st = Some (st', r)"
proof -
  have chk: "vtop kpage = Some (kpage - PHYS_BASE)" "drop_bit PTSHIFT (kpage - PHYS_BASE) < init_ram_pages st"
    using kp by (simp_all add: vtop_def pg_no_def PTSHIFT_def)
  obtain e where e: "pte_create_user kpage writable = Some e" using pte_user_ok [OF kp(1,2)] by blast
  have "\<exists>st1 p. lookup_page cur pd upage True st = Some (st1, p) \<and> (p \<noteq> 0 \<longrightarrow> rd st1 p AND PTE_P = 0)"
  proof (cases "rd st (slot pd (pd_no upage)) = 0")
    case False
    obtain pt where pt: "pde_get_pt (rd st (slot pd (pd_no upage))) = Some pt"
      by (rule pd_ok_table [OF ok up(1) False])
    then show ?thesis using lookup_existing [OF ok up(1) False pt] up(3) False
      by (auto simp: unmapped_def pte_at_def Let_def)
  next
    case True
    have nz: "pd \<noteq> 0" using live_page(3) [OF pd_okD(1,2) [OF ok]] .
    note inv = pd_okD(1) [OF ok]
    obtain k a where g: "palloc_get_page cur (km st) PAL_ZERO = Some (k, a)"
      using get_page_returns [OF inv cur ready] by blast
    have "\<exists>st1 p. lookup_page cur pd upage True st = Some (st1, p)"
    proof (cases "a = 0")
      case a: False
      have "is_kernel_vaddr a" "pg_ofs a = 0"
        using live_page [OF pg.get_inv [OF inv cur g]] pg.get_fresh [OF inv cur g a] by auto
      from pde_ok [OF this] obtain d where d: "pde_create a = Some d" "pde_get_pt d = Some a" by blast
      have "rd (wr (slot pd (pd_no upage)) d (st\<lparr>km := k\<rparr>)) (slot pd (pd_no upage)) = d"
        by (simp add: rd_def wr_def)
      then show ?thesis using up(1) nz a d by (simp add: lookup_page_def True g)
    qed (use up(1) nz True g in \<open>simp add: lookup_page_def\<close>)
    then obtain st1 p where l: "lookup_page cur pd upage True st = Some (st1, p)" by blast
    show ?thesis
    proof (cases rule: lookup_create [OF ok cur up(1) True l])
      case (2 pt)
      then have "pte_at st1 pd upage = Some 0" using up(1) by simp
      then have "rd st1 p = 0" using 2(1,4,5) by (simp add: pte_at_def Let_def)
      then show ?thesis using l by auto
    qed (use l in auto)
  qed
  then obtain st1 p where "lookup_page cur pd upage True st = Some (st1, p)"
    "p \<noteq> 0 \<longrightarrow> rd st1 p AND PTE_P = 0" by blast
  then show ?thesis using up kp pd chk e
    by (cases "p = 0") (auto simp: pagedir_set_page_def bind_ASSERT_holds)
qed

text \<open>C14: Mapping a page that is not mapped, when the page allocator is usable. \<open>pagedir_set_page\<close>
  returns. If it reports success, every address of the user page translates to the same offset of the
  kernel page. Every other user address, and every address at all when the call fails for lack of
  memory, translates as before, and the directory stays well formed.\<close>

theorem pagedir_set_get:
  assumes "pd_ok st pd" and "cur \<noteq> 0" and "alloc_ready (km st)"
    and "is_user_vaddr upage" and "pg_ofs upage = 0" and "unmapped st pd upage"
    and "is_kernel_vaddr kpage" and "pg_ofs kpage = 0" and "pg_no (kpage - PHYS_BASE) < init_ram_pages st"
    and "pd \<noteq> init_page_dir st"
  shows "\<exists>st' ok. pagedir_set_page cur pd upage kpage writable st = Some (st', ok) \<and> pd_ok st' pd \<and>
    (\<forall>ua. is_user_vaddr ua \<longrightarrow> pagedir_get_page cur pd ua st' =
      (if ok \<and> pg_round_down ua = upage then Some (kpage + pg_ofs ua) else pagedir_get_page cur pd ua st))"
proof -
  obtain st' ok where r: "pagedir_set_page cur pd upage kpage writable st = Some (st', ok)"
    using set_page_returns [OF assms] by blast
  from set_page_effect [OF assms(1,2) r] r show ?thesis by blast
qed

text \<open>A small machine with an empty page directory at the first page of the kernel pool.\<close>

definition small_vm :: vm where
  "small_vm = \<lparr>km = (small_kmem FIRSTFIT)\<lparr>mem := \<lambda>_. 0\<rparr>, cr3 = 0x100000, tlb = Map.empty,
     init_page_dir = 0xc0100000, init_ram_pages = 1024\<rparr>"

lemma small_vm_pd: "pd_ok small_vm 0xc0101000" "rd small_vm a = 0"
proof -
  show z: "rd small_vm a = 0" for a by (simp add: rd_def small_vm_def load32_def)
  have u: "used (kernel_pool (small_kmem FIRSTFIT)) = [True, False, False, False]"
    using small_used [of 0 FIRSTFIT] by (simp add: get_pool_def flag_def)
  have "0xc0101000 = page_addr (kernel_pool (small_kmem FIRSTFIT)) 0"
    by (simp add: page_addr_def small_kmem_def small_pool_def)
  then have "live (small_kmem FIRSTFIT) 0xc0101000"
    unfolding live_def using u by (intro bexI [of _ "kernel_pool (small_kmem FIRSTFIT)"] exI [of _ 0]) simp_all
  then have "live (km small_vm) 0xc0101000" by (simp add: small_vm_def live_def)
  then show "pd_ok small_vm 0xc0101000"
    using small_kmem_inv [of FIRSTFIT] by (simp add: pd_ok_def z) (simp add: small_vm_def)
qed

theorem pagedir_set_get_witness:
  "\<exists>st' ok. pagedir_set_page 0xc0100000 0xc0101000 0x8048000 0xc0202000 True small_vm = Some (st', ok) \<and>
     pagedir_get_page 0xc0100000 0xc0101000 0x8048123 st' = (if ok then Some 0xc0202123 else Some 0)"
proof -
  have a: "alloc_ready (km small_vm)" by (simp add: alloc_ready_def start_ok_def small_vm_def small_kmem_def)
  have b: "is_user_vaddr 0x8048000" "is_user_vaddr 0x8048123" "is_kernel_vaddr 0xc0202000"
    by (simp_all add: is_user_vaddr_def is_kernel_vaddr_def PHYS_BASE_def)
  have c: "pg_ofs 0x8048000 = 0" "pg_ofs 0xc0202000 = 0" by (simp_all add: pg_ofs_0_iff)
  have d: "unmapped small_vm 0xc0101000 0x8048000" by (simp add: unmapped_def pte_at_def small_vm_pd)
  have e: "pg_no (0xc0202000 - PHYS_BASE) < init_ram_pages small_vm"
    by (simp add: word_less_nat_alt unat_pg_no PHYS_BASE_def small_vm_def)
  have f: "0xc0101000 \<noteq> init_page_dir small_vm" by (simp add: small_vm_def)
  have g: "pg_round_down 0x8048123 = 0x8048000" "pg_ofs 0x8048123 = 0x123"
    by (simp_all add: word_unat_eq_iff unat_pg_round_down unat_pg_ofs)
  have h: "pagedir_get_page 0xc0100000 0xc0101000 0x8048123 small_vm = Some 0"
    unfolding get_page_pte [OF small_vm_pd(1) b(2)] by (simp add: pte_at_def small_vm_pd)
  have cur: "(0xc0100000 :: u32) \<noteq> 0" by simp
  obtain st' ok where r: "pagedir_set_page 0xc0100000 0xc0101000 0x8048000 0xc0202000 True small_vm = Some (st', ok)"
    "\<forall>ua. is_user_vaddr ua \<longrightarrow> pagedir_get_page 0xc0100000 0xc0101000 ua st' =
      (if ok \<and> pg_round_down ua = 0x8048000 then Some (0xc0202000 + pg_ofs ua)
       else pagedir_get_page 0xc0100000 0xc0101000 ua small_vm)"
    using pagedir_set_get [OF small_vm_pd(1) cur a b(1) c(1) d b(3) c(2) e f, of True] by blast
  then have "pagedir_get_page 0xc0100000 0xc0101000 0x8048123 st' = (if ok then Some 0xc0202123 else Some 0)"
    using b(2) g h by simp
  with r(1) show ?thesis by blast
qed

lemma activate_keeps:
  assumes "invalidate_pagedir pd st = Some st'"
  shows "km st' = km st" and "active_pd st = Some pd \<Longrightarrow> tlb st' = Map.empty"
  using assms by (auto simp: invalidate_pagedir_def pagedir_activate_def split: bind_splits if_splits)

lemma same_km:
  assumes "km st' = km st"
  shows "rd st' a = rd st a" and "pd_ok st' pd = pd_ok st pd" and "pte_at st' pd ua = pte_at st pd ua"
proof -
  show r: "rd st' a = rd st a" for a using assms by (simp add: rd_def)
  show "pd_ok st' pd = pd_ok st pd" unfolding pd_ok_def r assms by (rule refl)
  show "pte_at st' pd ua = pte_at st pd ua" unfolding pte_at_def r by (rule refl)
qed

lemma clear_P [simp]: "(pte AND NOT PTE_P) AND PTE_P = 0"
  by (rule bit_word_eqI) (simp add: bit_simps)

text \<open>C20: Unmapping a page. \<open>pagedir_clear_page\<close> returns; afterwards no address of the page translates,
  all other user addresses translate as before, the directory is still well formed, and if the page
  was mapped in the active directory no stale translation is left in the processor.\<close>

theorem pagedir_clear_correct:
  assumes "pd_ok st pd" and "is_user_vaddr upage" and "pg_ofs upage = 0" and "cr3 st < PHYS_BASE"
  shows "\<exists>st'. pagedir_clear_page cur pd upage st = Some st' \<and> pd_ok st' pd \<and>
    (\<forall>ua. is_user_vaddr ua \<longrightarrow> pagedir_get_page cur pd ua st' =
       (if pg_round_down ua = upage then Some 0 else pagedir_get_page cur pd ua st)) \<and>
    (active_pd st = Some pd \<longrightarrow> \<not> unmapped st pd upage \<longrightarrow> tlb st' = Map.empty)"
proof -
  note same = same_page_iff [OF assms(3)]
  have pd: "pd \<noteq> 0" "is_kernel_vaddr pd" using live_page [OF pd_okD(1,2) [OF assms(1)]] by simp_all
  have get: "pagedir_get_page cur pd ua s = (case pte_at s pd ua of None \<Rightarrow> Some 0
      | Some pte \<Rightarrow> if pte AND PTE_P \<noteq> 0 then map_option (\<lambda>p. p + pg_ofs ua) (pte_get_page pte) else Some 0)"
    if "pd_ok s pd" "is_user_vaddr ua" for s ua
    by (rule get_page_pte [OF that])
  have eq: "pte_at st pd ua = pte_at st pd upage" if "pg_round_down ua = upage" for ua
    using that same [of ua] by (simp add: pte_at_def Let_def)
  show ?thesis
  proof (cases "unmapped st pd upage")
    case True
    have "pagedir_clear_page cur pd upage st = Some st"
    proof (cases "rd st (slot pd (pd_no upage)) = 0")
      case False
      obtain pt where pt: "pde_get_pt (rd st (slot pd (pd_no upage))) = Some pt"
        by (rule pd_ok_table [OF assms(1,2) False])
      then show ?thesis using lookup_existing [OF assms(1,2) False pt] True False assms(2,3)
        by (simp add: pagedir_clear_page_def unmapped_def pte_at_def Let_def)
    qed (use assms(2,3) pd in \<open>simp add: pagedir_clear_page_def lookup_page_def\<close>)
    moreover have "pagedir_get_page cur pd ua st = Some 0" if "is_user_vaddr ua" "pg_round_down ua = upage" for ua
      using True eq [OF that(2)] by (simp add: get [OF assms(1) that(1)] unmapped_def split: option.splits)
    ultimately show ?thesis using assms(1) True by auto
  next
    case False
    then have nz: "rd st (slot pd (pd_no upage)) \<noteq> 0" by (auto simp: unmapped_def pte_at_def)
    obtain pt where pt: "pde_get_pt (rd st (slot pd (pd_no upage))) = Some pt" "slot pt (pt_no upage) \<noteq> 0"
      by (rule pd_ok_table [OF assms(1,2) nz])
    let ?pte = "rd st (slot pt (pt_no upage))"
    let ?st1 = "wr (slot pt (pt_no upage)) (?pte AND NOT PTE_P) st"
    have P: "?pte AND PTE_P \<noteq> 0" using False pt(1) nz by (simp add: unmapped_def pte_at_def Let_def)
    note w = wr_pte [OF assms(1,2) nz pt(1), where v = "?pte AND NOT PTE_P"]
    have "\<exists>st'. invalidate_pagedir pd ?st1 = Some st'"
      using assms(4) pd by (simp add: invalidate_pagedir_def active_pd_def ptov_def pagedir_activate_def vtop_def)
    then obtain st' where st': "invalidate_pagedir pd ?st1 = Some st'" by blast
    note k = activate_keeps [OF st'] and s = same_km [OF activate_keeps(1) [OF st']]
    have "pagedir_clear_page cur pd upage st = Some st'"
      using lookup_existing [OF assms(1,2) nz pt(1)] P pt(2) st' assms(2,3) by (simp add: pagedir_clear_page_def)
    moreover have ok: "pd_ok st' pd" using w(1) s(2) by simp
    moreover have "pagedir_get_page cur pd ua st' = (if pg_round_down ua = upage then Some 0
        else pagedir_get_page cur pd ua st)" if ua: "is_user_vaddr ua" for ua
      using w(2) [OF ua] s(3) same [of ua] by (simp add: get [OF ok ua] get [OF assms(1) ua])
    moreover have "active_pd st = Some pd \<longrightarrow> tlb st' = Map.empty" using k(2) by (simp add: active_pd_def)
    ultimately show ?thesis by blast
  qed
qed

theorem pagedir_clear_correct_witness:
  "\<exists>st'. pagedir_clear_page 0xc0100000 0xc0101000 0x8048000 small_vm = Some st' \<and> pd_ok st' 0xc0101000"
proof -
  have "is_user_vaddr 0x8048000" "pg_ofs 0x8048000 = 0" "cr3 small_vm < PHYS_BASE"
    by (simp_all add: is_user_vaddr_def PHYS_BASE_def pg_ofs_0_iff small_vm_def)
  from pagedir_clear_correct [OF small_vm_pd(1) this] show ?thesis by blast
qed

end
