(* ===== verification/Thread.thy ===== *)
theory Thread
  imports Pagedir
begin

text \<open>
  \<open>threads/thread.c\<close>: threads and the scheduler. A thread is named by the
  address of its page. The \<open>struct thread\<close> at the bottom of that page is a record
  (\<open>thr\<close>; no record: the page holds no thread), its intrusive list elements are
  memberships in the lists of the state, and its three semaphores are named by
  \<open>sid\<close>. The lists are lists of thread addresses, as theory \<open>List_Sort\<close>
  justifies.

  A thread that is not running is inside \<open>schedule\<close>; \<open>pc\<close> says where it goes on
  when it runs again. Code that runs with interrupts off is one atomic step, and
  so is each critical section of the sequential components; theory \<open>Sched\<close> splits
  the synchronization primitives at the points where they turn interrupts on and
  composes the steps.
\<close>

unbundle bit_operations_syntax

datatype thread_status = THREAD_RUNNING | THREAD_READY | THREAD_BLOCKED | THREAD_DYING

record thread =
  tid :: int
  status :: thread_status
  tname :: "u8 list"
  stack :: u32
  priority :: int
  exit_status :: int
  child_list :: "tptr list"
  pagedir :: u32
  load_succeeded :: bool
  next_fd :: int
  fd_table :: u32
  magic :: u32

definition TID_ERROR :: int where "TID_ERROR = - 1"
definition PRI_MIN :: int where "PRI_MIN = 0"
definition PRI_DEFAULT :: int where "PRI_DEFAULT = 31"
definition PRI_MAX :: int where "PRI_MAX = 63"
definition THREAD_MAGIC :: u32 where "THREAD_MAGIC = 0xcd6abf4b"
definition TIME_SLICE :: u32 where "TIME_SLICE = 4"

text \<open>Semaphores: free-standing ones, those of locks, and those embedded in threads.\<close>

datatype sid =
    Sema u32
  | LockSema u32
  | WaitSema tptr
  | DestroySema tptr
  | LoadSema tptr
  | CondSema tptr

text \<open>
  What a thread still has to do, with interrupts possibly on, after a piece that
  ran with interrupts off: nothing; record itself as the holder of a lock (the
  end of \<open>lock_acquire\<close> and \<open>lock_try_acquire\<close>); acquire a lock (the end of
  \<open>cond_wait\<close>); up the semaphore of a lock it no longer holds (the end of
  \<open>lock_release\<close>) and go on; or wait for its own condition semaphore (in
  \<open>cond_wait\<close>).
\<close>

datatype after = Ret | Hold u32 | Reacquire u32 | UpLock u32 after | DownCond u32

text \<open>
  Where a thread goes on: in ordinary code; with such a rest; in the loop of
  \<open>sema_down\<close>, or after \<open>schedule\<close> in \<open>thread_yield\<close>, with the interrupt level to
  restore; at the end of an interrupt handler, which turns interrupts on and goes
  back to the code that was interrupted; in the loop of \<open>idle\<close>; or at the start
  of \<open>kernel_thread\<close>.
\<close>

datatype cont =
    Normal
  | Then after
  | Down sid bool after
  | Yielded bool cont
  | Iret cont
  | IdleBlocked
  | Fresh

record ksys =
  thr :: "tptr \<Rightarrow> thread option"
  ready_list :: "tptr list"
  all_list :: "tptr list"
  running :: tptr
  idle_thread :: tptr
  initial_thread :: tptr
  semas :: "sid \<Rightarrow> semaphore"
  lock_holder :: "u32 \<Rightarrow> tptr"
  cond_waiters :: "u32 \<Rightarrow> tptr list"
  next_tid :: int
  thread_ticks :: u32
  idle_ticks :: int
  user_ticks :: int
  kernel_ticks :: int
  intr_on :: bool
  in_intr :: bool
  yield_on_return :: bool
  unexpected_cnt :: "u8 \<Rightarrow> u32"
  pc :: "tptr \<Rightarrow> cont"
  mmu :: vm
  kernel_thread_ip :: u32
  switch_entry_ip :: u32
  tss_page :: u32

definition upd_thr :: "tptr \<Rightarrow> (thread \<Rightarrow> thread) \<Rightarrow> ksys \<Rightarrow> ksys" where
  "upd_thr t f st = st\<lparr>thr := (thr st)(t := map_option f (thr st t))\<rparr>"

definition set_status :: "tptr \<Rightarrow> thread_status \<Rightarrow> ksys \<Rightarrow> ksys" where
  "set_status t s = upd_thr t (\<lambda>th. th\<lparr>status := s\<rparr>)"

definition has_status :: "ksys \<Rightarrow> tptr \<Rightarrow> thread_status \<Rightarrow> bool" where
  "has_status st t s \<longleftrightarrow> (\<exists>th. thr st t = Some th \<and> status th = s)"

definition set_pc :: "tptr \<Rightarrow> cont \<Rightarrow> ksys \<Rightarrow> ksys" where
  "set_pc t c st = st\<lparr>pc := (pc st)(t := c)\<rparr>"

section \<open>Identification\<close>

definition is_thread :: "ksys \<Rightarrow> tptr \<Rightarrow> bool" where
  "is_thread st t \<longleftrightarrow> t \<noteq> 0 \<and> (case thr st t of None \<Rightarrow> False | Some th \<Rightarrow> magic th = THREAD_MAGIC)"

definition thread_current :: "ksys \<Rightarrow> tptr option" where
  "thread_current st = do {
     let t = running st;
     ASSERT (is_thread st t);
     ASSERT (has_status st t THREAD_RUNNING);
     Some t }"

definition running_thread :: "u32 \<Rightarrow> tptr" where
  "running_thread esp = pg_round_down esp"

definition thread_get_child :: "ksys \<Rightarrow> int \<Rightarrow> tptr option option" where
  "thread_get_child st child_tid = do {
     t \<leftarrow> thread_current st;
     th \<leftarrow> thr st t;
     findM (\<lambda>c. do { ch \<leftarrow> thr st c; Some (tid ch = child_tid) }) (child_list th) }"

section \<open>Blocking, unblocking, switching\<close>

definition thread_unblock :: "tptr \<Rightarrow> ksys \<Rightarrow> ksys option" where
  "thread_unblock t st = do {
     ASSERT (is_thread st t);
     ASSERT (has_status st t THREAD_BLOCKED);
     Some (set_status t THREAD_READY (st\<lparr>ready_list := ready_list st @ [t]\<rparr>)) }"

text \<open>
  \<open>sema_up\<close>, \<open>sema_try_down\<close> and the operations on locks that do not sleep
  (\<open>threads/synch.c\<close>), on the semaphores of the state. Interrupts are off inside
  and restored at the end.
\<close>

definition sema_up :: "sid \<Rightarrow> ksys \<Rightarrow> ksys option" where
  "sema_up s st =
     (let (sm, woken) = sema_up_data (semas st s);
          st = st\<lparr>semas := (semas st)(s := sm)\<rparr>
      in case woken of None \<Rightarrow> Some st | Some t \<Rightarrow> thread_unblock t st)"

definition try_down :: "sid \<Rightarrow> ksys \<Rightarrow> ksys \<times> bool" where
  "try_down s st =
     (let (sm, success) = sema_try_down (semas st s)
      in (st\<lparr>semas := (semas st)(s := sm)\<rparr>, success))"

definition set_holder :: "u32 \<Rightarrow> ksys \<Rightarrow> ksys option" where
  "set_holder l st = do {
     t \<leftarrow> thread_current st;
     Some (st\<lparr>lock_holder := (lock_holder st)(l := t)\<rparr>) }"

definition try_acquire :: "u32 \<Rightarrow> ksys \<Rightarrow> (ksys \<times> bool) option" where
  "try_acquire l st = do {
     t \<leftarrow> thread_current st;
     ASSERT (\<not> lock_holder st l = t);
     let (st, success) = try_down (LockSema l) st;
     if success then do { st \<leftarrow> set_holder l st; Some (st, True) } else Some (st, False) }"

definition lock_release :: "u32 \<Rightarrow> ksys \<Rightarrow> ksys option" where
  "lock_release l st = do {
     t \<leftarrow> thread_current st;
     ASSERT (lock_holder st l = t);
     sema_up (LockSema l) (st\<lparr>lock_holder := (lock_holder st)(l := 0)\<rparr>) }"

text \<open>The lock of the thread identifiers; when it is taken the caller would sleep.\<close>

definition tid_lock :: u32 where "tid_lock = 0"

definition allocate_tid :: "ksys \<Rightarrow> (ksys \<times> int) option" where
  "allocate_tid st = do {
     (st, success) \<leftarrow> try_acquire tid_lock st;
     ASSERT success;
     let new = next_tid st;
     st \<leftarrow> lock_release tid_lock (st\<lparr>next_tid := new + 1\<rparr>);
     Some (st, new) }"

definition next_thread_to_run :: "ksys \<Rightarrow> ksys \<times> tptr" where
  "next_thread_to_run st =
     (case ready_list st of
        [] \<Rightarrow> (st, idle_thread st)
      | t # ts \<Rightarrow> (st\<lparr>ready_list := ts\<rparr>, t))"

text \<open>
  \<open>userprog/tss.c\<close>. The task state segment is a page; \<open>esp0\<close> is the word at
  offset 4, \<open>ss0\<close> the half word at offset 8 and \<open>bitmap\<close> the half word at offset
  102. \<open>SEL_KDSEG\<close> is 0x10.
\<close>

definition poke :: "u32 \<Rightarrow> u32 \<Rightarrow> ksys \<Rightarrow> ksys" where
  "poke a v st = st\<lparr>mmu := wr a v (mmu st)\<rparr>"

definition tss_update :: "ksys \<Rightarrow> ksys option" where
  "tss_update st = do {
     ASSERT (tss_page st \<noteq> 0);
     t \<leftarrow> thread_current st;
     Some (poke (tss_page st + 4) (t + PGSIZE) st) }"

definition tss_init :: "ksys \<Rightarrow> ksys option" where
  "tss_init st = do {
     (k, p) \<leftarrow> palloc_get_page (running st) (km (mmu st)) (PAL_ASSERT OR PAL_ZERO);
     let st = st\<lparr>mmu := (mmu st)\<lparr>km := k\<rparr>, tss_page := p\<rparr>;
     tss_update (poke (p + 100) 0xdfff0000 (poke (p + 8) 0x10 st)) }"

definition process_activate :: "ksys \<Rightarrow> ksys option" where
  "process_activate st = do {
     t \<leftarrow> thread_current st;
     th \<leftarrow> thr st t;
     v \<leftarrow> pagedir_activate (pagedir th) (mmu st);
     tss_update (st\<lparr>mmu := v\<rparr>) }"

definition thread_schedule_tail :: "tptr \<Rightarrow> ksys \<Rightarrow> ksys option" where
  "thread_schedule_tail prev st = do {
     ASSERT (\<not> intr_on st);
     let st = set_status (running st) THREAD_RUNNING st;
     let st = st\<lparr>thread_ticks := 0\<rparr>;
     st \<leftarrow> process_activate st;
     if prev \<noteq> 0 \<and> has_status st prev THREAD_DYING \<and> prev \<noteq> initial_thread st then do {
       ASSERT (prev \<noteq> running st);
       v \<leftarrow> free_page prev (mmu st);
       Some (st\<lparr>mmu := v, thr := (thr st)(prev := None)\<rparr>) }
     else Some st }"

definition schedule :: "ksys \<Rightarrow> ksys option" where
  "schedule st = do {
     let cur = running st;
     let (st, next) = next_thread_to_run st;
     ASSERT (\<not> intr_on st);
     ASSERT (\<not> has_status st cur THREAD_RUNNING);
     ASSERT (is_thread st next);
     if cur \<noteq> next then thread_schedule_tail cur (st\<lparr>running := next\<rparr>)
     else thread_schedule_tail 0 st }"

text \<open>\<open>c\<close> is where the caller goes on when it runs again.\<close>

definition thread_block :: "cont \<Rightarrow> ksys \<Rightarrow> ksys option" where
  "thread_block c st = do {
     ASSERT (\<not> in_intr st);
     ASSERT (\<not> intr_on st);
     t \<leftarrow> thread_current st;
     schedule (set_pc t c (set_status t THREAD_BLOCKED st)) }"

definition thread_yield :: "bool \<Rightarrow> ksys \<Rightarrow> ksys option" where
  "thread_yield level st = do {
     t \<leftarrow> thread_current st;
     ASSERT (\<not> in_intr st);
     let st = st\<lparr>intr_on := False\<rparr>;
     let st = (if t \<noteq> idle_thread st then st\<lparr>ready_list := ready_list st @ [t]\<rparr> else st);
     schedule (set_pc t (Yielded level (pc st t)) (set_status t THREAD_READY st)) }"

definition process_exit :: "ksys \<Rightarrow> ksys option" where
  "process_exit st = do {
     t \<leftarrow> thread_current st;
     th \<leftarrow> thr st t;
     let pd = pagedir th;
     if pd \<noteq> 0 then do {
       let st = upd_thr t (\<lambda>th. th\<lparr>pagedir := 0\<rparr>) st;
       v \<leftarrow> pagedir_activate 0 (mmu st);
       v \<leftarrow> pagedir_destroy pd v;
       Some (st\<lparr>mmu := v\<rparr>) }
     else Some st }"

definition thread_exit :: "ksys \<Rightarrow> ksys option" where
  "thread_exit st = do {
     ASSERT (\<not> in_intr st);
     st \<leftarrow> process_exit st;
     let st = st\<lparr>intr_on := False\<rparr>;
     t \<leftarrow> thread_current st;
     ASSERT (t \<in> set (all_list st));
     let st = st\<lparr>all_list := remove1 t (all_list st)\<rparr>;
     schedule (set_pc t Normal (set_status t THREAD_DYING st)) }"

section \<open>Creation\<close>

text \<open>The semaphores of a new thread are initialised with its record.\<close>

definition init_thread :: "tptr \<Rightarrow> u8 list \<Rightarrow> int \<Rightarrow> ksys \<Rightarrow> ksys option" where
  "init_thread t nm prio st = do {
     ASSERT (t \<noteq> 0);
     ASSERT (PRI_MIN \<le> prio \<and> prio \<le> PRI_MAX);
     let th = \<lparr>tid = 0, status = THREAD_BLOCKED, tname = take 15 nm, stack = t + PGSIZE,
               priority = prio, exit_status = 0, child_list = [], pagedir = 0,
               load_succeeded = False, next_fd = 0, fd_table = 0, magic = THREAD_MAGIC\<rparr>;
     Some (st\<lparr>thr := (thr st)(t \<mapsto> th),
              semas := (semas st)(WaitSema t := sema_init 0, DestroySema t := sema_init 0,
                                  LoadSema t := sema_init 0),
              all_list := all_list st @ [t]\<rparr>) }"

definition alloc_frame :: "tptr \<Rightarrow> u32 \<Rightarrow> ksys \<Rightarrow> (ksys \<times> u32) option" where
  "alloc_frame t sz st = do {
     ASSERT (is_thread st t);
     ASSERT (sz mod 4 = 0);
     th \<leftarrow> thr st t;
     let s = stack th - sz;
     Some (upd_thr t (\<lambda>th. th\<lparr>stack := s\<rparr>) st, s) }"

text \<open>
  The initial stack: a frame for \<open>kernel_thread\<close> (12 bytes), one for
  \<open>switch_entry\<close> (4 bytes) and one for \<open>switch_threads\<close> (28 bytes).
\<close>

definition init_frames :: "tptr \<Rightarrow> u32 \<Rightarrow> u32 \<Rightarrow> ksys \<Rightarrow> ksys option" where
  "init_frames t function aux st = do {
     (st, kf) \<leftarrow> alloc_frame t 12 st;
     let st = poke (kf + 8) aux (poke (kf + 4) function (poke kf 0 st));
     (st, ef) \<leftarrow> alloc_frame t 4 st;
     let st = poke ef (kernel_thread_ip st) st;
     (st, sf) \<leftarrow> alloc_frame t 28 st;
     Some (poke (sf + 8) 0 (poke (sf + 16) (switch_entry_ip st) st)) }"

text \<open>\<open>thread_create\<close> in three pieces: all of it, the part that has the page, the part that has the table.\<close>

definition thread_launch :: "tptr \<Rightarrow> u32 \<Rightarrow> u32 \<Rightarrow> u32 \<Rightarrow> ksys \<Rightarrow> ksys option" where
  "thread_launch t fds function aux st = do {
     let st = upd_thr t (\<lambda>th. th\<lparr>next_fd := 2, fd_table := fds - 8\<rparr>) st;
     me \<leftarrow> thread_current st;
     let st = upd_thr me (\<lambda>th. th\<lparr>child_list := child_list th @ [t]\<rparr>) st;
     st \<leftarrow> init_frames t function aux st;
     thread_unblock t (set_pc t Fresh st) }"

definition thread_setup :: "tptr \<Rightarrow> u8 list \<Rightarrow> int \<Rightarrow> u32 \<Rightarrow> u32 \<Rightarrow> ksys \<Rightarrow> (ksys \<times> int) option" where
  "thread_setup t nm prio function aux st = do {
     st \<leftarrow> init_thread t nm prio st;
     (st, new) \<leftarrow> allocate_tid st;
     let st = upd_thr t (\<lambda>th. th\<lparr>tid := new\<rparr>) st;
     (k, fds) \<leftarrow> palloc_get_multiple (running st) (km (mmu st)) PAL_ZERO 2;
     let st = st\<lparr>mmu := (mmu st)\<lparr>km := k\<rparr>\<rparr>;
     if fds = 0 then do {
       v \<leftarrow> free_page t (mmu st);
       Some (st\<lparr>mmu := v, thr := (thr st)(t := None)\<rparr>, TID_ERROR) }
     else do {
       st \<leftarrow> thread_launch t fds function aux st;
       Some (st, new) } }"

definition thread_create :: "u8 list \<Rightarrow> int \<Rightarrow> u32 \<Rightarrow> u32 \<Rightarrow> ksys \<Rightarrow> (ksys \<times> int) option" where
  "thread_create nm prio function aux st = do {
     ASSERT (function \<noteq> 0);
     (k, t) \<leftarrow> palloc_get_page (running st) (km (mmu st)) PAL_ZERO;
     let st = st\<lparr>mmu := (mmu st)\<lparr>km := k\<rparr>\<rparr>;
     if t = 0 then Some (st, TID_ERROR) else thread_setup t nm prio function aux st }"

section \<open>Time slices, priorities\<close>

definition intr_yield_on_return :: "ksys \<Rightarrow> ksys option" where
  "intr_yield_on_return st = do { ASSERT (in_intr st); Some (st\<lparr>yield_on_return := True\<rparr>) }"

definition thread_tick :: "ksys \<Rightarrow> ksys option" where
  "thread_tick st = do {
     t \<leftarrow> thread_current st;
     th \<leftarrow> thr st t;
     let st = (if t = idle_thread st then st\<lparr>idle_ticks := idle_ticks st + 1\<rparr>
               else if pagedir th \<noteq> 0 then st\<lparr>user_ticks := user_ticks st + 1\<rparr>
               else st\<lparr>kernel_ticks := kernel_ticks st + 1\<rparr>);
     let n = thread_ticks st + 1;
     let st = st\<lparr>thread_ticks := n\<rparr>;
     if n \<ge> TIME_SLICE then intr_yield_on_return st else Some st }"

definition thread_set_priority :: "int \<Rightarrow> ksys \<Rightarrow> ksys option" where
  "thread_set_priority p st = do {
     t \<leftarrow> thread_current st;
     Some (upd_thr t (\<lambda>th. th\<lparr>priority := p\<rparr>) st) }"

definition thread_get_priority :: "ksys \<Rightarrow> int option" where
  "thread_get_priority st = do {
     t \<leftarrow> thread_current st;
     th \<leftarrow> thr st t;
     Some (priority th) }"

section \<open>Startup\<close>

definition thread_init :: "u32 \<Rightarrow> u8 list \<Rightarrow> ksys \<Rightarrow> ksys option" where
  "thread_init esp main_name st = do {
     ASSERT (\<not> intr_on st);
     let st = st\<lparr>lock_holder := (lock_holder st)(tid_lock := holder lock_init),
                 semas := (semas st)(LockSema tid_lock := lock_sema lock_init)\<rparr>;
     let st = st\<lparr>ready_list := [], all_list := []\<rparr>;
     let t = running_thread esp;
     let st = st\<lparr>initial_thread := t, running := t\<rparr>;
     st \<leftarrow> init_thread t main_name PRI_DEFAULT st;
     let st = set_status t THREAD_RUNNING st;
     (st, new) \<leftarrow> allocate_tid st;
     Some (upd_thr t (\<lambda>th. th\<lparr>tid := new\<rparr>) st) }"

end
