(* ===== verification/Sched.thy ===== *)
theory Sched
  imports Thread
begin

text \<open>
  \<open>threads/synch.c\<close>, the operations that sleep, and the kernel as a system of
  threads that take atomic steps. A step ends where the code turns interrupts on
  or switches threads; there any other thread may go on after a timer interrupt.
  The step relation covers every operation on semaphores, locks and condition
  variables, yielding, exiting, creating threads, the idle thread, the timer
  interrupt and device interrupts that wake a thread. Theory \<open>Sched_Inv\<close> proves
  the invariants of its reachable states.
\<close>

section \<open>Operations that sleep\<close>

definition sema_wait :: "sid \<Rightarrow> bool \<Rightarrow> after \<Rightarrow> ksys \<Rightarrow> ksys option" where
  "sema_wait s level a st = do {
     t \<leftarrow> thread_current st;
     let sm = semas st s;
     thread_block (Down s level a) (st\<lparr>semas := (semas st)(s := sm\<lparr>waiters := waiters sm @ [t]\<rparr>)\<rparr>) }"

definition sema_take :: "sid \<Rightarrow> bool \<Rightarrow> after \<Rightarrow> ksys \<Rightarrow> ksys" where
  "sema_take s level a st =
     (let sm = semas st s
      in set_pc (running st) (Then a)
           (st\<lparr>semas := (semas st)(s := sm\<lparr>sema_value := sema_value sm - 1\<rparr>), intr_on := level\<rparr>))"

text \<open>
  One turn of the loop of \<open>sema_down\<close>, with interrupts off: sleep if the value is
  0; otherwise decrement it, restore the interrupt level and go on with \<open>a\<close>.
\<close>

definition down_loop :: "sid \<Rightarrow> bool \<Rightarrow> after \<Rightarrow> ksys \<Rightarrow> ksys option" where
  "down_loop s level a st =
     (if sema_value (semas st s) = 0 then sema_wait s level a st else Some (sema_take s level a st))"

definition sema_down_then :: "sid \<Rightarrow> after \<Rightarrow> ksys \<Rightarrow> ksys option" where
  "sema_down_then s a st = do {
     ASSERT (\<not> in_intr st);
     down_loop s (intr_on st) a (st\<lparr>intr_on := False\<rparr>) }"

definition sema_down :: "sid \<Rightarrow> ksys \<Rightarrow> ksys option" where
  "sema_down s = sema_down_then s Ret"

definition lock_acquire :: "u32 \<Rightarrow> ksys \<Rightarrow> ksys option" where
  "lock_acquire l st = do {
     ASSERT (\<not> in_intr st);
     t \<leftarrow> thread_current st;
     ASSERT (\<not> lock_holder st l = t);
     sema_down_then (LockSema l) (Hold l) st }"

definition lock_try :: "u32 \<Rightarrow> ksys \<Rightarrow> (ksys \<times> bool) option" where
  "lock_try l st = do {
     t \<leftarrow> thread_current st;
     ASSERT (\<not> lock_holder st l = t);
     let (st, success) = try_down (LockSema l) st;
     Some (if success then set_pc t (Then (Hold l)) st else st, success) }"

text \<open>\<open>lock_release\<close> up to its \<open>sema_up\<close>, which comes next; \<open>a\<close> is what follows.\<close>

definition release_then :: "u32 \<Rightarrow> after \<Rightarrow> ksys \<Rightarrow> ksys option" where
  "release_then l a st = do {
     t \<leftarrow> thread_current st;
     ASSERT (lock_holder st l = t);
     Some (set_pc t (Then (UpLock l a)) (st\<lparr>lock_holder := (lock_holder st)(l := 0)\<rparr>)) }"

text \<open>The waiter's semaphore is on its stack; a condition's waiters are named by their threads.\<close>

definition cond_wait :: "u32 \<Rightarrow> u32 \<Rightarrow> ksys \<Rightarrow> ksys option" where
  "cond_wait c l st = do {
     ASSERT (\<not> in_intr st);
     t \<leftarrow> thread_current st;
     ASSERT (lock_holder st l = t);
     release_then l (DownCond l)
       (st\<lparr>semas := (semas st)(CondSema t := sema_init 0),
           cond_waiters := (cond_waiters st)(c := cond_waiters st c @ [t])\<rparr>) }"

definition cond_signal :: "u32 \<Rightarrow> u32 \<Rightarrow> ksys \<Rightarrow> ksys option" where
  "cond_signal c l st = do {
     ASSERT (\<not> in_intr st);
     t \<leftarrow> thread_current st;
     ASSERT (lock_holder st l = t);
     case cond_waiters st c of
       [] \<Rightarrow> Some st
     | w # ws \<Rightarrow> sema_up (CondSema w) (st\<lparr>cond_waiters := (cond_waiters st)(c := ws)\<rparr>) }"

definition cond_broadcast :: "u32 \<Rightarrow> u32 \<Rightarrow> ksys \<Rightarrow> ksys option" where
  "cond_broadcast c l st = foldM (\<lambda>_ st. cond_signal c l st) (cond_waiters st c) st"

section \<open>Going on\<close>

definition finish :: "after \<Rightarrow> ksys \<Rightarrow> ksys option" where
  "finish a st =
     (case a of
        Ret \<Rightarrow> Some (set_pc (running st) Normal st)
      | Hold l \<Rightarrow> do { st \<leftarrow> set_holder l st; Some (set_pc (running st) Normal st) }
      | Reacquire l \<Rightarrow> lock_acquire l st
      | UpLock l b \<Rightarrow> do { st \<leftarrow> sema_up (LockSema l) st; Some (set_pc (running st) (Then b) st) }
      | DownCond l \<Rightarrow> do { t \<leftarrow> thread_current st; sema_down_then (CondSema t) (Reacquire l) st })"

definition resume :: "ksys \<Rightarrow> ksys option" where
  "resume st =
     (case pc st (running st) of
        Normal \<Rightarrow> None
      | Then a \<Rightarrow> finish a st
      | Down s level a \<Rightarrow> down_loop s level a st
      | Yielded level c \<Rightarrow> Some (set_pc (running st) c (st\<lparr>intr_on := level\<rparr>))
      | Iret c \<Rightarrow> Some (set_pc (running st) c (st\<lparr>intr_on := True\<rparr>))
      | IdleBlocked \<Rightarrow> Some (set_pc (running st) Normal (st\<lparr>intr_on := True\<rparr>))
      | Fresh \<Rightarrow> Some (set_pc (running st) Normal (st\<lparr>intr_on := True\<rparr>)))"

section \<open>The idle thread and interrupts\<close>

definition idle_start :: "sid \<Rightarrow> ksys \<Rightarrow> ksys option" where
  "idle_start started st = do {
     t \<leftarrow> thread_current st;
     sema_up started (st\<lparr>idle_thread := t\<rparr>) }"

definition idle_iter :: "ksys \<Rightarrow> ksys option" where
  "idle_iter st = thread_block IdleBlocked (st\<lparr>intr_on := False\<rparr>)"

text \<open>
  \<open>intr_handler\<close>: \<open>hs\<close> are the registered handlers, \<open>vec\<close> the vector number. The
  message of \<open>unexpected_interrupt\<close> and the acknowledgement to the interrupt
  controller are not modelled.
\<close>

type_synonym handlers = "u8 \<Rightarrow> (ksys \<Rightarrow> ksys option) option"

definition unexpected_interrupt :: "u8 \<Rightarrow> ksys \<Rightarrow> ksys" where
  "unexpected_interrupt vec st = st\<lparr>unexpected_cnt := (unexpected_cnt st)(vec := unexpected_cnt st vec + 1)\<rparr>"

definition intr_handler :: "handlers \<Rightarrow> u8 \<Rightarrow> ksys \<Rightarrow> ksys option" where
  "intr_handler hs vec st = do {
     let external = (vec \<ge> 0x20 \<and> vec < 0x30);
     st \<leftarrow> (if external then do {
              ASSERT (\<not> intr_on st);
              ASSERT (\<not> in_intr st);
              Some (st\<lparr>in_intr := True, yield_on_return := False\<rparr>) }
            else Some st);
     st \<leftarrow> (case hs vec of
              Some h \<Rightarrow> h st
            | None \<Rightarrow> if vec = 0x27 \<or> vec = 0x2f then Some st else Some (unexpected_interrupt vec st));
     if external then do {
       ASSERT (\<not> intr_on st);
       ASSERT (in_intr st);
       let st = st\<lparr>in_intr := False\<rparr>;
       if yield_on_return st then thread_yield (intr_on st) st else Some st }
     else Some st }"

text \<open>
  An interrupt: the processor saves where the thread was and turns interrupts
  off; the return from the handler is a step of its own.
\<close>

definition interrupt :: "handlers \<Rightarrow> u8 \<Rightarrow> ksys \<Rightarrow> ksys option" where
  "interrupt hs vec st =
     intr_handler hs vec (set_pc (running st) (Iret (pc st (running st))) (st\<lparr>intr_on := False\<rparr>))"

section \<open>The steps of the system\<close>

text \<open>
  \<open>app st\<close>: the running thread is in ordinary code, outside interrupt handlers,
  and is not the idle thread.
\<close>

definition app :: "ksys \<Rightarrow> bool" where
  "app st \<longleftrightarrow> pc st (running st) = Normal \<and> running st \<noteq> idle_thread st \<and> \<not> in_intr st"

text \<open>The lock of the thread identifiers is private to \<open>allocate_tid\<close>.\<close>

text \<open>Handlers that do not sleep: the timer's, and devices that up a semaphore.\<close>

definition handlers_ok :: "handlers \<Rightarrow> bool" where
  "handlers_ok hs \<longleftrightarrow> (\<forall>vec h. hs vec = Some h \<longrightarrow> h = thread_tick \<or> (\<exists>a. h = sema_up (Sema a)))"

inductive step :: "ksys \<Rightarrow> ksys \<Rightarrow> bool" where
  down: "step st st'" if "app st" and "sema_down (Sema a) st = Some st'"
| up: "step st st'" if "app st" and "sema_up (Sema a) st = Some st'"
| try_sema: "step st (fst (try_down (Sema a) st))" if "app st"
| acquire: "step st st'" if "app st" and "l \<noteq> tid_lock" and "lock_acquire l st = Some st'"
| try_acquire: "step st st'" if "app st" and "l \<noteq> tid_lock" and "lock_try l st = Some (st', b)"
| release: "step st st'" if "app st" and "l \<noteq> tid_lock" and "release_then l Ret st = Some st'"
| wait: "step st st'" if "app st" and "l \<noteq> tid_lock" and "cond_wait c l st = Some st'"
| signal: "step st st'" if "app st" and "cond_signal c l st = Some st'"
| broadcast: "step st st'" if "app st" and "cond_broadcast c l st = Some st'"
| yield: "step st st'" if "app st" and "thread_yield (intr_on st) st = Some st'"
| exit: "step st st'" if "app st" and "thr st (running st) = Some th" and "pagedir th = 0"
    and "thread_exit st = Some st'"
| create: "step st st'" if "app st" and "thread_create nm prio function aux st = Some (st', i)"
| set_priority: "step st st'" if "app st" and "thread_set_priority p st = Some st'"
| set_level: "step st (st\<lparr>intr_on := b\<rparr>)" if "app st"
| start_idle: "step st st'" if "app st" and "idle_thread st = 0" and "idle_start (Sema a) st = Some st'"
| idle: "step st st'" if "running st = idle_thread st" and "pc st (running st) = Normal" and "\<not> in_intr st"
    and "idle_iter st = Some st'"
| go_on: "step st st'" if "\<not> in_intr st" and "resume st = Some st'"
| intr: "step st st'" if "intr_on st" and "\<not> in_intr st" and "handlers_ok hs" and "0x20 \<le> vec" and "vec < 0x30"
    and "interrupt hs vec st = Some st'"

end
