(* ===== verification/Sched_Inv.thy ===== *)
theory Sched_Inv
  imports Sched
begin

text \<open>
  The invariants of the thread system of theory \<open>Sched\<close>: the run queue and the
  wait queues, mutual exclusion of locks, condition variables, the absence of
  lost wake-ups, and the pages of threads. Each is stated on the part of the
  state it is about, with one lemma per way the operations change that part;
  the steps of the system are then covered case by case.
\<close>

section \<open>Queues, abstractly\<close>

text \<open>
  \<open>queues stat ready wq idle\<close>: the run queue holds exactly the ready threads (the
  idle thread apart, which never enters it), every wait queue holds blocked
  threads, and every blocked thread but the idle thread is on exactly one wait
  queue.
\<close>

definition queues :: "(tptr \<Rightarrow> thread_status option) \<Rightarrow> tptr list \<Rightarrow> (sid \<Rightarrow> tptr list) \<Rightarrow> tptr \<Rightarrow> bool" where
  "queues stat ready wq idle \<longleftrightarrow>
     distinct ready \<and>
     (\<forall>t\<in>set ready. stat t = Some THREAD_READY) \<and>
     (\<forall>t. stat t = Some THREAD_READY \<longrightarrow> t \<in> set ready \<or> t = idle) \<and>
     (\<forall>s. distinct (wq s)) \<and>
     (\<forall>s. \<forall>t\<in>set (wq s). stat t = Some THREAD_BLOCKED \<and> t \<noteq> idle) \<and>
     (\<forall>s s' t. t \<in> set (wq s) \<longrightarrow> t \<in> set (wq s') \<longrightarrow> s = s') \<and>
     (\<forall>t. stat t = Some THREAD_BLOCKED \<longrightarrow> t = idle \<or> (\<exists>s. t \<in> set (wq s)))"

lemma queuesD:
  assumes "queues stat ready wq idle"
  shows "distinct ready" and "\<And>t. t \<in> set ready \<Longrightarrow> stat t = Some THREAD_READY"
    and "\<And>t. stat t = Some THREAD_READY \<Longrightarrow> t \<in> set ready \<or> t = idle" and "\<And>s. distinct (wq s)"
    and "\<And>s t. t \<in> set (wq s) \<Longrightarrow> stat t = Some THREAD_BLOCKED \<and> t \<noteq> idle"
    and "\<And>s s' t. t \<in> set (wq s) \<Longrightarrow> t \<in> set (wq s') \<Longrightarrow> s = s'"
    and "\<And>t. stat t = Some THREAD_BLOCKED \<Longrightarrow> t = idle \<or> (\<exists>s. t \<in> set (wq s))"
  using assms unfolding queues_def by blast+

lemma queues_sleep:
  assumes "queues stat ready wq idle" and "stat t = Some THREAD_RUNNING" and "t \<noteq> idle"
  shows "queues (stat(t \<mapsto> THREAD_BLOCKED)) ready (wq(s := wq s @ [t])) idle"
  using assms unfolding queues_def by (auto 0 3 split: if_splits)

lemma queues_wake:
  assumes "queues stat ready wq idle" and "wq s = w # ws"
  shows "queues (stat(w \<mapsto> THREAD_READY)) (ready @ [w]) (wq(s := ws)) idle"
proof -
  have w: "stat w = Some THREAD_BLOCKED" "w \<noteq> idle" "w \<notin> set ws" "\<And>s'. w \<in> set (wq s') \<Longrightarrow> s' = s"
    using assms unfolding queues_def by (metis list.set_intros(1) distinct.simps(2))+
  have rest: "distinct ws" "\<And>t. t \<in> set ws \<Longrightarrow> t \<in> set (wq s)" "\<And>t. t \<in> set (wq s) \<Longrightarrow> t = w \<or> t \<in> set ws"
    using assms unfolding queues_def by (metis distinct.simps(2), simp_all)
  note q = queuesD [OF assms(1)]
  have wr: "w \<notin> set ready" using q(2) w(1) by force
  have blocked: "t = idle \<or> (\<exists>s'. t \<in> set ((wq(s := ws)) s'))" if "stat t = Some THREAD_BLOCKED" "t \<noteq> w" for t
    using q(7) [OF that(1)] rest(3) [of t] that(2) by (metis fun_upd_apply)
  show ?thesis unfolding queues_def
  proof (intro conjI)
    show "\<forall>s'. \<forall>t\<in>set ((wq(s := ws)) s'). (stat(w \<mapsto> THREAD_READY)) t = Some THREAD_BLOCKED \<and> t \<noteq> idle"
      using q(5) w(3,4) rest(2) by (metis fun_upd_apply)
    show "\<forall>sa s' t. t \<in> set ((wq(s := ws)) sa) \<longrightarrow> t \<in> set ((wq(s := ws)) s') \<longrightarrow> sa = s'"
      using q(6) rest(2) by (metis fun_upd_apply)
  qed (use q(1-4) wr rest(1) blocked in \<open>auto split: if_splits\<close>)
qed

lemma queues_yield:
  assumes "queues stat ready wq idle" and "stat t = Some THREAD_RUNNING"
  shows "queues (stat(t \<mapsto> THREAD_READY)) (if t \<noteq> idle then ready @ [t] else ready) wq idle"
  using assms unfolding queues_def by (auto 0 3 split: if_splits)

lemma queues_off:
  assumes "queues stat ready wq idle" and "stat t = Some THREAD_RUNNING"
  shows "queues (stat(t \<mapsto> THREAD_DYING)) ready wq idle"
    and "t = idle \<Longrightarrow> queues (stat(t \<mapsto> THREAD_BLOCKED)) ready wq idle"
  using assms unfolding queues_def by (auto 0 3 split: if_splits)

lemma queues_switch:
  assumes "queues stat ready wq idle"
  shows "queues (stat((case ready of [] \<Rightarrow> idle | t # _ \<Rightarrow> t) \<mapsto> THREAD_RUNNING)) (tl ready) wq idle"
  using assms unfolding queues_def by (cases ready) (auto 0 3 split: if_splits)

lemma queues_gone:
  assumes "queues stat ready wq idle" and "stat t = Some THREAD_DYING"
  shows "queues (stat(t := None)) ready wq idle"
  using assms unfolding queues_def by (auto 0 3 split: if_splits)

lemma queues_new:
  assumes "queues stat ready wq idle" and "stat t = None"
  shows "queues (stat(t \<mapsto> THREAD_READY)) (ready @ [t]) wq idle"
  using assms unfolding queues_def by (auto 0 3 split: if_splits)

lemma queues_set_idle:
  assumes "queues stat ready wq idle" and "stat idle = None" and "stat t = Some THREAD_RUNNING"
  shows "queues stat ready wq t"
proof -
  have some: "stat u = Some s \<Longrightarrow> u \<noteq> idle" for u s using assms(2) by auto
  note q = queuesD [OF assms(1)]
  show ?thesis unfolding queues_def
  proof (intro conjI)
    show "\<forall>s. \<forall>u\<in>set (wq s). stat u = Some THREAD_BLOCKED \<and> u \<noteq> t" using q(5) assms(3) by force
    show "\<forall>u. stat u = Some THREAD_READY \<longrightarrow> u \<in> set ready \<or> u = t" using q(3) some by blast
    show "\<forall>u. stat u = Some THREAD_BLOCKED \<longrightarrow> u = t \<or> (\<exists>s. u \<in> set (wq s))" using q(7) some by blast
  qed (use q in blast)+
qed

section \<open>Synchronization, abstractly\<close>

text \<open>\<open>base c\<close>: where a thread is in its own code, interrupt handling apart.\<close>

fun base_cont :: "cont \<Rightarrow> cont" where
  "base_cont (Yielded b c) = base_cont c"
| "base_cont (Iret c) = base_cont c"
| "base_cont c = c"

fun simple :: "cont \<Rightarrow> bool" where
  "simple Normal = True"
| "simple (Then a) = True"
| "simple c = False"

fun after_ok :: "after \<Rightarrow> bool" where
  "after_ok Ret = True"
| "after_ok (Hold l) = (l \<noteq> tid_lock)"
| "after_ok (Reacquire l) = (l \<noteq> tid_lock)"
| "after_ok (UpLock l a) = (l \<noteq> tid_lock \<and> (a = Ret \<or> a = DownCond l))"
| "after_ok (DownCond l) = (l \<noteq> tid_lock)"

fun down_ok :: "tptr \<Rightarrow> sid \<Rightarrow> after \<Rightarrow> bool" where
  "down_ok t (Sema x) a = (a = Ret)"
| "down_ok t (LockSema l) a = (a = Hold l)"
| "down_ok t (CondSema u) a = (u = t \<and> (\<exists>l. a = Reacquire l))"
| "down_ok t s a = False"

fun pc_ok :: "tptr \<Rightarrow> cont \<Rightarrow> bool" where
  "pc_ok t Normal = True"
| "pc_ok t (Then a) = after_ok a"
| "pc_ok t (Down s level a) = (down_ok t s a \<and> after_ok a)"
| "pc_ok t (Yielded b c) = (pc_ok t c \<and> (simple c \<or> (\<exists>c'. c = Iret c' \<and> \<not> b)))"
| "pc_ok t (Iret c) = (pc_ok t c \<and> simple c)"
| "pc_ok t IdleBlocked = True"
| "pc_ok t Fresh = True"

definition waits :: "cont \<Rightarrow> sid \<Rightarrow> bool" where
  "waits c s \<longleftrightarrow> (\<exists>level a. c = Down s level a)"

text \<open>Between taking or giving up the unit of a lock's semaphore and the lock's holder field.\<close>

definition transit :: "cont \<Rightarrow> u32 \<Rightarrow> bool" where
  "transit c l \<longleftrightarrow> base_cont c = Then (Hold l) \<or> (\<exists>a. base_cont c = Then (UpLock l a))"

text \<open>Inside \<open>cond_wait\<close>, before the wake-up.\<close>

definition cwait :: "cont \<Rightarrow> bool" where
  "cwait c \<longleftrightarrow> (\<exists>l l'. base_cont c = Then (UpLock l (DownCond l'))) \<or> (\<exists>l. base_cont c = Then (DownCond l)) \<or>
     (\<exists>u. waits c (CondSema u))"

text \<open>A lock is free, held, or in transit by exactly one thread.\<close>

definition lock_ok :: "u32 \<Rightarrow> tptr \<Rightarrow> tptr set \<Rightarrow> bool" where
  "lock_ok v h T \<longleftrightarrow>
     v = 1 \<and> h = 0 \<and> T = {} \<or> v = 0 \<and> h \<noteq> 0 \<and> T = {} \<or> v = 0 \<and> h = 0 \<and> (\<exists>t. T = {t})"

definition locks_ok :: "(tptr \<Rightarrow> cont) \<Rightarrow> (sid \<Rightarrow> semaphore) \<Rightarrow> (u32 \<Rightarrow> tptr) \<Rightarrow> bool" where
  "locks_ok pcs sems hold \<longleftrightarrow>
     (\<forall>l. lock_ok (sema_value (sems (LockSema l))) (hold l) {t. transit (pcs t) l})"

definition wq_ok :: "(tptr \<Rightarrow> cont) \<Rightarrow> (sid \<Rightarrow> semaphore) \<Rightarrow> bool" where
  "wq_ok pcs sems \<longleftrightarrow> (\<forall>s. \<forall>t\<in>set (waiters (sems s)). waits (pcs t) s)"

definition cond_ok :: "(tptr \<Rightarrow> cont) \<Rightarrow> (sid \<Rightarrow> semaphore) \<Rightarrow> (u32 \<Rightarrow> tptr list) \<Rightarrow> bool" where
  "cond_ok pcs sems cw \<longleftrightarrow>
     (\<forall>c. distinct (cw c)) \<and>
     (\<forall>c c' w. w \<in> set (cw c) \<longrightarrow> w \<in> set (cw c') \<longrightarrow> c = c') \<and>
     (\<forall>c. \<forall>w\<in>set (cw c). sema_value (sems (CondSema w)) = 0 \<and> cwait (pcs w))"

text \<open>The threads that left a wait queue and have not yet tried the semaphore again.\<close>

definition woken :: "(tptr \<Rightarrow> cont) \<Rightarrow> (sid \<Rightarrow> semaphore) \<Rightarrow> sid \<Rightarrow> tptr set" where
  "woken pcs sems s = {t. waits (pcs t) s \<and> t \<notin> set (waiters (sems s))}"

text \<open>While threads wait, every unit of the semaphore has a thread that was woken for it.\<close>

definition wake_ok :: "(tptr \<Rightarrow> cont) \<Rightarrow> (sid \<Rightarrow> semaphore) \<Rightarrow> bool" where
  "wake_ok pcs sems \<longleftrightarrow>
     (\<forall>s. waiters (sems s) \<noteq> [] \<longrightarrow> unat (sema_value (sems s)) \<le> card (woken pcs sems s))"

definition sync0 :: "(tptr \<Rightarrow> cont) \<Rightarrow> (sid \<Rightarrow> semaphore) \<Rightarrow> (u32 \<Rightarrow> tptr list) \<Rightarrow> bool" where
  "sync0 pcs sems cw \<longleftrightarrow> finite {t. pcs t \<noteq> Normal} \<and> (\<forall>t. pc_ok t (pcs t)) \<and> wq_ok pcs sems \<and>
     cond_ok pcs sems cw \<and> wake_ok pcs sems"

lemma sync0D:
  assumes "sync0 pcs sems cw"
  shows "finite {t. pcs t \<noteq> Normal}" and "pc_ok t (pcs t)" and "wq_ok pcs sems"
    and "cond_ok pcs sems cw" and "wake_ok pcs sems"
  using assms unfolding sync0_def by blast+

definition sync :: "(tptr \<Rightarrow> cont) \<Rightarrow> (sid \<Rightarrow> semaphore) \<Rightarrow> (u32 \<Rightarrow> tptr) \<Rightarrow> (u32 \<Rightarrow> tptr list) \<Rightarrow> bool" where
  "sync pcs sems hold cw \<longleftrightarrow> sync0 pcs sems cw \<and> locks_ok pcs sems hold"

lemma waits_simps [simp]:
  "waits (Down s level a) s' \<longleftrightarrow> s' = s" "\<not> waits Normal s'" "\<not> waits (Then b) s'" "\<not> waits (Yielded v c) s'"
  "\<not> waits (Iret c) s'" "\<not> waits IdleBlocked s'" "\<not> waits Fresh s'"
  by (auto simp: waits_def)

lemma transit_simps [simp]:
  "transit (Then (Hold l)) l' \<longleftrightarrow> l' = l" "transit (Then (UpLock l a)) l' \<longleftrightarrow> l' = l" "\<not> transit Normal l'"
  "\<not> transit (Then Ret) l'" "\<not> transit (Then (Reacquire l)) l'" "\<not> transit (Then (DownCond l)) l'"
  "\<not> transit (Down s level b) l'" "transit (Yielded v c) l' = transit c l'" "transit (Iret c) l' = transit c l'"
  "\<not> transit IdleBlocked l'" "\<not> transit Fresh l'"
  by (auto simp: transit_def)

lemma cwait_simps [simp]:
  "\<not> cwait Normal" "\<not> cwait (Then Ret)" "\<not> cwait (Then (Hold l))" "\<not> cwait (Then (Reacquire l))"
  "cwait (Then (UpLock l a)) \<longleftrightarrow> (\<exists>l'. a = DownCond l')" "cwait (Then (DownCond l))"
  "cwait (Down s level a) \<longleftrightarrow> (\<exists>u. s = CondSema u)" "\<not> cwait IdleBlocked" "\<not> cwait Fresh"
  by (auto simp: cwait_def)

lemma simple_not_waits [simp]: "simple c \<Longrightarrow> \<not> waits c s"
  by (cases c) auto

lemma finite_upd:
  assumes "finite {t. pcs t \<noteq> Normal}"
  shows "finite {u. (pcs(t := c)) u \<noteq> Normal}"
  by (rule finite_subset [of _ "insert t {t. pcs t \<noteq> Normal}"]) (use assms in auto)

lemma finite_woken:
  assumes "finite {t. pcs t \<noteq> Normal}"
  shows "finite (woken pcs sems s)"
  by (rule finite_subset [OF _ assms]) (auto simp: woken_def)

text \<open>A thread moves on without touching any semaphore.\<close>

lemma sync0_pc:
  assumes s: "sync0 pcs sems cw" and "pc_ok t c" and w: "\<And>s. \<not> waits c s" "\<And>s. \<not> waits (pcs t) s"
    and cw: "cwait (pcs t) \<Longrightarrow> cwait c"
  shows "sync0 (pcs(t := c)) sems cw"
proof -
  note d = sync0D [OF s]
  have "woken (pcs(t := c)) sems s = woken pcs sems s" for s using w by (auto simp: woken_def)
  then have "wake_ok (pcs(t := c)) sems" using d(5) by (simp add: wake_ok_def)
  moreover have "wq_ok (pcs(t := c)) sems" using d(3) w by (auto simp: wq_ok_def)
  moreover have "cond_ok (pcs(t := c)) sems cw" using d(4) cw by (auto simp: cond_ok_def)
  moreover have "pc_ok u ((pcs(t := c)) u)" for u using d(2) assms(2) by simp
  ultimately show ?thesis unfolding sync0_def using finite_upd [OF d(1)] by blast
qed

lemma locks_ok_pc:
  assumes "locks_ok pcs sems hold" and "\<And>l. transit c l = transit (pcs t) l"
  shows "locks_ok (pcs(t := c)) sems hold"
proof -
  have "{u. transit ((pcs(t := c)) u) l} = {u. transit (pcs u) l}" for l using assms(2) by auto
  then show ?thesis using assms(1) by (simp add: locks_ok_def)
qed

lemma sync_pc:
  assumes "sync pcs sems hold cw" and "pc_ok t c" and "\<And>s. \<not> waits c s" "\<And>s. \<not> waits (pcs t) s"
    and "\<And>l. transit c l = transit (pcs t) l" and "cwait (pcs t) \<Longrightarrow> cwait c"
  shows "sync (pcs(t := c)) sems hold cw"
  using assms sync0_pc [of pcs sems cw t c] locks_ok_pc [of pcs sems hold c t] unfolding sync_def by blast

text \<open>A thread goes to sleep.\<close>

lemma sync_sleep:
  assumes s: "sync pcs sems hold cw" and v: "sema_value (sems s) = 0"
    and ok: "pc_ok t (Down s level a)" and w: "\<And>s'. waits (pcs t) s' \<Longrightarrow> s' = s"
    and tr: "\<And>l. \<not> transit (pcs t) l" and cw: "cwait (pcs t) \<Longrightarrow> \<exists>u. s = CondSema u"
  shows "sync (pcs(t := Down s level a)) (sems(s := (sems s)\<lparr>waiters := waiters (sems s) @ [t]\<rparr>)) hold cw"
    (is "sync ?p ?q hold cw")
proof -
  have s0: "sync0 pcs sems cw" and l: "locks_ok pcs sems hold" using s by (simp_all add: sync_def)
  note d = sync0D [OF s0]
  have val: "sema_value (?q s') = sema_value (sems s')" for s' by simp
  have "locks_ok ?p ?q hold" using locks_ok_pc [OF l, of "Down s level a" t] tr unfolding locks_ok_def val by simp
  moreover have "woken ?p ?q s' = woken pcs sems s'" if "s' \<noteq> s" for s' using w that by (auto simp: woken_def)
  then have "wake_ok ?p ?q" using d(5) v unfolding wake_ok_def by simp
  moreover have "wq_ok ?p ?q" using d(3) w by (auto simp: wq_ok_def)
  moreover have "cond_ok ?p ?q cw" using d(4) cw unfolding cond_ok_def val by auto
  moreover have "pc_ok u (?p u)" for u using d(2) ok by simp
  ultimately show ?thesis unfolding sync_def sync0_def using finite_upd [OF d(1)] by blast
qed

text \<open>A thread takes a unit.\<close>

lemma sync0_take:
  assumes s: "sync0 pcs sems cw" and v: "sema_value (sems s) \<noteq> 0" and t: "t \<notin> set (waiters (sems s))"
    and ok: "pc_ok t (Then a)" and w: "\<And>s'. waits (pcs t) s' \<Longrightarrow> s' = s"
    and cw: "cwait (pcs t) \<Longrightarrow> s = CondSema t"
  shows "sync0 (pcs(t := Then a)) (sems(s := (sems s)\<lparr>sema_value := sema_value (sems s) - 1\<rparr>)) cw"
    (is "sync0 ?p ?q cw")
proof -
  note d = sync0D [OF s]
  have wt: "waiters (?q s') = waiters (sems s')" for s' by simp
  have dec: "unat (sema_value (sems s) - 1) = unat (sema_value (sems s)) - 1"
    using v by (rule unat_minus_one)
  have "unat (sema_value (?q s')) \<le> card (woken ?p ?q s')" if ne: "waiters (sems s') \<noteq> []" for s'
  proof (cases "s' = s")
    case True
    have "woken ?p ?q s = woken pcs sems s - {t}" using t by (auto simp: woken_def)
    then have "card (woken pcs sems s) - 1 \<le> card (woken ?p ?q s)"
      using finite_woken [OF d(1), of sems s] by (simp add: card_Diff1_le card_Diff_singleton_if)
    moreover have "unat (sema_value (sems s)) \<le> card (woken pcs sems s)" using d(5) ne True by (simp add: wake_ok_def)
    ultimately show ?thesis using True dec by simp
  next
    case False
    then have "woken ?p ?q s' = woken pcs sems s'" using w by (auto simp: woken_def)
    then show ?thesis using d(5) ne False by (simp add: wake_ok_def)
  qed
  then have "wake_ok ?p ?q" unfolding wake_ok_def wt by blast
  moreover have "wq_ok ?p ?q" using d(3) w t unfolding wq_ok_def wt by (metis fun_upd_apply)
  moreover have "cond_ok ?p ?q cw"
  proof -
    have "sema_value (?q (CondSema w)) = 0 \<and> cwait (?p w)" if "w \<in> set (cw c)" for c w
    proof -
      have z: "sema_value (sems (CondSema w)) = 0" "cwait (pcs w)" using d(4) that unfolding cond_ok_def by blast+
      then have "s \<noteq> CondSema w" "w \<noteq> t" using v cw by auto
      then show ?thesis using z by simp
    qed
    then show ?thesis using d(4) unfolding cond_ok_def by blast
  qed
  moreover have "pc_ok u (?p u)" for u using d(2) ok by simp
  ultimately show ?thesis unfolding sync0_def using finite_upd [OF d(1)] by blast
qed

lemma sync_take:
  assumes s: "sync pcs sems hold cw" and v: "sema_value (sems s) \<noteq> 0" and t: "t \<notin> set (waiters (sems s))"
    and ok: "pc_ok t (Down s level a)" and w: "\<And>s'. waits (pcs t) s' \<Longrightarrow> s' = s"
    and tr: "\<And>l. \<not> transit (pcs t) l" and cw: "cwait (pcs t) \<Longrightarrow> s = CondSema t"
  shows "sync (pcs(t := Then a)) (sems(s := (sems s)\<lparr>sema_value := sema_value (sems s) - 1\<rparr>)) hold cw"
    (is "sync ?p ?q hold cw")
proof -
  have s0: "sync0 pcs sems cw" and l: "locks_ok pcs sems hold" using s by (simp_all add: sync_def)
  have "sync0 ?p ?q cw" by (rule sync0_take [OF s0 v t _ w cw]) (use ok in auto)
  moreover have "locks_ok ?p ?q hold"
  proof (cases "\<exists>l. s = LockSema l")
    case True
    then obtain l where l': "s = LockSema l" "a = Hold l" using ok by auto
    have free: "sema_value (sems s) = 1" "hold l = 0" "{u. transit (pcs u) l} = {}"
      using l v unfolding locks_ok_def lock_ok_def l' by metis+
    have "{u. transit (?p u) l} = {t}" using free(3) l' by auto
    moreover have "{u. transit (?p u) l''} = {u. transit (pcs u) l''}" if "l'' \<noteq> l" for l''
      using that l' tr by auto
    ultimately show ?thesis using l free unfolding locks_ok_def l' by (auto simp: lock_ok_def)
  next
    case False
    then have "sema_value (?q (LockSema l)) = sema_value (sems (LockSema l))" for l by auto
    moreover have "transit (Then a) l = transit (pcs t) l" for l
      using ok False tr by (cases s) auto
    ultimately show ?thesis using locks_ok_pc [OF l, of "Then a" t] unfolding locks_ok_def by simp
  qed
  ultimately show ?thesis by (simp add: sync_def)
qed

text \<open>A unit is added, and the first waiter leaves its queue.\<close>

lemma sema_up_data_simps:
  "waiters (fst (sema_up_data sm)) = tl (waiters sm)"
  "sema_value (fst (sema_up_data sm)) = sema_value sm + 1"
  "snd (sema_up_data sm) = (case waiters sm of [] \<Rightarrow> None | t # _ \<Rightarrow> Some t)"
  by (simp_all add: sema_up_data_def split: list.splits)

lemma sync0_up:
  assumes s: "sync0 pcs sems cw" and dist: "distinct (waiters (sems s))"
    and c: "\<And>w c. s = CondSema w \<Longrightarrow> w \<notin> set (cw c)"
  shows "sync0 pcs (sems(s := fst (sema_up_data (sems s)))) cw" (is "sync0 pcs ?q cw")
proof -
  note d = sync0D [OF s]
  have "unat (sema_value (?q s')) \<le> card (woken pcs ?q s')" if ne: "waiters (?q s') \<noteq> []" for s'
  proof (cases "s' = s")
    case True
    then obtain w ws where ws: "waiters (sems s) = w # ws" using ne by (cases "waiters (sems s)") (auto simp: sema_up_data_simps)
    have w: "waits (pcs w) s" "w \<notin> set ws" using d(3) dist ws by (auto simp: wq_ok_def)
    then have "woken pcs ?q s = insert w (woken pcs sems s)" using ws by (auto simp: woken_def sema_up_data_simps)
    moreover have "w \<notin> woken pcs sems s" using ws by (simp add: woken_def)
    ultimately have "card (woken pcs ?q s) = Suc (card (woken pcs sems s))"
      using finite_woken [OF d(1)] by simp
    moreover have "unat (sema_value (sems s)) \<le> card (woken pcs sems s)" using d(5) ws by (simp add: wake_ok_def)
    moreover have "unat (sema_value (sems s) + 1) \<le> Suc (unat (sema_value (sems s)))"
      by (simp add: unat_word_ariths)
    ultimately show ?thesis using True by (simp add: sema_up_data_simps)
  next
    case False
    then have "woken pcs ?q s' = woken pcs sems s'" by (simp add: woken_def)
    then show ?thesis using d(5) ne False by (simp add: wake_ok_def)
  qed
  then have "wake_ok pcs ?q" unfolding wake_ok_def by blast
  moreover have "wq_ok pcs ?q" using d(3) unfolding wq_ok_def
    by (auto simp: sema_up_data_simps) (metis list.sel(2) list.set_sel(2))
  moreover have "cond_ok pcs ?q cw" using d(4) c unfolding cond_ok_def by auto
  ultimately show ?thesis unfolding sync0_def using d(1,2) by blast
qed

lemma sync_up:
  assumes "sync pcs sems hold cw" and "distinct (waiters (sems s))" and "\<And>l. s \<noteq> LockSema l"
    and "\<And>w c. s = CondSema w \<Longrightarrow> w \<notin> set (cw c)"
  shows "sync pcs (sems(s := fst (sema_up_data (sems s)))) hold cw"
proof -
  have "sync0 pcs sems cw" using assms(1) by (simp add: sync_def)
  then have "sync0 pcs (sems(s := fst (sema_up_data (sems s)))) cw" by (rule sync0_up) (use assms in auto)
  then show ?thesis using assms(1,3) unfolding sync_def locks_ok_def by auto
qed

text \<open>The locks that one thread's move does not concern keep their state.\<close>

lemma locks_ok_upd:
  assumes l: "locks_ok pcs sems hold" and "\<And>l'. l' \<noteq> l \<Longrightarrow> transit c l' = transit (pcs t) l'"
    and "\<And>l'. l' \<noteq> l \<Longrightarrow> sema_value (sems' (LockSema l')) = sema_value (sems (LockSema l'))"
    and "lock_ok (sema_value (sems' (LockSema l))) h {u. transit ((pcs(t := c)) u) l}"
  shows "locks_ok (pcs(t := c)) sems' (hold(l := h))"
proof -
  have "{u. transit ((pcs(t := c)) u) l'} = {u. transit (pcs u) l'}" if "l' \<noteq> l" for l' using assms(2) that by auto
  then have "lock_ok (sema_value (sems' (LockSema l'))) ((hold(l := h)) l') {u. transit ((pcs(t := c)) u) l'}" for l'
    using l assms(3,4) unfolding locks_ok_def by (cases "l' = l") simp_all
  then show ?thesis unfolding locks_ok_def by blast
qed

lemma in_transit:
  assumes "locks_ok pcs sems hold" and "transit (pcs t) l"
  shows "sema_value (sems (LockSema l)) = 0" and "hold l = 0" and "{u. transit (pcs u) l} = {t}"
proof -
  have "lock_ok (sema_value (sems (LockSema l))) (hold l) {u. transit (pcs u) l}"
    using assms(1) by (simp add: locks_ok_def)
  moreover have "t \<in> {u. transit (pcs u) l}" using assms(2) by simp
  ultimately show "sema_value (sems (LockSema l)) = 0" "hold l = 0" "{u. transit (pcs u) l} = {t}"
    unfolding lock_ok_def by (auto simp: set_eq_iff)
qed

lemma sync_up_lock:
  assumes s: "sync pcs sems hold cw" and t: "pcs t = Then (UpLock l b)" and dist: "distinct (waiters (sems (LockSema l)))"
  shows "sync (pcs(t := Then b)) (sems(LockSema l := fst (sema_up_data (sems (LockSema l))))) hold cw"
proof -
  have s0: "sync0 pcs sems cw" and l: "locks_ok pcs sems hold" using s by (simp_all add: sync_def)
  have b: "b = Ret \<or> b = DownCond l" "l \<noteq> tid_lock" using sync0D(2) [OF s0, of t] t by auto
  note tr = in_transit [OF l, of t l, unfolded t, simplified]
  have "sync0 (pcs(t := Then b)) (sems(LockSema l := fst (sema_up_data (sems (LockSema l))))) cw"
    by (rule sync0_pc [OF sync0_up [OF s0 dist]]) (use t b in auto)
  moreover have "locks_ok (pcs(t := Then b)) (sems(LockSema l := fst (sema_up_data (sems (LockSema l))))) (hold(l := 0))"
    by (rule locks_ok_upd [OF l]) (use t b tr in \<open>auto simp: sema_up_data_simps lock_ok_def\<close>)
  ultimately show ?thesis using tr(2) by (simp add: sync_def fun_upd_idem)
qed

text \<open>The holder field of a lock is set or cleared.\<close>

lemma sync_hold:
  assumes s: "sync pcs sems hold cw" and t: "pcs t = Then (Hold l)" "t \<noteq> 0"
  shows "sync (pcs(t := Normal)) sems (hold(l := t)) cw"
proof -
  have s0: "sync0 pcs sems cw" and l: "locks_ok pcs sems hold" using s by (simp_all add: sync_def)
  note tr = in_transit [OF l, of t l, unfolded t, simplified]
  have "sync0 (pcs(t := Normal)) sems cw" by (rule sync0_pc [OF s0]) (use t in auto)
  moreover have "locks_ok (pcs(t := Normal)) sems (hold(l := t))"
    by (rule locks_ok_upd [OF l]) (use t tr in \<open>auto simp: lock_ok_def\<close>)
  ultimately show ?thesis by (simp add: sync_def)
qed

lemma locks_ok_release:
  assumes l: "locks_ok pcs sems hold" and t: "pcs t = Normal" "hold l = t" "t \<noteq> 0"
  shows "locks_ok (pcs(t := Then (UpLock l a))) sems (hold(l := 0))"
proof (rule locks_ok_upd [OF l])
  have "lock_ok (sema_value (sems (LockSema l))) (hold l) {u. transit (pcs u) l}" using l by (simp add: locks_ok_def)
  then have "sema_value (sems (LockSema l)) = 0" "{u. transit (pcs u) l} = {}" using t unfolding lock_ok_def by auto
  moreover have "{u. transit ((pcs(t := Then (UpLock l a))) u) l} = {t}" using calculation(2) by auto
  ultimately show "lock_ok (sema_value (sems (LockSema l))) 0 {u. transit ((pcs(t := Then (UpLock l a))) u) l}"
    by (simp add: lock_ok_def)
qed (use t in auto)

lemma sync_release:
  assumes s: "sync pcs sems hold cw" and t: "pcs t = Normal" "hold l = t" "t \<noteq> 0" and l: "l \<noteq> tid_lock"
  shows "sync (pcs(t := Then (UpLock l Ret))) sems (hold(l := 0)) cw"
proof -
  have "sync0 (pcs(t := Then (UpLock l Ret))) sems cw"
    by (rule sync0_pc) (use s t l in \<open>auto simp: sync_def\<close>)
  moreover have "locks_ok pcs sems hold" using s by (simp add: sync_def)
  then have "locks_ok (pcs(t := Then (UpLock l Ret))) sems (hold(l := 0))" by (rule locks_ok_release) (use t in auto)
  ultimately show ?thesis by (simp add: sync_def)
qed

text \<open>Only its own thread waits on a condition's semaphore.\<close>

lemma cond_sema_empty:
  assumes "sync0 pcs sems cw" and "pcs t = Normal"
  shows "waiters (sems (CondSema t)) = []"
proof (rule ccontr)
  assume "waiters (sems (CondSema t)) \<noteq> []"
  then obtain u where "u \<in> set (waiters (sems (CondSema t)))" by (cases "waiters (sems (CondSema t))") auto
  then have "waits (pcs u) (CondSema t)" using sync0D(3) [OF assms(1)] by (simp add: wq_ok_def)
  then obtain lv a where "pcs u = Down (CondSema t) lv a" by (auto simp: waits_def)
  moreover have "u = t" using sync0D(2) [OF assms(1), of u] calculation by simp
  ultimately show False using assms(2) by simp
qed

text \<open>A thread enters \<open>cond_wait\<close>: it joins the condition's waiters and gives the lock up.\<close>

lemma sync_cond_wait:
  assumes s: "sync pcs sems hold cw" and t: "pcs t = Normal" "hold l = t" "t \<noteq> 0" and l: "l \<noteq> tid_lock"
  shows "sync (pcs(t := Then (UpLock l (DownCond l)))) (sems(CondSema t := sema_init 0)) (hold(l := 0))
    (cw(c := cw c @ [t]))" (is "sync ?p ?q _ ?w")
proof -
  have s0: "sync0 pcs sems cw" and lk: "locks_ok pcs sems hold" using s by (simp_all add: sync_def)
  note d = sync0D [OF s0]
  have fresh: "t \<notin> set (cw c')" for c' using d(4) t unfolding cond_ok_def by force
  note none = cond_sema_empty [OF s0 t(1)]
  have wt: "waiters (?q s') = waiters (sems s')" for s' using none by (simp add: sema_init_def)
  have "woken ?p ?q s' = woken pcs sems s'" for s' using t unfolding woken_def wt by auto
  then have "wake_ok ?p ?q" using d(5) none unfolding wake_ok_def wt by (auto simp: sema_init_def)
  moreover have "wq_ok ?p ?q" using d(3) t unfolding wq_ok_def wt by (metis fun_upd_apply waits_simps(2))
  moreover have "cond_ok ?p ?q ?w" using d(4) fresh unfolding cond_ok_def by (auto simp: sema_init_def)
  moreover have "pc_ok u (?p u)" for u using d(2) l by simp
  ultimately have "sync0 ?p ?q ?w" unfolding sync0_def using finite_upd [OF d(1)] by blast
  moreover have "locks_ok ?p ?q (hold(l := 0))"
    using locks_ok_release [OF lk t, of "DownCond l"] by (simp add: locks_ok_def)
  ultimately show ?thesis by (simp add: sync_def)
qed

text \<open>The first waiter of a condition is taken off.\<close>

lemma sync_unwait:
  assumes "sync pcs sems hold cw" and "cw c = w # ws"
  shows "sync pcs sems hold (cw(c := ws))" and "\<And>c'. w \<notin> set ((cw(c := ws)) c')"
proof -
  have co: "cond_ok pcs sems cw" using assms(1) by (simp add: sync_def sync0_def)
  then have u: "\<And>c'. w \<in> set (cw c') \<Longrightarrow> c' = c" "w \<notin> set ws"
    using assms(2) unfolding cond_ok_def by (metis list.set_intros(1) distinct.simps(2))+
  then show "\<And>c'. w \<notin> set ((cw(c := ws)) c')" by auto
  have sub: "set ((cw(c := ws)) c') \<subseteq> set (cw c')" "distinct ((cw(c := ws)) c')" for c'
    using assms(2) co unfolding cond_ok_def by (auto dest: spec [of _ c])
  then have "cond_ok pcs sems (cw(c := ws))" using co unfolding cond_ok_def by (meson subsetD)
  then show "sync pcs sems hold (cw(c := ws))" using assms(1) by (simp add: sync_def sync0_def)
qed

text \<open>\<open>sema_try_down\<close> on a free-standing semaphore.\<close>

lemma sync_try:
  assumes s: "sync pcs sems hold cw"
  shows "sync pcs (sems(Sema a := fst (sema_try_down (sems (Sema a))))) hold cw" (is "sync pcs ?q hold cw")
proof -
  have s0: "sync0 pcs sems cw" and l: "locks_ok pcs sems hold" using s by (simp_all add: sync_def)
  note d = sync0D [OF s0]
  have wt: "waiters (?q s') = waiters (sems s')" for s' by (simp add: sema_try_down_def)
  have le: "unat (sema_value (?q s')) \<le> unat (sema_value (sems s'))" for s'
    by (simp add: sema_try_down_def unat_minus_one word_neq_0_conv)
  have wk: "woken pcs ?q s' = woken pcs sems s'" for s' unfolding woken_def wt by simp
  have "unat (sema_value (?q s')) \<le> card (woken pcs sems s')" if "waiters (sems s') \<noteq> []" for s'
    using order_trans [OF le] d(5) that unfolding wake_ok_def by blast
  then have "wake_ok pcs ?q" unfolding wake_ok_def wt wk by blast
  moreover have "wq_ok pcs ?q" using d(3) unfolding wq_ok_def wt by simp
  moreover have "cond_ok pcs ?q cw" using d(4) unfolding cond_ok_def by simp
  ultimately show ?thesis using d(1,2) l unfolding sync_def sync0_def locks_ok_def by simp
qed

section \<open>The invariant of the system\<close>

definition stat_of :: "ksys \<Rightarrow> tptr \<Rightarrow> thread_status option" where
  "stat_of st t = map_option status (thr st t)"

text \<open>The idle thread is never inside a synchronization operation.\<close>

definition idle_ok :: "cont \<Rightarrow> bool" where
  "idle_ok c \<longleftrightarrow> base_cont c \<in> {Normal, IdleBlocked, Fresh}"

definition pages_ok :: "kmem \<Rightarrow> tptr \<Rightarrow> tptr set \<Rightarrow> bool" where
  "pages_ok k init T \<longleftrightarrow> kmem_inv k \<and> unat init \<notin> arena k \<and> (\<forall>t\<in>T. t = init \<or> live k t)"

text \<open>
  \<open>kinv\<close> holds at every point of the scheduler; \<open>sys_inv\<close> holds between steps:
  the running thread is the only one marked so, interrupts are on only outside
  the scheduler's code, and no interrupt is being handled.
\<close>

definition kinv :: "ksys \<Rightarrow> bool" where
  "kinv st \<longleftrightarrow>
     (\<forall>t th. thr st t = Some th \<longrightarrow> t \<noteq> 0 \<and> magic th = THREAD_MAGIC) \<and>
     (\<forall>t. thr st t = None \<longrightarrow> pc st t = Normal) \<and>
     (\<forall>t. stat_of st t = Some THREAD_DYING \<longrightarrow> pc st t = Normal) \<and>
     queues (stat_of st) (ready_list st) (\<lambda>s. waiters (semas st s)) (idle_thread st) \<and>
     sync (pc st) (semas st) (lock_holder st) (cond_waiters st) \<and>
     lock_holder st tid_lock = 0 \<and>
     idle_ok (pc st (idle_thread st)) \<and>
     pages_ok (km (mmu st)) (initial_thread st) {t. thr st t \<noteq> None}"

definition sys_inv :: "ksys \<Rightarrow> bool" where
  "sys_inv st \<longleftrightarrow> kinv st \<and> (\<forall>t. stat_of st t = Some THREAD_RUNNING \<longleftrightarrow> t = running st) \<and>
     (intr_on st \<longrightarrow> simple (pc st (running st))) \<and> \<not> in_intr st"

lemma kinvD:
  assumes "kinv st"
  shows "thr st t = Some th \<Longrightarrow> t \<noteq> 0 \<and> magic th = THREAD_MAGIC" and "thr st t = None \<Longrightarrow> pc st t = Normal"
    and "queues (stat_of st) (ready_list st) (\<lambda>s. waiters (semas st s)) (idle_thread st)"
    and "sync (pc st) (semas st) (lock_holder st) (cond_waiters st)"
    and "lock_holder st tid_lock = 0"
    and "pages_ok (km (mmu st)) (initial_thread st) {t. thr st t \<noteq> None}"
    and "idle_ok (pc st (idle_thread st))"
    and "stat_of st t = Some THREAD_DYING \<Longrightarrow> pc st t = Normal"
  using assms unfolding kinv_def by blast+

lemma sys_invD:
  assumes "sys_inv st"
  shows "kinv st" and "stat_of st t = Some THREAD_RUNNING \<longleftrightarrow> t = running st"
    and "intr_on st \<Longrightarrow> simple (pc st (running st))" and "\<not> in_intr st"
  using assms unfolding sys_inv_def by blast+

lemma has_status_stat: "has_status st t s \<longleftrightarrow> stat_of st t = Some s"
  by (auto simp: has_status_def stat_of_def)

lemma stat_of_upd [simp]:
  "stat_of (st\<lparr>ready_list := r\<rparr>) = stat_of st" "stat_of (st\<lparr>semas := q\<rparr>) = stat_of st"
  "stat_of (st\<lparr>intr_on := b\<rparr>) = stat_of st" "stat_of (st\<lparr>mmu := v\<rparr>) = stat_of st"
  "stat_of (st\<lparr>running := x\<rparr>) = stat_of st" "stat_of (st\<lparr>thread_ticks := n\<rparr>) = stat_of st"
  "stat_of (st\<lparr>lock_holder := f\<rparr>) = stat_of st" "stat_of (st\<lparr>cond_waiters := g\<rparr>) = stat_of st"
  "stat_of (st\<lparr>all_list := l\<rparr>) = stat_of st" "stat_of (st\<lparr>in_intr := b\<rparr>) = stat_of st"
  "stat_of (st\<lparr>yield_on_return := b\<rparr>) = stat_of st" "stat_of (st\<lparr>idle_thread := x\<rparr>) = stat_of st"
  "stat_of (st\<lparr>next_tid := i\<rparr>) = stat_of st" "stat_of (st\<lparr>pc := p\<rparr>) = stat_of st"
  "stat_of (st\<lparr>idle_ticks := i\<rparr>) = stat_of st" "stat_of (st\<lparr>user_ticks := i\<rparr>) = stat_of st"
  "stat_of (st\<lparr>kernel_ticks := i\<rparr>) = stat_of st" "stat_of (st\<lparr>unexpected_cnt := u\<rparr>) = stat_of st"
  by (simp_all add: stat_of_def fun_eq_iff)

lemma stat_of_thr: "stat_of (st\<lparr>thr := f\<rparr>) = (\<lambda>t. map_option status (f t))"
  by (simp add: stat_of_def fun_eq_iff)

lemma upd_thr_same [simp]:
  "ready_list (upd_thr t f st) = ready_list st" "all_list (upd_thr t f st) = all_list st"
  "running (upd_thr t f st) = running st" "idle_thread (upd_thr t f st) = idle_thread st"
  "initial_thread (upd_thr t f st) = initial_thread st" "semas (upd_thr t f st) = semas st"
  "lock_holder (upd_thr t f st) = lock_holder st" "cond_waiters (upd_thr t f st) = cond_waiters st"
  "pc (upd_thr t f st) = pc st" "mmu (upd_thr t f st) = mmu st" "intr_on (upd_thr t f st) = intr_on st"
  "in_intr (upd_thr t f st) = in_intr st" "next_tid (upd_thr t f st) = next_tid st"
  "thr (upd_thr t f st) = (thr st)(t := map_option f (thr st t))"
  by (simp_all add: upd_thr_def)

lemma set_status_same [simp]:
  "ready_list (set_status t s st) = ready_list st" "all_list (set_status t s st) = all_list st"
  "running (set_status t s st) = running st" "idle_thread (set_status t s st) = idle_thread st"
  "initial_thread (set_status t s st) = initial_thread st" "semas (set_status t s st) = semas st"
  "lock_holder (set_status t s st) = lock_holder st" "cond_waiters (set_status t s st) = cond_waiters st"
  "pc (set_status t s st) = pc st" "mmu (set_status t s st) = mmu st" "intr_on (set_status t s st) = intr_on st"
  "in_intr (set_status t s st) = in_intr st"
  "thr (set_status t s st) = (thr st)(t := map_option (\<lambda>th. th\<lparr>status := s\<rparr>) (thr st t))"
  by (simp_all add: set_status_def)

lemma stat_of_set_status:
  "thr st t \<noteq> None \<Longrightarrow> stat_of (set_status t s st) = (stat_of st)(t \<mapsto> s)"
  by (auto simp: stat_of_def fun_eq_iff)

lemma set_pc_same [simp]:
  "thr (set_pc t c st) = thr st" "ready_list (set_pc t c st) = ready_list st"
  "all_list (set_pc t c st) = all_list st" "running (set_pc t c st) = running st"
  "idle_thread (set_pc t c st) = idle_thread st" "initial_thread (set_pc t c st) = initial_thread st"
  "semas (set_pc t c st) = semas st" "lock_holder (set_pc t c st) = lock_holder st"
  "cond_waiters (set_pc t c st) = cond_waiters st" "pc (set_pc t c st) = (pc st)(t := c)"
  "mmu (set_pc t c st) = mmu st" "intr_on (set_pc t c st) = intr_on st" "in_intr (set_pc t c st) = in_intr st"
  "stat_of (set_pc t c st) = stat_of st"
  by (simp_all add: set_pc_def)

lemma thread_current_Some: "thread_current st = Some t \<longleftrightarrow>
  t = running st \<and> is_thread st t \<and> stat_of st t = Some THREAD_RUNNING"
  by (auto simp: thread_current_def Let_def has_status_stat)

section \<open>Switching threads\<close>

definition next_of :: "ksys \<Rightarrow> tptr" where
  "next_of st = (case ready_list st of [] \<Rightarrow> idle_thread st | t # _ \<Rightarrow> t)"

text \<open>The threads after a switch: the next one is running; a thread that was dying is gone.\<close>

definition dies :: "ksys \<Rightarrow> bool" where
  "dies st \<longleftrightarrow> running st \<noteq> next_of st \<and> running st \<noteq> 0 \<and> stat_of st (running st) = Some THREAD_DYING \<and>
     running st \<noteq> initial_thread st"

definition switched :: "ksys \<Rightarrow> tptr \<Rightarrow> thread option" where
  "switched st = (let f = (thr st)(next_of st := map_option (\<lambda>th. th\<lparr>status := THREAD_RUNNING\<rparr>) (thr st (next_of st)))
     in if dies st then f(running st := None) else f)"

lemma tss_update_Some:
  "tss_update st = Some st' \<Longrightarrow> \<exists>a x. st' = st\<lparr>mmu := wr a x (mmu st)\<rparr>"
  by (auto simp: tss_update_def poke_def split: bind_splits)

lemma pagedir_activate_Some:
  "pagedir_activate pd v = Some v' \<Longrightarrow> km v' = km v"
  by (auto simp: pagedir_activate_def split: bind_splits)

lemma process_activate_Some:
  assumes "process_activate st = Some st'"
  shows "\<exists>v m. st' = st\<lparr>mmu := v\<rparr> \<and> km v = (km (mmu st))\<lparr>mem := m\<rparr>"
proof -
  obtain pd v where v: "pagedir_activate pd (mmu st) = Some v" "tss_update (st\<lparr>mmu := v\<rparr>) = Some st'"
    using assms by (auto simp: process_activate_def split: bind_splits)
  obtain a x where "st' = st\<lparr>mmu := wr a x v\<rparr>" using tss_update_Some [OF v(2)] by auto
  moreover have "km (wr a x v) = (km (mmu st))\<lparr>mem := store32 (mem (km v)) a x\<rparr>"
    using pagedir_activate_Some [OF v(1)] by (simp add: wr_def)
  ultimately show ?thesis by blast
qed

lemma tail_Some:
  assumes "thread_schedule_tail prev st = Some st'"
  shows "\<exists>v m. st' = st\<lparr>thread_ticks := 0, mmu := v, thr :=
      (let f = (thr st)(running st := map_option (\<lambda>th. th\<lparr>status := THREAD_RUNNING\<rparr>) (thr st (running st)))
       in if prev \<noteq> 0 \<and> (prev \<noteq> running st \<and> stat_of st prev = Some THREAD_DYING) \<and> prev \<noteq> initial_thread st
          then f(prev := None) else f)\<rparr> \<and>
    (if prev \<noteq> 0 \<and> (prev \<noteq> running st \<and> stat_of st prev = Some THREAD_DYING) \<and> prev \<noteq> initial_thread st
     then palloc_free_page ((km (mmu st))\<lparr>mem := m\<rparr>) prev = Some (km v)
     else km v = (km (mmu st))\<lparr>mem := m\<rparr>)"
proof -
  define s1 where "s1 = (set_status (running st) THREAD_RUNNING st)\<lparr>thread_ticks := 0\<rparr>"
  obtain s2 where s2: "process_activate s1 = Some s2"
    using assms by (auto simp: thread_schedule_tail_def s1_def Let_def split: bind_splits)
  obtain v m where v: "s2 = s1\<lparr>mmu := v\<rparr>" "km v = (km (mmu st))\<lparr>mem := m\<rparr>"
    using process_activate_Some [OF s2] by (auto simp: s1_def)
  have s1': "s1 = st\<lparr>thread_ticks := 0,
    thr := (thr st)(running st := map_option (\<lambda>th. th\<lparr>status := THREAD_RUNNING\<rparr>) (thr st (running st)))\<rparr>"
    by (simp add: s1_def set_status_def upd_thr_def)
  have d: "has_status s2 prev THREAD_DYING \<longleftrightarrow> prev \<noteq> running st \<and> stat_of st prev = Some THREAD_DYING"
    by (auto simp: v(1) s1' has_status_def stat_of_def)
  show ?thesis
  proof (cases "prev \<noteq> 0 \<and> (prev \<noteq> running st \<and> stat_of st prev = Some THREAD_DYING) \<and> prev \<noteq> initial_thread st")
    case True
    then obtain w where w: "free_page prev v = Some w" "st' = s2\<lparr>mmu := w, thr := (thr s2)(prev := None)\<rparr>"
      using assms s2 d v
      by (auto simp: thread_schedule_tail_def s1_def [symmetric] Let_def split: bind_splits) (auto simp: s1')
    have "palloc_free_page ((km (mmu st))\<lparr>mem := m\<rparr>) prev = Some (km w)"
      using w(1) v(2) by (auto simp: free_page_def split: bind_splits)
    then show ?thesis using True w(2) v(1) s1' by (intro exI [of _ w] exI [of _ m]) simp
  next
    case False
    then have "st' = s2" using assms s2 d v
      by (auto simp: thread_schedule_tail_def s1_def [symmetric] Let_def split: bind_splits) (auto simp: s1')
    then show ?thesis using False v s1' by (intro exI [of _ v] exI [of _ m]) auto
  qed
qed

lemma schedule_Some:
  assumes "schedule st = Some st'"
  shows "\<exists>v m. st' = st\<lparr>ready_list := tl (ready_list st), running := next_of st, thread_ticks := 0,
      mmu := v, thr := switched st\<rparr> \<and> is_thread st (next_of st) \<and> \<not> intr_on st \<and>
      (if dies st then palloc_free_page ((km (mmu st))\<lparr>mem := m\<rparr>) (running st) = Some (km v)
       else km v = (km (mmu st))\<lparr>mem := m\<rparr>)"
proof -
  define s1 where "s1 = st\<lparr>ready_list := tl (ready_list st)\<rparr>"
  have n: "next_thread_to_run st = (s1, next_of st)"
    by (simp add: next_thread_to_run_def s1_def next_of_def split: list.splits)
  define p where "p = (if running st \<noteq> next_of st then running st else 0)"
  have "running st = next_of st \<Longrightarrow> s1\<lparr>running := next_of st\<rparr> = s1" by (simp add: s1_def)
  then have t: "thread_schedule_tail p (s1\<lparr>running := next_of st\<rparr>) = Some st'" "is_thread st (next_of st)" "\<not> intr_on st"
    using assms by (auto simp: schedule_def n p_def Let_def is_thread_def split: if_splits) (auto simp: s1_def)
  have d: "p \<noteq> 0 \<and> (p \<noteq> running (s1\<lparr>running := next_of st\<rparr>) \<and> stat_of (s1\<lparr>running := next_of st\<rparr>) p = Some THREAD_DYING) \<and>
    p \<noteq> initial_thread (s1\<lparr>running := next_of st\<rparr>) \<longleftrightarrow> dies st"
    by (auto simp: p_def dies_def s1_def)
  have pr: "dies st \<Longrightarrow> p = running st" by (simp add: dies_def p_def)
  have mm: "mmu (s1\<lparr>running := next_of st\<rparr>) = mmu st" by (simp add: s1_def)
  obtain v m where v: "st' = (s1\<lparr>running := next_of st\<rparr>)\<lparr>thread_ticks := 0, mmu := v, thr :=
      (let f = (thr st)(next_of st := map_option (\<lambda>th. th\<lparr>status := THREAD_RUNNING\<rparr>) (thr st (next_of st)))
       in if dies st then f(p := None) else f)\<rparr>"
    "if dies st then palloc_free_page ((km (mmu st))\<lparr>mem := m\<rparr>) p = Some (km v) else km v = (km (mmu st))\<lparr>mem := m\<rparr>"
    using tail_Some [OF t(1)] unfolding d mm by (auto simp: s1_def)
  show ?thesis by (rule exI [of _ v], rule exI [of _ m], cases "dies st")
      (use v pr t(2,3) in \<open>simp_all add: s1_def switched_def\<close>)
qed

lemma pages_ok_mem: "pages_ok (k\<lparr>mem := m\<rparr>) init T = pages_ok k init T"
  by (simp add: pages_ok_def)

lemma pages_ok_free:
  assumes "pages_ok k init T" and "t \<in> T" and "t \<noteq> init" and "palloc_free_page k t = Some k'"
  shows "pages_ok k' init (T - {t})"
proof -
  have k: "kmem_inv k" "live k t" using assms(1-3) by (auto simp: pages_ok_def)
  obtain k2 where "palloc_free_page k t = Some k2" "kmem_inv k2" "\<forall>b. b \<noteq> t \<longrightarrow> live k2 b = live k b"
    using free_live [OF k] by blast
  then show ?thesis using free_arena [OF k assms(4)] assms(1,4) by (auto simp: pages_ok_def)
qed

lemma pages_ok_sub: "pages_ok k init T \<Longrightarrow> T' \<subseteq> T \<Longrightarrow> pages_ok k init T'"
  by (auto simp: pages_ok_def)

lemma schedule_inv:
  assumes inv: "kinv st" and idle: "\<And>t. stat_of st t \<noteq> Some THREAD_RUNNING"
    and ni: "\<not> in_intr st" and r: "schedule st = Some st'"
  shows "sys_inv st'"
proof -
  obtain v m where st': "st' = st\<lparr>ready_list := tl (ready_list st), running := next_of st, thread_ticks := 0,
      mmu := v, thr := switched st\<rparr>" and nx: "is_thread st (next_of st)" and off: "\<not> intr_on st"
    and v: "if dies st then palloc_free_page ((km (mmu st))\<lparr>mem := m\<rparr>) (running st) = Some (km v)
       else km v = (km (mmu st))\<lparr>mem := m\<rparr>"
    using schedule_Some [OF r] by blast
  note k = kinvD [OF inv]
  have nx': "thr st (next_of st) \<noteq> None" using nx by (auto simp: is_thread_def split: option.splits)
  have sw: "thr st' t = (if dies st \<and> t = running st then None else if t = next_of st
      then map_option (\<lambda>th. th\<lparr>status := THREAD_RUNNING\<rparr>) (thr st t) else thr st t)" for t
    by (auto simp: st' switched_def Let_def)
  have dr: "dies st \<Longrightarrow> running st \<noteq> next_of st \<and> stat_of st (running st) = Some THREAD_DYING \<and>
      running st \<noteq> initial_thread st" by (simp add: dies_def)
  have stat: "stat_of st' = (let f = (stat_of st)(next_of st \<mapsto> THREAD_RUNNING) in if dies st then f(running st := None) else f)"
    using nx' by (auto simp: stat_of_def sw Let_def fun_eq_iff)
  have q: "queues ((stat_of st)(next_of st \<mapsto> THREAD_RUNNING)) (tl (ready_list st)) (\<lambda>s. waiters (semas st s)) (idle_thread st)"
    using queues_switch [OF k(3)] by (simp add: next_of_def)
  then have "queues (stat_of st') (tl (ready_list st)) (\<lambda>s. waiters (semas st s)) (idle_thread st)"
    using queues_gone [OF q, of "running st"] dr by (simp add: stat Let_def)
  moreover have "pages_ok (km v) (initial_thread st) {t. thr st' t \<noteq> None}"
  proof -
    have k6: "pages_ok ((km (mmu st))\<lparr>mem := m\<rparr>) (initial_thread st) {t. thr st t \<noteq> None}"
      using k(6) by (simp add: pages_ok_mem)
    show ?thesis
    proof (cases "dies st")
      case True
      then have "running st \<in> {t. thr st t \<noteq> None}" using dr by (auto simp: stat_of_def)
      with True have "pages_ok (km v) (initial_thread st) ({t. thr st t \<noteq> None} - {running st})"
        using pages_ok_free [OF k6, of "running st"] v dr by simp
      then show ?thesis by (rule pages_ok_sub) (auto simp: sw True split: if_splits)
    next
      case False
      have "{t. thr st' t \<noteq> None} \<subseteq> {t. thr st t \<noteq> None}" by (auto simp: sw False split: if_splits)
      then show ?thesis using pages_ok_sub [OF k6] v False by simp
    qed
  qed
  moreover have "t \<noteq> 0 \<and> magic th = THREAD_MAGIC" if "thr st' t = Some th" for t th
    using that k(1) by (auto simp: sw split: if_splits)
  moreover have "pc st' t = Normal" if "thr st' t = None" for t
  proof (cases "thr st t")
    case None
    then show ?thesis using k(2) by (simp add: st')
  next
    case (Some a)
    then have "dies st \<and> t = running st" using that by (auto simp: sw split: if_splits)
    then show ?thesis using k(8) dr by (simp add: st')
  qed
  moreover have "pc st' t = Normal" if "stat_of st' t = Some THREAD_DYING" for t
    using that k(8) [of t] by (auto simp: stat Let_def split: if_splits) (simp_all add: st')
  ultimately have "kinv st'" unfolding kinv_def using k(4,5,7) by (simp add: st')
  moreover have "running st' = next_of st" by (simp add: st')
  then have "stat_of st' t = Some THREAD_RUNNING \<longleftrightarrow> t = running st'" for t
    using idle [of t] dr by (auto simp: stat Let_def split: if_splits)
  ultimately show ?thesis unfolding sys_inv_def using off ni by (simp add: st')
qed

section \<open>The operations\<close>

lemma sys_inv_off: "sys_inv st \<Longrightarrow> sys_inv (st\<lparr>intr_on := False\<rparr>)"
  by (simp add: sys_inv_def kinv_def)

lemma running_facts:
  assumes "sys_inv st"
  shows "stat_of st (running st) = Some THREAD_RUNNING" and "thr st (running st) \<noteq> None"
    and "running st \<noteq> 0" and "is_thread st (running st)" and "thread_current st = Some (running st)"
    and "running st \<notin> set (waiters (semas st s))"
proof -
  note i = sys_invD [OF assms]
  show r: "stat_of st (running st) = Some THREAD_RUNNING" using i(2) by simp
  then obtain th where th: "thr st (running st) = Some th" by (auto simp: stat_of_def)
  then show "thr st (running st) \<noteq> None" by simp
  show "running st \<noteq> 0" "is_thread st (running st)" using kinvD(1) [OF i(1) th] th by (auto simp: is_thread_def)
  then show "thread_current st = Some (running st)" using r by (simp add: thread_current_Some)
  show "running st \<notin> set (waiters (semas st s))"
    using queuesD(5) [OF kinvD(3) [OF i(1)], of "running st" s] r by auto
qed

text \<open>The running thread leaves the processor with a new status.\<close>

lemma leave_inv:
  assumes inv: "sys_inv st" and st1: "thr st1 = (thr st)(running st := map_option (\<lambda>th. th\<lparr>status := s\<rparr>) (thr st (running st)))"
    and s: "s \<noteq> THREAD_RUNNING"
    and q: "queues ((stat_of st)(running st \<mapsto> s)) (ready_list st1) (\<lambda>s. waiters (semas st1 s)) (idle_thread st1)"
    and y: "sync (pc st1) (semas st1) (lock_holder st1) (cond_waiters st1)"
    and p: "\<And>t. t \<noteq> running st \<Longrightarrow> pc st1 t = pc st t"
    and same: "lock_holder st1 tid_lock = 0" "idle_ok (pc st1 (idle_thread st1))" "mmu st1 = mmu st" "initial_thread st1 = initial_thread st"
      "running st1 = running st" "in_intr st1 = in_intr st"
    and d: "s = THREAD_DYING \<Longrightarrow> pc st1 (running st) = Normal"
    and r: "schedule st1 = Some st'"
  shows "sys_inv st'"
proof -
  note i = sys_invD [OF inv]
  note k = kinvD [OF i(1)]
  note run = running_facts [OF inv]
  have stat: "stat_of st1 = (stat_of st)(running st \<mapsto> s)"
    using run(2) by (auto simp: stat_of_def st1 fun_eq_iff)
  have dom: "thr st1 t = None \<longleftrightarrow> thr st t = None" for t by (simp add: st1)
  have "kinv st1"
    unfolding kinv_def
  proof (intro conjI allI impI)
    show "t \<noteq> 0" "magic th = THREAD_MAGIC" if "thr st1 t = Some th" for t th
      using that k(1) by (auto simp: st1 split: if_splits)
    show "pc st1 t = Normal" if "thr st1 t = None" for t using that k(2) [of t] run(2) p [of t] by (cases "t = running st") (auto simp: dom)
    show "pc st1 t = Normal" if "stat_of st1 t = Some THREAD_DYING" for t
      using that k(8) [of t] p [of t] d by (cases "t = running st") (auto simp: stat)
    show "queues (stat_of st1) (ready_list st1) (\<lambda>s. waiters (semas st1 s)) (idle_thread st1)" using q stat by simp
    show "pages_ok (km (mmu st1)) (initial_thread st1) {t. thr st1 t \<noteq> None}" using k(6) by (simp only: dom same)
  qed (use y same in simp_all)
  then show ?thesis
  proof (rule schedule_inv)
    show "stat_of st1 t \<noteq> Some THREAD_RUNNING" for t using i(2) s by (auto simp: stat)
    show "\<not> in_intr st1" using i(4) same by simp
  qed (rule r)
qed

lemma sema_wait_inv:
  assumes inv: "sys_inv st" and ni: "running st \<noteq> idle_thread st" and v: "sema_value (semas st s) = 0"
    and ok: "pc_ok (running st) (Down s level a)" and w: "\<And>s'. waits (pc st (running st)) s' \<Longrightarrow> s' = s"
    and tr: "\<And>l. \<not> transit (pc st (running st)) l" and cw: "cwait (pc st (running st)) \<Longrightarrow> \<exists>u. s = CondSema u"
    and r: "sema_wait s level a st = Some st'"
  shows "sys_inv st'"
proof -
  let ?q = "(semas st)(s := (semas st s)\<lparr>waiters := waiters (semas st s) @ [running st]\<rparr>)"
  define st1 where "st1 = set_pc (running st) (Down s level a) (set_status (running st) THREAD_BLOCKED (st\<lparr>semas := ?q\<rparr>))"
  note run = running_facts [OF inv]
  have sch: "schedule st1 = Some st'"
    using r by (auto simp: sema_wait_def thread_block_def Let_def st1_def thread_current_Some split: bind_splits)
  have wt: "(\<lambda>s'. waiters (?q s')) = (\<lambda>s'. waiters (semas st s'))(s := waiters (semas st s) @ [running st])"
    by (simp add: fun_eq_iff)
  have q: "queues (stat_of st) (ready_list st) (\<lambda>s. waiters (semas st s)) (idle_thread st)"
    and y: "sync (pc st) (semas st) (lock_holder st) (cond_waiters st)" "lock_holder st tid_lock = 0"
      "idle_ok (pc st (idle_thread st))"
    using kinvD [OF sys_invD(1) [OF inv]] by blast+
  show ?thesis
  proof (rule leave_inv [OF inv _ _ _ _ _ _ _ _ _ _ _ _ sch, of THREAD_BLOCKED])
    show "queues ((stat_of st)(running st \<mapsto> THREAD_BLOCKED)) (ready_list st1) (\<lambda>s. waiters (semas st1 s)) (idle_thread st1)"
      using queues_sleep [OF q run(1) ni, of s] unfolding wt [symmetric] by (simp add: st1_def)
    show "sync (pc st1) (semas st1) (lock_holder st1) (cond_waiters st1)"
      using sync_sleep [OF y(1) v ok w tr cw] by (simp add: st1_def)
  qed (use y(2,3) ni in \<open>simp_all add: st1_def\<close>)
qed

text \<open>The part of the invariant that also holds inside an interrupt handler.\<close>

definition core_inv :: "ksys \<Rightarrow> bool" where
  "core_inv st \<longleftrightarrow> kinv st \<and> (\<forall>t. stat_of st t = Some THREAD_RUNNING \<longleftrightarrow> t = running st)"

lemma sys_inv_iff:
  "sys_inv st \<longleftrightarrow> core_inv st \<and> (intr_on st \<longrightarrow> simple (pc st (running st))) \<and> \<not> in_intr st"
  by (auto simp: sys_inv_def core_inv_def)

lemma core_change:
  assumes inv: "core_inv st"
    and thr: "\<And>t. map_option magic (thr st1 t) = map_option magic (thr st t)"
    and run: "\<And>t. stat_of st1 t = Some THREAD_RUNNING \<longleftrightarrow> stat_of st t = Some THREAD_RUNNING"
    and dy: "\<And>t. stat_of st1 t = Some THREAD_DYING \<Longrightarrow> stat_of st t = Some THREAD_DYING"
    and q: "queues (stat_of st1) (ready_list st1) (\<lambda>s. waiters (semas st1 s)) (idle_thread st1)"
    and y: "sync (pc st1) (semas st1) (lock_holder st1) (cond_waiters st1)" "lock_holder st1 tid_lock = 0"
      "idle_ok (pc st1 (idle_thread st1))"
    and p: "\<And>t. t \<noteq> running st \<Longrightarrow> pc st1 t = pc st t"
    and same: "km (mmu st1) = km (mmu st)" "initial_thread st1 = initial_thread st" "running st1 = running st"
  shows "core_inv st1"
proof -
  have inv': "kinv st" and r: "\<And>t. stat_of st t = Some THREAD_RUNNING \<longleftrightarrow> t = running st"
    using inv by (simp_all add: core_inv_def)
  note k = kinvD [OF inv']
  have dom: "thr st1 t = None \<longleftrightarrow> thr st t = None" for t using thr [of t] by (cases "thr st1 t"; cases "thr st t") auto
  have rn: "thr st (running st) \<noteq> None" using r [of "running st"] by (auto simp: stat_of_def)
  have "kinv st1" unfolding kinv_def
  proof (intro conjI allI impI)
    show "t \<noteq> 0" "magic th = THREAD_MAGIC" if "thr st1 t = Some th" for t th
      using that k(1) [of t] thr [of t] by (cases "thr st t"; auto)+
    show "pc st1 t = Normal" if "thr st1 t = None" for t
      using that k(2) [of t] rn p [of t] by (cases "t = running st") (auto simp: dom)
    show "pc st1 t = Normal" if "stat_of st1 t = Some THREAD_DYING" for t
      using dy [OF that] k(8) [of t] p [of t] r [of t] by (cases "t = running st") auto
    show "pages_ok (km (mmu st1)) (initial_thread st1) {t. thr st1 t \<noteq> None}" using k(6) by (simp only: dom same)
  qed (use q y in simp_all)
  then show ?thesis using r run same(3) by (simp add: core_inv_def)
qed

text \<open>The running thread takes a unit of a semaphore or goes to sleep.\<close>

lemma down_loop_inv:
  assumes inv: "sys_inv st" and ni: "running st \<noteq> idle_thread st"
    and ok: "pc_ok (running st) (Down s level a)" and w: "\<And>s'. waits (pc st (running st)) s' \<Longrightarrow> s' = s"
    and tr: "\<And>l. \<not> transit (pc st (running st)) l" and cw: "cwait (pc st (running st)) \<Longrightarrow> s = CondSema (running st)"
    and r: "down_loop s level a st = Some st'"
  shows "sys_inv st'"
proof (cases "sema_value (semas st s) = 0")
  case True
  then have "sema_wait s level a st = Some st'" using r by (simp add: down_loop_def)
  then show ?thesis using cw by (intro sema_wait_inv [OF inv ni True ok w tr]) auto
next
  case False
  let ?q = "(semas st)(s := (semas st s)\<lparr>sema_value := sema_value (semas st s) - 1\<rparr>)"
  have st': "st' = set_pc (running st) (Then a) (st\<lparr>semas := ?q, intr_on := level\<rparr>)"
    using r False by (simp add: down_loop_def sema_take_def Let_def)
  have c: "core_inv st" and i: "\<not> in_intr st" using inv by (simp_all add: sys_inv_iff)
  note k = kinvD [OF sys_invD(1) [OF inv]]
  have wt: "(\<lambda>s'. waiters (?q s')) = (\<lambda>s'. waiters (semas st s'))" by (simp add: fun_eq_iff)
  have "core_inv st'"
  proof (rule core_change [OF c])
    show "queues (stat_of st') (ready_list st') (\<lambda>s. waiters (semas st' s)) (idle_thread st')"
      using k(3) unfolding wt [symmetric] by (simp add: st')
    show "sync (pc st') (semas st') (lock_holder st') (cond_waiters st')"
      using sync_take [OF k(4) False running_facts(6) [OF inv] ok w tr cw] by (simp add: st')
  qed (use k(5,7) ni in \<open>simp_all add: st'\<close>)
  then show ?thesis using i by (simp add: sys_inv_iff st')
qed

lemma down_then_inv:
  assumes inv: "sys_inv st" and ni: "running st \<noteq> idle_thread st" and ok: "pc_ok (running st) (Down s (intr_on st) a)"
    and w: "\<And>s'. \<not> waits (pc st (running st)) s'" and tr: "\<And>l. \<not> transit (pc st (running st)) l"
    and cw: "cwait (pc st (running st)) \<Longrightarrow> s = CondSema (running st)"
    and r: "sema_down_then s a st = Some st'"
  shows "sys_inv st'"
  by (rule down_loop_inv [OF sys_inv_off [OF inv], of s "intr_on st" a])
    (use assms in \<open>auto simp: sema_down_then_def\<close>)

lemma lock_acquire_inv:
  assumes inv: "sys_inv st" and ni: "running st \<noteq> idle_thread st" and l: "l \<noteq> tid_lock"
    and "\<And>s'. \<not> waits (pc st (running st)) s'" "\<And>l. \<not> transit (pc st (running st)) l" "\<not> cwait (pc st (running st))"
    and r: "lock_acquire l st = Some st'"
  shows "sys_inv st'"
  by (rule down_then_inv [OF inv ni, of "LockSema l" "Hold l"])
    (use assms in \<open>auto simp: lock_acquire_def split: bind_splits\<close>)

text \<open>A unit is added to a semaphore; the running thread goes on at \<open>c\<close>.\<close>

lemma sema_up_Some:
  assumes "sema_up s st = Some st'"
  shows "st' = (case waiters (semas st s) of
      [] \<Rightarrow> st\<lparr>semas := (semas st)(s := fst (sema_up_data (semas st s)))\<rparr>
    | w # _ \<Rightarrow> set_status w THREAD_READY (st\<lparr>semas := (semas st)(s := fst (sema_up_data (semas st s))),
        ready_list := ready_list st @ [w]\<rparr>))"
  using assms by (auto simp: sema_up_def sema_up_data_def thread_unblock_def Let_def split: list.splits bind_splits)

lemma sema_up_core:
  assumes inv: "core_inv st" and r: "sema_up s st = Some st1"
    and y: "sync ((pc st)(running st := c)) ((semas st)(s := fst (sema_up_data (semas st s)))) (lock_holder st) (cond_waiters st)"
    and i: "idle_ok (((pc st)(running st := c)) (idle_thread st))"
  shows "core_inv (set_pc (running st) c st1)" (is "core_inv ?st'")
proof -
  have kinv: "kinv st" and run: "\<And>t. stat_of st t = Some THREAD_RUNNING \<longleftrightarrow> t = running st"
    using inv by (simp_all add: core_inv_def)
  note k = kinvD [OF kinv]
  show ?thesis
  proof (cases "waiters (semas st s)")
    case Nil
    have st1: "st1 = st\<lparr>semas := (semas st)(s := fst (sema_up_data (semas st s)))\<rparr>"
      using sema_up_Some [OF r] Nil by simp
    have wt: "(\<lambda>s'. waiters (semas ?st' s')) = (\<lambda>s'. waiters (semas st s'))"
      using Nil by (simp add: st1 fun_eq_iff sema_up_data_simps)
    show ?thesis
    proof (rule core_change [OF inv])
      show "queues (stat_of ?st') (ready_list ?st') (\<lambda>s. waiters (semas ?st' s)) (idle_thread ?st')"
        unfolding wt using k(3) by (simp add: st1)
    qed (use k(5) y i in \<open>simp_all add: st1\<close>)
  next
    case (Cons w ws)
    have st1: "st1 = set_status w THREAD_READY (st\<lparr>semas := (semas st)(s := fst (sema_up_data (semas st s))),
        ready_list := ready_list st @ [w]\<rparr>)"
      using sema_up_Some [OF r] Cons by simp
    have wt: "(\<lambda>s'. waiters (semas ?st' s')) = (\<lambda>s'. waiters (semas st s'))(s := ws)"
      using Cons by (simp add: st1 fun_eq_iff sema_up_data_simps)
    have w: "stat_of st w = Some THREAD_BLOCKED" using queuesD(5) [OF k(3), of w s] Cons by simp
    then have th: "thr st w \<noteq> None" "w \<noteq> running st" using run [of w] by (auto simp: stat_of_def)
    have stat: "stat_of ?st' = (stat_of st)(w \<mapsto> THREAD_READY)"
      using th by (simp add: st1 stat_of_set_status)
    show ?thesis
    proof (rule core_change [OF inv])
      show "queues (stat_of ?st') (ready_list ?st') (\<lambda>s. waiters (semas ?st' s)) (idle_thread ?st')"
        unfolding stat wt using queues_wake [OF k(3) Cons] by (simp add: st1)
      show "stat_of ?st' t = Some THREAD_RUNNING \<longleftrightarrow> stat_of st t = Some THREAD_RUNNING" for t
        unfolding stat using w by simp
      show "stat_of ?st' t = Some THREAD_DYING \<Longrightarrow> stat_of st t = Some THREAD_DYING" for t
        unfolding stat by (simp split: if_splits)
      show "map_option magic (thr ?st' t) = map_option magic (thr st t)" for t
        by (simp add: st1 option.map_comp comp_def)
    qed (use k(5) y i in \<open>simp_all add: st1\<close>)
  qed
qed

lemma sema_up_same:
  assumes "sema_up s st = Some st'"
  shows "running st' = running st" "in_intr st' = in_intr st" "intr_on st' = intr_on st" "pc st' = pc st"
    "lock_holder st' = lock_holder st" "idle_thread st' = idle_thread st" "cond_waiters st' = cond_waiters st"
    "yield_on_return st' = yield_on_return st"
  using sema_up_Some [OF assms] by (auto simp: set_status_def upd_thr_def split: list.splits)

lemma sema_up_plain:
  assumes inv: "core_inv st" and r: "sema_up s st = Some st'" and "\<And>l. s \<noteq> LockSema l"
    and "\<And>w c. s = CondSema w \<Longrightarrow> w \<notin> set (cond_waiters st c)"
  shows "core_inv st'"
proof -
  have k: "kinv st" using inv by (simp add: core_inv_def)
  have "sync (pc st) ((semas st)(s := fst (sema_up_data (semas st s)))) (lock_holder st) (cond_waiters st)"
    by (rule sync_up [OF kinvD(4) [OF k] queuesD(4) [OF kinvD(3) [OF k]]]) (use assms(3,4) in auto)
  then have "core_inv (set_pc (running st) (pc st (running st)) st')"
    using kinvD(7) [OF k] by (intro sema_up_core [OF inv r]) simp_all
  moreover have "set_pc (running st) (pc st (running st)) st' = st'"
    using sema_up_same(4) [OF r] by (simp add: set_pc_def)
  ultimately show ?thesis by simp
qed

lemma core_inv_upd [simp]:
  "core_inv (st\<lparr>intr_on := b\<rparr>) = core_inv st" "core_inv (st\<lparr>in_intr := b\<rparr>) = core_inv st"
  "core_inv (st\<lparr>yield_on_return := b\<rparr>) = core_inv st" "core_inv (st\<lparr>thread_ticks := n\<rparr>) = core_inv st"
  "core_inv (st\<lparr>idle_ticks := i\<rparr>) = core_inv st" "core_inv (st\<lparr>user_ticks := i\<rparr>) = core_inv st"
  "core_inv (st\<lparr>kernel_ticks := i\<rparr>) = core_inv st" "core_inv (st\<lparr>unexpected_cnt := u\<rparr>) = core_inv st"
  by (simp_all add: core_inv_def kinv_def)

lemma core_pc:
  assumes inv: "core_inv st" and "pc_ok (running st) c" and "\<And>s. \<not> waits c s" "\<And>s. \<not> waits (pc st (running st)) s"
    and "\<And>l. transit c l = transit (pc st (running st)) l" and "cwait (pc st (running st)) \<Longrightarrow> cwait c"
    and "idle_ok (pc st (running st)) \<Longrightarrow> idle_ok c"
  shows "core_inv (set_pc (running st) c st)"
proof -
  have k: "kinv st" using inv by (simp add: core_inv_def)
  note k' = kinvD [OF k]
  show ?thesis
  proof (rule core_change [OF inv])
    show "idle_ok (pc (set_pc (running st) c st) (idle_thread (set_pc (running st) c st)))"
      using k'(7) assms(7) by (cases "idle_thread st = running st") auto
  qed (use k'(3,5) sync_pc [OF k'(4) assms(2-6)] in \<open>simp_all add: fun_upd_def\<close>)
qed

lemma pc_ok_running: "sys_inv st \<Longrightarrow> pc_ok t (pc st t)"
  using kinvD(4) [OF sys_invD(1)] by (auto simp: sync_def sync0_def)

lemma yield_inv:
  assumes inv: "sys_inv st" and p: "simple (pc st (running st)) \<or> (\<exists>c. pc st (running st) = Iret c \<and> \<not> level)"
    and r: "thread_yield level st = Some st'"
  shows "sys_inv st'"
proof -
  let ?t = "running st"
  define st1 where "st1 = set_pc ?t (Yielded level (pc st ?t)) (set_status ?t THREAD_READY (st\<lparr>intr_on := False,
    ready_list := (if ?t \<noteq> idle_thread st then ready_list st @ [?t] else ready_list st)\<rparr>))"
  note run = running_facts [OF inv]
  have sch: "schedule st1 = Some st'"
    using r by (cases "?t = idle_thread st") (auto simp: thread_yield_def st1_def Let_def run(5))
  note k = kinvD [OF sys_invD(1) [OF inv]]
  have nw: "\<not> waits (pc st ?t) s" for s using p by auto
  show ?thesis
  proof (rule leave_inv [OF inv _ _ _ _ _ _ _ _ _ _ _ _ sch, of THREAD_READY])
    show "queues ((stat_of st)(?t \<mapsto> THREAD_READY)) (ready_list st1) (\<lambda>s. waiters (semas st1 s)) (idle_thread st1)"
      using queues_yield [OF k(3) run(1)] by (simp add: st1_def)
    show "sync (pc st1) (semas st1) (lock_holder st1) (cond_waiters st1)"
      using sync_pc [OF k(4), of ?t "Yielded level (pc st ?t)"] pc_ok_running [OF inv, of ?t] p nw
      by (auto simp: st1_def cwait_def)
    show "idle_ok (pc st1 (idle_thread st1))" using k(7) by (cases "idle_thread st = ?t") (simp_all add: st1_def idle_ok_def)
  qed (use k(5) in \<open>simp_all add: st1_def\<close>)
qed

lemma idle_iter_inv:
  assumes inv: "sys_inv st" and i: "running st = idle_thread st" "pc st (running st) = Normal"
    and r: "idle_iter st = Some st'"
  shows "sys_inv st'"
proof -
  let ?t = "running st"
  define st1 where "st1 = set_pc ?t IdleBlocked (set_status ?t THREAD_BLOCKED (st\<lparr>intr_on := False\<rparr>))"
  note run = running_facts [OF sys_inv_off [OF inv], simplified]
  have sch: "schedule st1 = Some st'"
    using r by (auto simp: idle_iter_def thread_block_def st1_def run(5))
  note k = kinvD [OF sys_invD(1) [OF inv]]
  show ?thesis
  proof (rule leave_inv [OF inv _ _ _ _ _ _ _ _ _ _ _ _ sch, of THREAD_BLOCKED])
    show "queues ((stat_of st)(?t \<mapsto> THREAD_BLOCKED)) (ready_list st1) (\<lambda>s. waiters (semas st1 s)) (idle_thread st1)"
      using queues_off(2) [OF k(3) _ i(1)] run(1) by (simp add: st1_def)
    show "sync (pc st1) (semas st1) (lock_holder st1) (cond_waiters st1)"
      using sync_pc [OF k(4), of ?t IdleBlocked] i(2) by (simp add: st1_def)
  qed (use k(5,7) i in \<open>simp_all add: st1_def idle_ok_def\<close>)
qed

lemma thread_exit_inv:
  assumes inv: "sys_inv st" and a: "app st" and th: "thr st (running st) = Some th" "pagedir th = 0"
    and r: "thread_exit st = Some st'"
  shows "sys_inv st'"
proof -
  let ?t = "running st"
  define st1 where "st1 = set_pc ?t Normal (set_status ?t THREAD_DYING
    (st\<lparr>intr_on := False, all_list := remove1 ?t (all_list st)\<rparr>))"
  note run = running_facts [OF inv]
  note run' = running_facts [OF sys_inv_off [OF inv], simplified]
  have sch: "schedule st1 = Some st'"
    using r th by (auto simp: thread_exit_def process_exit_def st1_def run(5) run'(5) Let_def)
  note k = kinvD [OF sys_invD(1) [OF inv]]
  show ?thesis
  proof (rule leave_inv [OF inv _ _ _ _ _ _ _ _ _ _ _ _ sch, of THREAD_DYING])
    show "queues ((stat_of st)(?t \<mapsto> THREAD_DYING)) (ready_list st1) (\<lambda>s. waiters (semas st1 s)) (idle_thread st1)"
      using queues_off(1) [OF k(3) run(1)] by (simp add: st1_def)
    show "sync (pc st1) (semas st1) (lock_holder st1) (cond_waiters st1)"
      using sync_pc [OF k(4), of ?t Normal] a by (simp add: st1_def app_def)
  qed (use k(5,7) a in \<open>auto simp: st1_def app_def\<close>)
qed

section \<open>Locks and conditions\<close>

lemma local_change:
  assumes inv: "sys_inv st" and ni: "running st \<noteq> idle_thread st" and c: "simple c"
    and w: "\<And>s. waiters (q s) = waiters (semas st s)" and h: "h tid_lock = 0"
    and y: "sync ((pc st)(running st := c)) q h cw"
    and st': "st' = set_pc (running st) c (st\<lparr>semas := q, cond_waiters := cw, lock_holder := h\<rparr>)"
  shows "sys_inv st'"
proof -
  have cr: "core_inv st" and i: "\<not> in_intr st" using inv by (simp_all add: sys_inv_iff)
  note k = kinvD [OF sys_invD(1) [OF inv]]
  have "core_inv st'"
    by (rule core_change [OF cr]) (use k(3,7) y h w ni in \<open>simp_all add: st'\<close>)
  then show ?thesis using i c by (simp add: sys_inv_iff st')
qed

lemma lock_try_inv:
  assumes inv: "sys_inv st" and a: "app st" and l: "l \<noteq> tid_lock" and r: "lock_try l st = Some (st', b)"
  shows "sys_inv st'"
proof (cases "sema_value (semas st (LockSema l)) = 0")
  case True
  have "st' = st" using r True by (auto simp: lock_try_def try_down_def sema_try_down_def split: bind_splits)
  then show ?thesis using inv by simp
next
  case False
  let ?q = "(semas st)(LockSema l := (semas st (LockSema l))\<lparr>sema_value := sema_value (semas st (LockSema l)) - 1\<rparr>)"
  note k = kinvD [OF sys_invD(1) [OF inv]]
  have "st' = set_pc (running st) (Then (Hold l)) (st\<lparr>semas := ?q\<rparr>)"
    using r False by (auto simp: lock_try_def try_down_def sema_try_down_def thread_current_Some word_neq_0_conv split: bind_splits)
  moreover have "sync ((pc st)(running st := Then (Hold l))) ?q (lock_holder st) (cond_waiters st)"
    by (rule sync_take [OF k(4) False running_facts(6) [OF inv], where level = True])
      (use a l in \<open>auto simp: app_def\<close>)
  from local_change [OF inv _ _ _ _ this] have "st'' = set_pc (running st) (Then (Hold l)) (st\<lparr>semas := ?q\<rparr>) \<Longrightarrow> sys_inv st''" for st''
    using a k(5) by (simp add: app_def)
  ultimately show ?thesis by blast
qed

lemma release_inv:
  assumes inv: "sys_inv st" and a: "app st" and l: "l \<noteq> tid_lock" and r: "release_then l Ret st = Some st'"
  shows "sys_inv st'"
proof -
  note k = kinvD [OF sys_invD(1) [OF inv]]
  have st': "lock_holder st l = running st"
    "st' = set_pc (running st) (Then (UpLock l Ret)) (st\<lparr>lock_holder := (lock_holder st)(l := 0)\<rparr>)"
    using r by (auto simp: release_then_def thread_current_Some split: bind_splits)
  have "sync ((pc st)(running st := Then (UpLock l Ret))) (semas st) ((lock_holder st)(l := 0)) (cond_waiters st)"
    by (rule sync_release [OF k(4)]) (use a l st'(1) running_facts(3) [OF inv] in \<open>auto simp: app_def\<close>)
  from local_change [OF inv _ _ _ _ this] show ?thesis using a l k(5) by (simp add: app_def st'(2))
qed

lemma cond_wait_inv:
  assumes inv: "sys_inv st" and a: "app st" and l: "l \<noteq> tid_lock" and r: "cond_wait c l st = Some st'"
  shows "sys_inv st'"
proof -
  let ?t = "running st"
  note k = kinvD [OF sys_invD(1) [OF inv]]
  have st': "lock_holder st l = ?t"
    "st' = set_pc ?t (Then (UpLock l (DownCond l))) (st\<lparr>semas := (semas st)(CondSema ?t := sema_init 0),
      cond_waiters := (cond_waiters st)(c := cond_waiters st c @ [?t]), lock_holder := (lock_holder st)(l := 0)\<rparr>)"
    using r by (auto simp: cond_wait_def release_then_def thread_current_Some split: bind_splits)
  have y: "sync ((pc st)(?t := Then (UpLock l (DownCond l)))) ((semas st)(CondSema ?t := sema_init 0))
      ((lock_holder st)(l := 0)) ((cond_waiters st)(c := cond_waiters st c @ [?t]))"
    by (rule sync_cond_wait [OF k(4)]) (use a l st'(1) running_facts(3) [OF inv] in \<open>auto simp: app_def\<close>)
  have none: "waiters (semas st (CondSema ?t)) = []"
    by (rule cond_sema_empty [of "pc st" _ "cond_waiters st"]) (use k(4) a in \<open>auto simp: sync_def app_def\<close>)
  from local_change [OF inv _ _ _ _ y] show ?thesis using a l k(5) none by (simp add: app_def st'(2) sema_init_def)
qed

lemma cond_signal_inv:
  assumes inv: "sys_inv st" and r: "cond_signal c l st = Some st'"
  shows "sys_inv st'" and "running st' = running st" and "pc st' = pc st" and "idle_thread st' = idle_thread st"
proof -
  have "sys_inv st' \<and> running st' = running st \<and> pc st' = pc st \<and> idle_thread st' = idle_thread st"
  proof (cases "cond_waiters st c")
    case Nil
    then show ?thesis using inv r by (auto simp: cond_signal_def split: bind_splits)
  next
    case (Cons w ws)
    define st0 where "st0 = st\<lparr>cond_waiters := (cond_waiters st)(c := ws)\<rparr>"
    have up: "sema_up (CondSema w) st0 = Some st'"
      using r Cons by (auto simp: cond_signal_def st0_def split: bind_splits)
    note k = kinvD [OF sys_invD(1) [OF inv]]
    have cr: "core_inv st" and i: "\<not> in_intr st" "intr_on st \<longrightarrow> simple (pc st (running st))"
      using inv by (simp_all add: sys_inv_iff)
    note u = sync_unwait [OF k(4) Cons]
    have "core_inv st0"
      by (rule core_change [OF cr]) (use k(3,5,7) u(1) in \<open>simp_all add: st0_def\<close>)
    then have "core_inv st'" by (rule sema_up_plain [OF _ up]) (use u(2) in \<open>auto simp: st0_def\<close>)
    then show ?thesis using sema_up_same [OF up] i by (auto simp: sys_inv_iff st0_def)
  qed
  then show "sys_inv st'" "running st' = running st" "pc st' = pc st" "idle_thread st' = idle_thread st" by blast+
qed

lemma cond_broadcast_inv:
  assumes "sys_inv st" and "cond_broadcast c l st = Some st'"
  shows "sys_inv st'"
proof -
  have "foldM (\<lambda>_ st. cond_signal c l st) xs st = Some st' \<Longrightarrow> sys_inv st \<Longrightarrow> sys_inv st'" for xs st
    by (induction xs arbitrary: st) (auto split: bind_splits dest: cond_signal_inv)
  then show ?thesis using assms by (simp add: cond_broadcast_def)
qed

section \<open>Going on, interrupts\<close>

lemma not_idle:
  assumes "sys_inv st" and "\<not> idle_ok (pc st (running st))"
  shows "running st \<noteq> idle_thread st"
  using kinvD(7) [OF sys_invD(1) [OF assms(1)]] assms(2) by auto

lemma finish_inv:
  assumes inv: "sys_inv st" and p: "pc st (running st) = Then a" and r: "finish a st = Some st'"
  shows "sys_inv st'"
proof -
  let ?t = "running st"
  note k = kinvD [OF sys_invD(1) [OF inv]]
  have ni: "?t \<noteq> idle_thread st" by (rule not_idle [OF inv]) (simp add: p idle_ok_def)
  have ok: "after_ok a" using pc_ok_running [OF inv, of ?t] p by simp
  show ?thesis
  proof (cases a)
    case Ret
    have "sync ((pc st)(?t := Normal)) (semas st) (lock_holder st) (cond_waiters st)"
      by (rule sync_pc [OF k(4)]) (use p Ret in auto)
    from local_change [OF inv ni _ _ _ this] show ?thesis using r Ret k(5) by (simp add: finish_def)
  next
    case (Hold l)
    have st': "st' = set_pc ?t Normal (st\<lparr>lock_holder := (lock_holder st)(l := ?t)\<rparr>)"
      using r Hold by (auto simp: finish_def set_holder_def thread_current_Some split: bind_splits)
    have "sync ((pc st)(?t := Normal)) (semas st) ((lock_holder st)(l := ?t)) (cond_waiters st)"
      by (rule sync_hold [OF k(4)]) (use p Hold running_facts(3) [OF inv] in auto)
    from local_change [OF inv ni _ _ _ this] show ?thesis using st' ok Hold k(5) by simp
  next
    case (Reacquire l)
    then show ?thesis using r ok p by (intro lock_acquire_inv [OF inv ni, of l]) (auto simp: finish_def)
  next
    case (UpLock l b)
    then obtain st1 where st1: "sema_up (LockSema l) st = Some st1" "st' = set_pc ?t (Then b) st1"
      using r by (auto simp: finish_def split: bind_splits dest: sema_up_same)
    have "sync ((pc st)(?t := Then b)) ((semas st)(LockSema l := fst (sema_up_data (semas st (LockSema l)))))
        (lock_holder st) (cond_waiters st)"
      by (rule sync_up_lock [OF k(4)]) (use p UpLock queuesD(4) [OF k(3)] in auto)
    then have "core_inv st'" unfolding st1(2)
      by (intro sema_up_core [OF _ st1(1)]) (use inv ni k(7) in \<open>auto simp: sys_inv_iff\<close>)
    then show ?thesis using sema_up_same [OF st1(1)] inv by (auto simp: sys_inv_iff st1(2))
  next
    case (DownCond l)
    then have "sema_down_then (CondSema ?t) (Reacquire l) st = Some st'"
      using r by (auto simp: finish_def thread_current_Some split: bind_splits)
    then show ?thesis using ok p DownCond by (intro down_then_inv [OF inv ni, of "CondSema ?t" "Reacquire l"]) auto
  qed
qed

lemma cwait_wrap: "cwait (Yielded v c) \<Longrightarrow> cwait c" "cwait (Iret c) \<Longrightarrow> cwait c"
  by (auto simp: cwait_def)

lemma resume_inv:
  assumes inv: "sys_inv st" and r: "resume st = Some st'"
  shows "sys_inv st'"
proof -
  let ?t = "running st"
  have ok: "pc_ok ?t (pc st ?t)" by (rule pc_ok_running [OF inv])
  have cr: "core_inv st" and i: "\<not> in_intr st" using inv by (simp_all add: sys_inv_iff)
  have goto: "sys_inv (set_pc ?t c (st\<lparr>intr_on := b\<rparr>))"
    if "pc_ok ?t c" "\<And>s. \<not> waits c s" "\<And>s. \<not> waits (pc st ?t) s" "\<And>l. transit c l = transit (pc st ?t) l"
      "cwait (pc st ?t) \<Longrightarrow> cwait c" "idle_ok (pc st ?t) \<Longrightarrow> idle_ok c" "b \<Longrightarrow> simple c" for c b
  proof -
    have "core_inv (set_pc ?t c st)" by (rule core_pc [OF cr]) (use that in auto)
    then have "core_inv ((set_pc ?t c st)\<lparr>intr_on := b\<rparr>)" by simp
    moreover have "(set_pc ?t c st)\<lparr>intr_on := b\<rparr> = set_pc ?t c (st\<lparr>intr_on := b\<rparr>)" by (simp add: set_pc_def)
    ultimately show ?thesis using i that(7) by (simp add: sys_inv_iff)
  qed
  show ?thesis
  proof (cases "pc st ?t")
    case Normal
    then show ?thesis using r by (simp add: resume_def)
  next
    case (Then a)
    then show ?thesis using finish_inv [OF inv Then] r by (simp add: resume_def)
  next
    case (Down s level a)
    have "?t \<noteq> idle_thread st" by (rule not_idle [OF inv]) (simp add: Down idle_ok_def)
    moreover have "cwait (pc st ?t) \<Longrightarrow> s = CondSema ?t" using ok Down by auto
    ultimately show ?thesis using r ok Down
      by (intro down_loop_inv [OF inv, of s level a]) (auto simp: resume_def)
  next
    case (Yielded level c)
    then show ?thesis using r ok goto [of c level] cwait_wrap(1)
      by (auto simp: resume_def idle_ok_def)
  next
    case (Iret c)
    then show ?thesis using r ok goto [of c True] cwait_wrap(2) by (auto simp: resume_def idle_ok_def)
  next
    case IdleBlocked
    then show ?thesis using r goto [of Normal True] by (auto simp: resume_def idle_ok_def)
  next
    case Fresh
    then show ?thesis using r goto [of Normal True] by (auto simp: resume_def idle_ok_def)
  qed
qed

lemma handler_inv:
  assumes inv: "core_inv st" and h: "h = thread_tick \<or> (\<exists>a. h = sema_up (Sema a))" and r: "h st = Some st'"
  shows "core_inv st'" and "pc st' = pc st" and "running st' = running st" and "intr_on st' = intr_on st"
proof -
  have "core_inv st' \<and> pc st' = pc st \<and> running st' = running st \<and> intr_on st' = intr_on st"
  proof (cases "h = thread_tick")
    case True
    then show ?thesis using r inv
      by (auto simp: thread_tick_def intr_yield_on_return_def Let_def split: bind_splits if_splits)
  next
    case False
    then obtain a where "sema_up (Sema a) st = Some st'" using h r by auto
    then show ?thesis using sema_up_plain [OF inv, of "Sema a"] sema_up_same by auto
  qed
  then show "core_inv st'" "pc st' = pc st" "running st' = running st" "intr_on st' = intr_on st" by blast+
qed

lemma interrupt_inv:
  assumes inv: "sys_inv st" and on: "intr_on st" and hs: "handlers_ok hs" and vec: "0x20 \<le> vec" "vec < 0x30"
    and r: "interrupt hs vec st = Some st'"
  shows "sys_inv st'"
proof -
  let ?t = "running st"
  define st0 where "st0 = set_pc ?t (Iret (pc st ?t)) (st\<lparr>intr_on := False\<rparr>)"
  have simple: "simple (pc st ?t)" using inv on by (simp add: sys_inv_iff)
  have "core_inv (set_pc ?t (Iret (pc st ?t)) st)"
    by (rule core_pc) (use inv simple pc_ok_running [OF inv, of ?t] in \<open>auto simp: sys_inv_iff idle_ok_def cwait_def\<close>)
  then have "core_inv ((set_pc ?t (Iret (pc st ?t)) st)\<lparr>intr_on := False\<rparr>)" by simp
  moreover have "(set_pc ?t (Iret (pc st ?t)) st)\<lparr>intr_on := False\<rparr> = st0" by (simp add: st0_def set_pc_def)
  ultimately have c0: "core_inv st0" by simp
  define st1 where "st1 = st0\<lparr>in_intr := True, yield_on_return := False\<rparr>"
  have c1: "core_inv st1" using c0 by (simp add: st1_def)
  obtain st2 where st2: "(case hs vec of Some h \<Rightarrow> h st1
      | None \<Rightarrow> if vec = 0x27 \<or> vec = 0x2f then Some st1 else Some (unexpected_interrupt vec st1)) = Some st2"
    and st': "(if yield_on_return st2 then thread_yield (intr_on (st2\<lparr>in_intr := False\<rparr>)) (st2\<lparr>in_intr := False\<rparr>) else Some (st2\<lparr>in_intr := False\<rparr>)) = Some st'"
    using r vec unfolding interrupt_def st0_def [symmetric] st1_def
    by (auto simp: intr_handler_def Let_def simp del: ksys.simps split: bind_splits)
  have s2: "core_inv st2 \<and> pc st2 = pc st0 \<and> running st2 = running st0 \<and> intr_on st2 = intr_on st0"
  proof (cases "hs vec")
    case None
    then show ?thesis using st2 c1 by (auto simp: unexpected_interrupt_def st1_def split: if_splits)
  next
    case (Some h)
    then have "h = thread_tick \<or> (\<exists>a. h = sema_up (Sema a))" using hs by (simp add: handlers_ok_def)
    from handler_inv [OF c1 this] st2 Some show ?thesis by (auto simp: st1_def)
  qed
  have i2: "sys_inv (st2\<lparr>in_intr := False\<rparr>)" using s2 by (simp add: sys_inv_iff st0_def)
  show ?thesis
  proof (cases "yield_on_return st2")
    case True
    then show ?thesis using st' s2 by (intro yield_inv [OF i2, of "intr_on st2"]) (auto simp: st0_def)
  next
    case False
    then show ?thesis using st' i2 by simp
  qed
qed

section \<open>Creating a thread\<close>

lemma pc_ok_base: "pc_ok t c \<Longrightarrow> pc_ok t (base_cont c)"
  by (induction c) auto

lemma tid_free:
  assumes "kinv st"
  shows "semas st (LockSema tid_lock) = sema_init 1"
proof -
  note k = kinvD [OF assms]
  have s0: "sync0 (pc st) (semas st) (cond_waiters st)" and l: "locks_ok (pc st) (semas st) (lock_holder st)"
    using k(4) by (simp_all add: sync_def)
  have "\<not> transit (pc st t) tid_lock" for t
    using pc_ok_base [OF sync0D(2) [OF s0, of t]] by (auto simp: transit_def)
  then have "sema_value (semas st (LockSema tid_lock)) = 1" using l k(5) unfolding locks_ok_def lock_ok_def by auto
  moreover have "waiters (semas st (LockSema tid_lock)) = []"
  proof (rule ccontr)
    assume "waiters (semas st (LockSema tid_lock)) \<noteq> []"
    then obtain u where "u \<in> set (waiters (semas st (LockSema tid_lock)))"
      by (cases "waiters (semas st (LockSema tid_lock))") auto
    then have "waits (pc st u) (LockSema tid_lock)" using sync0D(3) [OF s0] by (simp add: wq_ok_def)
    then show False using sync0D(2) [OF s0, of u] by (auto simp: waits_def)
  qed
  ultimately show ?thesis by (simp add: sema_init_def)
qed

lemma thread_sema_empty:
  assumes "sync0 pcs sems cw" and "s \<in> {WaitSema t, DestroySema t, LoadSema t}"
  shows "waiters (sems s) = []"
proof (rule ccontr)
  assume "waiters (sems s) \<noteq> []"
  then obtain u where "u \<in> set (waiters (sems s))" by (cases "waiters (sems s)") auto
  then have "waits (pcs u) s" using sync0D(3) [OF assms(1)] by (simp add: wq_ok_def)
  then show False using sync0D(2) [OF assms(1), of u] assms(2) by (auto simp: waits_def)
qed

lemma sync_reinit:
  assumes s: "sync pcs sems hold cw" and t: "s \<in> {WaitSema t, DestroySema t, LoadSema t}"
  shows "sync pcs (sems(s := sema_init v)) hold cw" (is "sync pcs ?q hold cw")
proof -
  have s0: "sync0 pcs sems cw" and l: "locks_ok pcs sems hold" using s by (simp_all add: sync_def)
  have wt: "waiters (?q s') = waiters (sems s')" for s'
    using thread_sema_empty [OF s0 t] by (simp add: sema_init_def)
  have "wake_ok pcs ?q" using sync0D(5) [OF s0] thread_sema_empty [OF s0 t]
    unfolding wake_ok_def woken_def wt by auto
  moreover have "wq_ok pcs ?q" using sync0D(3) [OF s0] unfolding wq_ok_def wt .
  moreover have "cond_ok pcs ?q cw" using sync0D(4) [OF s0] t unfolding cond_ok_def by auto
  moreover have "locks_ok pcs ?q hold" using l t unfolding locks_ok_def by auto
  ultimately show ?thesis using sync0D(1,2) [OF s0] by (simp add: sync_def sync0_def)
qed

lemma thread_current_upd [simp]:
  "thread_current (st\<lparr>semas := q\<rparr>) = thread_current st" "thread_current (st\<lparr>lock_holder := h\<rparr>) = thread_current st"
  "thread_current (st\<lparr>next_tid := i\<rparr>) = thread_current st" "thread_current (st\<lparr>mmu := v\<rparr>) = thread_current st"
  "thread_current (st\<lparr>all_list := ts\<rparr>) = thread_current st"
  by (simp_all add: thread_current_def is_thread_def has_status_def)

lemma allocate_tid_eq:
  assumes "semas st (LockSema tid_lock) = sema_init 1" and "lock_holder st tid_lock = 0"
    and "thread_current st = Some t" and "t \<noteq> 0"
  shows "allocate_tid st = Some (st\<lparr>next_tid := next_tid st + 1\<rparr>, next_tid st)"
proof -
  have "(semas st)(LockSema tid_lock := sema_init 1) = semas st" "(lock_holder st)(tid_lock := 0) = lock_holder st"
    using assms(1,2) by (simp_all add: fun_upd_idem)
  then show ?thesis using assms
    by (simp add: allocate_tid_def try_acquire_def try_down_def sema_try_down_def set_holder_def lock_release_def
        sema_up_def sema_up_data_def sema_init_def Let_def)
qed

lemma pages_ok_get:
  assumes p: "pages_ok k init T" and "cur \<noteq> 0" and r: "palloc_get_multiple cur k flags cnt = Some (k', a)" and "cnt \<noteq> 0"
  shows "pages_ok k' init T" and "a \<noteq> 0 \<Longrightarrow> a \<notin> T \<and> a \<noteq> init \<and> pages_ok k' init (insert a T)"
proof -
  have k: "kmem_inv k" using p by (simp add: pages_ok_def)
  note g = get_live [OF k assms(2) r] and ar = get_arena [OF k assms(2) r]
  show p': "pages_ok k' init T" using p g(1,2) ar(1) by (auto simp: pages_ok_def)
  assume a: "a \<noteq> 0"
  have "unat a \<in> arena k" "\<not> live k a \<and> live k' a" using ar(2) g(3) a assms(4) by blast+
  then show "a \<notin> T \<and> a \<noteq> init \<and> pages_ok k' init (insert a T)" using p p' by (auto simp: pages_ok_def)
qed

lemma new_inv:
  assumes inv: "core_inv st" and t: "thr st t = None" "t \<noteq> 0"
    and old: "\<And>u. u \<noteq> t \<Longrightarrow> map_option (\<lambda>th. (magic th, status th)) (thr st1 u) = map_option (\<lambda>th. (magic th, status th)) (thr st u)"
    and new: "thr st1 t = Some th" "magic th = THREAD_MAGIC" "status th = THREAD_READY"
    and same: "ready_list st1 = ready_list st @ [t]" "idle_thread st1 = idle_thread st" "running st1 = running st"
      "initial_thread st1 = initial_thread st" "lock_holder st1 = lock_holder st" "cond_waiters st1 = cond_waiters st"
      "pc st1 = (pc st)(t := Fresh)" "\<And>s. waiters (semas st1 s) = waiters (semas st s)"
    and y: "sync (pc st) (semas st1) (lock_holder st) (cond_waiters st)"
    and p: "pages_ok (km (mmu st1)) (initial_thread st) (insert t {u. thr st u \<noteq> None})"
  shows "core_inv st1"
proof -
  have k0: "kinv st" and run: "\<And>t. stat_of st t = Some THREAD_RUNNING \<longleftrightarrow> t = running st"
    using inv by (simp_all add: core_inv_def)
  note k = kinvD [OF k0]
  have st: "stat_of st1 u = ((stat_of st)(t \<mapsto> THREAD_READY)) u" for u
    using old [of u] new by (cases "u = t"; cases "thr st1 u"; cases "thr st u") (auto simp: stat_of_def)
  have stat: "stat_of st1 = (stat_of st)(t \<mapsto> THREAD_READY)" using st by (rule ext)
  have tn: "stat_of st t = None" "t \<noteq> running st" using t(1) run [of t] by (auto simp: stat_of_def)
  have pt: "pc st t = Normal" using k(2) t(1) by simp
  have "kinv st1" unfolding kinv_def
  proof (intro conjI allI impI)
    show "u \<noteq> 0" "magic th' = THREAD_MAGIC" if "thr st1 u = Some th'" for u th'
      using that k(1) [of u] old [of u] new(1,2) t(2) by (cases "u = t"; cases "thr st u"; auto)+
    show "pc st1 u = Normal" if "thr st1 u = None" for u
      using that k(2) [of u] old [of u] new(1) by (cases "u = t"; cases "thr st u") (auto simp: same)
    show "pc st1 u = Normal" if "stat_of st1 u = Some THREAD_DYING" for u
      using that k(8) [of u] unfolding stat by (auto simp: same split: if_splits)
    show "queues (stat_of st1) (ready_list st1) (\<lambda>s. waiters (semas st1 s)) (idle_thread st1)"
      unfolding stat same using queues_new [OF k(3) tn(1)] .
    show "sync (pc st1) (semas st1) (lock_holder st1) (cond_waiters st1)"
      unfolding same by (rule sync_pc [OF y]) (use pt in auto)
    have "{u. thr st1 u \<noteq> None} \<subseteq> insert t {u. thr st u \<noteq> None}"
    proof
      fix u assume "u \<in> {u. thr st1 u \<noteq> None}"
      then show "u \<in> insert t {u. thr st u \<noteq> None}" using old [of u] by (cases "u = t"; cases "thr st u") auto
    qed
    then show "pages_ok (km (mmu st1)) (initial_thread st1) {t. thr st1 t \<noteq> None}"
      unfolding same by (rule pages_ok_sub [OF p])
    show "idle_ok (pc st1 (idle_thread st1))" using k(7) by (simp add: same idle_ok_def)
  qed (use k(5) in \<open>simp add: same\<close>)
  moreover have "stat_of st1 u = Some THREAD_RUNNING \<longleftrightarrow> u = running st1" for u
    unfolding stat same using run [of u] tn by auto
  ultimately show ?thesis by (simp add: core_inv_def)
qed

text \<open>What \<open>init_frames\<close> leaves alone.\<close>

definition quiet :: "ksys \<Rightarrow> ksys \<Rightarrow> bool" where
  "quiet st st' \<longleftrightarrow> ready_list st' = ready_list st \<and> idle_thread st' = idle_thread st \<and> running st' = running st \<and>
     initial_thread st' = initial_thread st \<and> lock_holder st' = lock_holder st \<and> cond_waiters st' = cond_waiters st \<and>
     pc st' = pc st \<and> semas st' = semas st \<and> in_intr st' = in_intr st \<and> intr_on st' = intr_on st"

lemma alloc_frame_Some:
  "alloc_frame t sz st = Some (st', s) \<Longrightarrow> st' = upd_thr t (\<lambda>th. th\<lparr>stack := s\<rparr>) st"
  by (auto simp: alloc_frame_def Let_def split: bind_splits)

lemma thr_poke [simp]: "thr (poke a v st) = thr st"
  by (simp add: poke_def)

definition memsim :: "ksys \<Rightarrow> ksys \<Rightarrow> bool" where
  "memsim st st' \<longleftrightarrow> (\<exists>m. km (mmu st') = (km (mmu st))\<lparr>mem := m\<rparr>)"

lemma memsim_intros:
  "memsim st st" "memsim st s \<Longrightarrow> memsim st (upd_thr t f s)" "memsim st s \<Longrightarrow> memsim st (poke a v s)"
  by (auto simp: memsim_def poke_def wr_def intro: exI [of _ "mem (km (mmu st))"])

lemma init_frames_Some:
  assumes "init_frames t function aux st = Some st'"
  shows "quiet st st'" and "memsim st st'"
    and "\<exists>s. thr st' = (thr st)(t := map_option (\<lambda>th. th\<lparr>stack := s\<rparr>) (thr st t))"
proof -
  obtain s1 kf s2 ef s3 sf where f: "alloc_frame t 12 st = Some (s1, kf)"
    "alloc_frame t 4 (poke (kf + 8) aux (poke (kf + 4) function (poke kf 0 s1))) = Some (s2, ef)"
    "alloc_frame t 28 (poke ef (kernel_thread_ip s2) s2) = Some (s3, sf)"
    "st' = poke (sf + 8) 0 (poke (sf + 16) (switch_entry_ip s3) s3)"
    using assms by (auto simp: init_frames_def Let_def split: bind_splits)
  note f' = f(1-3) [THEN alloc_frame_Some] f(4)
  show "quiet st st'" unfolding f' by (simp add: quiet_def poke_def)
  show "memsim st st'" unfolding f' by (intro memsim_intros)
  show "\<exists>s. thr st' = (thr st)(t := map_option (\<lambda>th. th\<lparr>stack := s\<rparr>) (thr st t))"
    by (rule exI [of _ sf]) (simp add: f' fun_eq_iff option.map_comp comp_def)
qed

lemma thread_launch_inv:
  assumes inv: "core_inv st0" and t: "thr st0 t = None" "t \<noteq> 0"
    and st: "quiet (st0\<lparr>semas := q\<rparr>) st" "thr st = (thr st0)(t \<mapsto> th)" "magic th = THREAD_MAGIC"
    and q: "sync (pc st0) q (lock_holder st0) (cond_waiters st0)" "\<And>s. waiters (q s) = waiters (semas st0 s)"
    and p: "pages_ok (km (mmu st)) (initial_thread st0) (insert t {u. thr st0 u \<noteq> None})"
    and r: "thread_launch t fds function aux st = Some st'"
  shows "core_inv st'" and "running st' = running st0" and "in_intr st' = in_intr st0"
    and "intr_on st' = intr_on st0" and "pc st' = (pc st0)(t := Fresh)"
proof -
  define s1 where "s1 = upd_thr t (\<lambda>th. th\<lparr>next_fd := 2, fd_table := fds - 8\<rparr>) st"
  obtain me s3 where me: "thread_current s1 = Some me"
    and s3: "init_frames t function aux (upd_thr me (\<lambda>th. th\<lparr>child_list := child_list th @ [t]\<rparr>) s1) = Some s3"
    and st': "thread_unblock t (set_pc t Fresh s3) = Some st'"
    using r by (auto simp: thread_launch_def s1_def Let_def split: bind_splits)
  note f = init_frames_Some [OF s3]
  have qt: "quiet (st0\<lparr>semas := q\<rparr>) s3"
    using st(1) f(1) unfolding s1_def by (simp add: quiet_def)
  have mem: "memsim st s3" using f(2) by (simp add: memsim_def s1_def)
  have me': "me = running st0" using me st(1) by (simp add: thread_current_Some s1_def quiet_def)
  have s': "st' = set_status t THREAD_READY ((set_pc t Fresh s3)\<lparr>ready_list := ready_list s3 @ [t]\<rparr>)"
    using st' by (auto simp: thread_unblock_def split: bind_splits)
  obtain sp where th3: "thr s3 = (thr (upd_thr me (\<lambda>th. th\<lparr>child_list := child_list th @ [t]\<rparr>) s1))(t :=
      map_option (\<lambda>th. th\<lparr>stack := sp\<rparr>) (thr (upd_thr me (\<lambda>th. th\<lparr>child_list := child_list th @ [t]\<rparr>) s1) t))"
    using f(3) by blast
  have tm: "t \<noteq> me" using inv t(1) me' by (force simp: core_inv_def stat_of_def)
  show "core_inv st'"
  proof (rule new_inv [OF inv t])
    show "map_option (\<lambda>th. (magic th, status th)) (thr st' u) = map_option (\<lambda>th. (magic th, status th)) (thr st0 u)"
      if "u \<noteq> t" for u using that by (simp add: s' th3 s1_def st(2) option.map_comp comp_def)
    show "thr st' t = Some (th\<lparr>next_fd := 2, fd_table := fds - 8, stack := sp, status := THREAD_READY\<rparr>)"
      using tm by (simp add: s' th3 s1_def st(2))
    show "pages_ok (km (mmu st')) (initial_thread st0) (insert t {u. thr st0 u \<noteq> None})"
      using p mem by (auto simp: s' memsim_def pages_ok_mem)
  qed (use qt q st(3) in \<open>simp_all add: s' quiet_def\<close>)
  show "running st' = running st0" "in_intr st' = in_intr st0" "intr_on st' = intr_on st0" "pc st' = (pc st0)(t := Fresh)"
    using qt by (simp_all add: s' quiet_def)
qed

end
