(* ===== verification/Sched_Safe.thy ===== *)
theory Sched_Safe
  imports Sched_Inv
begin

text \<open>
  The thread system as a whole: every step keeps the invariant of theory
  \<open>Sched_Inv\<close>, \<open>thread_init\<close> establishes it, and what follows for every state the
  kernel can reach.
\<close>

section \<open>Creating threads\<close>

lemma core_quiet:
  assumes inv: "core_inv st" and q: "quiet (st\<lparr>semas := q\<rparr>) st'" "thr st' = thr st"
    and y: "sync (pc st) q (lock_holder st) (cond_waiters st)" "\<And>s. waiters (q s) = waiters (semas st s)"
    and p: "pages_ok (km (mmu st')) (initial_thread st) {t. thr st t \<noteq> None}"
  shows "core_inv st'"
proof -
  have k: "kinv st" and r: "\<forall>t. stat_of st t = Some THREAD_RUNNING \<longleftrightarrow> t = running st"
    using inv by (simp_all add: core_inv_def)
  have stat: "stat_of st' = stat_of st" by (simp add: stat_of_def fun_eq_iff q(2))
  have wt: "(\<lambda>s. waiters (q s)) = (\<lambda>s. waiters (semas st s))" using y(2) by (rule ext)
  show ?thesis using k r q p y(1) unfolding core_inv_def kinv_def stat
    by (simp add: quiet_def wt)
qed

definition thread_semas :: "tptr \<Rightarrow> (sid \<Rightarrow> semaphore) \<Rightarrow> sid \<Rightarrow> semaphore" where
  "thread_semas t q = q(WaitSema t := sema_init 0, DestroySema t := sema_init 0, LoadSema t := sema_init 0)"

lemma sync_thread_semas:
  assumes "sync pcs q hold cw"
  shows "sync pcs (thread_semas t q) hold cw" and "waiters (thread_semas t q s) = waiters (q s)"
proof -
  show "sync pcs (thread_semas t q) hold cw"
    unfolding thread_semas_def by (intro sync_reinit [where t = t]) (use assms in simp_all)
  have "sync0 pcs q cw" using assms by (simp add: sync_def)
  from thread_sema_empty [OF this, of _ t] show "waiters (thread_semas t q s) = waiters (q s)"
    by (simp add: thread_semas_def sema_init_def)
qed

lemma init_thread_Some:
  assumes "init_thread t nm prio st = Some st'"
  shows "\<exists>th. thr st' = (thr st)(t \<mapsto> th) \<and> magic th = THREAD_MAGIC \<and> status th = THREAD_BLOCKED"
    and "quiet (st\<lparr>semas := thread_semas t (semas st)\<rparr>) st'" and "mmu st' = mmu st"
  using assms by (auto simp: init_thread_def quiet_def thread_semas_def Let_def split: bind_splits)

text \<open>\<open>thread_setup\<close> after the thread identifier: the descriptor table, or the way back.\<close>

lemma thread_setup_Some:
  assumes "thread_setup t nm prio function aux s1 = Some (st', i)" and "init_thread t nm prio s1 = Some s2"
    and "allocate_tid s2 = Some (s2\<lparr>next_tid := n + 1\<rparr>, n)"
  obtains k2 fds s3 where "palloc_get_multiple (running s2) (km (mmu s2)) PAL_ZERO 2 = Some (k2, fds)"
    "s3 = (upd_thr t (\<lambda>th. th\<lparr>tid := n\<rparr>) (s2\<lparr>next_tid := n + 1\<rparr>))\<lparr>mmu := (mmu s2)\<lparr>km := k2\<rparr>\<rparr>"
    "if fds = 0 then \<exists>v. free_page t (mmu s3) = Some v \<and> st' = s3\<lparr>mmu := v, thr := (thr s3)(t := None)\<rparr>
     else thread_launch t fds function aux s3 = Some st'"
proof -
  obtain k2 fds where g: "palloc_get_multiple (running s2) (km (mmu s2)) PAL_ZERO 2 = Some (k2, fds)"
    using assms by (auto simp: thread_setup_def Let_def split: bind_splits)
  define s3 where "s3 = (upd_thr t (\<lambda>th. th\<lparr>tid := n\<rparr>) (s2\<lparr>next_tid := n + 1\<rparr>))\<lparr>mmu := (mmu s2)\<lparr>km := k2\<rparr>\<rparr>"
  have "if fds = 0 then \<exists>v. free_page t (mmu s3) = Some v \<and> st' = s3\<lparr>mmu := v, thr := (thr s3)(t := None)\<rparr>
     else thread_launch t fds function aux s3 = Some st'"
    using assms g by (cases "fds = 0") (auto simp: thread_setup_def Let_def s3_def split: bind_splits)
  from that [OF g s3_def this] show ?thesis .
qed

lemma thread_create_inv:
  assumes inv: "sys_inv st" and r: "thread_create nm prio function aux st = Some (st', i)"
  shows "sys_inv st'"
proof -
  let ?T = "{u. thr st u \<noteq> None}"
  have cr: "core_inv st" and ni: "\<not> in_intr st" and on: "intr_on st \<longrightarrow> simple (pc st (running st))"
    using inv by (simp_all add: sys_inv_iff)
  note k = kinvD [OF sys_invD(1) [OF inv]] and run = running_facts [OF inv]
  obtain k1 t where get: "palloc_get_multiple (running st) (km (mmu st)) PAL_ZERO 1 = Some (k1, t)"
    using r by (auto simp: thread_create_def palloc_get_page_def split: bind_splits)
  define s1 where "s1 = st\<lparr>mmu := (mmu st)\<lparr>km := k1\<rparr>\<rparr>"
  have rest: "(if t = 0 then Some (s1, TID_ERROR) else thread_setup t nm prio function aux s1) = Some (st', i)"
    using r get by (auto simp: thread_create_def palloc_get_page_def s1_def split: bind_splits)
  have p1: "pages_ok k1 (initial_thread st) ?T"
    and fresh: "t \<noteq> 0 \<Longrightarrow> t \<notin> ?T \<and> t \<noteq> initial_thread st \<and> pages_ok k1 (initial_thread st) (insert t ?T)"
    using pages_ok_get [OF k(6) run(3) get] by simp_all
  show ?thesis
  proof (cases "t = 0")
    case True
    have "core_inv st'"
      by (rule core_quiet [OF cr, of "semas st"]) (use rest True p1 k(4) in \<open>auto simp: s1_def quiet_def\<close>)
    then show ?thesis using rest True ni on by (auto simp: sys_inv_iff s1_def)
  next
    case False
    have t: "thr st t = None" "t \<noteq> 0" "t \<noteq> initial_thread st" using fresh [OF False] False by auto
    obtain s2 where s2: "init_thread t nm prio s1 = Some s2"
      using rest False by (auto simp: thread_setup_def split: bind_splits)
    note i = init_thread_Some [OF s2]
    obtain th where th: "thr s2 = (thr st)(t \<mapsto> th)" "magic th = THREAD_MAGIC" "status th = THREAD_BLOCKED"
      using i(1) by (auto simp: s1_def)
    let ?q = "thread_semas t (semas st)"
    have q2: "quiet (st\<lparr>semas := ?q\<rparr>) s2" using i(2) by (simp add: s1_def quiet_def)
    note y = sync_thread_semas [OF k(4), of t]
    have tr: "t \<noteq> running st" using t(1) run(2) by auto
    have "allocate_tid s2 = Some (s2\<lparr>next_tid := next_tid s2 + 1\<rparr>, next_tid s2)"
    proof (rule allocate_tid_eq)
      show "semas s2 (LockSema tid_lock) = sema_init 1"
        using q2 tid_free [OF sys_invD(1) [OF inv]] by (simp add: quiet_def thread_semas_def)
      show "thread_current s2 = Some (running st)"
        using q2 run(1,4) tr by (auto simp: thread_current_Some quiet_def is_thread_def stat_of_def th(1))
    qed (use q2 k(5) run(3) in \<open>simp_all add: quiet_def\<close>)
    then obtain k2 fds s3 where get2: "palloc_get_multiple (running s2) (km (mmu s2)) PAL_ZERO 2 = Some (k2, fds)"
      and s3: "s3 = (upd_thr t (\<lambda>th. th\<lparr>tid := next_tid s2\<rparr>) (s2\<lparr>next_tid := next_tid s2 + 1\<rparr>))\<lparr>mmu := (mmu s2)\<lparr>km := k2\<rparr>\<rparr>"
      and fin: "if fds = 0 then \<exists>v. free_page t (mmu s3) = Some v \<and> st' = s3\<lparr>mmu := v, thr := (thr s3)(t := None)\<rparr>
        else thread_launch t fds function aux s3 = Some st'"
      using thread_setup_Some [of t nm prio "function" aux s1 st' i s2 "next_tid s2"] rest False s2 by auto
    have q3: "quiet (st\<lparr>semas := ?q\<rparr>) s3" using q2 by (simp add: quiet_def s3)
    have th3: "thr s3 = (thr st)(t \<mapsto> th\<lparr>tid := next_tid s2\<rparr>)" by (simp add: s3 th(1))
    have "km (mmu s2) = k1" "running s2 = running st" using i(3) q2 by (simp_all add: s1_def quiet_def)
    then have p2: "pages_ok k2 (initial_thread st) (insert t ?T)"
      using pages_ok_get(1) [OF _ run(3)] fresh [OF False] get2 by auto
    show ?thesis
    proof (cases "fds = 0")
      case True
      then obtain v where v: "free_page t (mmu s3) = Some v" "st' = s3\<lparr>mmu := v, thr := (thr s3)(t := None)\<rparr>"
        using fin by auto
      have "palloc_free_page k2 t = Some (km v)" using v(1) by (auto simp: free_page_def s3 split: bind_splits)
      then have p: "pages_ok (km v) (initial_thread st) ?T"
        using pages_ok_free [OF p2 _ t(3)] t(1) pages_ok_sub by simp
      have "core_inv st'"
        by (rule core_quiet [OF cr, of ?q]) (use v(2) q3 th3 t(1) p y in \<open>auto simp: quiet_def fun_upd_idem\<close>)
      then show ?thesis using ni on q3 by (auto simp: sys_inv_iff v(2) quiet_def)
    next
      case False
      then have "thread_launch t fds function aux s3 = Some st'" using fin by simp
      note l = thread_launch_inv [OF cr t(1,2) q3 th3 _ y _ this]
      have "km (mmu s3) = k2" by (simp add: s3)
      with p2 th(2) l have "core_inv st'" "running st' = running st" "in_intr st' = in_intr st"
        "intr_on st' = intr_on st" "pc st' = (pc st)(t := Fresh)" by simp_all
      then show ?thesis using ni on tr by (auto simp: sys_inv_iff)
    qed
  qed
qed

section \<open>Every step keeps the invariant\<close>

lemma set_priority_inv:
  assumes inv: "sys_inv st" and r: "thread_set_priority p st = Some st'"
  shows "sys_inv st'"
proof -
  have st': "st' = upd_thr (running st) (\<lambda>th. th\<lparr>priority := p\<rparr>) st"
    using r by (auto simp: thread_set_priority_def thread_current_Some split: bind_splits)
  note k = kinvD [OF sys_invD(1) [OF inv]]
  have stat: "stat_of st' = stat_of st" by (simp add: stat_of_def fun_eq_iff st' option.map_comp comp_def)
  have "core_inv st'"
    by (rule core_change [of st]) (use inv k(3,4,5,7) stat in \<open>auto simp: sys_inv_iff st' option.map_comp comp_def\<close>)
  then show ?thesis using inv by (auto simp: sys_inv_iff st')
qed

lemma idle_start_inv:
  assumes inv: "sys_inv st" and a: "app st" and z: "idle_thread st = 0" and r: "idle_start (Sema a) st = Some st'"
  shows "sys_inv st'"
proof -
  note k = kinvD [OF sys_invD(1) [OF inv]] and run = running_facts [OF inv]
  have up: "sema_up (Sema a) (st\<lparr>idle_thread := running st\<rparr>) = Some st'"
    using r by (auto simp: idle_start_def thread_current_Some split: bind_splits)
  have "stat_of st 0 = None" using k(1) by (cases "thr st 0") (auto simp: stat_of_def)
  then have q: "queues (stat_of st) (ready_list st) (\<lambda>s. waiters (semas st s)) (running st)"
    using queues_set_idle [OF k(3) _ run(1)] z by simp
  have "core_inv (st\<lparr>idle_thread := running st\<rparr>)"
    by (rule core_change [of st]) (use inv q k(4,5) a in \<open>simp_all add: sys_inv_iff app_def idle_ok_def\<close>)
  then have "core_inv st'" by (rule sema_up_plain [OF _ up]) auto
  then show ?thesis using inv sema_up_same [OF up] by (auto simp: sys_inv_iff)
qed

lemma try_down_inv:
  assumes inv: "sys_inv st"
  shows "sys_inv (fst (try_down (Sema a) st))"
proof -
  note k = kinvD [OF sys_invD(1) [OF inv]]
  define q where "q = (semas st)(Sema a := fst (sema_try_down (semas st (Sema a))))"
  have st': "fst (try_down (Sema a) st) = st\<lparr>semas := q\<rparr>"
    by (simp add: try_down_def q_def split: prod.splits)
  have wt: "waiters (q s) = waiters (semas st s)" for s by (simp add: q_def sema_try_down_def)
  have "core_inv (st\<lparr>semas := q\<rparr>)"
    by (rule core_quiet [of st q]) (use inv sync_try [OF k(4), of a] wt k(6) in \<open>auto simp: sys_inv_iff quiet_def q_def\<close>)
  then show ?thesis using inv by (auto simp: sys_inv_iff st')
qed

lemma step_inv:
  assumes "step st st'" and inv: "sys_inv st"
  shows "sys_inv st'"
  using assms(1)
proof cases
  case (down a)
  then show ?thesis using down_then_inv [OF inv, of "Sema a" Ret] by (simp add: app_def sema_down_def)
next
  case (up a)
  then have "core_inv st'" using sema_up_plain [of st "Sema a"] inv by (simp add: sys_inv_iff)
  then show ?thesis using inv sema_up_same [OF up(2)] by (simp add: sys_inv_iff)
next
  case (try_sema a)
  then show ?thesis using try_down_inv [OF inv] by simp
next
  case (acquire l)
  then show ?thesis using lock_acquire_inv [OF inv, of l] by (simp add: app_def)
next
  case (try_acquire l b)
  then show ?thesis using lock_try_inv [OF inv] by blast
next
  case (release l)
  then show ?thesis using release_inv [OF inv] by blast
next
  case (wait l c)
  then show ?thesis using cond_wait_inv [OF inv] by blast
next
  case (signal c l)
  then show ?thesis using cond_signal_inv [OF inv] by blast
next
  case (broadcast c l)
  then show ?thesis using cond_broadcast_inv [OF inv] by blast
next
  case yield
  then show ?thesis using yield_inv [OF inv] by (simp add: app_def)
next
  case (exit th)
  then show ?thesis using thread_exit_inv [OF inv] by blast
next
  case (create nm prio f aux i)
  then show ?thesis using thread_create_inv [OF inv] by blast
next
  case (set_priority p)
  then show ?thesis using set_priority_inv [OF inv] by blast
next
  case (set_level b)
  then show ?thesis using inv by (simp add: sys_inv_iff app_def)
next
  case (start_idle a)
  then show ?thesis using idle_start_inv [OF inv] by blast
next
  case idle
  then show ?thesis using idle_iter_inv [OF inv] by blast
next
  case go_on
  then show ?thesis using resume_inv [OF inv] by blast
next
  case (intr hs vec)
  then show ?thesis using interrupt_inv [OF inv] by blast
qed

section \<open>Reachable states\<close>

text \<open>
  \<open>cold\<close>: the machine when \<open>thread_init\<close> is called, on a stack whose page lies
  outside the page pools: there are no threads, locks are as \<open>lock_init\<close> leaves
  them and nobody waits.
\<close>

definition cold :: "u32 \<Rightarrow> ksys \<Rightarrow> bool" where
  "cold esp st \<longleftrightarrow> thr st = Map.empty \<and> pc st = (\<lambda>_. Normal) \<and> (\<forall>s. waiters (semas st s) = []) \<and>
     (\<forall>l. sema_value (semas st (LockSema l)) = 1 \<and> lock_holder st l = 0) \<and> (\<forall>c. cond_waiters st c = []) \<and>
     idle_thread st = 0 \<and> \<not> in_intr st \<and> kmem_inv (km (mmu st)) \<and>
     unat (running_thread esp) \<notin> arena (km (mmu st))"

definition reachable :: "ksys \<Rightarrow> bool" where
  "reachable st \<longleftrightarrow> (\<exists>esp nm st0 st1. cold esp st0 \<and> thread_init esp nm st0 = Some st1 \<and> step\<^sup>*\<^sup>* st1 st)"

lemma sync_cold:
  assumes "\<And>s. waiters (q s) = []" and "\<And>l. sema_value (q (LockSema l)) = 1 \<and> h l = 0" and "\<And>c. cw c = []"
  shows "sync (\<lambda>_. Normal) q h cw"
  using assms unfolding sync_def sync0_def
  by (auto simp: locks_ok_def lock_ok_def wq_ok_def cond_ok_def wake_ok_def)

lemma thread_init_inv:
  assumes c: "cold esp st0" and r: "thread_init esp nm st0 = Some st"
  shows "sys_inv st"
proof -
  define t where "t = running_thread esp"
  define s1 where "s1 = st0\<lparr>lock_holder := (lock_holder st0)(tid_lock := 0),
    semas := (semas st0)(LockSema tid_lock := sema_init 1), ready_list := [], all_list := [],
    initial_thread := t, running := t\<rparr>"
  note cd = c [unfolded cold_def]
  obtain s2 where s2: "init_thread t nm PRI_DEFAULT s1 = Some s2"
    using r by (auto simp: thread_init_def s1_def t_def lock_init_def Let_def split: bind_splits)
  note i = init_thread_Some [OF s2]
  obtain th where th: "thr s2 = (thr st0)(t \<mapsto> th)" "magic th = THREAD_MAGIC" using i(1) by (auto simp: s1_def)
  have t0: "t \<noteq> 0" using s2 by (auto simp: init_thread_def split: bind_splits)
  define s3 where "s3 = set_status t THREAD_RUNNING s2"
  let ?q = "thread_semas t ((semas st0)(LockSema tid_lock := sema_init 1))"
  have q: "ready_list s3 = []" "idle_thread s3 = 0" "running s3 = t" "initial_thread s3 = t"
    "lock_holder s3 = lock_holder st0" "cond_waiters s3 = cond_waiters st0" "pc s3 = (\<lambda>_. Normal)" "semas s3 = ?q"
    "\<not> in_intr s3" "intr_on s3 = intr_on st0" "mmu s3 = mmu st0"
    using i(2,3) cd by (auto simp: s3_def s1_def quiet_def fun_upd_idem)
  have th3: "thr s3 = [t \<mapsto> th\<lparr>status := THREAD_RUNNING\<rparr>]" using cd th(1) by (simp add: s3_def)
  have "allocate_tid s3 = Some (s3\<lparr>next_tid := next_tid s3 + 1\<rparr>, next_tid s3)"
    by (rule allocate_tid_eq [where t = t])
      (use t0 q th3 th(2) cd in \<open>auto simp: thread_current_Some is_thread_def stat_of_def thread_semas_def\<close>)
  then have st: "st = upd_thr t (\<lambda>th. th\<lparr>tid := next_tid s3\<rparr>) (s3\<lparr>next_tid := next_tid s3 + 1\<rparr>)"
    using r s2 by (auto simp: thread_init_def s1_def t_def lock_init_def Let_def s3_def split: bind_splits)
  have thst: "thr st = [t \<mapsto> th\<lparr>status := THREAD_RUNNING, tid := next_tid s3\<rparr>]" by (simp add: st th3)
  have stat: "stat_of st = [t \<mapsto> THREAD_RUNNING]" by (simp add: stat_of_def fun_eq_iff thst)
  have y: "sync (\<lambda>_. Normal) ?q (lock_holder st0) (cond_waiters st0)"
    by (rule sync_cold) (use cd in \<open>auto simp: thread_semas_def sema_init_def\<close>)
  have wt: "waiters (?q s) = []" for s using cd by (simp add: thread_semas_def sema_init_def)
  have "kinv st" unfolding kinv_def stat
    using y t0 th(2) cd q wt by (auto simp: st th3 queues_def idle_ok_def pages_ok_def t_def)
  then show ?thesis unfolding sys_inv_def stat using q by (auto simp: st)
qed

lemma reachable_inv: "reachable st \<Longrightarrow> sys_inv st"
proof -
  assume "reachable st"
  then obtain esp nm st0 st1 where r: "cold esp st0" "thread_init esp nm st0 = Some st1" "step\<^sup>*\<^sup>* st1 st"
    by (auto simp: reachable_def)
  from r(3) show "sys_inv st"
    by (induction rule: rtranclp_induct) (use thread_init_inv [OF r(1,2)] step_inv in auto)
qed

section \<open>What holds in every reachable state\<close>


text \<open>
  A thread owns a lock from the moment it takes the unit of the lock's semaphore
  until it gives it back; the holder field is set only in between.
\<close>

definition owns :: "ksys \<Rightarrow> u32 \<Rightarrow> tptr \<Rightarrow> bool" where
  "owns st l t \<longleftrightarrow> t \<noteq> 0 \<and> lock_holder st l = t \<or> transit (pc st t) l"

text \<open>C2: Mutual exclusion. In every reachable state a lock has at most one owner, its semaphore is 0
  exactly when it has one and 1 otherwise, and its holder field names nobody but the owner.\<close>

theorem lock_mutual_exclusion:
  assumes "reachable st"
  shows "(\<forall>t u. owns st l t \<longrightarrow> owns st l u \<longrightarrow> t = u) \<and>
    sema_value (semas st (LockSema l)) = (if \<exists>t. owns st l t then 0 else 1) \<and>
    (lock_holder st l \<noteq> 0 \<longrightarrow> owns st l (lock_holder st l))"
proof -
  have "locks_ok (pc st) (semas st) (lock_holder st)"
    using kinvD(4) [OF sys_invD(1) [OF reachable_inv [OF assms]]] by (simp add: sync_def)
  then have l: "lock_ok (sema_value (semas st (LockSema l))) (lock_holder st l) {t. transit (pc st t) l}"
    by (simp add: locks_ok_def)
  have "owns st l t \<Longrightarrow> owns st l u \<Longrightarrow> t = u" for t u
    using l unfolding lock_ok_def owns_def by (auto simp: set_eq_iff)
  moreover have "sema_value (semas st (LockSema l)) = (if \<exists>t. owns st l t then 0 else 1)"
    using l unfolding lock_ok_def owns_def by auto
  moreover have "lock_holder st l \<noteq> 0 \<Longrightarrow> owns st l (lock_holder st l)" by (simp add: owns_def)
  ultimately show ?thesis by blast
qed

text \<open>C3: No wake-up is lost. In every reachable state, while threads wait for a semaphore, there are
  at least as many threads that were woken for it, are ready to run or running, and are about to try it
  again, as the semaphore has units: a unit never lies idle while everybody sleeps.\<close>

theorem no_lost_wakeup:
  assumes "reachable st"
  shows "waiters (semas st s) = [] \<or>
    unat (sema_value (semas st s)) \<le> card {t. (\<exists>level a. pc st t = Down s level a) \<and> t \<notin> set (waiters (semas st s)) \<and>
      (t \<in> set (ready_list st) \<or> t = running st)}"
proof (cases "waiters (semas st s) = []")
  case False
  note i = sys_invD [OF reachable_inv [OF assms(1)]]
  note k = kinvD [OF i(1)]
  note q = queuesD [OF k(3)]
  have s0: "sync0 (pc st) (semas st) (cond_waiters st)" using k(4) by (simp add: sync_def)
  let ?W = "{t. (\<exists>level a. pc st t = Down s level a) \<and> t \<notin> set (waiters (semas st s)) \<and>
      (t \<in> set (ready_list st) \<or> t = running st)}"
  have "t \<in> ?W" if t: "waits (pc st t) s" "t \<notin> set (waiters (semas st s))" for t
  proof -
    obtain level a where d: "pc st t = Down s level a" using t by (auto simp: waits_def)
    then have ni: "t \<noteq> idle_thread st" using k(7) by (auto simp: idle_ok_def)
    obtain x where x: "stat_of st t = Some x" using k(2) [of t] d by (cases "thr st t") (auto simp: stat_of_def)
    have "x \<noteq> THREAD_DYING" using k(8) [of t] d x by auto
    moreover have "x \<noteq> THREAD_BLOCKED"
    proof
      assume "x = THREAD_BLOCKED"
      then obtain s' where "t \<in> set (waiters (semas st s'))" using q(7) x ni by blast
      moreover from this have "waits (pc st t) s'" using sync0D(3) [OF s0] by (simp add: wq_ok_def)
      ultimately show False using t d by simp
    qed
    ultimately have "t \<in> set (ready_list st) \<or> t = running st" using q(3) [of t] i(2) [of t] x ni by (cases x) auto
    then show ?thesis using d t(2) by blast
  qed
  then have sub: "woken (pc st) (semas st) s \<subseteq> ?W" by (auto simp: woken_def)
  have "finite ?W" by (rule finite_subset [OF _ sync0D(1) [OF s0]]) auto
  from card_mono [OF this sub] show ?thesis using sync0D(5) [OF s0] False by (auto simp: wake_ok_def)
qed simp

text \<open>C5: \<open>sema_up\<close> never panics in a reachable state: it adds one unit (modulo \<open>2 ^ 32\<close>) and, if
  threads wait, moves exactly the first of them from the head of the wait queue to the end of the run
  queue; nothing else of the queues changes.\<close>

theorem sema_up_total:
  assumes "reachable st"
  shows "\<exists>st'. sema_up s st = Some st' \<and> sema_value (semas st' s) = sema_value (semas st s) + 1 \<and>
    waiters (semas st' s) = tl (waiters (semas st s)) \<and> (\<forall>s'. s' \<noteq> s \<longrightarrow> semas st' s' = semas st s') \<and>
    ready_list st' = ready_list st @ take 1 (waiters (semas st s)) \<and> running st' = running st \<and>
    (\<forall>t. has_status st' t THREAD_READY \<longleftrightarrow> has_status st t THREAD_READY \<or> t \<in> set (take 1 (waiters (semas st s))))"
proof -
  note i = sys_invD [OF reachable_inv [OF assms]]
  note k = kinvD [OF i(1)]
  have total: "\<exists>st'. sema_up s st = Some st'"
  proof (cases "waiters (semas st s)")
    case Nil
    then show ?thesis by (simp add: sema_up_def sema_up_data_def)
  next
    case (Cons w ws)
    have b: "stat_of st w = Some THREAD_BLOCKED" using queuesD(5) [OF k(3), of w s] Cons by simp
    then obtain th where th: "thr st w = Some th" "status th = THREAD_BLOCKED" by (auto simp: stat_of_def)
    then show ?thesis using k(1) [OF th(1)] Cons
      by (simp add: sema_up_def sema_up_data_def thread_unblock_def is_thread_def has_status_def Let_def)
  qed
  then obtain st' where r: "sema_up s st = Some st'" by blast
  note st' = sema_up_Some [OF r]
  show ?thesis
  proof (cases "waiters (semas st s)")
    case Nil
    then show ?thesis using r st' by (auto simp: sema_up_data_simps has_status_stat)
  next
    case (Cons w ws)
    have b: "stat_of st w = Some THREAD_BLOCKED" using queuesD(5) [OF k(3), of w s] Cons by simp
    then have "thr st w \<noteq> None" by (auto simp: stat_of_def)
    then show ?thesis using r st' Cons by (auto simp: sema_up_data_simps has_status_stat stat_of_set_status)
  qed
qed

text \<open>What a switch of threads needs from the memory management.\<close>

definition mmu_ready :: "ksys \<Rightarrow> bool" where
  "mmu_ready st \<longleftrightarrow> tss_page st \<noteq> 0 \<and> is_kernel_vaddr (init_page_dir (mmu st)) \<and>
     (\<forall>t th. thr st t = Some th \<longrightarrow> pagedir th = 0 \<or> is_kernel_vaddr (pagedir th))"

lemma mmu_ready_status:
  assumes "mmu_ready st" and "thr st1 = (thr st)(t := map_option (\<lambda>th. th\<lparr>status := x\<rparr>) (thr st t))"
    and "mmu st1 = mmu st" and "tss_page st1 = tss_page st"
  shows "mmu_ready st1"
proof -
  have "pagedir th = 0 \<or> is_kernel_vaddr (pagedir th)" if "thr st1 u = Some th" for u th
    using that assms(1,2) unfolding mmu_ready_def by (cases "u = t"; cases "thr st u") fastforce+
  then show ?thesis using assms unfolding mmu_ready_def by simp
qed

lemma schedule_total:
  assumes off: "\<not> intr_on st" and n: "is_thread st (next_of st)" and nr: "stat_of st (running st) \<noteq> Some THREAD_RUNNING"
    and nd: "stat_of st (running st) \<noteq> Some THREAD_DYING" and m: "mmu_ready st"
  shows "schedule st \<noteq> None"
proof -
  define s1 where "s1 = st\<lparr>ready_list := tl (ready_list st)\<rparr>"
  have nx: "next_thread_to_run st = (s1, next_of st)"
    by (simp add: next_thread_to_run_def s1_def next_of_def split: list.splits)
  define s2 where "s2 = (set_status (next_of st) THREAD_RUNNING (s1\<lparr>running := next_of st\<rparr>))\<lparr>thread_ticks := 0\<rparr>"
  obtain th where th: "thr st (next_of st) = Some th" "magic th = THREAD_MAGIC" "next_of st \<noteq> 0"
    using n by (auto simp: is_thread_def split: option.splits)
  have th2: "thr s2 (next_of st) = Some (th\<lparr>status := THREAD_RUNNING\<rparr>)" "running s2 = next_of st"
    "thr s2 = (thr st)(next_of st \<mapsto> th\<lparr>status := THREAD_RUNNING\<rparr>)" "mmu s2 = mmu st" "tss_page s2 = tss_page st"
    using th by (simp_all add: s2_def s1_def set_status_def upd_thr_def)
  have cur: "thread_current s2 = Some (next_of st)"
    using th th2 by (simp add: thread_current_def is_thread_def has_status_def)
  have "vtop (if pagedir th = 0 then init_page_dir (mmu st) else pagedir th) \<noteq> None"
    using m th(1) by (auto simp: mmu_ready_def vtop_def ASSERT_def)
  then obtain v where v: "pagedir_activate (pagedir th) (mmu st) = Some v"
    by (auto simp: pagedir_activate_def)
  have pa: "process_activate s2 = Some (poke (tss_page st + 4) (next_of st + PGSIZE) (s2\<lparr>mmu := v\<rparr>))"
    using m by (simp add: process_activate_def cur th2 v tss_update_def mmu_ready_def)
  have nd': "\<not> has_status (poke a x (s2\<lparr>mmu := v\<rparr>)) (running st) THREAD_DYING" for a x
    using nd by (auto simp: has_status_def th2 stat_of_def)
  have tail: "thread_schedule_tail p (s1\<lparr>running := next_of st\<rparr>) \<noteq> None" if "p = 0 \<or> p = running st" for p
  proof -
    have "intr_on (s1\<lparr>running := next_of st\<rparr>) = intr_on st" "running (s1\<lparr>running := next_of st\<rparr>) = next_of st"
      by (simp_all add: s1_def)
    then show ?thesis using pa nd' that off
      by (auto simp: thread_schedule_tail_def Let_def s2_def [symmetric])
  qed
  show ?thesis
  proof (cases "running st = next_of st")
    case True
    then have "s1\<lparr>running := next_of st\<rparr> = s1" by (simp add: s1_def)
    then have "thread_schedule_tail 0 s1 \<noteq> None" using tail [of 0] by simp
    then show ?thesis using off n nr True
      by (auto simp: schedule_def nx is_thread_def has_status_stat stat_of_def s1_def)
  next
    case False
    then show ?thesis using tail [of "running st"] off n nr
      by (auto simp: schedule_def nx s1_def is_thread_def has_status_stat stat_of_def)
  qed
qed


lemma next_of_thread:
  assumes "sys_inv st" and "ready_list st \<noteq> [] \<or> thr st (idle_thread st) \<noteq> None"
  shows "is_thread st (next_of st)"
proof -
  note k = kinvD [OF sys_invD(1) [OF assms(1)]]
  have "thr st (next_of st) \<noteq> None"
    using assms(2) queuesD(2) [OF k(3)] by (cases "ready_list st") (force simp: next_of_def stat_of_def)+
  then show ?thesis using k(1) by (auto simp: is_thread_def)
qed


end
