(* ===== verification/Sched_Demo.thy ===== *)
theory Sched_Demo
  imports Sched_Safe
begin

text \<open>
  What \<open>thread_create\<close> builds, and small reachable systems: the system right after
  \<open>thread_init\<close>, one whose main thread holds a lock, and one with a second thread.
\<close>

section \<open>A new thread\<close>

definition first_frames :: "tptr \<Rightarrow> u32 \<Rightarrow> u32 \<Rightarrow> ksys \<Rightarrow> vm" where
  "first_frames t f aux st =
     wr (slot t 1015) 0 (wr (slot t 1017) (switch_entry_ip st) (wr (slot t 1020) (kernel_thread_ip st)
       (wr (slot t 1023) aux (wr (slot t 1022) f (wr (slot t 1021) 0 (mmu st))))))"

lemma init_frames_eq:
  assumes "thr st t = Some th" and "magic th = THREAD_MAGIC" and "t \<noteq> 0" and "stack th = t + 4096"
  shows "init_frames t f aux st =
    Some (st\<lparr>thr := (thr st)(t \<mapsto> th\<lparr>stack := slot t 1013\<rparr>), mmu := first_frames t f aux st\<rparr>)"
proof -
  have "slot t 1021 = 4084 + t" "slot t 1022 = 4088 + t" "slot t 1023 = 4092 + t" "slot t 1020 = 4080 + t"
    "slot t 1013 = 4052 + t" "slot t 1015 = 4060 + t" "slot t 1017 = 4068 + t"
    by (simp_all add: slot_def add.commute [of t])
  then show ?thesis using assms
    by (simp add: init_frames_def alloc_frame_def is_thread_def upd_thr_def poke_def first_frames_def Let_def)
qed

lemma thread_launch_eq:
  assumes th: "thr st t = Some th" "magic th = THREAD_MAGIC" "t \<noteq> 0" "stack th = t + 4096" "status th = THREAD_BLOCKED"
    and me: "thread_current st = Some me" "thr st me = Some mth" "me \<noteq> t"
  shows "thread_launch t fds f aux st = Some (st\<lparr>
      thr := (thr st)(me \<mapsto> mth\<lparr>child_list := child_list mth @ [t]\<rparr>,
        t \<mapsto> th\<lparr>next_fd := 2, fd_table := fds - 8, stack := slot t 1013, status := THREAD_READY\<rparr>),
      mmu := first_frames t f aux st, pc := (pc st)(t := Fresh), ready_list := ready_list st @ [t]\<rparr>)"
proof -
  let ?t1 = "th\<lparr>next_fd := 2, fd_table := fds - 8\<rparr>" and ?m1 = "mth\<lparr>child_list := child_list mth @ [t]\<rparr>"
  define s1 where "s1 = st\<lparr>thr := (thr st)(t \<mapsto> ?t1)\<rparr>"
  define s2 where "s2 = st\<lparr>thr := (thr st)(me \<mapsto> ?m1, t \<mapsto> ?t1)\<rparr>"
  have u1: "upd_thr t (\<lambda>th. th\<lparr>next_fd := 2, fd_table := fds - 8\<rparr>) st = s1" using th(1) by (simp add: upd_thr_def s1_def)
  have u2: "upd_thr me (\<lambda>th. th\<lparr>child_list := child_list th @ [t]\<rparr>) s1 = s2"
    using me(2,3) by (simp add: upd_thr_def s1_def s2_def fun_upd_twist)
  have cur: "thread_current s1 = Some me"
    using me(1,3) by (auto simp: thread_current_Some s1_def is_thread_def stat_of_def)
  have ff: "first_frames t f aux s2 = first_frames t f aux st" by (simp add: first_frames_def s2_def)
  have "init_frames t f aux s2 = Some (s2\<lparr>thr := (thr s2)(t \<mapsto> ?t1\<lparr>stack := slot t 1013\<rparr>), mmu := first_frames t f aux s2\<rparr>)"
    by (rule init_frames_eq) (use th in \<open>simp_all add: s2_def\<close>)
  moreover have "thread_launch t fds f aux st = init_frames t f aux s2 \<bind> (\<lambda>st. thread_unblock t (set_pc t Fresh st))"
    by (simp add: thread_launch_def u1 cur u2 Let_def)
  ultimately show ?thesis using th unfolding ff
    by (simp add: thread_unblock_def is_thread_def has_status_def set_pc_def set_status_def upd_thr_def s2_def)
qed

lemma thread_create_eq:
  assumes inv: "sys_inv st" and f: "f \<noteq> 0" and prio: "PRI_MIN \<le> prio" "prio \<le> PRI_MAX"
    and g1: "palloc_get_page (running st) (km (mmu st)) PAL_ZERO = Some (k1, t)" "t \<noteq> 0"
    and g2: "palloc_get_multiple (running st) k1 PAL_ZERO 2 = Some (k2, fds)" "fds \<noteq> 0"
    and me: "thr st (running st) = Some mth"
  shows "thread_create nm prio f aux st = Some (st\<lparr>
      next_tid := next_tid st + 1, semas := thread_semas t (semas st), all_list := all_list st @ [t],
      thr := (thr st)(running st \<mapsto> mth\<lparr>child_list := child_list mth @ [t]\<rparr>,
        t \<mapsto> \<lparr>tid = next_tid st, status = THREAD_READY, tname = take 15 nm, stack = slot t 1013, priority = prio,
          exit_status = 0, child_list = [], pagedir = 0, load_succeeded = False, next_fd = 2, fd_table = fds - 8,
          magic = THREAD_MAGIC\<rparr>),
      mmu := first_frames t f aux (st\<lparr>mmu := (mmu st)\<lparr>km := k2\<rparr>\<rparr>), pc := (pc st)(t := Fresh),
      ready_list := ready_list st @ [t]\<rparr>, next_tid st)"
proof -
  note k = kinvD [OF sys_invD(1) [OF inv]] and run = running_facts [OF inv]
  have fresh: "thr st t = None" "t \<noteq> running st"
    using pages_ok_get(2) [OF k(6) run(3) g1(1) [unfolded palloc_get_page_def] _ g1(2)] run(2) by auto
  let ?th = "\<lparr>tid = next_tid st, status = THREAD_BLOCKED, tname = take 15 nm, stack = t + 4096, priority = prio,
          exit_status = 0, child_list = [], pagedir = 0, load_succeeded = False, next_fd = 0, fd_table = 0,
          magic = THREAD_MAGIC\<rparr>"
  define s1 where "s1 = st\<lparr>mmu := (mmu st)\<lparr>km := k1\<rparr>, thr := (thr st)(t \<mapsto> ?th\<lparr>tid := 0\<rparr>),
     semas := thread_semas t (semas st), all_list := all_list st @ [t]\<rparr>"
  have i: "init_thread t nm prio (st\<lparr>mmu := (mmu st)\<lparr>km := k1\<rparr>\<rparr>) = Some s1"
    using prio g1(2) by (simp add: init_thread_def s1_def thread_semas_def Let_def)
  have cur: "thread_current s1 = Some (running st)"
    using run(5) fresh(2) by (auto simp: thread_current_Some s1_def is_thread_def stat_of_def)
  have al: "allocate_tid s1 = Some (s1\<lparr>next_tid := next_tid s1 + 1\<rparr>, next_tid s1)"
    by (rule allocate_tid_eq [OF _ _ cur run(3)])
      (use tid_free [OF sys_invD(1) [OF inv]] k(5) in \<open>simp_all add: s1_def thread_semas_def\<close>)
  define s3 where "s3 = st\<lparr>mmu := (mmu st)\<lparr>km := k2\<rparr>, thr := (thr st)(t \<mapsto> ?th),
     semas := thread_semas t (semas st), all_list := all_list st @ [t], next_tid := next_tid st + 1\<rparr>"
  have cur3: "thread_current s3 = Some (running st)"
    using run(5) fresh(2) by (auto simp: thread_current_Some s3_def is_thread_def stat_of_def)
  have s3: "(upd_thr t (\<lambda>th. th\<lparr>tid := next_tid s1\<rparr>) (s1\<lparr>next_tid := next_tid s1 + 1\<rparr>))\<lparr>mmu := (mmu s1)\<lparr>km := k2\<rparr>\<rparr> = s3"
    by (simp add: upd_thr_def s1_def s3_def)
  have "thread_launch t fds f aux s3 = Some (s3\<lparr>
      thr := (thr s3)(running st \<mapsto> mth\<lparr>child_list := child_list mth @ [t]\<rparr>,
        t \<mapsto> ?th\<lparr>next_fd := 2, fd_table := fds - 8, stack := slot t 1013, status := THREAD_READY\<rparr>),
      mmu := first_frames t f aux s3, pc := (pc s3)(t := Fresh), ready_list := ready_list s3 @ [t]\<rparr>)"
    by (rule thread_launch_eq) (use g1(2) cur3 me fresh(2) in \<open>simp_all add: s3_def\<close>)
  moreover have "first_frames t f aux s3 = first_frames t f aux (st\<lparr>mmu := (mmu st)\<lparr>km := k2\<rparr>\<rparr>)"
    by (simp add: first_frames_def s3_def)
  moreover have "thread_setup t nm prio f aux (st\<lparr>mmu := (mmu st)\<lparr>km := k1\<rparr>\<rparr>) =
      thread_launch t fds f aux s3 \<bind> (\<lambda>st'. Some (st', next_tid st))"
  proof -
    have "palloc_get_multiple (running s1) (km (mmu s1)) PAL_ZERO 2 = Some (k2, fds)" "next_tid s1 = next_tid st"
      using g2(1) by (simp_all add: s1_def)
    then show ?thesis using g2(2) s3 by (simp add: thread_setup_def i al Let_def)
  qed
  ultimately show ?thesis using f g1 by (simp add: thread_create_def s3_def)
qed


section \<open>Small systems\<close>

text \<open>A machine as \<open>thread_init\<close> finds it, with the pools of \<open>small_vm\<close>.\<close>

definition demo_cold :: ksys where
  "demo_cold = \<lparr>thr = Map.empty, ready_list = [], all_list = [], running = 0, idle_thread = 0, initial_thread = 0,
     semas = (\<lambda>s. sema_init 1), lock_holder = (\<lambda>_. 0), cond_waiters = (\<lambda>_. []), next_tid = 1, thread_ticks = 0,
     idle_ticks = 0, user_ticks = 0, kernel_ticks = 0, intr_on = False, in_intr = False, yield_on_return = False,
     unexpected_cnt = (\<lambda>_. 0), pc = (\<lambda>_. Normal), mmu = small_vm, kernel_thread_ip = 0xc0020000,
     switch_entry_ip = 0xc0021000, tss_page = 0xc0006000\<rparr>"

definition demo_main :: thread where
  "demo_main = \<lparr>tid = 1, status = THREAD_RUNNING, tname = [109], stack = 0xc000f000, priority = 31,
     exit_status = 0, child_list = [], pagedir = 0, load_succeeded = False, next_fd = 0, fd_table = 0,
     magic = THREAD_MAGIC\<rparr>"

text \<open>After \<open>thread_init\<close>: the main thread runs, on the page 0xc000e000.\<close>

definition demo_boot :: ksys where
  "demo_boot = demo_cold\<lparr>thr := [0xc000e000 \<mapsto> demo_main], all_list := [0xc000e000], running := 0xc000e000,
     initial_thread := 0xc000e000, next_tid := 2,
     semas := thread_semas 0xc000e000 (\<lambda>s. sema_init 1)\<rparr>"

lemma running_thread_demo: "running_thread 0xc000efff = 0xc000e000"
  by (simp add: running_thread_def pg_round_down_def PGMASK_def BITMASK_def PGBITS_def)

lemma small_vm_cold: "kmem_inv (km small_vm)" "unat (0xc000e000 :: u32) \<notin> arena (km small_vm)"
proof -
  show "kmem_inv (km small_vm)" using small_kmem_inv by (simp add: small_vm_def)
  show "unat (0xc000e000 :: u32) \<notin> arena (km small_vm)"
    by (simp add: small_vm_def arena_def pool_bytes_def small_kmem_def small_pool_def)
qed

lemma demo_cold_ok: "cold 0xc000efff demo_cold"
  unfolding cold_def running_thread_demo
  using small_vm_cold by (simp add: demo_cold_def sema_init_def)

lemma demo_boot_eq: "thread_init 0xc000efff [109] demo_cold = Some demo_boot"
proof -
  define t where "t = (0xc000e000 :: u32)"
  define s1 where "s1 = demo_cold\<lparr>initial_thread := t, running := t, thr := [t \<mapsto> demo_main\<lparr>tid := 0\<rparr>],
    semas := thread_semas t (\<lambda>s. sema_init 1), all_list := [t]\<rparr>"
  have cur: "thread_current s1 = Some t"
    by (simp add: thread_current_Some s1_def is_thread_def stat_of_def demo_main_def) (simp add: t_def)
  have "allocate_tid s1 = Some (s1\<lparr>next_tid := next_tid s1 + 1\<rparr>, next_tid s1)"
    by (rule allocate_tid_eq [OF _ _ cur]) (simp_all add: s1_def thread_semas_def demo_cold_def, simp add: t_def)
  moreover have "thread_init 0xc000efff [109] demo_cold = do { (st, new) \<leftarrow> allocate_tid s1;
      Some (upd_thr t (\<lambda>th. th\<lparr>tid := new\<rparr>) st) }"
  proof -
    have "(\<lambda>_. 0)(tid_lock := 0) = (\<lambda>_. 0 :: u32)" "(\<lambda>s. sema_init 1)(LockSema tid_lock := sema_init 1) = (\<lambda>s. sema_init 1)"
      by (simp_all add: fun_eq_iff)
    then have "init_thread t [109] PRI_DEFAULT (demo_cold\<lparr>lock_holder := (\<lambda>_. 0)(tid_lock := 0),
        semas := (\<lambda>s. sema_init 1)(LockSema tid_lock := sema_init 1), ready_list := [], all_list := [],
        initial_thread := t, running := t\<rparr>) = Some (s1\<lparr>thr := [t \<mapsto> demo_main\<lparr>tid := 0, status := THREAD_BLOCKED\<rparr>]\<rparr>)"
      by (simp add: init_thread_def s1_def demo_cold_def demo_main_def thread_semas_def PRI_DEFAULT_def PRI_MIN_def PRI_MAX_def Let_def)
        (simp add: t_def)
    moreover have "set_status t THREAD_RUNNING (s1\<lparr>thr := [t \<mapsto> demo_main\<lparr>tid := 0, status := THREAD_BLOCKED\<rparr>]\<rparr>) = s1"
      by (simp add: set_status_def upd_thr_def s1_def demo_cold_def demo_main_def)
    moreover have "lock_holder demo_cold = (\<lambda>_. 0)" "semas demo_cold = (\<lambda>s. sema_init 1)" "\<not> intr_on demo_cold"
      by (simp_all add: demo_cold_def)
    ultimately show ?thesis
      by (simp add: thread_init_def running_thread_demo t_def [symmetric] lock_init_def Let_def)
  qed
  ultimately show ?thesis
    by (simp add: upd_thr_def s1_def demo_boot_def demo_cold_def demo_main_def) (simp add: t_def)
qed

lemma demo_boot_reachable: "reachable demo_boot"
  unfolding reachable_def using demo_cold_ok demo_boot_eq by blast
text \<open>After the main thread has acquired lock 7.\<close>

definition demo_held :: ksys where
  "demo_held = demo_boot\<lparr>semas := (semas demo_boot)(LockSema 7 := sema_init 0), lock_holder := (\<lambda>_. 0)(7 := 0xc000e000)\<rparr>"

lemma app_demo_boot: "app demo_boot"
  by (simp add: app_def demo_boot_def demo_cold_def)

lemma demo_boot_current: "thread_current demo_boot = Some 0xc000e000"
  by (simp add: thread_current_Some demo_boot_def is_thread_def stat_of_def demo_main_def)

lemma demo_held_reachable: "reachable demo_held"
proof -
  let ?q = "(semas demo_boot)(LockSema 7 := sema_init 0)"
  define s1 where "s1 = demo_boot\<lparr>semas := ?q, pc := (\<lambda>_. Normal)(0xc000e000 := Then (Hold 7))\<rparr>"
  have v: "semas demo_boot (LockSema 7) = sema_init 1" by (simp add: demo_boot_def thread_semas_def)
  have b: "\<not> in_intr demo_boot" "\<not> intr_on demo_boot" "lock_holder demo_boot = (\<lambda>_. 0)" "running demo_boot = 0xc000e000"
    "pc demo_boot = (\<lambda>_. Normal)"
    by (simp_all add: demo_boot_def demo_cold_def)
  have "lock_acquire 7 demo_boot = Some s1"
    using v b by (simp add: lock_acquire_def demo_boot_current sema_down_then_def down_loop_def sema_take_def sema_init_def
        set_pc_def s1_def Let_def)
  then have 1: "step demo_boot s1" by (intro step.acquire [OF app_demo_boot]) (auto simp: tid_lock_def)
  have c1: "thread_current s1 = Some 0xc000e000"
    using demo_boot_current by (simp add: thread_current_Some s1_def is_thread_def stat_of_def)
  have s1: "running s1 = 0xc000e000" "pc s1 0xc000e000 = Then (Hold 7)" "\<not> in_intr s1" "lock_holder s1 = (\<lambda>_. 0)"
    using b by (simp_all add: s1_def)
  have "(pc s1)(0xc000e000 := Normal) = pc demo_boot" by (simp add: s1_def b(5) fun_eq_iff)
  then have "set_pc 0xc000e000 Normal (s1\<lparr>lock_holder := (\<lambda>_. 0)(7 := 0xc000e000)\<rparr>) = demo_held"
    by (simp add: s1_def set_pc_def demo_held_def)
  then have "resume s1 = Some demo_held"
    using s1 c1 by (simp add: resume_def finish_def set_holder_def)
  then have "step s1 demo_held" by (intro step.go_on s1(3))
  then have "step\<^sup>*\<^sup>* demo_boot demo_held" using 1 by (meson rtranclp.simps)
  then show ?thesis unfolding reachable_def using demo_cold_ok demo_boot_eq by blast
qed


theorem lock_mutual_exclusion_witness:
  "reachable demo_held \<and> owns demo_held 7 0xc000e000 \<and> \<not> owns demo_held 7 0xc0101000 \<and>
     sema_value (semas demo_held (LockSema 7)) = 0"
proof -
  have o: "owns demo_held 7 0xc000e000" by (simp add: owns_def demo_held_def)
  note m = lock_mutual_exclusion [OF demo_held_reachable, of 7]
  have "owns demo_held 7 0xc0101000 \<Longrightarrow> (0xc000e000 :: u32) = 0xc0101000" using m o by blast
  then show ?thesis using m o demo_held_reachable by auto
qed

theorem no_lost_wakeup_witness:
  "reachable demo_held \<and> waiters (semas demo_held (LockSema 7)) = []"
  using no_lost_wakeup [OF demo_held_reachable, of "LockSema 7"] demo_held_reachable
  by (simp add: demo_held_def sema_init_def)

theorem sema_up_total_witness:
  "\<exists>st'. sema_up (Sema 5) demo_boot = Some st' \<and> sema_value (semas st' (Sema 5)) = 2"
  using sema_up_total [OF demo_boot_reachable, of "Sema 5"] by (auto simp: demo_boot_def thread_semas_def sema_init_def)

text \<open>The main thread creates a second thread.\<close>

lemma small_scan:
  "scan_pool FIRSTFIT 0 (small_pool b) 1 = Some (1, \<lparr>bit_cnt = 4, bits = [3]\<rparr>, 0)"
  "scan_pool FIRSTFIT 0 ((small_pool b)\<lparr>used_map := \<lparr>bit_cnt = 4, bits = [3]\<rparr>\<rparr>) 2 = Some (2, \<lparr>bit_cnt = 4, bits = [15]\<rparr>, 0)"
  by code_simp+

lemma demo_pages:
  "\<exists>k1 k2. palloc_get_page 0xc000e000 (km small_vm) PAL_ZERO = Some (k1, 0xc0102000) \<and>
     palloc_get_multiple 0xc000e000 k1 PAL_ZERO 2 = Some (k2, 0xc0103000)"
proof -
  have fl: "flag PAL_ZERO PAL_ZERO" "\<not> flag PAL_ZERO PAL_USER" by (simp_all add: flag_def PAL_ZERO_def PAL_USER_def)
  have lk: "lock_enter 0xc000e000 lock_init = Some \<lparr>holder = 0xc000e000, lock_sema = sema_init 0\<rparr>"
    by (simp add: lock_enter_free)
  have sp: "pool_lock (small_pool b) = lock_init" "base (small_pool b) = b" for b by (simp_all add: small_pool_def)
  define p1 where "p1 = (small_pool 0xc0101000)\<lparr>used_map := \<lparr>bit_cnt = 4, bits = [3]\<rparr>\<rparr>"
  define k1 where "k1 = (small_kmem FIRSTFIT)\<lparr>kernel_pool := p1, mem := fill 4096 (\<lambda>_. 0) 0xc0102000 0\<rparr>"
  have "palloc_get_page 0xc000e000 (km small_vm) PAL_ZERO = Some (k1, 0xc0102000)"
    using lk small_scan(1) [of "0xc0101000"]
    by (simp add: palloc_get_page_def palloc_get_multiple_def small_vm_def small_kmem_def get_pool_def set_pool_def fl
        lock_leave_held memset_def BITMAP_ERROR_def k1_def p1_def sp Let_def; simp add: small_pool_def)
  moreover have "\<exists>k2. palloc_get_multiple 0xc000e000 k1 PAL_ZERO 2 = Some (k2, 0xc0103000)"
    using lk small_scan(2) [of "0xc0101000"]
    by (simp add: palloc_get_multiple_def small_kmem_def get_pool_def set_pool_def fl
        lock_leave_held memset_def BITMAP_ERROR_def k1_def p1_def sp Let_def; simp add: small_pool_def)
  ultimately show ?thesis by blast
qed
lemma demo_boot_simps:
  "running demo_boot = 0xc000e000" "mmu demo_boot = small_vm" "next_tid demo_boot = 2" "ready_list demo_boot = []"
  "idle_thread demo_boot = 0" "pc demo_boot = (\<lambda>_. Normal)" "\<not> in_intr demo_boot" "tss_page demo_boot = 0xc0006000"
  "thr demo_boot = [0xc000e000 \<mapsto> demo_main]"
  by (simp_all add: demo_boot_def demo_cold_def)



end
