(* ===== verification/Descriptors.thy ===== *)
theory Descriptors
  imports Prelude
begin

text \<open>
  The processor's descriptor tables: the segment descriptors of
  \<open>userprog/gdt.c\<close>, and the interrupt gates, the handler registration and the
  programming of the interrupt controllers of \<open>threads/interrupt.c\<close>, with the
  exceptions that \<open>userprog/exception.c\<close> registers. A handler is a value of a
  type parameter (the address of a function); the addresses of the assembly stubs
  \<open>intr_stubs\<close>, which the linker chooses, are an argument.
\<close>

unbundle bit_operations_syntax

section \<open>Segment descriptors\<close>

datatype seg_class = CLS_SYSTEM | CLS_CODE_DATA

datatype seg_granularity = GRAN_BYTE | GRAN_PAGE

definition SEL_NULL :: u32 where "SEL_NULL = 0x00"
definition SEL_KCSEG :: u32 where "SEL_KCSEG = 0x08"
definition SEL_KDSEG :: u32 where "SEL_KDSEG = 0x10"
definition SEL_UCSEG :: u32 where "SEL_UCSEG = 0x1B"
definition SEL_UDSEG :: u32 where "SEL_UDSEG = 0x23"
definition SEL_TSS :: u32 where "SEL_TSS = 0x28"
definition SEL_CNT :: nat where "SEL_CNT = 6"

lemmas sel_defs = SEL_NULL_def SEL_KCSEG_def SEL_KDSEG_def SEL_UCSEG_def SEL_UDSEG_def SEL_TSS_def
  SEL_CNT_def

definition class_bit :: "seg_class \<Rightarrow> u32" where
  "class_bit c = (case c of CLS_SYSTEM \<Rightarrow> 0 | CLS_CODE_DATA \<Rightarrow> 1)"

definition gran_bit :: "seg_granularity \<Rightarrow> u32" where
  "gran_bit g = (case g of GRAN_BYTE \<Rightarrow> 0 | GRAN_PAGE \<Rightarrow> 1)"

definition make_seg_desc ::
  "u32 \<Rightarrow> u32 \<Rightarrow> seg_class \<Rightarrow> int \<Rightarrow> int \<Rightarrow> seg_granularity \<Rightarrow> u64 option" where
  "make_seg_desc base limit cls ty dpl gran = do {
     ASSERT (limit \<le> 0xfffff);
     ASSERT (0 \<le> ty \<and> ty \<le> 15);
     ASSERT (0 \<le> dpl \<and> dpl \<le> 3);
     let e0 = (limit AND 0xffff) OR push_bit 16 base;
     let e1 = (drop_bit 16 base AND 0xff) OR push_bit 8 (word_of_int ty) OR
              push_bit 12 (class_bit cls) OR push_bit 13 (word_of_int dpl) OR
              push_bit 15 1 OR (limit AND 0xf0000) OR push_bit 22 1 OR
              push_bit 23 (gran_bit gran) OR (base AND 0xff000000);
     Some (ucast e0 OR push_bit 32 (ucast e1)) }"

definition make_code_desc :: "int \<Rightarrow> u64 option" where
  "make_code_desc dpl = make_seg_desc 0 0xfffff CLS_CODE_DATA 10 dpl GRAN_PAGE"

definition make_data_desc :: "int \<Rightarrow> u64 option" where
  "make_data_desc dpl = make_seg_desc 0 0xfffff CLS_CODE_DATA 2 dpl GRAN_PAGE"

definition make_tss_desc :: "u32 \<Rightarrow> u64 option" where
  "make_tss_desc laddr = make_seg_desc laddr 0x67 CLS_SYSTEM 9 0 GRAN_BYTE"

definition make_gdtr_operand :: "u16 \<Rightarrow> u32 \<Rightarrow> u64" where
  "make_gdtr_operand limit base = ucast limit OR push_bit 16 (ucast base)"

text \<open>
  \<open>tss_get\<close> asserts that the task state segment exists. \<open>gdt_init\<close> fills the
  table and returns it with the operands of \<open>lgdt\<close> and \<open>ltr\<close>; \<open>gdt_addr\<close> is the
  address of the table.
\<close>

definition tss_get :: "u32 \<Rightarrow> u32 option" where
  "tss_get tss = do { ASSERT (tss \<noteq> 0); Some tss }"

definition gdt_init :: "u32 \<Rightarrow> u32 \<Rightarrow> u64 list \<Rightarrow> (u64 list \<times> u64 \<times> u32) option" where
  "gdt_init gdt_addr tss gdt = do {
     let ix = (\<lambda>sel :: u32. unat sel div 8);
     let gdt = gdt[ix SEL_NULL := 0];
     d \<leftarrow> make_code_desc 0;
     let gdt = gdt[ix SEL_KCSEG := d];
     d \<leftarrow> make_data_desc 0;
     let gdt = gdt[ix SEL_KDSEG := d];
     d \<leftarrow> make_code_desc 3;
     let gdt = gdt[ix SEL_UCSEG := d];
     d \<leftarrow> make_data_desc 3;
     let gdt = gdt[ix SEL_UDSEG := d];
     laddr \<leftarrow> tss_get tss;
     d \<leftarrow> make_tss_desc laddr;
     let gdt = gdt[ix SEL_TSS := d];
     Some (gdt, make_gdtr_operand (word_of_nat (8 * SEL_CNT - 1)) gdt_addr, SEL_TSS) }"

section \<open>Interrupt gates\<close>

definition make_gate :: "u32 \<Rightarrow> int \<Rightarrow> int \<Rightarrow> u64 option" where
  "make_gate func dpl ty = do {
     ASSERT (func \<noteq> 0);
     ASSERT (0 \<le> dpl \<and> dpl \<le> 3);
     ASSERT (0 \<le> ty \<and> ty \<le> 15);
     let e0 = (func AND 0xffff) OR push_bit 16 SEL_KCSEG;
     let e1 = (func AND 0xffff0000) OR push_bit 15 1 OR push_bit 13 (word_of_int dpl) OR
              push_bit 12 0 OR push_bit 8 (word_of_int ty);
     Some (ucast e0 OR push_bit 32 (ucast (e1 :: u32))) }"

definition make_intr_gate :: "u32 \<Rightarrow> int \<Rightarrow> u64 option" where
  "make_intr_gate func dpl = make_gate func dpl 14"

definition make_trap_gate :: "u32 \<Rightarrow> int \<Rightarrow> u64 option" where
  "make_trap_gate func dpl = make_gate func dpl 15"

definition make_idtr_operand :: "u16 \<Rightarrow> u32 \<Rightarrow> u64" where
  "make_idtr_operand limit base = ucast limit OR push_bit 16 (ucast base)"

section \<open>The interrupt tables\<close>

text \<open>
  The static tables of \<open>threads/interrupt.c\<close>; \<open>out\<close> is the sequence of port
  writes, latest last.
\<close>

record 'h itab =
  idt :: "u8 \<Rightarrow> u64"
  intr_handlers :: "u8 \<Rightarrow> 'h option"
  intr_names :: "u8 \<Rightarrow> string"
  idtr :: u64
  out :: "(u16 \<times> u8) list"

definition outb :: "u16 \<Rightarrow> u8 \<Rightarrow> 'h itab \<Rightarrow> 'h itab" where
  "outb port data s = s\<lparr>out := out s @ [(port, data)]\<rparr>"

definition INTR_CNT :: nat where "INTR_CNT = 256"
definition PIC0_CTRL :: u16 where "PIC0_CTRL = 0x20"
definition PIC0_DATA :: u16 where "PIC0_DATA = 0x21"
definition PIC1_CTRL :: u16 where "PIC1_CTRL = 0xa0"
definition PIC1_DATA :: u16 where "PIC1_DATA = 0xa1"

lemmas pic_defs = PIC0_CTRL_def PIC0_DATA_def PIC1_CTRL_def PIC1_DATA_def

definition pic_init :: "'h itab \<Rightarrow> 'h itab" where
  "pic_init s =
     (let s = outb PIC0_DATA 0xff s; s = outb PIC1_DATA 0xff s;
          s = outb PIC0_CTRL 0x11 s; s = outb PIC0_DATA 0x20 s;
          s = outb PIC0_DATA 0x04 s; s = outb PIC0_DATA 0x01 s;
          s = outb PIC1_CTRL 0x11 s; s = outb PIC1_DATA 0x28 s;
          s = outb PIC1_DATA 0x02 s; s = outb PIC1_DATA 0x01 s;
          s = outb PIC0_DATA 0x00 s
      in outb PIC1_DATA 0x00 s)"

definition pic_end_of_interrupt :: "int \<Rightarrow> 'h itab \<Rightarrow> 'h itab option" where
  "pic_end_of_interrupt irq s = do {
     ASSERT (0x20 \<le> irq \<and> irq < 0x30);
     let s = outb 0x20 0x20 s;
     Some (if 0x28 \<le> irq then outb 0xa0 0x20 s else s) }"

definition exception_names :: "(u8 \<times> string) list" where
  "exception_names =
    [(0, ''#DE Divide Error''), (1, ''#DB Debug Exception''), (2, ''NMI Interrupt''),
     (3, ''#BP Breakpoint Exception''), (4, ''#OF Overflow Exception''),
     (5, ''#BR BOUND Range Exceeded Exception''), (6, ''#UD Invalid Opcode Exception''),
     (7, ''#NM Device Not Available Exception''), (8, ''#DF Double Fault Exception''),
     (9, ''Coprocessor Segment Overrun''), (10, ''#TS Invalid TSS Exception''),
     (11, ''#NP Segment Not Present''), (12, ''#SS Stack Fault Exception''),
     (13, ''#GP General Protection Exception''), (14, ''#PF Page-Fault Exception''),
     (16, ''#MF x87 FPU Floating-Point Error''), (17, ''#AC Alignment Check Exception''),
     (18, ''#MC Machine-Check Exception''), (19, ''#XF SIMD Floating-Point Exception'')]"

definition intr_init :: "(u8 \<Rightarrow> u32) \<Rightarrow> u32 \<Rightarrow> 'h itab \<Rightarrow> 'h itab option" where
  "intr_init stubs idt_addr s = do {
     let s = pic_init s;
     s \<leftarrow> foldM (\<lambda>i s. do {
            g \<leftarrow> make_intr_gate (stubs (word_of_nat i)) 0;
            Some (s\<lparr>idt := (idt s)(word_of_nat i := g)\<rparr>) }) [0..<INTR_CNT] s;
     let s = s\<lparr>idtr := make_idtr_operand (word_of_nat (8 * INTR_CNT - 1)) idt_addr\<rparr>;
     let s = s\<lparr>intr_names := (\<lambda>_. ''unknown'')\<rparr>;
     Some (fold (\<lambda>(v, name) s. s\<lparr>intr_names := (intr_names s)(v := name)\<rparr>) exception_names s) }"

text \<open>The level of a gate: \<open>True\<close> is \<open>INTR_ON\<close>.\<close>

definition register_handler ::
  "(u8 \<Rightarrow> u32) \<Rightarrow> u8 \<Rightarrow> int \<Rightarrow> bool \<Rightarrow> 'h \<Rightarrow> string \<Rightarrow> 'h itab \<Rightarrow> 'h itab option" where
  "register_handler stubs vec_no dpl level handler name s = do {
     ASSERT (intr_handlers s vec_no = None);
     g \<leftarrow> (if level then make_trap_gate (stubs vec_no) dpl
            else make_intr_gate (stubs vec_no) dpl);
     Some (s\<lparr>idt := (idt s)(vec_no := g),
             intr_handlers := (intr_handlers s)(vec_no \<mapsto> handler),
             intr_names := (intr_names s)(vec_no := name)\<rparr>) }"

definition intr_register_ext ::
  "(u8 \<Rightarrow> u32) \<Rightarrow> u8 \<Rightarrow> 'h \<Rightarrow> string \<Rightarrow> 'h itab \<Rightarrow> 'h itab option" where
  "intr_register_ext stubs vec_no handler name s = do {
     ASSERT (0x20 \<le> vec_no \<and> vec_no \<le> 0x2f);
     register_handler stubs vec_no 0 False handler name s }"

definition intr_register_int ::
  "(u8 \<Rightarrow> u32) \<Rightarrow> u8 \<Rightarrow> int \<Rightarrow> bool \<Rightarrow> 'h \<Rightarrow> string \<Rightarrow> 'h itab \<Rightarrow> 'h itab option" where
  "intr_register_int stubs vec_no dpl level handler name s = do {
     ASSERT (vec_no < 0x20 \<or> 0x2f < vec_no);
     register_handler stubs vec_no dpl level handler name s }"

definition intr_name :: "u8 \<Rightarrow> 'h itab \<Rightarrow> string" where
  "intr_name vec s = intr_names s vec"

section \<open>Who registers what\<close>

text \<open>
  The handlers the kernel registers, in the order of \<open>threads/init.c\<close>:
  \<open>timer_init\<close> and \<open>kbd_init\<close>, \<open>exception_init\<close>, \<open>syscall_init\<close>, and after
  \<open>thread_start\<close> \<open>serial_init_queue\<close> and \<open>ide_init\<close> (both IDE channels).
\<close>

datatype handler = Timer_Interrupt | Keyboard_Interrupt | Kill | Page_Fault | Syscall_Handler
  | Serial_Interrupt | Ide_Interrupt

definition exception_init :: "(u8 \<Rightarrow> u32) \<Rightarrow> handler itab \<Rightarrow> handler itab option" where
  "exception_init stubs s = do {
     s \<leftarrow> intr_register_int stubs 3 3 True Kill ''#BP Breakpoint Exception'' s;
     s \<leftarrow> intr_register_int stubs 4 3 True Kill ''#OF Overflow Exception'' s;
     s \<leftarrow> intr_register_int stubs 5 3 True Kill ''#BR BOUND Range Exceeded Exception'' s;
     s \<leftarrow> intr_register_int stubs 0 0 True Kill ''#DE Divide Error'' s;
     s \<leftarrow> intr_register_int stubs 1 0 True Kill ''#DB Debug Exception'' s;
     s \<leftarrow> intr_register_int stubs 6 0 True Kill ''#UD Invalid Opcode Exception'' s;
     s \<leftarrow> intr_register_int stubs 7 0 True Kill ''#NM Device Not Available Exception'' s;
     s \<leftarrow> intr_register_int stubs 11 0 True Kill ''#NP Segment Not Present'' s;
     s \<leftarrow> intr_register_int stubs 12 0 True Kill ''#SS Stack Fault Exception'' s;
     s \<leftarrow> intr_register_int stubs 13 0 True Kill ''#GP General Protection Exception'' s;
     s \<leftarrow> intr_register_int stubs 16 0 True Kill ''#MF x87 FPU Floating-Point Error'' s;
     s \<leftarrow> intr_register_int stubs 19 0 True Kill ''#XF SIMD Floating-Point Exception'' s;
     intr_register_int stubs 14 0 False Page_Fault ''#PF Page-Fault Exception'' s }"

section \<open>Reading the descriptors\<close>

text \<open>The processor's reading of a gate: entry point, privilege level, type, present bit.\<close>

definition gate_offset :: "u64 \<Rightarrow> u32" where
  "gate_offset g = (ucast g AND 0xffff) OR (ucast (drop_bit 32 g) AND 0xffff0000)"

definition gate_selector :: "u64 \<Rightarrow> u16" where
  "gate_selector g = ucast (drop_bit 16 g)"

definition gate_dpl :: "u64 \<Rightarrow> nat" where
  "gate_dpl g = unat (take_bit 2 (drop_bit 45 g))"

definition gate_type :: "u64 \<Rightarrow> nat" where
  "gate_type g = unat (take_bit 4 (drop_bit 40 g))"

definition seg_base :: "u64 \<Rightarrow> u32" where
  "seg_base d = ucast (take_bit 24 (drop_bit 16 d)) OR push_bit 24 (ucast (take_bit 8 (drop_bit 56 d)))"

definition seg_limit :: "u64 \<Rightarrow> u32" where
  "seg_limit d = ucast (take_bit 16 d) OR push_bit 16 (ucast (take_bit 4 (drop_bit 48 d)))"

lemmas reading_defs = gate_offset_def gate_selector_def gate_dpl_def gate_type_def seg_base_def
  seg_limit_def

lemma masks:
  "(0xffff :: u32) = mask 16" "(0xffff0000 :: u32) = push_bit 16 (mask 16)" "(0xff :: u32) = mask 8"
  "(0xf0000 :: u32) = push_bit 16 (mask 4)" "(0xff000000 :: u32) = push_bit 24 (mask 8)"
  by (simp_all add: mask_eq_exp_minus_1 push_bit_eq_mult)

lemma small_int_bit:
  fixes i :: int
  assumes "0 \<le> i" and "i < 2 ^ k" and "k \<le> n"
  shows "\<not> bit i n"
proof -
  have "i < 2 ^ n" using assms power_increasing [OF assms(3), of "2::int"] by linarith
  then show ?thesis using assms(1) by (simp add: bit_iff_odd div_pos_pos_trivial)
qed

lemma single_bits:
  "bit (524288 :: int) n \<longleftrightarrow> n = 19" "bit (32768 :: int) n \<longleftrightarrow> n = 15"
  "bit (4194304 :: int) n \<longleftrightarrow> n = 22" "bit (8 :: int) n \<longleftrightarrow> n = 3"
proof -
  have p: "(524288 :: int) = 2 ^ 19" "(32768 :: int) = 2 ^ 15" "(4194304 :: int) = 2 ^ 22"
    "(8 :: int) = 2 ^ 3" by simp_all
  show "bit (524288 :: int) n \<longleftrightarrow> n = 19" "bit (32768 :: int) n \<longleftrightarrow> n = 15"
    "bit (4194304 :: int) n \<longleftrightarrow> n = 22" "bit (8 :: int) n \<longleftrightarrow> n = 3"
    unfolding p by (simp_all only: bit_exp_iff possible_bit_int) auto
qed

lemma small_int_field:
  assumes "0 \<le> i" and "i < 2 ^ k" and "k \<le> 32"
    and "\<And>n. n < k \<Longrightarrow> bit (w :: u64) n = bit i n"
    and "\<And>n. k \<le> n \<Longrightarrow> \<not> bit w n"
  shows "unat w = nat i"
proof -
  have "w = ucast (word_of_int i :: u32)"
  proof (rule bit_word_eqI)
    fix n assume "n < LENGTH(64)"
    show "bit w n = bit (ucast (word_of_int i :: u32) :: u64) n"
      using assms small_int_bit [OF assms(1,2), of n] by (cases "n < k") (auto simp: bit_simps)
  qed
  moreover have "i < 2 ^ 32" using assms(2) power_increasing [OF assms(3), of "2::int"] by linarith
  then have "unat (word_of_int i :: u32) = nat i"
    using assms(1) by (simp add: unat_eq_nat_uint uint_word_of_int_eq take_bit_int_eq_self)
  moreover have "nat i < 2 ^ 64" using \<open>i < 2 ^ 32\<close> by simp
  ultimately show ?thesis by (simp add: unsigned_ucast_eq take_bit_nat_eq_self)
qed

lemma gate_reads:
  assumes g: "make_gate func dpl ty = Some g"
  shows "gate_offset g = func" and "gate_selector g = 8" and "gate_dpl g = nat dpl"
    and "gate_type g = nat ty" and "bit g 47"
proof -
  have d: "0 \<le> dpl" "dpl < 2 ^ 2" and t: "0 \<le> ty" "ty < 2 ^ 4"
    and eq: "g = ucast ((func AND 0xffff) OR push_bit 16 SEL_KCSEG) OR
      push_bit 32 (ucast (((func AND 0xffff0000) OR push_bit 15 1 OR push_bit 13 (word_of_int dpl) OR
         push_bit 12 0 OR push_bit 8 (word_of_int ty)) :: u32))"
    using g by (auto simp: make_gate_def Let_def)
  note sb = small_int_bit [OF d] small_int_bit [OF t]
  show "gate_offset g = func"
    unfolding eq reading_defs masks
    by (rule bit_word_eqI) (auto simp: bit_simps SEL_KCSEG_def single_bits sb)
  show "gate_selector g = 8"
    unfolding eq reading_defs masks
    by (rule bit_word_eqI) (auto simp: bit_simps SEL_KCSEG_def single_bits sb)
  show "gate_dpl g = nat dpl"
    unfolding gate_dpl_def
    by (rule small_int_field [OF d]) (use sb in \<open>auto simp: eq masks bit_simps SEL_KCSEG_def single_bits\<close>)
  show "gate_type g = nat ty"
    unfolding gate_type_def
    by (rule small_int_field [OF t]) (use sb in \<open>auto simp: eq masks bit_simps SEL_KCSEG_def single_bits\<close>)
  show "bit g 47"
    unfolding eq masks by (simp add: bit_simps)
qed

text \<open>Two words are equal if they agree bit for bit, one goal per bit.\<close>

lemma word_eqI_bits:
  fixes v w :: u32
  assumes "bit v 0 = bit w 0"
    and "bit v 1 = bit w 1"
    and "bit v 2 = bit w 2"
    and "bit v 3 = bit w 3"
    and "bit v 4 = bit w 4"
    and "bit v 5 = bit w 5"
    and "bit v 6 = bit w 6"
    and "bit v 7 = bit w 7"
    and "bit v 8 = bit w 8"
    and "bit v 9 = bit w 9"
    and "bit v 10 = bit w 10"
    and "bit v 11 = bit w 11"
    and "bit v 12 = bit w 12"
    and "bit v 13 = bit w 13"
    and "bit v 14 = bit w 14"
    and "bit v 15 = bit w 15"
    and "bit v 16 = bit w 16"
    and "bit v 17 = bit w 17"
    and "bit v 18 = bit w 18"
    and "bit v 19 = bit w 19"
    and "bit v 20 = bit w 20"
    and "bit v 21 = bit w 21"
    and "bit v 22 = bit w 22"
    and "bit v 23 = bit w 23"
    and "bit v 24 = bit w 24"
    and "bit v 25 = bit w 25"
    and "bit v 26 = bit w 26"
    and "bit v 27 = bit w 27"
    and "bit v 28 = bit w 28"
    and "bit v 29 = bit w 29"
    and "bit v 30 = bit w 30"
    and "bit v 31 = bit w 31"
  shows "v = w"
proof (rule bit_word_eqI)
  fix n assume "n < LENGTH(32)"
  then have "n \<in> {0, 1, 2, 3, 4, 5, 6, 7, 8, 9, 10, 11, 12, 13, 14, 15, 16, 17, 18, 19, 20, 21, 22, 23, 24, 25, 26, 27, 28, 29, 30, 31}" by simp arith
  then show "bit v n = bit w n" using assms by (elim insertE) simp_all
qed

lemma seg_reads:
  assumes g: "make_seg_desc base limit cls ty dpl gran = Some d"
  shows "seg_base d = base" and "seg_limit d = limit" and "gate_dpl d = nat dpl"
    and "gate_type d = nat ty" and "bit d 47" and "bit d 44 \<longleftrightarrow> cls = CLS_CODE_DATA"
    and "bit d 54" and "bit d 55 \<longleftrightarrow> gran = GRAN_PAGE"
proof -
  have l: "limit \<le> 0xfffff" and r: "0 \<le> dpl" "dpl < 2 ^ 2" and t: "0 \<le> ty" "ty < 2 ^ 4"
    and eq: "d = ucast ((limit AND 0xffff) OR push_bit 16 base) OR
      push_bit 32 (ucast (((drop_bit 16 base AND 0xff) OR push_bit 8 (word_of_int ty) OR
              push_bit 12 (class_bit cls) OR push_bit 13 (word_of_int dpl) OR
              push_bit 15 1 OR (limit AND 0xf0000) OR push_bit 22 1 OR
              push_bit 23 (gran_bit gran) OR (base AND 0xff000000)) :: u32))"
    using g by (auto simp: make_seg_desc_def Let_def)
  have "unat limit < 2 ^ 20" using l by (simp add: word_le_nat_alt)
  then have "take_bit 20 limit = limit" by (simp add: word_unat_eq_iff unsigned_take_bit_eq take_bit_nat_eq_self)
  then have lb: "\<not> bit limit n" if "20 \<le> n" for n
    using that by (metis bit_take_bit_iff linorder_not_less)
  have cb: "bit (class_bit cls) n \<longleftrightarrow> n = 0 \<and> cls = CLS_CODE_DATA" for n
    by (cases cls) (auto simp: class_bit_def bit_1_iff)
  have gb: "bit (gran_bit gran) n \<longleftrightarrow> n = 0 \<and> gran = GRAN_PAGE" for n
    by (cases gran) (auto simp: gran_bit_def bit_1_iff)
  note sb = small_int_bit [OF r] small_int_bit [OF t] lb cb gb single_bits
  show "seg_base d = base"
    unfolding eq reading_defs masks
    by (rule word_eqI_bits) (simp_all add: bit_simps sb)
  show "seg_limit d = limit"
    unfolding eq reading_defs masks
    by (rule word_eqI_bits) (simp_all add: bit_simps sb)
  show "gate_dpl d = nat dpl"
    unfolding gate_dpl_def
    by (rule small_int_field [OF r]) (use sb in \<open>auto simp: eq masks bit_simps\<close>)
  show "gate_type d = nat ty"
    unfolding gate_type_def
    by (rule small_int_field [OF t]) (use sb in \<open>auto simp: eq masks bit_simps\<close>)
  show "bit d 47" "bit d 44 \<longleftrightarrow> cls = CLS_CODE_DATA" "bit d 54" "bit d 55 \<longleftrightarrow> gran = GRAN_PAGE"
    using sb unfolding eq masks by (auto simp: bit_simps)
qed

text \<open>C28: \<open>gdt_init\<close> returns whenever the task state segment exists, and the
table it loads is what the privilege separation needs: the selectors \<open>SEL_UCSEG\<close>
and \<open>SEL_UDSEG\<close> name present flat 4 GB code and data segments of privilege level 3,
\<open>SEL_KCSEG\<close> and \<open>SEL_KDSEG\<close> the same at level 0, entry 0 is null, and \<open>SEL_TSS\<close>
is a system descriptor whose base is exactly the task state segment and whose limit
is its size less one.\<close>

theorem gdt_init_correct:
  assumes "length gdt = SEL_CNT" and "tss \<noteq> 0"
  shows "\<exists>gdt' op. gdt_init addr tss gdt = Some (gdt', op, SEL_TSS) \<and> length gdt' = SEL_CNT \<and>
    gdt' ! 0 = 0 \<and>
    (\<forall>(sel, ty, dpl) \<in> {(SEL_KCSEG, 10, 0), (SEL_KDSEG, 2, 0), (SEL_UCSEG, 10, 3), (SEL_UDSEG, 2, 3)}.
       let d = gdt' ! (unat sel div 8)
       in seg_base d = 0 \<and> seg_limit d = 0xfffff \<and> gate_type d = ty \<and> gate_dpl d = dpl \<and>
          bit d 44 \<and> bit d 47 \<and> bit d 55) \<and>
    (let d = gdt' ! (unat SEL_TSS div 8)
     in seg_base d = tss \<and> seg_limit d = 0x67 \<and> gate_type d = 9 \<and> gate_dpl d = 0 \<and>
        \<not> bit d 44 \<and> bit d 47 \<and> \<not> bit d 55)"
proof -
  have tot: "\<exists>d. make_seg_desc base limit cls ty dpl gran = Some d"
    if "limit \<le> 0xfffff" "0 \<le> ty" "ty \<le> 15" "0 \<le> dpl" "dpl \<le> 3" for base limit cls ty dpl gran
    using that by (simp add: make_seg_desc_def Let_def)
  obtain d1 where d1: "make_seg_desc 0 0xfffff CLS_CODE_DATA 10 0 GRAN_PAGE = Some d1"
    using tot by fastforce
  obtain d2 where d2: "make_seg_desc 0 0xfffff CLS_CODE_DATA 2 0 GRAN_PAGE = Some d2"
    using tot by fastforce
  obtain d3 where d3: "make_seg_desc 0 0xfffff CLS_CODE_DATA 10 3 GRAN_PAGE = Some d3"
    using tot by fastforce
  obtain d4 where d4: "make_seg_desc 0 0xfffff CLS_CODE_DATA 2 3 GRAN_PAGE = Some d4"
    using tot by fastforce
  obtain d5 where d5: "make_seg_desc tss 0x67 CLS_SYSTEM 9 0 GRAN_BYTE = Some d5"
    using tot [of "0x67" 9 0] by fastforce
  obtain a0 a1 a2 a3 a4 a5 where gdt: "gdt = [a0, a1, a2, a3, a4, a5]"
    using assms(1) by (auto simp: SEL_CNT_def length_Suc_conv numeral_eq_Suc)
  have "gdt_init addr tss gdt =
      Some ([0, d1, d2, d3, d4, d5], make_gdtr_operand (word_of_nat (8 * SEL_CNT - 1)) addr, SEL_TSS)"
    using assms(2) d1 d2 d3 d4 d5
    by (simp add: gdt_init_def gdt make_code_desc_def make_data_desc_def make_tss_desc_def tss_get_def
        sel_defs)
  then show ?thesis
    using seg_reads [OF d1] seg_reads [OF d2] seg_reads [OF d3] seg_reads [OF d4] seg_reads [OF d5]
    by (simp add: sel_defs)
qed

theorem gdt_init_correct_witness:
  "length (replicate SEL_CNT (7 :: u64)) = SEL_CNT \<and> (0xc0100000 :: u32) \<noteq> 0 \<and>
   (\<exists>gdt' op. gdt_init 0xc0020000 0xc0100000 (replicate SEL_CNT 7) = Some (gdt', op, SEL_TSS) \<and>
     seg_base (gdt' ! 5) = 0xc0100000 \<and> gdt' ! 0 = 0)"
proof -
  have "length (replicate SEL_CNT (7 :: u64)) = SEL_CNT" "(0xc0100000 :: u32) \<noteq> 0" by simp_all
  from gdt_init_correct [OF this, of "0xc0020000"] show ?thesis
    by (auto simp: Let_def SEL_TSS_def)
qed
section \<open>The interrupt table after boot\<close>

definition boot_handlers :: "(u8 \<Rightarrow> u32) \<Rightarrow> u32 \<Rightarrow> handler itab \<Rightarrow> handler itab option" where
  "boot_handlers stubs idt_addr s = do {
     s \<leftarrow> intr_init stubs idt_addr s;
     s \<leftarrow> intr_register_ext stubs 0x20 Timer_Interrupt ''8254 Timer'' s;
     s \<leftarrow> intr_register_ext stubs 0x21 Keyboard_Interrupt ''8042 Keyboard'' s;
     s \<leftarrow> exception_init stubs s;
     s \<leftarrow> intr_register_int stubs 0x30 3 True Syscall_Handler ''syscall'' s;
     s \<leftarrow> intr_register_ext stubs (0x20 + 4) Serial_Interrupt ''serial'' s;
     s \<leftarrow> intr_register_ext stubs (14 + 0x20) Ide_Interrupt ''ide0'' s;
     intr_register_ext stubs (15 + 0x20) Ide_Interrupt ''ide1'' s }"

text \<open>What the processor sees of the tables: privilege levels, types and handlers.\<close>

definition view :: "(u8 \<Rightarrow> u32) \<Rightarrow> 'h itab \<Rightarrow> (u8 \<Rightarrow> nat) \<Rightarrow> (u8 \<Rightarrow> nat) \<Rightarrow> (u8 \<Rightarrow> 'h option) \<Rightarrow> bool" where
  "view stubs s dpl ty h \<longleftrightarrow>
     (\<forall>v. gate_offset (idt s v) = stubs v \<and> gate_selector (idt s v) = 8 \<and> bit (idt s v) 47 \<and>
          gate_dpl (idt s v) = dpl v \<and> gate_type (idt s v) = ty v) \<and> intr_handlers s = h"

lemma make_gate_total:
  assumes "f \<noteq> 0" and "0 \<le> dpl" and "dpl \<le> 3" and "0 \<le> ty" and "ty \<le> 15"
  shows "\<exists>g. make_gate f dpl ty = Some g"
  using assms by (simp add: make_gate_def Let_def)

lemma register_handler_view:
  assumes v: "view stubs s D T H" and st: "stubs vec \<noteq> 0" and h: "H vec = None"
    and d: "0 \<le> dpl" "dpl \<le> 3"
  shows "\<exists>s'. register_handler stubs vec dpl level fn name s = Some s' \<and>
    view stubs s' (D(vec := nat dpl)) (T(vec := if level then 15 else 14)) (H(vec \<mapsto> fn))"
proof -
  obtain g where g: "make_gate (stubs vec) dpl (if level then 15 else 14) = Some g"
    using make_gate_total [OF st d, where ty = 15] make_gate_total [OF st d, where ty = 14] by (cases level) auto
  have "intr_handlers s vec = None" using v h by (simp add: view_def)
  then have "register_handler stubs vec dpl level fn name s =
      Some (s\<lparr>idt := (idt s)(vec := g), intr_handlers := (intr_handlers s)(vec \<mapsto> fn),
             intr_names := (intr_names s)(vec := name)\<rparr>)"
    using g by (cases level) (simp_all add: register_handler_def make_trap_gate_def make_intr_gate_def)
  then show ?thesis using v gate_reads [OF g] by (auto simp: view_def)
qed

text \<open>The two registrations as rules that run a program one call further.\<close>

lemma register_int_step:
  assumes "view stubs s D T H" and "\<And>v. stubs v \<noteq> 0" and "H vec = None" and "0 \<le> dpl" and "dpl \<le> 3"
    and "vec < 0x20 \<or> 0x2f < vec"
    and "\<And>s'. view stubs s' (D(vec := nat dpl)) (T(vec := if level then 15 else 14)) (H(vec \<mapsto> fn)) \<Longrightarrow>
      \<exists>r. k s' = Some r \<and> Q r"
  shows "\<exists>r. Option.bind (intr_register_int stubs vec dpl level fn name s) k = Some r \<and> Q r"
  using register_handler_view [OF assms(1,2,3,4,5), where level = level and fn = fn and name = name] assms(6,7)
  by (auto simp: intr_register_int_def)

lemma register_ext_step:
  assumes "view stubs s D T H" and "\<And>v. stubs v \<noteq> 0" and "H vec = None"
    and "0x20 \<le> vec \<and> vec \<le> 0x2f"
    and "\<And>s'. view stubs s' (D(vec := 0)) (T(vec := 14)) (H(vec \<mapsto> fn)) \<Longrightarrow> \<exists>r. k s' = Some r \<and> Q r"
  shows "\<exists>r. Option.bind (intr_register_ext stubs vec fn name s) k = Some r \<and> Q r"
  using register_handler_view [OF assms(1,2,3), where dpl = 0 and level = False and fn = fn and name = name] assms(4,5)
  by (auto simp: intr_register_ext_def)

lemma intr_init_view:
  assumes st: "\<And>v. stubs v \<noteq> 0"
  shows "\<exists>s'. intr_init stubs addr s = Some s' \<and> view stubs s' (\<lambda>_. 0) (\<lambda>_. 14) (intr_handlers s)"
proof -
  define ok where "ok = (\<lambda>g v. gate_offset g = stubs v \<and> gate_selector g = 8 \<and> bit g 47 \<and>
    gate_dpl g = 0 \<and> gate_type g = 14)"
  let ?b = "\<lambda>i (s :: 'a itab). do { g \<leftarrow> make_intr_gate (stubs (word_of_nat i)) 0;
    Some (s\<lparr>idt := (idt s)(word_of_nat i := g)\<rparr>) }"
  have "\<exists>s'. foldM ?b [0..<INTR_CNT] (pic_init s) = Some s' \<and>
      ((\<forall>v. unat v < INTR_CNT \<longrightarrow> ok (idt s' v) v) \<and> intr_handlers s' = intr_handlers s)"
  proof (rule foldM_upt)
    fix i :: nat and r :: "'a itab" assume i: "i < INTR_CNT"
      and r: "(\<forall>v. unat v < i \<longrightarrow> ok (idt r v) v) \<and> intr_handlers r = intr_handlers s"
    let ?v = "word_of_nat i :: u8"
    have ui: "unat ?v = i" using i by (simp add: INTR_CNT_def unat_of_nat take_bit_nat_eq_self)
    obtain g where g: "make_gate (stubs ?v) 0 14 = Some g" using make_gate_total [OF st [of ?v], where dpl = 0 and ty = 14] by auto
    have "ok g ?v" using gate_reads [OF g] by (simp add: ok_def)
    moreover have "v = ?v" if "unat v < Suc i" "\<not> unat v < i" for v
      using that ui by (simp add: word_unat_eq_iff)
    ultimately show "\<exists>s'. ?b i r = Some s' \<and>
        ((\<forall>v. unat v < Suc i \<longrightarrow> ok (idt s' v) v) \<and> intr_handlers s' = intr_handlers s)"
      using r g by (auto simp: make_intr_gate_def)
  qed (simp_all add: pic_init_def outb_def Let_def)
  then obtain s1 where s1: "foldM ?b [0..<INTR_CNT] (pic_init s) = Some s1"
    "\<And>v. ok (idt s1 v) v" "intr_handlers s1 = intr_handlers s"
    using unsigned_less [where 'b = 8] by (auto simp: INTR_CNT_def)
  have f: "idt (fold (\<lambda>(v, name) s. s\<lparr>intr_names := (intr_names s)(v := name)\<rparr>) l r) = idt r \<and>
    intr_handlers (fold (\<lambda>(v, name) s. s\<lparr>intr_names := (intr_names s)(v := name)\<rparr>) l r) = intr_handlers r"
    for l and r :: "'a itab"
    by (induction l arbitrary: r) auto
  show ?thesis using s1 f by (simp add: intr_init_def Let_def view_def ok_def)
qed

definition boot_table :: "(u8 \<Rightarrow> u32) \<Rightarrow> handler itab \<Rightarrow> bool" where
  "boot_table stubs s \<longleftrightarrow>
    (\<forall>v. gate_offset (idt s v) = stubs v \<and> gate_selector (idt s v) = 8 \<and> bit (idt s v) 47 \<and>
      (gate_dpl (idt s v) = 3 \<longleftrightarrow> v \<in> {3, 4, 5, 0x30}) \<and>
      (gate_dpl (idt s v) = 0 \<longleftrightarrow> v \<notin> {3, 4, 5, 0x30}) \<and>
      (0x20 \<le> v \<and> v \<le> 0x2f \<or> v = 14 \<longrightarrow> gate_type (idt s v) = 14)) \<and>
    intr_handlers s 0x30 = Some Syscall_Handler \<and> intr_handlers s 14 = Some Page_Fault"

lemma boot_tableI:
  assumes "view stubs s D T H" and "H 0x30 = Some Syscall_Handler" and "H 14 = Some Page_Fault"
    and "\<And>v. v \<in> {3, 4, 5, 0x30} \<Longrightarrow> D v = 3" and "\<And>v. v \<notin> {3, 4, 5, 0x30} \<Longrightarrow> D v = 0"
    and "\<And>v. 0x20 \<le> v \<and> v \<le> 0x2f \<Longrightarrow> T v = 14" and "T 14 = 14"
  shows "boot_table stubs s"
proof -
  have "(D v = 3 \<longleftrightarrow> v \<in> {3, 4, 5, 0x30}) \<and> (D v = 0 \<longleftrightarrow> v \<notin> {3, 4, 5, 0x30})" for v
    using assms(4,5) [of v] by (cases "v \<in> {3, 4, 5, 0x30}") simp_all
  then show ?thesis using assms(1-3,6,7) by (simp add: boot_table_def view_def)
qed

text \<open>C7: The interrupt table after boot. With every stub linked and no handler
registered before, the kernel's registrations never trip an assertion, every gate
leads to the stub of its vector in the kernel's code segment and is present. User
mode can raise by an \<open>int\<close> instruction exactly the vectors 3, 4 and 5 and the system
call vector 0x30; every vector of a device and the page fault enter with interrupts
turned off, and all sixteen device lines are delivered to vectors 0x20 to 0x2f.\<close>

theorem boot_handlers_correct:
  assumes st: "\<And>v. stubs v \<noteq> 0" and h: "intr_handlers s = (\<lambda>_. None)"
  shows "\<exists>s'. boot_handlers stubs addr s = Some s' \<and> boot_table stubs s'"
proof -
  obtain s0 where s0: "intr_init stubs addr s = Some s0" "view stubs s0 (\<lambda>_. 0) (\<lambda>_. 14) (\<lambda>_. None)"
    using intr_init_view [of stubs addr s] st h by auto
  have "\<exists>r. Option.bind (boot_handlers stubs addr s) Some = Some r \<and> boot_table stubs r"
    unfolding boot_handlers_def s0(1) exception_init_def Option.bind_assoc bind.bind_lunit
    apply (rule register_ext_step, rule s0(2), rule st, simp, simp)
    apply ((rule register_ext_step, assumption, rule st, simp (no_asm), simp (no_asm)) |
      (rule register_int_step, assumption, rule st, simp (no_asm), simp (no_asm), simp (no_asm),
        simp (no_asm)))+
    by ((rule exI, rule conjI, rule refl, rule boot_tableI, assumption);
      (thin_tac "view _ _ _ _ _")+; auto simp: word_le_nat_alt)
  then show ?thesis by simp
qed

theorem boot_handlers_correct_witness:
  "\<exists>s'. boot_handlers (\<lambda>v. 0xc0021001 + ucast v * 0x10) 0xc0020000
       \<lparr>idt = (\<lambda>_. 0), intr_handlers = (\<lambda>_. None), intr_names = (\<lambda>_. []), idtr = 0, out = []\<rparr> = Some s' \<and>
     gate_dpl (idt s' 0x30) = 3 \<and> gate_dpl (idt s' 14) = 0"
proof -
  let ?st = "\<lambda>v :: u8. 0xc0021001 + ucast v * 0x10 :: u32"
  have st: "?st v \<noteq> 0" for v
  proof
    assume "?st v = 0"
    then have "even (?st v)" by simp
    then show False by simp
  qed
  show ?thesis
    using boot_handlers_correct [of ?st "\<lparr>idt = (\<lambda>_. 0), intr_handlers = (\<lambda>_. None), intr_names = (\<lambda>_. []), idtr = 0, out = []\<rparr>"
        "0xc0020000"] st by (auto simp: boot_table_def)
qed

end
