(* ===== verification/Intq.thy ===== *)
theory Intq
  imports Sched_Demo "HOL-Library.Signed_Division" "HOL-Library.Multiset"
begin

text \<open>
  \<open>devices/intq.c\<close>: the circular byte queue that interrupt handlers and kernel
  threads share. Operations take the queue and the thread system and run with
  interrupts off. A call that finds the queue empty (or full) outside an
  interrupt handler must sleep: \<open>intq_getc\<close> and \<open>intq_putc\<close> then report this,
  and the caller goes through \<open>lock_acquire\<close> (theory \<open>Sched\<close>), \<open>intq_wait\<close> and
  \<open>lock_release\<close> and calls again, which is the loop of the source.
\<close>

definition INTQ_BUFSIZE :: int where "INTQ_BUFSIZE = 64"

record intq =
  qlock :: u32
  not_full :: tptr
  not_empty :: tptr
  buf :: "u8 list"
  head :: int
  tail :: int

datatype intq_cond = Not_Full | Not_Empty

section \<open>Operations\<close>

definition intq_init :: "intq \<Rightarrow> intq" where
  "intq_init q = q\<lparr>not_full := 0, not_empty := 0, head := 0, tail := 0\<rparr>"

definition intq_next :: "int \<Rightarrow> int" where
  "intq_next pos = (pos + 1) smod INTQ_BUFSIZE"

definition intq_empty :: "intq \<Rightarrow> ksys \<Rightarrow> bool option" where
  "intq_empty q ks = do { ASSERT (\<not> intr_on ks); Some (head q = tail q) }"

definition intq_full :: "intq \<Rightarrow> ksys \<Rightarrow> bool option" where
  "intq_full q ks = do { ASSERT (\<not> intr_on ks); Some (intq_next (head q) = tail q) }"

definition intq_wait :: "intq_cond \<Rightarrow> intq \<Rightarrow> ksys \<Rightarrow> (intq \<times> ksys) option" where
  "intq_wait c q ks = do {
     ASSERT (\<not> in_intr ks);
     ASSERT (\<not> intr_on ks);
     e \<leftarrow> intq_empty q ks;
     f \<leftarrow> intq_full q ks;
     ASSERT (c = Not_Empty \<and> e \<or> c = Not_Full \<and> f);
     t \<leftarrow> thread_current ks;
     ks \<leftarrow> thread_block Normal ks;
     Some (case c of Not_Empty \<Rightarrow> q\<lparr>not_empty := t\<rparr> | Not_Full \<Rightarrow> q\<lparr>not_full := t\<rparr>, ks) }"

definition intq_signal :: "intq_cond \<Rightarrow> intq \<Rightarrow> ksys \<Rightarrow> (intq \<times> ksys) option" where
  "intq_signal c q ks = do {
     ASSERT (\<not> intr_on ks);
     e \<leftarrow> intq_empty q ks;
     f \<leftarrow> intq_full q ks;
     ASSERT (c = Not_Empty \<and> \<not> e \<or> c = Not_Full \<and> \<not> f);
     let w = (case c of Not_Empty \<Rightarrow> not_empty q | Not_Full \<Rightarrow> not_full q);
     if w \<noteq> 0 then do {
       ks \<leftarrow> thread_unblock w ks;
       Some (case c of Not_Empty \<Rightarrow> q\<lparr>not_empty := 0\<rparr> | Not_Full \<Rightarrow> q\<lparr>not_full := 0\<rparr>, ks) }
     else Some (q, ks) }"

text \<open>An access outside the buffer has no result.\<close>

definition buf_get :: "intq \<Rightarrow> int \<Rightarrow> u8 option" where
  "buf_get q i = (if 0 \<le> i \<and> i < int (length (buf q)) then Some (buf q ! nat i) else None)"

definition buf_set :: "intq \<Rightarrow> int \<Rightarrow> u8 \<Rightarrow> intq option" where
  "buf_set q i b = (if 0 \<le> i \<and> i < int (length (buf q)) then Some (q\<lparr>buf := (buf q)[nat i := b]\<rparr>) else None)"

text \<open>The result is \<^const>\<open>None\<close> inside if the caller has to sleep.\<close>

definition intq_getc :: "intq \<Rightarrow> ksys \<Rightarrow> (u8 option \<times> intq \<times> ksys) option" where
  "intq_getc q ks = do {
     ASSERT (\<not> intr_on ks);
     e \<leftarrow> intq_empty q ks;
     if e then do { ASSERT (\<not> in_intr ks); Some (None, q, ks) }
     else do {
       byte \<leftarrow> buf_get q (tail q);
       let q = q\<lparr>tail := intq_next (tail q)\<rparr>;
       (q, ks) \<leftarrow> intq_signal Not_Full q ks;
       Some (Some byte, q, ks) } }"

text \<open>The result says whether the byte was queued; if not, the caller has to sleep.\<close>

definition intq_putc :: "u8 \<Rightarrow> intq \<Rightarrow> ksys \<Rightarrow> (bool \<times> intq \<times> ksys) option" where
  "intq_putc byte q ks = do {
     ASSERT (\<not> intr_on ks);
     f \<leftarrow> intq_full q ks;
     if f then do { ASSERT (\<not> in_intr ks); Some (False, q, ks) }
     else do {
       q \<leftarrow> buf_set q (head q) byte;
       let q = q\<lparr>head := intq_next (head q)\<rparr>;
       (q, ks) \<leftarrow> intq_signal Not_Empty q ks;
       Some (True, q, ks) } }"

section \<open>The queue as a list\<close>

definition wf_intq :: "intq \<Rightarrow> bool" where
  "wf_intq q \<longleftrightarrow> length (buf q) = 64 \<and> 0 \<le> head q \<and> head q < 64 \<and> 0 \<le> tail q \<and> tail q < 64"

definition queued :: "intq \<Rightarrow> nat" where
  "queued q = nat ((head q - tail q) mod 64)"

definition contents :: "intq \<Rightarrow> u8 list" where
  "contents q = map (\<lambda>i. buf q ! nat ((tail q + int i) mod 64)) [0..<queued q]"

lemma intq_next_mod [simp]: "0 \<le> i \<Longrightarrow> intq_next i = (i + 1) mod 64"
  by (simp add: intq_next_def INTQ_BUFSIZE_def smod_int_alt_def)

lemma length_contents [simp]: "length (contents q) = queued q"
  by (simp add: contents_def)

lemma queued_less: "queued q < 64"
  by (simp add: queued_def nat_less_iff)

lemma ring_eq:
  fixes h t :: int
  assumes "0 \<le> h" "h < 64" "0 \<le> t" "t < 64"
  shows "(h - t) mod 64 \<le> 0 \<longleftrightarrow> h = t" and "(h + 1) mod 64 = t \<longleftrightarrow> (h - t) mod 64 = 63"
proof -
  have d: "(h - t) mod 64 = (if t \<le> h then h - t else h - t + 64)"
    using assms mod_add_self2 [of "h - t" 64] by (auto simp del: mod_add_self2)
  have n: "(h + 1) mod 64 = (if h = 63 then 0 else h + 1)" using assms by auto
  show "(h - t) mod 64 \<le> 0 \<longleftrightarrow> h = t" using assms unfolding d by auto
  show "(h + 1) mod 64 = t \<longleftrightarrow> (h - t) mod 64 = 63" using assms unfolding d n by auto
qed

lemma wf_empty: "wf_intq q \<Longrightarrow> head q = tail q \<longleftrightarrow> contents q = []"
  using ring_eq(1) [of "head q" "tail q"] by (simp add: wf_intq_def contents_def queued_def)

lemma wf_full: "wf_intq q \<Longrightarrow> (head q + 1) mod 64 = tail q \<longleftrightarrow> queued q = 63"
  using ring_eq(2) [of "head q" "tail q"] by (simp add: wf_intq_def queued_def nat_eq_iff)

lemma ring_facts:
  fixes h t i :: int
  shows "((h + 1) mod 64 - t) mod 64 = (h - t + 1) mod 64"
    and "(h - (t + 1) mod 64) mod 64 = (h - t - 1) mod 64"
    and "((t + 1) mod 64 + i) mod 64 = (t + (i + 1)) mod 64"
    and "x mod 64 < 63 \<Longrightarrow> (x + 1) mod 64 = x mod 64 + (1 :: int)"
    and "0 < x mod 64 \<Longrightarrow> (x - 1) mod 64 = x mod 64 - (1 :: int)"
    and "(t + (h - t) mod 64) mod 64 = h mod 64"
    and "0 \<le> i \<Longrightarrow> i < (h - t) mod 64 \<Longrightarrow> (t + i) mod 64 \<noteq> h mod 64"
proof -
  show "((h + 1) mod 64 - t) mod 64 = (h - t + 1) mod 64"
    by (simp add: mod_diff_left_eq algebra_simps)
  show "(h - (t + 1) mod 64) mod 64 = (h - t - 1) mod 64"
    by (simp add: mod_diff_right_eq algebra_simps)
  show "((t + 1) mod 64 + i) mod 64 = (t + (i + 1)) mod 64"
    by (simp add: mod_add_left_eq add.assoc add.commute [of 1])
  show "x mod 64 < 63 \<Longrightarrow> (x + 1) mod 64 = x mod 64 + (1 :: int)"
    using mod_add_left_eq [of x 64 1] by (simp add: mod_pos_pos_trivial del: mod_add_left_eq)
  show "0 < x mod 64 \<Longrightarrow> (x - 1) mod 64 = x mod 64 - (1 :: int)"
    using mod_diff_left_eq [of x 64 1] pos_mod_bound [of 64 x]
    by (simp add: mod_pos_pos_trivial del: mod_diff_left_eq)
  show "(t + (h - t) mod 64) mod 64 = h mod 64" by (simp add: mod_add_right_eq)
  show "(t + i) mod 64 \<noteq> h mod 64" if "0 \<le> i" "i < (h - t) mod 64"
  proof
    assume "(t + i) mod 64 = h mod 64"
    then have "(t + i - t) mod 64 = (h - t) mod 64" by (metis mod_diff_left_eq)
    moreover have "i < 64" using that(2) using pos_mod_bound [of 64 "h - t"] by linarith
    ultimately show False using that by simp
  qed
qed

lemma contents_put:
  assumes wf: "wf_intq q" and room: "queued q < 63"
  shows "contents (q\<lparr>buf := (buf q)[nat (head q) := b], head := (head q + 1) mod 64\<rparr>) = contents q @ [b]"
proof -
  let ?q = "q\<lparr>buf := (buf q)[nat (head q) := b], head := (head q + 1) mod 64\<rparr>"
  have u: "queued ?q = Suc (queued q)"
    using room ring_facts(4) [of "head q - tail q"]
    unfolding queued_def by (simp add: ring_facts(1) nat_less_iff Suc_as_int)
  have h: "(tail q + int (queued q)) mod 64 = head q"
    using wf ring_facts(6) [of "tail q" "head q"] by (simp add: wf_intq_def queued_def)
  have ne: "(tail q + int i) mod 64 \<noteq> head q" if "i < queued q" for i
    using that wf ring_facts(7) [of "int i" "head q" "tail q"] by (simp add: wf_intq_def queued_def zless_nat_eq_int_zless)
  have "buf ?q ! nat ((tail q + int i) mod 64) = buf q ! nat ((tail q + int i) mod 64)" if "i < queued q" for i
    using ne [OF that] wf by (auto simp: wf_intq_def nth_list_update eq_nat_nat_iff)
  then show ?thesis
    using wf by (auto simp: contents_def u h wf_intq_def)
qed

lemma contents_get:
  assumes wf: "wf_intq q" and ne: "contents q \<noteq> []"
  shows "contents q = buf q ! nat (tail q) # contents (q\<lparr>tail := (tail q + 1) mod 64\<rparr>)"
proof -
  let ?q = "q\<lparr>tail := (tail q + 1) mod 64\<rparr>"
  have p: "0 < queued q" using ne by (metis length_contents length_greater_0_conv)
  then have u: "queued q = Suc (queued ?q)"
    using ring_facts(5) [of "head q - tail q"]
    unfolding queued_def by (simp add: ring_facts(2) Suc_as_int)
  have ix: "((tail q + 1) mod 64 + int i) mod 64 = (tail q + int (Suc i)) mod 64" for i
    using ring_facts(3) [of "tail q" "int i"] by (simp add: algebra_simps)
  have "[0..<queued q] = 0 # map Suc [0..<queued ?q]" by (simp add: u map_Suc_upt upt_conv_Cons del: upt_Suc)
  then show ?thesis
    using wf by (simp add: contents_def wf_intq_def comp_def ix)
qed

lemma wf_put: "wf_intq q \<Longrightarrow> wf_intq (q\<lparr>buf := (buf q)[i := b], head := (head q + 1) mod 64\<rparr>)"
  by (simp add: wf_intq_def)

lemma wf_get: "wf_intq q \<Longrightarrow> wf_intq (q\<lparr>tail := (tail q + 1) mod 64\<rparr>)"
  by (simp add: wf_intq_def)

section \<open>Waking\<close>

text \<open>The threads recorded as waiting are distinct blocked threads.\<close>

definition waiters_ok :: "ksys \<Rightarrow> tptr list \<Rightarrow> bool" where
  "waiters_ok ks ws \<longleftrightarrow> distinct (filter (\<lambda>w. w \<noteq> 0) ws) \<and>
     (\<forall>w \<in> set ws. w \<noteq> 0 \<longrightarrow> is_thread ks w \<and> has_status ks w THREAD_BLOCKED)"

lemma waiters_ok_perm: "mset ws = mset ws' \<Longrightarrow> waiters_ok ks ws \<Longrightarrow> waiters_ok ks ws'"
  unfolding waiters_ok_def by (metis set_mset_mset mset_filter mset_eq_imp_distinct_iff)

definition woken :: "tptr \<Rightarrow> ksys \<Rightarrow> ksys" where
  "woken w ks = (if w = 0 then ks else set_status w THREAD_READY (ks\<lparr>ready_list := ready_list ks @ [w]\<rparr>))"

lemma woken_intr [simp]: "intr_on (woken w ks) = intr_on ks" "in_intr (woken w ks) = in_intr ks"
  by (simp_all add: woken_def set_status_def upd_thr_def)

lemma unblock_waiter:
  assumes "waiters_ok ks (w # ws)" and "w \<noteq> 0"
  shows "thread_unblock w ks = Some (woken w ks)"
  using assms by (simp add: waiters_ok_def thread_unblock_def woken_def)

lemma waiters_ok_woken:
  assumes "waiters_ok ks (w # ws)"
  shows "waiters_ok (woken w ks) (0 # ws)"
  using assms
  by (auto simp: waiters_ok_def woken_def set_status_def upd_thr_def is_thread_def has_status_def
      split: option.splits)

section \<open>The operations on the list\<close>

text \<open>\<open>ws\<close> are the waiting threads of the other queues.\<close>

definition intq_ok :: "tptr list \<Rightarrow> intq \<Rightarrow> ksys \<Rightarrow> bool" where
  "intq_ok ws q ks \<longleftrightarrow> wf_intq q \<and> \<not> intr_on ks \<and> waiters_ok ks (not_full q # not_empty q # ws)"

lemma intq_empty_ok: "intq_ok ws q ks \<Longrightarrow> intq_empty q ks = Some (contents q = [])"
  using wf_empty by (auto simp: intq_ok_def intq_empty_def)

lemma intq_full_ok: "intq_ok ws q ks \<Longrightarrow> intq_full q ks = Some (queued q = 63)"
  using wf_full by (auto simp: intq_ok_def intq_full_def wf_intq_def)

lemma intq_ok_wake:
  assumes "intq_ok ws q ks"
  shows "intq_ok ws (q\<lparr>not_full := 0\<rparr>) (woken (not_full q) ks)"
    and "intq_ok ws (q\<lparr>not_empty := 0\<rparr>) (woken (not_empty q) ks)"
proof -
  have w: "waiters_ok ks (not_full q # not_empty q # ws)" and o: "wf_intq q" "\<not> intr_on ks"
    using assms by (simp_all add: intq_ok_def)
  show "intq_ok ws (q\<lparr>not_full := 0\<rparr>) (woken (not_full q) ks)"
    using waiters_ok_woken [OF w] o by (simp add: intq_ok_def wf_intq_def)
  have "waiters_ok ks (not_empty q # not_full q # ws)" by (rule waiters_ok_perm [OF _ w]) simp
  then have "waiters_ok (woken (not_empty q) ks) (0 # not_full q # ws)" by (rule waiters_ok_woken)
  then have "waiters_ok (woken (not_empty q) ks) (not_full q # 0 # ws)"
    by (rule waiters_ok_perm [rotated]) simp
  then show "intq_ok ws (q\<lparr>not_empty := 0\<rparr>) (woken (not_empty q) ks)"
    using o by (simp add: intq_ok_def wf_intq_def)
qed

lemma intq_signal_full:
  assumes ok: "intq_ok ws q ks" and "queued q < 63"
  shows "intq_signal Not_Full q ks = Some (q\<lparr>not_full := 0\<rparr>, woken (not_full q) ks)"
proof -
  have w: "waiters_ok ks (not_full q # not_empty q # ws)" using ok by (simp add: intq_ok_def)
  show ?thesis
    using assms intq_empty_ok [OF ok] intq_full_ok [OF ok] unblock_waiter [OF w]
    by (auto simp: intq_signal_def intq_ok_def woken_def Let_def)
qed

lemma intq_signal_empty:
  assumes ok: "intq_ok ws q ks" and "contents q \<noteq> []"
  shows "intq_signal Not_Empty q ks = Some (q\<lparr>not_empty := 0\<rparr>, woken (not_empty q) ks)"
proof -
  have w: "waiters_ok ks (not_full q # not_empty q # ws)" using ok by (simp add: intq_ok_def)
  then have w': "waiters_ok ks (not_empty q # not_full q # ws)" by (rule waiters_ok_perm [rotated]) simp
  show ?thesis
    using assms intq_empty_ok [OF ok] intq_full_ok [OF ok] unblock_waiter [OF w']
    by (auto simp: intq_signal_def intq_ok_def woken_def Let_def)
qed

lemma contents_wake [simp]:
  "contents (q\<lparr>not_full := w\<rparr>) = contents q" "contents (q\<lparr>not_empty := w\<rparr>) = contents q"
  by (simp_all add: contents_def queued_def)

lemma intq_putc_ok:
  assumes ok: "intq_ok ws q ks" and room: "length (contents q) < 63"
  shows "\<exists>q'. intq_putc b q ks = Some (True, q', woken (not_empty q) ks) \<and>
    contents q' = contents q @ [b] \<and> not_empty q' = 0 \<and> not_full q' = not_full q \<and>
    intq_ok ws q' (woken (not_empty q) ks)"
proof -
  let ?q = "q\<lparr>buf := (buf q)[nat (head q) := b], head := (head q + 1) mod 64\<rparr>"
  have wf: "wf_intq q" using ok by (simp add: intq_ok_def)
  have c: "contents ?q = contents q @ [b]" using contents_put [OF wf] room by simp
  have ok': "intq_ok ws ?q ks" using ok wf_put [OF wf] by (simp add: intq_ok_def)
  have "intq_signal Not_Empty ?q ks = Some (?q\<lparr>not_empty := 0\<rparr>, woken (not_empty ?q) ks)"
    by (rule intq_signal_empty [OF ok']) (simp add: c)
  moreover have "buf_set q (head q) b = Some (q\<lparr>buf := (buf q)[nat (head q) := b]\<rparr>)"
    using wf by (simp add: buf_set_def wf_intq_def)
  ultimately have "intq_putc b q ks = Some (True, ?q\<lparr>not_empty := 0\<rparr>, woken (not_empty q) ks)"
    using intq_full_ok [OF ok] room ok by (simp add: intq_putc_def intq_ok_def wf_intq_def)
  then show ?thesis using c intq_ok_wake(2) [OF ok'] by simp
qed

lemma intq_putc_full:
  assumes ok: "intq_ok ws q ks" and "length (contents q) = 63"
  shows "intq_putc b q ks = (if in_intr ks then None else Some (False, q, ks))"
  using intq_full_ok [OF ok] assms by (simp add: intq_putc_def intq_ok_def)

lemma intq_getc_ok:
  assumes ok: "intq_ok ws q ks" and c: "contents q = b # bs"
  shows "\<exists>q'. intq_getc q ks = Some (Some b, q', woken (not_full q) ks) \<and>
    contents q' = bs \<and> not_full q' = 0 \<and> not_empty q' = not_empty q \<and>
    intq_ok ws q' (woken (not_full q) ks)"
proof -
  let ?q = "q\<lparr>tail := (tail q + 1) mod 64\<rparr>"
  have wf: "wf_intq q" using ok by (simp add: intq_ok_def)
  have "contents q = buf q ! nat (tail q) # contents ?q" by (rule contents_get [OF wf]) (simp add: c)
  then have b: "buf q ! nat (tail q) = b" and c': "contents ?q = bs" using c by simp_all
  have ok': "intq_ok ws ?q ks" using ok wf_get [OF wf] by (simp add: intq_ok_def)
  have "length bs < 63" using queued_less [of q] c length_contents [of q] by simp
  then have "queued ?q < 63" using c' length_contents [of ?q] by simp
  then have "intq_signal Not_Full ?q ks = Some (?q\<lparr>not_full := 0\<rparr>, woken (not_full ?q) ks)"
    by (rule intq_signal_full [OF ok'])
  moreover have "buf_get q (tail q) = Some b"
    using wf b by (simp add: buf_get_def wf_intq_def)
  ultimately have "intq_getc q ks = Some (Some b, ?q\<lparr>not_full := 0\<rparr>, woken (not_full q) ks)"
    using intq_empty_ok [OF ok] c ok by (simp add: intq_getc_def intq_ok_def wf_intq_def)
  then show ?thesis using c' intq_ok_wake(1) [OF ok'] by simp
qed

lemma intq_getc_empty:
  assumes ok: "intq_ok ws q ks" and "contents q = []"
  shows "intq_getc q ks = (if in_intr ks then None else Some (None, q, ks))"
  using intq_empty_ok [OF ok] assms by (simp add: intq_getc_def intq_ok_def)

lemma queued_le: "queued q \<le> 63"
  using queued_less [of q] by simp

section \<open>The queue as a first-in first-out channel\<close>

text \<open>What the drivers rely on: a bounded queue whose operations keep its invariant.\<close>

fun take_bytes :: "('s \<Rightarrow> ('b \<times> 's) option) \<Rightarrow> nat \<Rightarrow> 's \<Rightarrow> ('b list \<times> 's) option" where
  "take_bytes get 0 s = Some ([], s)"
| "take_bytes get (Suc n) s = do {
     (b, s) \<leftarrow> get s;
     (bs, s) \<leftarrow> take_bytes get n s;
     Some (b # bs, s) }"

locale bounded_queue =
  fixes inv :: "'s \<Rightarrow> bool" and items :: "'s \<Rightarrow> 'b list" and cap :: nat
    and put :: "'b \<Rightarrow> 's \<Rightarrow> 's option" and get :: "'s \<Rightarrow> ('b \<times> 's) option"
  assumes bounded: "inv s \<Longrightarrow> length (items s) \<le> cap"
    and put_law: "inv s \<Longrightarrow> length (items s) < cap \<Longrightarrow>
      \<exists>s'. put b s = Some s' \<and> inv s' \<and> items s' = items s @ [b]"
    and get_law: "inv s \<Longrightarrow> items s = b # bs \<Longrightarrow> \<exists>s'. get s = Some (b, s') \<and> inv s' \<and> items s' = bs"
begin

lemma fill:
  "inv s \<Longrightarrow> length (items s) + length bs \<le> cap \<Longrightarrow>
    \<exists>s'. foldM put bs s = Some s' \<and> inv s' \<and> items s' = items s @ bs"
proof (induction bs arbitrary: s)
  case (Cons b bs)
  then obtain s1 where s1: "put b s = Some s1" "inv s1" "items s1 = items s @ [b]"
    using put_law [of s b] by auto
  with Cons.prems have "\<exists>s'. foldM put bs s1 = Some s' \<and> inv s' \<and> items s' = items s1 @ bs"
    by (intro Cons.IH) auto
  with s1 show ?case by simp
qed simp

lemma drain:
  "inv s \<Longrightarrow> n \<le> length (items s) \<Longrightarrow>
    \<exists>s'. take_bytes get n s = Some (take n (items s), s') \<and> inv s' \<and> items s' = drop n (items s)"
proof (induction n arbitrary: s)
  case (Suc n)
  then obtain b bs where c: "items s = b # bs" by (cases "items s") auto
  then obtain s1 where s1: "get s = Some (b, s1)" "inv s1" "items s1 = bs"
    using get_law [OF Suc.prems(1)] by blast
  with Suc.prems c Suc.IH [of s1] show ?case by auto
qed simp

lemma fifo:
  assumes "inv s" and "length (items s) + length bs \<le> cap" and "n \<le> length (items s) + length bs"
  shows "\<exists>s1 s2. foldM put bs s = Some s1 \<and> take_bytes get n s1 = Some (take n (items s @ bs), s2) \<and>
    inv s2 \<and> items s2 = drop n (items s @ bs)"
proof -
  obtain s1 where s1: "foldM put bs s = Some s1" "inv s1" "items s1 = items s @ bs"
    using fill assms by blast
  then show ?thesis using drain [of s1 n] assms(3) by auto
qed

end

definition put_byte :: "u8 \<Rightarrow> intq \<times> ksys \<Rightarrow> (intq \<times> ksys) option" where
  "put_byte b s = do {
     (done, q, ks) \<leftarrow> intq_putc b (fst s) (snd s);
     if done then Some (q, ks) else None }"

definition get_byte :: "intq \<times> ksys \<Rightarrow> (u8 \<times> intq \<times> ksys) option" where
  "get_byte s = do {
     (got, q, ks) \<leftarrow> intq_getc (fst s) (snd s);
     b \<leftarrow> got;
     Some (b, q, ks) }"

interpretation iq: bounded_queue "\<lambda>(q, ks). intq_ok [] q ks" "\<lambda>(q, ks). contents q" 63 put_byte get_byte
proof unfold_locales
  fix s :: "intq \<times> ksys" and b :: u8 and bs
  assume ok: "case s of (q, ks) \<Rightarrow> intq_ok [] q ks"
  show "length (case s of (q, ks) \<Rightarrow> contents q) \<le> 63"
    by (cases s) (simp add: queued_le)
  show "\<exists>s'. put_byte b s = Some s' \<and> (case s' of (q, ks) \<Rightarrow> intq_ok [] q ks) \<and>
      (case s' of (q, ks) \<Rightarrow> contents q) = (case s of (q, ks) \<Rightarrow> contents q) @ [b]"
    if "length (case s of (q, ks) \<Rightarrow> contents q) < 63"
    using intq_putc_ok [of "[]" "fst s" "snd s" b] ok that by (auto simp: put_byte_def split: prod.splits)
  show "\<exists>s'. get_byte s = Some (b, s') \<and> (case s' of (q, ks) \<Rightarrow> intq_ok [] q ks) \<and>
      (case s' of (q, ks) \<Rightarrow> contents q) = bs"
    if "(case s of (q, ks) \<Rightarrow> contents q) = b # bs"
    using intq_getc_ok [of "[]" "fst s" "snd s" b bs] ok that by (auto simp: get_byte_def split: prod.splits)
qed

text \<open>C21: An interrupt queue is a first-in first-out channel of at most 63 bytes.
From any queue whose indices are in range, with interrupts off and its recorded
waiters blocked, putting bytes that fit and then taking \<open>n\<close> bytes never panics or
sleeps, returns the first \<open>n\<close> of the old and new bytes in order, leaves the rest,
keeps both indices inside the 64-byte buffer, and wakes the recorded waiters.\<close>

theorem intq_fifo:
  assumes ok: "intq_ok [] q ks" and fit: "length (contents q) + length bs \<le> 63"
    and n: "n \<le> length (contents q) + length bs"
  shows "\<exists>q1 ks1 q2 ks2. foldM put_byte bs (q, ks) = Some (q1, ks1) \<and>
    take_bytes get_byte n (q1, ks1) = Some (take n (contents q @ bs), q2, ks2) \<and>
    contents q2 = drop n (contents q @ bs) \<and> length (contents q2) \<le> 63 \<and>
    0 \<le> head q2 \<and> head q2 < INTQ_BUFSIZE \<and> 0 \<le> tail q2 \<and> tail q2 < INTQ_BUFSIZE \<and> intq_ok [] q2 ks2"
  using iq.fifo [of "(q, ks)" bs n] assms by (auto simp: intq_ok_def wf_intq_def INTQ_BUFSIZE_def queued_le)

definition demo_intq :: intq where
  "demo_intq = \<lparr>qlock = 1, not_full = 0, not_empty = 0, buf = map word_of_nat [0..<64], head = 1, tail = 62\<rparr>"

lemma demo_intq_contents: "contents demo_intq = [62, 63, 0]"
proof -
  have "queued demo_intq = 3" by (simp add: queued_def demo_intq_def)
  then have "contents demo_intq = map (\<lambda>i. buf demo_intq ! nat ((62 + int i) mod 64)) [0, 1, 2]"
    by (simp add: contents_def demo_intq_def numeral_3_eq_3)
  then show ?thesis by (simp add: demo_intq_def)
qed

lemma demo_intq_ok: "intq_ok [] demo_intq demo_boot"
  by (simp add: intq_ok_def wf_intq_def demo_intq_def waiters_ok_def demo_boot_def demo_cold_def)

theorem intq_fifo_witness:
  "intq_ok [] demo_intq demo_boot \<and> length (contents demo_intq) + length [7, 8 :: u8] \<le> 63 \<and>
   (\<exists>q1 ks1 q2 ks2. foldM put_byte [7, 8] (demo_intq, demo_boot) = Some (q1, ks1) \<and>
     take_bytes get_byte 4 (q1, ks1) = Some ([62, 63, 0, 7], q2, ks2) \<and> contents q2 = [8])"
proof -
  have c: "length (contents demo_intq) + length [7, 8 :: u8] \<le> 63"
    by (simp only: demo_intq_contents) simp
  have n: "4 \<le> length (contents demo_intq) + length [7, 8 :: u8]"
    by (simp only: demo_intq_contents) simp
  have t: "take 4 (contents demo_intq @ [7, 8]) = [62, 63, 0, 7]" "drop 4 (contents demo_intq @ [7, 8]) = [8]"
    by (simp_all only: demo_intq_contents) simp_all
  from intq_fifo [OF demo_intq_ok c n] demo_intq_ok c show ?thesis unfolding t by blast
qed

end
