(* ===== verification/Char_Devices.thy ===== *)
theory Char_Devices
  imports Intq
begin

text \<open>
  The character devices: the serial port (\<open>devices/serial.c\<close>), the keyboard
  (\<open>devices/kbd.c\<close>) and the input buffer they share (\<open>devices/input.c\<close>). The
  hardware is a field of the state: \<open>hw n p\<close> is what the \<open>n\<close>-th port read returns if
  it reads port \<open>p\<close>, so every behaviour of the devices is covered; the writes to
  the ports are recorded in order. Registering the interrupt handlers is in theory
  \<open>Descriptors\<close>, waiting for a queue in theory \<open>Intq\<close>.
\<close>

unbundle bit_operations_syntax

section \<open>State and ports\<close>

datatype serial_mode = UNINIT | POLL | QUEUE

record cdev =
  kern :: ksys
  txq :: intq
  buffer :: intq
  mode :: serial_mode
  left_shift :: bool
  right_shift :: bool
  left_alt :: bool
  right_alt :: bool
  left_ctrl :: bool
  right_ctrl :: bool
  caps_lock :: bool
  key_cnt :: int
  rebooted :: bool
  hw :: "nat \<Rightarrow> u16 \<Rightarrow> u8"
  reads :: nat
  written :: "(u16 \<times> u8) list"

definition inb :: "u16 \<Rightarrow> cdev \<Rightarrow> u8 \<times> cdev" where
  "inb port s = (hw s (reads s) port, s\<lparr>reads := Suc (reads s)\<rparr>)"

definition out_byte :: "u16 \<Rightarrow> u8 \<Rightarrow> cdev \<Rightarrow> cdev" where
  "out_byte port data s = s\<lparr>written := written s @ [(port, data)]\<rparr>"

definition RBR_REG :: u16 where "RBR_REG = 0x3f8 + 0"
definition THR_REG :: u16 where "THR_REG = 0x3f8 + 0"
definition IER_REG :: u16 where "IER_REG = 0x3f8 + 1"
definition LS_REG :: u16 where "LS_REG = 0x3f8 + 0"
definition MS_REG :: u16 where "MS_REG = 0x3f8 + 1"
definition IIR_REG :: u16 where "IIR_REG = 0x3f8 + 2"
definition FCR_REG :: u16 where "FCR_REG = 0x3f8 + 2"
definition LCR_REG :: u16 where "LCR_REG = 0x3f8 + 3"
definition MCR_REG :: u16 where "MCR_REG = 0x3f8 + 4"
definition LSR_REG :: u16 where "LSR_REG = 0x3f8 + 5"
definition IER_RECV :: u8 where "IER_RECV = 0x01"
definition IER_XMIT :: u8 where "IER_XMIT = 0x02"
definition LCR_N81 :: u8 where "LCR_N81 = 0x03"
definition LCR_DLAB :: u8 where "LCR_DLAB = 0x80"
definition MCR_OUT2 :: u8 where "MCR_OUT2 = 0x08"
definition LSR_DR :: u8 where "LSR_DR = 0x01"
definition LSR_THRE :: u8 where "LSR_THRE = 0x20"

definition intr_off :: "cdev \<Rightarrow> bool" where
  "intr_off s \<longleftrightarrow> \<not> intr_on (kern s)"

definition set_intr :: "bool \<Rightarrow> cdev \<Rightarrow> cdev" where
  "set_intr level s = s\<lparr>kern := (kern s)\<lparr>intr_on := level\<rparr>\<rparr>"

section \<open>The serial port\<close>

definition set_serial :: "int \<Rightarrow> cdev \<Rightarrow> cdev option" where
  "set_serial bps s = do {
     let base_rate = (1843200 :: int) sdiv 16;
     let divisor = (word_of_int (base_rate sdiv bps) :: u16);
     ASSERT (300 \<le> bps \<and> bps \<le> 115200);
     let s = out_byte LCR_REG (LCR_N81 OR LCR_DLAB) s;
     let s = out_byte LS_REG (ucast (divisor AND 0xff)) s;
     let s = out_byte MS_REG (ucast (drop_bit 8 divisor)) s;
     Some (out_byte LCR_REG LCR_N81 s) }"

definition init_poll :: "cdev \<Rightarrow> cdev option" where
  "init_poll s = do {
     ASSERT (mode s = UNINIT);
     let s = out_byte IER_REG 0 s;
     let s = out_byte FCR_REG 0 s;
     s \<leftarrow> set_serial 9600 s;
     let s = out_byte MCR_REG MCR_OUT2 s;
     Some (s\<lparr>txq := intq_init (txq s), mode := POLL\<rparr>) }"

definition input_full :: "cdev \<Rightarrow> bool option" where
  "input_full s = do { ASSERT (intr_off s); intq_full (buffer s) (kern s) }"

definition write_ier :: "cdev \<Rightarrow> cdev option" where
  "write_ier s = do {
     ASSERT (intr_off s);
     e \<leftarrow> intq_empty (txq s) (kern s);
     let ier = (if \<not> e then IER_XMIT else 0);
     f \<leftarrow> input_full s;
     let ier = (if \<not> f then ier OR IER_RECV else ier);
     Some (out_byte IER_REG ier s) }"

definition serial_init_queue :: "cdev \<Rightarrow> cdev option" where
  "serial_init_queue s = do {
     s \<leftarrow> (if mode s = UNINIT then init_poll s else Some s);
     ASSERT (mode s = POLL);
     let s = s\<lparr>mode := QUEUE\<rparr>;
     let old_level = intr_on (kern s);
     s \<leftarrow> write_ier (set_intr False s);
     Some (set_intr old_level s) }"

definition serial_notify :: "cdev \<Rightarrow> cdev option" where
  "serial_notify s = do {
     ASSERT (intr_off s);
     if mode s = QUEUE then write_ier s else Some s }"

text \<open>Polling ends when the transmitter is ready; it may never be.\<close>

partial_function (option) poll_thre :: "cdev \<Rightarrow> cdev option" where
  "poll_thre s =
     (let (v, s) = inb LSR_REG s in if v AND LSR_THRE = 0 then poll_thre s else Some s)"

definition putc_poll :: "u8 \<Rightarrow> cdev \<Rightarrow> cdev option" where
  "putc_poll byte s = do {
     ASSERT (intr_off s);
     s \<leftarrow> poll_thre s;
     Some (out_byte THR_REG byte s) }"

definition tx_getc :: "cdev \<Rightarrow> (u8 option \<times> cdev) option" where
  "tx_getc s = do {
     (b, q, k) \<leftarrow> intq_getc (txq s) (kern s);
     Some (b, s\<lparr>txq := q, kern := k\<rparr>) }"

text \<open>The result says whether the byte is on its way; if not, the caller has to sleep.\<close>

definition serial_putc :: "u8 \<Rightarrow> cdev \<Rightarrow> (bool \<times> cdev) option" where
  "serial_putc byte s = do {
     let old_level = intr_on (kern s);
     let s = set_intr False s;
     (ready, s) \<leftarrow>
       (if mode s \<noteq> QUEUE then do {
          s \<leftarrow> (if mode s = UNINIT then init_poll s else Some s);
          s \<leftarrow> putc_poll byte s;
          Some (True, s) }
        else do {
          f \<leftarrow> intq_full (txq s) (kern s);
          s \<leftarrow> (if \<not> old_level \<and> f then do {
                   (b, s) \<leftarrow> tx_getc s;
                   b \<leftarrow> b;
                   putc_poll b s }
                else Some s);
          (ready, q, k) \<leftarrow> intq_putc byte (txq s) (kern s);
          let s = s\<lparr>txq := q, kern := k\<rparr>;
          s \<leftarrow> (if ready then write_ier s else Some s);
          Some (ready, s) });
     Some (ready, if ready then set_intr old_level s else s) }"

partial_function (option) flush_loop :: "cdev \<Rightarrow> cdev option" where
  "flush_loop s = do {
     e \<leftarrow> intq_empty (txq s) (kern s);
     if e then Some s
     else do {
       (b, s) \<leftarrow> tx_getc s;
       b \<leftarrow> b;
       s \<leftarrow> putc_poll b s;
       flush_loop s } }"

definition serial_flush :: "cdev \<Rightarrow> cdev option" where
  "serial_flush s = do {
     let old_level = intr_on (kern s);
     s \<leftarrow> flush_loop (set_intr False s);
     Some (set_intr old_level s) }"

section \<open>The input buffer\<close>

definition input_init :: "cdev \<Rightarrow> cdev" where
  "input_init s = s\<lparr>buffer := intq_init (buffer s)\<rparr>"

definition input_putc :: "u8 \<Rightarrow> cdev \<Rightarrow> cdev option" where
  "input_putc key s = do {
     ASSERT (intr_off s);
     f \<leftarrow> intq_full (buffer s) (kern s);
     ASSERT (\<not> f);
     (_, q, k) \<leftarrow> intq_putc key (buffer s) (kern s);
     serial_notify (s\<lparr>buffer := q, kern := k\<rparr>) }"

text \<open>No key: the caller has to sleep, interrupts off.\<close>

definition input_getc :: "cdev \<Rightarrow> (u8 option \<times> cdev) option" where
  "input_getc s = do {
     let old_level = intr_on (kern s);
     let s = set_intr False s;
     (key, q, k) \<leftarrow> intq_getc (buffer s) (kern s);
     let s = s\<lparr>buffer := q, kern := k\<rparr>;
     case key of
       None \<Rightarrow> Some (None, s)
     | Some key \<Rightarrow> do { s \<leftarrow> serial_notify s; Some (Some key, set_intr old_level s) } }"

section \<open>The serial interrupt\<close>

partial_function (option) recv_loop :: "cdev \<Rightarrow> cdev option" where
  "recv_loop s = do {
     f \<leftarrow> input_full s;
     if f then Some s
     else (let (v, s) = inb LSR_REG s
           in if v AND LSR_DR = 0 then Some s
              else (let (b, s) = inb RBR_REG s in do { s \<leftarrow> input_putc b s; recv_loop s })) }"

partial_function (option) xmit_loop :: "cdev \<Rightarrow> cdev option" where
  "xmit_loop s = do {
     e \<leftarrow> intq_empty (txq s) (kern s);
     if e then Some s
     else (let (v, s) = inb LSR_REG s
           in if v AND LSR_THRE = 0 then Some s
              else do { (b, s) \<leftarrow> tx_getc s; b \<leftarrow> b; xmit_loop (out_byte THR_REG b s) }) }"

definition serial_interrupt :: "cdev \<Rightarrow> cdev option" where
  "serial_interrupt s = do {
     let s = snd (inb IIR_REG s);
     s \<leftarrow> recv_loop s;
     s \<leftarrow> xmit_loop s;
     write_ier s }"

section \<open>The keyboard\<close>

definition DATA_REG :: u16 where "DATA_REG = 0x60"

definition bytes :: "string \<Rightarrow> u8 list" where
  "bytes = map of_char"

text \<open>A table of keys: first scan code and characters; the terminating entry is the end of the list.\<close>

type_synonym keymap = "(u8 \<times> u8 list) list"

definition invariant_keymap :: keymap where
  "invariant_keymap =
    [(0x01, [27]), (0x0e, [8]), (0x0f, 9 # bytes ''QWERTYUIOP''), (0x1c, [13]), (0x1e, bytes ''ASDFGHJKL''),
     (0x2c, bytes ''ZXCVBNM''), (0x37, bytes ''*''), (0x39, bytes '' ''), (0x53, [127])]"

definition unshifted_keymap :: keymap where
  "unshifted_keymap =
    [(0x02, bytes ''1234567890-=''), (0x1a, bytes ''[]''), (0x27, [59, 39, 96]), (0x2b, [92]),
     (0x33, bytes '',./'')]"

definition shifted_keymap :: keymap where
  "shifted_keymap =
    [(0x02, bytes ''!@#$%^&*()_+''), (0x1a, bytes ''{}''), (0x27, [58, 34, 126]), (0x2b, bytes ''|''),
     (0x33, bytes ''<>?'')]"

fun map_key :: "keymap \<Rightarrow> u32 \<Rightarrow> u8 option" where
  "map_key [] scancode = None"
| "map_key ((first, chars) # k) scancode =
     (if ucast first \<le> scancode \<and> scancode < ucast first + word_of_nat (length chars)
      then Some (chars ! unat (scancode - ucast first)) else map_key k scancode)"

definition to_lower :: "u8 \<Rightarrow> u8" where
  "to_lower c = (if 65 \<le> c \<and> c \<le> 90 then c - 65 + 97 else c)"

text \<open>\<open>shutdown_reboot\<close> does not return; the model stops there.\<close>

definition key_pressed :: "u8 \<Rightarrow> bool \<Rightarrow> bool \<Rightarrow> bool \<Rightarrow> cdev \<Rightarrow> cdev option" where
  "key_pressed c shift alt ctrl s =
     (if c = 127 \<and> ctrl \<and> alt then Some (s\<lparr>rebooted := True\<rparr>)
      else (let c = (if ctrl \<and> 0x40 \<le> c \<and> c < 0x60 then c - 0x40
                     else if shift = caps_lock s then to_lower c else c);
                c = (if alt then c + 0x80 else c)
            in do {
              f \<leftarrow> input_full s;
              if \<not> f then input_putc c (s\<lparr>key_cnt := key_cnt s + 1\<rparr>) else Some s }))"

definition shift_key :: "u32 \<Rightarrow> bool \<Rightarrow> cdev \<Rightarrow> cdev" where
  "shift_key code down s =
     (if code = 0x2a then s\<lparr>left_shift := down\<rparr>
      else if code = 0x36 then s\<lparr>right_shift := down\<rparr>
      else if code = 0x38 then s\<lparr>left_alt := down\<rparr>
      else if code = 0xe038 then s\<lparr>right_alt := down\<rparr>
      else if code = 0x1d then s\<lparr>left_ctrl := down\<rparr>
      else if code = 0xe01d then s\<lparr>right_ctrl := down\<rparr>
      else s)"

definition find_key :: "bool \<Rightarrow> u32 \<Rightarrow> u8 option" where
  "find_key shift code =
     (case map_key invariant_keymap code of
        Some c \<Rightarrow> Some c
      | None \<Rightarrow> if shift then map_key shifted_keymap code else map_key unshifted_keymap code)"

definition read_scancode :: "cdev \<Rightarrow> u32 \<times> cdev" where
  "read_scancode s =
     (let (b, s) = inb DATA_REG s; code = ucast b
      in if code = 0xe0 then (let (b, s) = inb DATA_REG s in (push_bit 8 code OR ucast b, s))
         else (code, s))"

definition keyboard_interrupt :: "cdev \<Rightarrow> cdev option" where
  "keyboard_interrupt s =
     (let shift = left_shift s \<or> right_shift s;
          alt = left_alt s \<or> right_alt s;
          ctrl = left_ctrl s \<or> right_ctrl s;
          (code, s) = read_scancode s;
          release = (code AND 0x80 \<noteq> 0);
          code = code AND NOT 0x80
      in if code = 0x3a then Some (if \<not> release then s\<lparr>caps_lock := \<not> caps_lock s\<rparr> else s)
         else case find_key shift code of
             Some c \<Rightarrow> if \<not> release then key_pressed c shift alt ctrl s else Some s
           | None \<Rightarrow> Some (shift_key code (\<not> release) s))"

section \<open>The drivers never fail\<close>

text \<open>
  The state of the drivers between interrupts: interrupts off, both queues well
  formed, and the four threads recorded as waiting blocked and distinct.
\<close>

definition cdev_ok :: "cdev \<Rightarrow> bool" where
  "cdev_ok s \<longleftrightarrow> \<not> intr_on (kern s) \<and> wf_intq (txq s) \<and> wf_intq (buffer s) \<and>
     waiters_ok (kern s) [not_full (txq s), not_empty (txq s), not_full (buffer s), not_empty (buffer s)]"

lemma cdev_ok_tx: "cdev_ok s \<Longrightarrow> intq_ok [not_full (buffer s), not_empty (buffer s)] (txq s) (kern s)"
  by (simp add: cdev_ok_def intq_ok_def)

lemma cdev_ok_in: "cdev_ok s \<Longrightarrow> intq_ok [not_full (txq s), not_empty (txq s)] (buffer s) (kern s)"
  unfolding cdev_ok_def intq_ok_def
  by (auto elim!: waiters_ok_perm [rotated])

lemma cdev_okI:
  assumes "intq_ok [not_full (buffer s), not_empty (buffer s)] (txq s) (kern s)" and "wf_intq (buffer s)"
  shows "cdev_ok s"
  using assms by (simp add: cdev_ok_def intq_ok_def)

lemma cdev_okI':
  assumes "intq_ok [not_full (txq s), not_empty (txq s)] (buffer s) (kern s)" and "wf_intq (txq s)"
  shows "cdev_ok s"
  using assms unfolding cdev_ok_def intq_ok_def by (auto elim!: waiters_ok_perm [rotated])

definition room :: "cdev \<Rightarrow> bool" where
  "room s \<longleftrightarrow> length (contents (buffer s)) < 63"

lemma input_full_ok: "cdev_ok s \<Longrightarrow> input_full s = Some (\<not> room s)"
  using intq_full_ok [OF cdev_ok_in, of s] queued_le [of "buffer s"]
  by (auto simp: input_full_def room_def cdev_ok_def intr_off_def)

lemma tx_empty_ok: "cdev_ok s \<Longrightarrow> intq_empty (txq s) (kern s) = Some (contents (txq s) = [])"
  by (rule intq_empty_ok [OF cdev_ok_tx])

definition ier_of :: "cdev \<Rightarrow> u8" where
  "ier_of s = (if contents (txq s) \<noteq> [] then IER_XMIT else 0) OR (if room s then IER_RECV else 0)"

lemma write_ier_ok: "cdev_ok s \<Longrightarrow> write_ier s = Some (out_byte IER_REG (ier_of s) s)"
  by (simp add: write_ier_def tx_empty_ok input_full_ok ier_of_def Let_def)
     (simp add: cdev_ok_def intr_off_def)

text \<open>The bytes handed to the transmitter so far.\<close>

definition sent :: "cdev \<Rightarrow> u8 list" where
  "sent s = map snd (filter (\<lambda>(p, _). p = THR_REG) (written s))"

lemma sent_out_byte [simp]:
  "sent (out_byte THR_REG b s) = sent s @ [b]" "sent (out_byte IER_REG b s) = sent s"
  by (simp_all add: sent_def out_byte_def THR_REG_def IER_REG_def)

lemma out_byte_frame [simp]:
  "kern (out_byte p b s) = kern s" "txq (out_byte p b s) = txq s" "buffer (out_byte p b s) = buffer s"
  "mode (out_byte p b s) = mode s" "hw (out_byte p b s) = hw s" "reads (out_byte p b s) = reads s"
  "rebooted (out_byte p b s) = rebooted s" "cdev_ok (out_byte p b s) = cdev_ok s"
  by (simp_all add: out_byte_def cdev_ok_def)

text \<open>What the queues, the transmitter and the hardware have seen.\<close>

definition same_io :: "cdev \<Rightarrow> cdev \<Rightarrow> bool" where
  "same_io s s' \<longleftrightarrow> hw s' = hw s \<and> mode s' = mode s \<and> rebooted s' = rebooted s"

lemma serial_notify_ok:
  assumes "cdev_ok s"
  shows "\<exists>w. serial_notify s = Some (s\<lparr>written := w\<rparr>) \<and> sent (s\<lparr>written := w\<rparr>) = sent s"
proof (cases "mode s = QUEUE")
  case True
  then show ?thesis
    using assms write_ier_ok [OF assms] sent_out_byte(2) [of "ier_of s" s]
    by (auto simp: serial_notify_def cdev_ok_def intr_off_def out_byte_def)
next
  case False
  then show ?thesis
    using assms by (intro exI [of _ "written s"]) (simp add: serial_notify_def cdev_ok_def intr_off_def)
qed

lemma input_putc_ok:
  assumes ok: "cdev_ok s" and r: "room s"
  shows "\<exists>s'. input_putc b s = Some s' \<and> cdev_ok s' \<and> contents (buffer s') = contents (buffer s) @ [b] \<and>
    contents (txq s') = contents (txq s) \<and> sent s' = sent s \<and> same_io s s' \<and> reads s' = reads s"
proof -
  obtain q' where q': "intq_putc b (buffer s) (kern s) = Some (True, q', woken (not_empty (buffer s)) (kern s))"
    "contents q' = contents (buffer s) @ [b]"
    "intq_ok [not_full (txq s), not_empty (txq s)] q' (woken (not_empty (buffer s)) (kern s))"
    using intq_putc_ok [OF cdev_ok_in [OF ok]] r by (auto simp: room_def)
  let ?s = "s\<lparr>buffer := q', kern := woken (not_empty (buffer s)) (kern s)\<rparr>"
  have ok': "cdev_ok ?s" using q'(3) ok by (intro cdev_okI') (simp_all add: cdev_ok_def)
  obtain w where w: "serial_notify ?s = Some (?s\<lparr>written := w\<rparr>)" "sent (?s\<lparr>written := w\<rparr>) = sent ?s"
    using serial_notify_ok [OF ok'] by blast
  have "input_putc b s = Some (?s\<lparr>written := w\<rparr>)"
    using q'(1) w(1) ok r intq_full_ok [OF cdev_ok_in [OF ok]]
    by (simp add: input_putc_def cdev_ok_def intr_off_def room_def)
  moreover have "cdev_ok (?s\<lparr>written := w\<rparr>)" using ok' by (simp add: cdev_ok_def)
  ultimately show ?thesis using q'(2) w(2) by (simp add: same_io_def sent_def)
qed

lemma tx_getc_ok:
  assumes ok: "cdev_ok s" and c: "contents (txq s) = b # bs"
  shows "\<exists>s'. tx_getc s = Some (Some b, s') \<and> cdev_ok s' \<and> contents (txq s') = bs \<and>
    contents (buffer s') = contents (buffer s) \<and> sent s' = sent s \<and> same_io s s' \<and> reads s' = reads s"
proof -
  obtain q' where q': "intq_getc (txq s) (kern s) = Some (Some b, q', woken (not_full (txq s)) (kern s))"
    "contents q' = bs" "intq_ok [not_full (buffer s), not_empty (buffer s)] q' (woken (not_full (txq s)) (kern s))"
    using intq_getc_ok [OF cdev_ok_tx [OF ok] c] by auto
  let ?s = "s\<lparr>txq := q', kern := woken (not_full (txq s)) (kern s)\<rparr>"
  have "cdev_ok ?s" using q'(3) ok by (intro cdev_okI) (simp_all add: cdev_ok_def)
  with q' show ?thesis by (simp add: tx_getc_def same_io_def sent_def)
qed

lemma inb_ok:
  assumes "cdev_ok s"
  shows "cdev_ok (snd (inb p s))" and "contents (buffer (snd (inb p s))) = contents (buffer s)"
    and "contents (txq (snd (inb p s))) = contents (txq s)" and "sent (snd (inb p s)) = sent s"
    and "same_io s (snd (inb p s))" and "reads (snd (inb p s)) = Suc (reads s)"
    and "fst (inb p s) = hw s (reads s) p"
  using assms by (simp_all add: inb_def cdev_ok_def sent_def same_io_def)

text \<open>The receiver has a byte ready \<open>i\<close> bytes from now, and that byte.\<close>

definition ready_at :: "cdev \<Rightarrow> nat \<Rightarrow> bool" where
  "ready_at s i \<longleftrightarrow> hw s (reads s + 2 * i) LSR_REG AND LSR_DR \<noteq> 0"

definition byte_at :: "cdev \<Rightarrow> nat \<Rightarrow> u8" where
  "byte_at s i = hw s (reads s + 2 * i + 1) RBR_REG"

lemma recv_loop_ok:
  assumes "cdev_ok s"
  shows "\<exists>s' n. recv_loop s = Some s' \<and> cdev_ok s' \<and>
    contents (buffer s') = contents (buffer s) @ map (byte_at s) [0..<n] \<and>
    (\<forall>i < n. ready_at s i) \<and> (room s' \<longrightarrow> \<not> ready_at s n) \<and>
    contents (txq s') = contents (txq s) \<and> sent s' = sent s \<and> same_io s s'"
  using assms
proof (induction "63 - length (contents (buffer s))" arbitrary: s rule: less_induct)
  case less
  note ok = less.prems
  let ?s1 = "snd (inb LSR_REG s)" let ?s2 = "snd (inb RBR_REG ?s1)"
  have ok1: "cdev_ok ?s1" and ok2: "cdev_ok ?s2" using inb_ok(1) ok by blast+
  show ?case
  proof (cases "room s \<and> ready_at s 0")
    case False
    then have "recv_loop s = Some s \<and> \<not> room s \<or> recv_loop s = Some ?s1 \<and> \<not> ready_at s 0"
      using input_full_ok [OF ok] by (subst (1 2) recv_loop.simps) (auto simp: ready_at_def inb_def)
    then show ?thesis
      using ok ok1 inb_ok [OF ok, of LSR_REG]
      by (elim disjE) (intro exI [of _ s] exI [of _ 0], simp add: same_io_def,
          intro exI [of _ ?s1] exI [of _ 0], simp)
  next
    case True
    have r2: "room ?s2" using True by (simp add: room_def inb_def)
    obtain s3 where s3: "input_putc (byte_at s 0) ?s2 = Some s3" "cdev_ok s3"
      "contents (buffer s3) = contents (buffer ?s2) @ [byte_at s 0]" "contents (txq s3) = contents (txq ?s2)"
      "sent s3 = sent ?s2" "same_io ?s2 s3" "reads s3 = reads ?s2"
      using input_putc_ok [OF ok2 r2] by blast
    have step: "recv_loop s = recv_loop s3"
      using True s3(1) input_full_ok [OF ok]
      by (subst recv_loop.simps) (simp add: ready_at_def inb_def byte_at_def)
    have b3: "contents (buffer s3) = contents (buffer s) @ [byte_at s 0]"
      using s3(3) by (simp add: inb_def)
    have "63 - length (contents (buffer s3)) < 63 - length (contents (buffer s))"
      using True b3 by (auto simp: room_def)
    from less.hyps [OF this s3(2)] obtain s' n where IH: "recv_loop s3 = Some s'" "cdev_ok s'"
      "contents (buffer s') = contents (buffer s3) @ map (byte_at s3) [0..<n]"
      "\<forall>i < n. ready_at s3 i" "room s' \<longrightarrow> \<not> ready_at s3 n"
      "contents (txq s') = contents (txq s3)" "sent s' = sent s3" "same_io s3 s'" by blast
    have rd: "reads s3 = Suc (Suc (reads s))" "hw s3 = hw s" using s3(6,7) by (simp_all add: inb_def same_io_def)
    have sh: "ready_at s3 i = ready_at s (Suc i)" "byte_at s3 i = byte_at s (Suc i)" for i
      by (simp_all add: ready_at_def byte_at_def rd)
    have bs: "byte_at s 0 # map (byte_at s3) [0..<n] = map (byte_at s) [0..<Suc n]"
      unfolding sh(2) by (simp add: upt_conv_Cons map_Suc_upt [symmetric] comp_def del: upt_Suc)
    have all: "\<forall>i < Suc n. ready_at s i" using IH(4) True unfolding sh by (simp add: All_less_Suc2)
    have "contents (buffer s') = contents (buffer s) @ map (byte_at s) [0..<Suc n]"
      unfolding bs [symmetric] using IH(3) b3 by simp
    moreover have "same_io s s'" "contents (txq s') = contents (txq s)" "sent s' = sent s"
      using IH(6-8) s3(4-6) by (simp_all add: same_io_def inb_def sent_def)
    moreover have "recv_loop s = Some s'" using step IH(1) by simp
    ultimately show ?thesis
      using IH(2,5) all unfolding sh by (intro exI [of _ s'] exI [of _ "Suc n"]) simp
  qed
qed

lemma xmit_loop_ok:
  assumes "cdev_ok s"
  shows "\<exists>s' bs. xmit_loop s = Some s' \<and> cdev_ok s' \<and> contents (txq s) = bs @ contents (txq s') \<and>
    sent s' = sent s @ bs \<and> contents (buffer s') = contents (buffer s) \<and> same_io s s'"
  using assms
proof (induction "length (contents (txq s))" arbitrary: s rule: less_induct)
  case less
  note ok = less.prems
  let ?s1 = "snd (inb LSR_REG s)"
  have ok1: "cdev_ok ?s1" using inb_ok(1) ok by blast
  show ?case
  proof (cases "contents (txq s) \<noteq> [] \<and> hw s (reads s) LSR_REG AND LSR_THRE \<noteq> 0")
    case False
    then have "xmit_loop s = Some s \<or> xmit_loop s = Some ?s1"
      using tx_empty_ok [OF ok] by (subst (1 2) xmit_loop.simps) (auto simp: inb_def)
    then show ?thesis using ok ok1 inb_ok [OF ok, of LSR_REG] by (auto simp: same_io_def)
  next
    case True
    then obtain b bs where c: "contents (txq s) = b # bs" by (cases "contents (txq s)") auto
    then have c1: "contents (txq ?s1) = b # bs" by (simp add: inb_def)
    obtain s2 where s2: "tx_getc ?s1 = Some (Some b, s2)" "cdev_ok s2" "contents (txq s2) = bs"
      "contents (buffer s2) = contents (buffer ?s1)" "sent s2 = sent ?s1" "same_io ?s1 s2"
      using tx_getc_ok [OF ok1 c1] by blast
    let ?s3 = "out_byte THR_REG b s2"
    have step: "xmit_loop s = xmit_loop ?s3"
      using True s2(1) tx_empty_ok [OF ok] by (subst xmit_loop.simps) (simp add: inb_def)
    have "length (contents (txq ?s3)) < length (contents (txq s))" "cdev_ok ?s3" using s2 c by simp_all
    from less.hyps [OF this] obtain s' cs where IH: "xmit_loop ?s3 = Some s'" "cdev_ok s'"
      "contents (txq ?s3) = cs @ contents (txq s')" "sent s' = sent ?s3 @ cs"
      "contents (buffer s') = contents (buffer ?s3)" "same_io ?s3 s'" by blast
    have "contents (txq s) = (b # cs) @ contents (txq s')" "sent s' = sent s @ (b # cs)"
      "contents (buffer s') = contents (buffer s)" "same_io s s'"
      using IH(3-6) s2(3-6) c inb_ok(2-5) [OF ok, of LSR_REG] by (simp_all add: same_io_def)
    with step IH(1,2) show ?thesis by auto
  qed
qed

text \<open>C27: The serial interrupt handler always returns: it never panics, sleeps or
loops, whatever the port reads return. It stores, in order, exactly the bytes the
receiver offered until it had no more or the input buffer was full; it hands the
transmitter a prefix of the transmit queue in order and leaves the rest queued; and
it ends by enabling the transmit interrupt exactly if bytes are left and the receive
interrupt exactly if there is room.\<close>

theorem serial_interrupt_correct:
  assumes ok: "cdev_ok s"
  shows "\<exists>s' n bs. serial_interrupt s = Some s' \<and> cdev_ok s' \<and>
    contents (buffer s') = contents (buffer s) @ map (\<lambda>i. hw s (reads s + 2 * i + 2) RBR_REG) [0..<n] \<and>
    (\<forall>i < n. hw s (reads s + 2 * i + 1) LSR_REG AND LSR_DR \<noteq> 0) \<and>
    (length (contents (buffer s')) < 63 \<longrightarrow> hw s (reads s + 2 * n + 1) LSR_REG AND LSR_DR = 0) \<and>
    contents (txq s) = bs @ contents (txq s') \<and> sent s' = sent s @ bs \<and>
    last (written s') = (IER_REG, (if contents (txq s') \<noteq> [] then IER_XMIT else 0) OR
       (if length (contents (buffer s')) < 63 then IER_RECV else 0))"
proof -
  let ?s0 = "snd (inb IIR_REG s)"
  obtain s1 n where s1: "recv_loop ?s0 = Some s1" "cdev_ok s1"
    "contents (buffer s1) = contents (buffer ?s0) @ map (byte_at ?s0) [0..<n]"
    "\<forall>i < n. ready_at ?s0 i" "room s1 \<longrightarrow> \<not> ready_at ?s0 n"
    "contents (txq s1) = contents (txq ?s0)" "sent s1 = sent ?s0"
    using recv_loop_ok [OF inb_ok(1) [OF ok, of IIR_REG]] by blast
  obtain s2 bs where s2: "xmit_loop s1 = Some s2" "cdev_ok s2" "contents (txq s1) = bs @ contents (txq s2)"
    "sent s2 = sent s1 @ bs" "contents (buffer s2) = contents (buffer s1)"
    using xmit_loop_ok [OF s1(2)] by blast
  have r: "room s2 = room s1" using s2(5) by (simp add: room_def)
  have shift: "byte_at ?s0 i = hw s (reads s + 2 * i + 2) RBR_REG"
    "ready_at ?s0 i = (hw s (reads s + 2 * i + 1) LSR_REG AND LSR_DR \<noteq> 0)" for i
    by (simp_all add: byte_at_def ready_at_def inb_def)
  let ?s3 = "out_byte IER_REG (ier_of s2) s2"
  have run: "serial_interrupt s = Some ?s3"
    using s1(1) s2(1) write_ier_ok [OF s2(2)] by (simp add: serial_interrupt_def Let_def)
  have l: "last (written ?s3) = (IER_REG, ier_of s2)" by (simp add: out_byte_def)
  have b: "contents (buffer ?s3) = contents (buffer s) @ map (\<lambda>i. hw s (reads s + 2 * i + 2) RBR_REG) [0..<n]"
    using s1(3) s2(5) shift(1) inb_ok(2) [OF ok, of IIR_REG] by simp
  have "contents (txq s) = bs @ contents (txq ?s3)" "sent ?s3 = sent s @ bs"
    using s1(6,7) s2(3,4) inb_ok(3,4) [OF ok, of IIR_REG] by simp_all
  moreover have "length (contents (buffer ?s3)) < 63 \<longrightarrow> hw s (reads s + 2 * n + 1) LSR_REG AND LSR_DR = 0"
    using s1(5) r shift(2) [of n] by (simp add: room_def)
  moreover have "\<forall>i < n. hw s (reads s + 2 * i + 1) LSR_REG AND LSR_DR \<noteq> 0"
    using s1(4) shift(2) by simp
  moreover have "last (written ?s3) = (IER_REG, (if contents (txq ?s3) \<noteq> [] then IER_XMIT else 0) OR
       (if length (contents (buffer ?s3)) < 63 then IER_RECV else 0))"
    using l by (simp add: ier_of_def room_def)
  ultimately show ?thesis using run b s2(2) by (metis out_byte_frame(8))
qed

definition demo_cdev :: cdev where
  "demo_cdev = \<lparr>kern = demo_boot, txq = demo_intq, buffer = intq_init demo_intq, mode = QUEUE,
     left_shift = False, right_shift = False, left_alt = False, right_alt = False, left_ctrl = False,
     right_ctrl = False, caps_lock = False, key_cnt = 0, rebooted = False, hw = (\<lambda>n p. 0x21), reads = 0,
     written = []\<rparr>"

lemma demo_cdev_ok: "cdev_ok demo_cdev"
  by (simp add: cdev_ok_def demo_cdev_def demo_boot_def demo_cold_def wf_intq_def demo_intq_def intq_init_def
      waiters_ok_def)

theorem serial_interrupt_correct_witness:
  "cdev_ok demo_cdev \<and> (\<exists>s' bs. serial_interrupt demo_cdev = Some s' \<and> cdev_ok s' \<and>
     contents (txq demo_cdev) = bs @ contents (txq s') \<and> sent s' = sent demo_cdev @ bs)"
  using serial_interrupt_correct [OF demo_cdev_ok] demo_cdev_ok by blast

lemma keyboard_interrupt_total:
  assumes ok: "cdev_ok s"
  shows "\<exists>s' cs. keyboard_interrupt s = Some s' \<and> cdev_ok s' \<and> contents (txq s') = contents (txq s) \<and>
    contents (buffer s') = contents (buffer s) @ cs \<and> length cs \<le> 1 \<and>
    (length (contents (buffer s)) = 63 \<longrightarrow> cs = [])"
proof -
  have key: "\<exists>s' cs. key_pressed c shift alt ctrl r = Some s' \<and> cdev_ok s' \<and> contents (txq s') = contents (txq r) \<and>
      contents (buffer s') = contents (buffer r) @ cs \<and> length cs \<le> 1 \<and>
      (length (contents (buffer r)) = 63 \<longrightarrow> cs = [])" if "cdev_ok r" for c shift alt ctrl r
  proof (cases "c = 127 \<and> ctrl \<and> alt")
    case True
    then show ?thesis using that by (simp add: key_pressed_def cdev_ok_def)
  next
    case False
    let ?r = "r\<lparr>key_cnt := key_cnt r + 1\<rparr>"
    have ok': "cdev_ok ?r" "room ?r = room r" using that by (simp_all add: cdev_ok_def room_def)
    define d where "d = (let c = (if ctrl \<and> 0x40 \<le> c \<and> c < 0x60 then c - 0x40
      else if shift = caps_lock r then to_lower c else c) in if alt then c + 0x80 else c)"
    have k: "key_pressed c shift alt ctrl r = (if room r then input_putc d ?r else Some r)"
      using False input_full_ok [OF that] by (auto simp: key_pressed_def d_def Let_def)
    show ?thesis
    proof (cases "room r")
      case True
      then obtain s' where "input_putc d ?r = Some s'" "cdev_ok s'"
        "contents (buffer s') = contents (buffer ?r) @ [d]" "contents (txq s') = contents (txq ?r)"
        using input_putc_ok [OF ok'(1)] ok'(2) by blast
      then show ?thesis using k True by (auto simp: room_def)
    next
      case False
      then show ?thesis using k that by auto
    qed
  qed
  obtain code r where r: "read_scancode s = (code, r)" by (cases "read_scancode s")
  have fr: "cdev_ok r" "contents (txq r) = contents (txq s)" "contents (buffer r) = contents (buffer s)"
    using r ok by (auto simp: read_scancode_def inb_def cdev_ok_def Let_def split: if_splits)
  have sk: "cdev_ok (shift_key c d r)" "txq (shift_key c d r) = txq r" "buffer (shift_key c d r) = buffer r" for c d
    using fr(1) by (auto simp: shift_key_def cdev_ok_def)
  have cl: "cdev_ok (r\<lparr>caps_lock := x\<rparr>)" for x using fr(1) by (simp add: cdev_ok_def)
  show ?thesis
    using key [OF fr(1)] fr sk cl
    by (auto simp: keyboard_interrupt_def r Let_def split: option.splits)
qed

end
