(* ===== verification/Block.thy ===== *)
theory Block
  imports Bytes
begin

text \<open>
  \<open>devices/block.c\<close> and \<open>devices/partition.c\<close>: block devices, their roles, and
  partitions as devices on top of devices. The media behind an IDE disk is an array
  of sectors: \<open>ide_read\<close> and \<open>ide_write\<close> keep the assertion of \<open>select_sector\<close> on
  the sector number, the programmed input and output of \<open>devices/ide.c\<close> is not
  modelled.

  Objects that the source gets from \<open>malloc\<close> have identifiers that are never used
  again, 0 is the null pointer; \<open>mem_ok n\<close> says whether the \<open>n\<close>-th allocation
  succeeds. Messages on the console are left out.
\<close>

unbundle bit_operations_syntax

section \<open>Allocation\<close>

type_synonym ptr = nat

record heap =
  allocs :: nat
  mem_ok :: "nat \<Rightarrow> bool"

definition malloc :: "'a heap_scheme \<Rightarrow> ptr \<times> 'a heap_scheme" where
  "malloc s = (if mem_ok s (allocs s) then Suc (allocs s) else 0, s\<lparr>allocs := Suc (allocs s)\<rparr>)"

section \<open>Bytes of a sector\<close>

definition put32 :: "u32 \<Rightarrow> u8 list" where
  "put32 v = [ucast v, ucast (drop_bit 8 v), ucast (drop_bit 16 v), ucast (drop_bit 24 v)]"

definition get16 :: "u8 list \<Rightarrow> nat \<Rightarrow> u16" where
  "get16 bs i = ucast (bs ! i) OR push_bit 8 (ucast (bs ! (i + 1)))"

definition get32 :: "u8 list \<Rightarrow> nat \<Rightarrow> u32" where
  "get32 bs i = ucast (bs ! i) OR push_bit 8 (ucast (bs ! (i + 1))) OR
     push_bit 16 (ucast (bs ! (i + 2))) OR push_bit 24 (ucast (bs ! (i + 3)))"

lemma length_put32 [simp]: "length (put32 v) = 4"
  by (simp add: put32_def)

lemma get32_put32 [simp]: "get32 (put32 v @ bs) 0 = v"
  using bytes_of_word [of v] by (simp add: get32_def put32_def)

section \<open>Block devices\<close>

definition BLOCK_SECTOR_SIZE :: nat where "BLOCK_SECTOR_SIZE = 512"

lemmas [simp] = BLOCK_SECTOR_SIZE_def

datatype block_type = BLOCK_KERNEL | BLOCK_FILESYS | BLOCK_SCRATCH | BLOCK_SWAP | BLOCK_RAW | BLOCK_FOREIGN

text \<open>The operations of a device with their argument \<open>aux\<close>.\<close>

datatype driver = Ide nat | Partition ptr u32

record block =
  bname :: "u8 list"
  btype :: block_type
  bsize :: u32
  ops :: driver

text \<open>
  The devices in the order of registration, the roles, and the sectors of each IDE
  disk. The counters of \<open>struct block\<close> are kept per device.
\<close>

record bsys = heap +
  blocks :: "ptr \<Rightarrow> block option"
  all_blocks :: "ptr list"
  block_by_role :: "block_type \<Rightarrow> ptr"
  read_cnt :: "ptr \<Rightarrow> u64"
  write_cnt :: "ptr \<Rightarrow> u64"
  media :: "nat \<Rightarrow> u32 \<Rightarrow> u8 list"

definition is_role :: "block_type \<Rightarrow> bool" where
  "is_role t \<longleftrightarrow> t \<in> {BLOCK_KERNEL, BLOCK_FILESYS, BLOCK_SCRATCH, BLOCK_SWAP}"

definition block_type_name :: "block_type \<Rightarrow> string" where
  "block_type_name t =
     (case t of BLOCK_KERNEL \<Rightarrow> ''kernel'' | BLOCK_FILESYS \<Rightarrow> ''filesys'' | BLOCK_SCRATCH \<Rightarrow> ''scratch''
      | BLOCK_SWAP \<Rightarrow> ''swap'' | BLOCK_RAW \<Rightarrow> ''raw'' | BLOCK_FOREIGN \<Rightarrow> ''foreign'')"

definition block_get_role :: "block_type \<Rightarrow> 'a bsys_scheme \<Rightarrow> ptr option" where
  "block_get_role role s = do { ASSERT (is_role role); Some (block_by_role s role) }"

definition block_set_role :: "block_type \<Rightarrow> ptr \<Rightarrow> 'a bsys_scheme \<Rightarrow> 'a bsys_scheme option" where
  "block_set_role role b s = do {
     ASSERT (is_role role);
     Some (s\<lparr>block_by_role := (block_by_role s)(role := b)\<rparr>) }"

text \<open>\<open>list_elem_to_block\<close> gives the null pointer at the end of the list.\<close>

definition list_elem_to_block :: "ptr list \<Rightarrow> ptr" where
  "list_elem_to_block bs = (case bs of [] \<Rightarrow> 0 | b # _ \<Rightarrow> b)"

definition block_first :: "'a bsys_scheme \<Rightarrow> ptr" where
  "block_first s = list_elem_to_block (all_blocks s)"

definition block_next :: "ptr \<Rightarrow> 'a bsys_scheme \<Rightarrow> ptr" where
  "block_next b s = list_elem_to_block (tl (dropWhile (\<lambda>x. x \<noteq> b) (all_blocks s)))"

definition block_get_by_name :: "u8 list \<Rightarrow> 'a bsys_scheme \<Rightarrow> ptr option" where
  "block_get_by_name name s = do {
     r \<leftarrow> findM (\<lambda>b. do { blk \<leftarrow> blocks s b; Some (name = bname blk) }) (all_blocks s);
     Some (case r of None \<Rightarrow> 0 | Some b \<Rightarrow> b) }"

definition block_size :: "ptr \<Rightarrow> 'a bsys_scheme \<Rightarrow> u32 option" where
  "block_size b s = map_option bsize (blocks s b)"

definition block_name :: "ptr \<Rightarrow> 'a bsys_scheme \<Rightarrow> u8 list option" where
  "block_name b s = map_option bname (blocks s b)"

definition check_sector :: "block \<Rightarrow> u32 \<Rightarrow> unit option" where
  "check_sector blk sector = ASSERT (\<not> sector \<ge> bsize blk)"

section \<open>Reading and writing\<close>

definition ide_read :: "nat \<Rightarrow> u32 \<Rightarrow> 'a bsys_scheme \<Rightarrow> (u8 list \<times> 'a bsys_scheme) option" where
  "ide_read d sec_no s = do { ASSERT (sec_no < push_bit 28 1); Some (media s d sec_no, s) }"

definition ide_write :: "nat \<Rightarrow> u32 \<Rightarrow> u8 list \<Rightarrow> 'a bsys_scheme \<Rightarrow> 'a bsys_scheme option" where
  "ide_write d sec_no data s = do {
     ASSERT (sec_no < push_bit 28 1);
     Some (s\<lparr>media := (media s)(d := (media s d)(sec_no := data))\<rparr>) }"

text \<open>The operation of the driver is \<open>ide_read\<close>, or \<open>partition_read\<close>, which calls \<open>block_read\<close> again.\<close>

partial_function (option) block_read ::
  "ptr \<Rightarrow> u32 \<Rightarrow> 'a bsys_scheme \<Rightarrow> (u8 list \<times> 'a bsys_scheme) option" where
  "block_read b sector s = do {
     blk \<leftarrow> blocks s b;
     check_sector blk sector;
     (data, s) \<leftarrow> (case ops blk of
        Ide d \<Rightarrow> ide_read d sector s
      | Partition p start \<Rightarrow> block_read p (start + sector) s);
     Some (data, s\<lparr>read_cnt := (read_cnt s)(b := read_cnt s b + 1)\<rparr>) }"

partial_function (option) block_write ::
  "ptr \<Rightarrow> u32 \<Rightarrow> u8 list \<Rightarrow> 'a bsys_scheme \<Rightarrow> 'a bsys_scheme option" where
  "block_write b sector data s = do {
     blk \<leftarrow> blocks s b;
     check_sector blk sector;
     ASSERT (btype blk \<noteq> BLOCK_FOREIGN);
     s \<leftarrow> (case ops blk of
        Ide d \<Rightarrow> ide_write d sector data s
      | Partition p start \<Rightarrow> block_write p (start + sector) data s);
     Some (s\<lparr>write_cnt := (write_cnt s)(b := write_cnt s b + 1)\<rparr>) }"

definition partition_read :: "ptr \<Rightarrow> u32 \<Rightarrow> u32 \<Rightarrow> 'a bsys_scheme \<Rightarrow> (u8 list \<times> 'a bsys_scheme) option" where
  "partition_read p start sector = block_read p (start + sector)"

definition partition_write :: "ptr \<Rightarrow> u32 \<Rightarrow> u32 \<Rightarrow> u8 list \<Rightarrow> 'a bsys_scheme \<Rightarrow> 'a bsys_scheme option" where
  "partition_write p start sector = block_write p (start + sector)"

section \<open>Registration and partitions\<close>

definition block_register ::
  "u8 list \<Rightarrow> block_type \<Rightarrow> u32 \<Rightarrow> driver \<Rightarrow> 'a bsys_scheme \<Rightarrow> (ptr \<times> 'a bsys_scheme) option" where
  "block_register name type sz drv s = do {
     let (b, s) = malloc s;
     ASSERT (b \<noteq> 0);
     let s = s\<lparr>all_blocks := all_blocks s @ [b]\<rparr>;
     let blk = \<lparr>bname = take 15 name, btype = type, bsize = sz, ops = drv\<rparr>;
     Some (b, s\<lparr>blocks := (blocks s)(b \<mapsto> blk), read_cnt := (read_cnt s)(b := 0),
                 write_cnt := (write_cnt s)(b := 0)\<rparr>) }"

fun decimal :: "nat \<Rightarrow> u8 list" where
  "decimal n = (if n < 10 then [48 + word_of_nat n] else decimal (n div 10) @ [48 + word_of_nat (n mod 10)])"

declare decimal.simps [simp del]

definition found_partition ::
  "ptr \<Rightarrow> u8 \<Rightarrow> u32 \<Rightarrow> u32 \<Rightarrow> nat \<Rightarrow> 'a bsys_scheme \<Rightarrow> 'a bsys_scheme option" where
  "found_partition b part_type start sz part_nr s = do {
     n \<leftarrow> block_size b s;
     if start \<ge> n then Some s
     else if start + sz < start \<or> start + sz > n then Some s
     else do {
       let type = (if part_type = 0x20 then BLOCK_KERNEL else if part_type = 0x21 then BLOCK_FILESYS
                   else if part_type = 0x22 then BLOCK_SCRATCH else if part_type = 0x23 then BLOCK_SWAP
                   else BLOCK_FOREIGN);
       let (p, s) = malloc s;
       ASSERT (p \<noteq> 0);
       nm \<leftarrow> block_name b s;
       (_, s) \<leftarrow> block_register (take 15 (nm @ decimal part_nr)) type sz (Partition b start) s;
       Some s } }"

text \<open>An entry of a partition table: type, offset and size.\<close>

definition pt_entry :: "u8 list \<Rightarrow> nat \<Rightarrow> u8 \<times> u32 \<times> u32" where
  "pt_entry pt i = (pt ! (446 + 16 * i + 4), get32 pt (446 + 16 * i + 8), get32 pt (446 + 16 * i + 12))"

definition is_extended :: "u8 \<Rightarrow> bool" where
  "is_extended t \<longleftrightarrow> t = 0x05 \<or> t = 0x0f \<or> t = 0x85 \<or> t = 0xc5"

lemma foldM_mono [partial_function_mono]:
  assumes "\<And>x s. mono_option (\<lambda>f. F f x s)"
  shows "mono_option (\<lambda>f. foldM (F f) xs s)"
proof (induction xs arbitrary: s)
  case (Cons x xs)
  have "mono_option (\<lambda>f. Option.bind (F f x s) (\<lambda>s'. foldM (F f) xs s'))"
    by (intro bind_mono assms Cons.IH)
  then show ?case by simp
qed (simp add: option.const_mono)

text \<open>The number of partitions found so far is threaded through.\<close>

partial_function (option) read_partition_table ::
  "ptr \<Rightarrow> u32 \<Rightarrow> u32 \<Rightarrow> nat \<times> 'a bsys_scheme \<Rightarrow> (nat \<times> 'a bsys_scheme) option" where
  "read_partition_table b sector primary_extended_sector ns = do {
     n \<leftarrow> block_size b (snd ns);
     if sector \<ge> n then Some ns
     else do {
       let (p, s) = malloc (snd ns);
       ASSERT (p \<noteq> 0);
       (pt, s) \<leftarrow> block_read b 0 s;
       if get16 pt 510 \<noteq> 0xaa55 then Some (fst ns, s)
       else foldM (\<lambda>i ns.
              if snd (snd (pt_entry pt i)) = 0 \<or> fst (pt_entry pt i) = 0 then Some ns
              else if is_extended (fst (pt_entry pt i)) then
                if sector = 0
                then read_partition_table b (fst (snd (pt_entry pt i))) (fst (snd (pt_entry pt i))) ns
                else read_partition_table b (fst (snd (pt_entry pt i)) + primary_extended_sector)
                       primary_extended_sector ns
              else do {
                s \<leftarrow> found_partition b (fst (pt_entry pt i)) (fst (snd (pt_entry pt i)) + sector)
                       (snd (snd (pt_entry pt i))) (Suc (fst ns)) (snd ns);
                Some (Suc (fst ns), s) }) [0, 1, 2, 3] (fst ns, s) } }"

definition partition_scan :: "ptr \<Rightarrow> 'a bsys_scheme \<Rightarrow> 'a bsys_scheme option" where
  "partition_scan b s = map_option snd (read_partition_table b 0 0 (0, s))"

section \<open>Where a device's sectors are\<close>

text \<open>Device \<open>b\<close> is the \<open>n\<close> sectors from \<open>off\<close> on of IDE disk \<open>d\<close>.\<close>

inductive maps_to :: "(ptr \<Rightarrow> block option) \<Rightarrow> ptr \<Rightarrow> nat \<Rightarrow> nat \<Rightarrow> nat \<Rightarrow> bool" for bs where
  disk: "bs b = Some blk \<Longrightarrow> ops blk = Ide d \<Longrightarrow> unat (bsize blk) \<le> 2 ^ 28 \<Longrightarrow> btype blk \<noteq> BLOCK_FOREIGN \<Longrightarrow>
    maps_to bs b d 0 (unat (bsize blk))"
| part: "bs b = Some blk \<Longrightarrow> ops blk = Partition p start \<Longrightarrow> maps_to bs p d off n \<Longrightarrow>
    unat start + unat (bsize blk) \<le> n \<Longrightarrow> btype blk \<noteq> BLOCK_FOREIGN \<Longrightarrow>
    maps_to bs b d (off + unat start) (unat (bsize blk))"

inductive_cases maps_toE: "maps_to bs b d off n"

lemma maps_to_bound: "maps_to bs b d off n \<Longrightarrow> off + n \<le> 2 ^ 28"
  by (induction rule: maps_to.induct) auto

lemma maps_to_size: "maps_to bs b d off n \<Longrightarrow> \<exists>blk. bs b = Some blk \<and> unat (bsize blk) = n \<and> btype blk \<noteq> BLOCK_FOREIGN"
  by (auto elim: maps_toE)

lemma maps_to_fresh:
  "maps_to bs b d off n \<Longrightarrow> bs b' = None \<Longrightarrow> maps_to (bs(b' \<mapsto> blk)) b d off n"
proof (induction rule: maps_to.induct)
  case (disk b blk' d)
  then show ?case by (intro maps_to.disk) auto
next
  case (part b blk' p start d off n)
  then show ?case by (intro maps_to.part) auto
qed

lemma sector_sum:
  fixes start sec :: u32
  assumes "unat start + unat sec < 2 ^ 32"
  shows "unat (start + sec) = unat start + unat sec"
  using assms by (simp add: unat_add_lem [symmetric])

lemma block_read_maps:
  assumes "maps_to bs b d off n" and "bs = blocks s" and "unat sec < n"
  shows "\<exists>c. block_read b sec s = Some (media s d (word_of_nat (off + unat sec)), s\<lparr>read_cnt := c\<rparr>)"
  using assms
proof (induction arbitrary: sec rule: maps_to.induct)
  case (disk b blk d)
  have "sec < 268435456" using disk by (simp add: word_less_nat_alt)
  then show ?case
    using disk
    by (subst block_read.simps) (auto simp: check_sector_def ide_read_def word_less_nat_alt word_le_nat_alt)
next
  case (part b blk p start d off n)
  have b: "off + n \<le> 2 ^ 28" by (rule maps_to_bound [OF part.hyps(3)])
  have u: "unat (start + sec) = unat start + unat sec" by (rule sector_sum) (use part.hyps(4) part.prems(2) b in simp)
  have lt: "unat (start + sec) < n" using u part.hyps(4) part.prems(2) by simp
  obtain c where "block_read p (start + sec) s =
      Some (media s d (word_of_nat (off + unat (start + sec))), s\<lparr>read_cnt := c\<rparr>)"
    using part.IH [OF part.prems(1) lt] by blast
  then show ?case
    using part.hyps(1,2) part.prems u
    by (subst block_read.simps) (auto simp: check_sector_def word_le_nat_alt add.assoc)
qed

lemma block_write_maps:
  assumes "maps_to bs b d off n" and "bs = blocks s" and "unat sec < n"
  shows "\<exists>c. block_write b sec data s =
    Some (s\<lparr>media := (media s)(d := (media s d)(word_of_nat (off + unat sec) := data)), write_cnt := c\<rparr>)"
  using assms
proof (induction arbitrary: sec rule: maps_to.induct)
  case (disk b blk d)
  have "sec < 268435456" using disk by (simp add: word_less_nat_alt)
  then show ?case
    using disk
    by (subst block_write.simps) (auto simp: check_sector_def ide_write_def word_less_nat_alt word_le_nat_alt)
next
  case (part b blk p start d off n)
  have b: "off + n \<le> 2 ^ 28" by (rule maps_to_bound [OF part.hyps(3)])
  have u: "unat (start + sec) = unat start + unat sec" by (rule sector_sum) (use part.hyps(4) part.prems(2) b in simp)
  have lt: "unat (start + sec) < n" using u part.hyps(4) part.prems(2) by simp
  obtain c where "block_write p (start + sec) data s =
      Some (s\<lparr>media := (media s)(d := (media s d)(word_of_nat (off + unat (start + sec)) := data)), write_cnt := c\<rparr>)"
    using part.IH [OF part.prems(1) lt] by blast
  then show ?case
    using part.hyps(1,2,5) part.prems u
    by (subst block_write.simps) (auto simp: check_sector_def word_le_nat_alt add.assoc)
qed

lemma block_access_past_end:
  assumes "blocks s b = Some blk" and "sec \<ge> bsize blk"
  shows "block_read b sec s = None" and "block_write b sec data s = None"
  using assms by (subst block_read.simps block_write.simps; simp add: check_sector_def)+

lemma found_partition_registers:
  assumes run: "found_partition b ty start sz nr s = Some s'" and new: "all_blocks s' \<noteq> all_blocks s"
    and base: "maps_to (blocks s) b d off n" and fresh: "blocks s (allocs s + 2) = None"
    and ty: "ty \<in> {0x20, 0x21, 0x22, 0x23}"
  shows "\<exists>b'. all_blocks s' = all_blocks s @ [b'] \<and> maps_to (blocks s') b' d (off + unat start) (unat sz) \<and>
    unat start + unat sz \<le> n \<and> media s' = media s \<and> blocks s b' = None"
proof -
  obtain blk where blk: "blocks s b = Some blk" "unat (bsize blk) = n" using maps_to_size [OF base] by blast
  have c: "\<not> bsize blk \<le> start" "\<not> (start + sz < start \<or> start + sz > bsize blk)"
    using run new blk(1) by (auto simp: found_partition_def block_size_def split: if_splits)
  then have le: "unat start + unat sz \<le> n"
    using blk(2) u32_lt [of sz]
    by (auto simp: word_le_nat_alt word_less_nat_alt unat_plus_if' simp del: u32_lt split: if_splits)
  let ?type = "if ty = 0x20 then BLOCK_KERNEL else if ty = 0x21 then BLOCK_FILESYS
    else if ty = 0x22 then BLOCK_SCRATCH else BLOCK_SWAP"
  let ?nb = "\<lparr>bname = take 15 (take 15 (bname blk @ decimal nr)), btype = ?type, bsize = sz, ops = Partition b start\<rparr>"
  have bt: "?type \<noteq> BLOCK_FOREIGN" by simp
  have eq: "all_blocks s' = all_blocks s @ [allocs s + 2]" "blocks s' = (blocks s)(allocs s + 2 \<mapsto> ?nb)"
    "media s' = media s"
    using run c blk(1) ty
    by (auto simp: found_partition_def block_size_def block_name_def block_register_def malloc_def Let_def
        split: if_splits)
  have "maps_to (blocks s') b d off n" unfolding eq(2) by (rule maps_to_fresh [OF base fresh])
  then have "maps_to (blocks s') (allocs s + 2) d (off + unat start) (unat (bsize ?nb))"
    by (intro maps_to.part) (use le bt eq(2) in auto)
  then show ?thesis using eq le fresh by auto
qed

text \<open>C19: Partitions are isolated. When the scan registers a partition of a Pintos
type on a device, every sector of it lies inside that device; reading a sector of
the partition returns exactly the sector at its offset on the disk, writing one
changes that sector of that disk and nothing else, and an access past the
partition's end is a panic, even if the underlying device has the sector.\<close>

theorem partition_isolation:
  assumes run: "found_partition b ty start sz nr s = Some s'" and new: "all_blocks s' \<noteq> all_blocks s"
    and base: "maps_to (blocks s) b d off n" and fresh: "blocks s (allocs s + 2) = None"
    and ty: "ty \<in> {0x20, 0x21, 0x22, 0x23}"
  shows "\<exists>b'. all_blocks s' = all_blocks s @ [b'] \<and> unat start + unat sz \<le> n \<and>
    (\<forall>sec data. if unat sec < unat sz
       then (\<exists>s1. block_read b' sec s' = Some (media s' d (word_of_nat (off + unat start + unat sec)), s1)) \<and>
         (\<exists>s2. block_write b' sec data s' = Some s2 \<and>
           (\<forall>d' k. media s2 d' k = (if d' = d \<and> k = word_of_nat (off + unat start + unat sec) then data else media s d' k)))
       else block_read b' sec s' = None \<and> block_write b' sec data s' = None)"
proof -
  obtain b' where b': "all_blocks s' = all_blocks s @ [b']" "maps_to (blocks s') b' d (off + unat start) (unat sz)"
    "unat start + unat sz \<le> n" "media s' = media s"
    using found_partition_registers [OF assms] by blast
  obtain blk where blk: "blocks s' b' = Some blk" "unat (bsize blk) = unat sz" using maps_to_size [OF b'(2)] by blast
  have past: "block_read b' sec s' = None \<and> block_write b' sec data s' = None" if "\<not> unat sec < unat sz" for sec data
    using block_access_past_end [OF blk(1)] that blk(2) by (simp add: word_le_nat_alt)
  have rd: "\<exists>s1. block_read b' sec s' = Some (media s' d (word_of_nat (off + unat start + unat sec)), s1)"
    if "unat sec < unat sz" for sec using block_read_maps [OF b'(2) refl that] by blast
  have wr: "\<exists>s2. block_write b' sec data s' = Some s2 \<and>
      (\<forall>d' k. media s2 d' k = (if d' = d \<and> k = word_of_nat (off + unat start + unat sec) then data else media s d' k))"
    if "unat sec < unat sz" for sec data
    using block_write_maps [OF b'(2) refl that, of data] b'(4) by auto
  show ?thesis using b'(1,3) past rd wr by (intro exI [of _ b']) simp
qed

definition demo_disk :: "u32 \<Rightarrow> u8 list" where
  "demo_disk = (\<lambda>k. replicate 512 (ucast k))"

definition demo_bsys :: bsys where
  "demo_bsys = \<lparr>allocs = 1, mem_ok = (\<lambda>_. True),
     blocks = [1 \<mapsto> \<lparr>bname = [104, 100, 97], btype = BLOCK_RAW, bsize = 1000, ops = Ide 0\<rparr>], all_blocks = [1],
     block_by_role = (\<lambda>_. 0), read_cnt = (\<lambda>_. 0), write_cnt = (\<lambda>_. 0), media = (\<lambda>_. demo_disk)\<rparr>"

lemma demo_bsys_maps: "maps_to (blocks demo_bsys) 1 0 0 1000"
proof -
  let ?blk = "\<lparr>bname = [104, 100, 97], btype = BLOCK_RAW, bsize = 1000, ops = Ide 0\<rparr> :: block"
  have "maps_to (blocks demo_bsys) 1 0 0 (unat (bsize ?blk))"
    by (rule maps_to.disk [of _ _ ?blk]) (simp_all add: demo_bsys_def)
  then show ?thesis by simp
qed

theorem partition_isolation_witness:
  "\<exists>s' b'. found_partition 1 0x21 100 200 1 demo_bsys = Some s' \<and> maps_to (blocks demo_bsys) 1 0 0 1000 \<and>
     all_blocks s' = [1, b'] \<and> (\<exists>s1. block_read b' 7 s' = Some (media s' 0 107, s1)) \<and> block_read b' 300 s' = None"
proof -
  obtain s' where s': "found_partition 1 0x21 100 200 1 demo_bsys = Some s'" "all_blocks s' = [1, 3]"
    by (simp add: found_partition_def demo_bsys_def block_size_def block_name_def malloc_def block_register_def
        word_le_nat_alt word_less_nat_alt)
  have n: "all_blocks s' \<noteq> all_blocks demo_bsys" using s'(2) by (simp add: demo_bsys_def)
  have f: "blocks demo_bsys (allocs demo_bsys + 2) = None" by (simp add: demo_bsys_def)
  have t: "(0x21 :: u8) \<in> {0x20, 0x21, 0x22, 0x23}" by simp
  obtain b' where b': "all_blocks s' = all_blocks demo_bsys @ [b']"
    "\<forall>sec data. if unat sec < unat (200 :: u32)
       then (\<exists>s1. block_read b' sec s' = Some (media s' 0 (word_of_nat (0 + unat (100 :: u32) + unat sec)), s1)) \<and>
         (\<exists>s2. block_write b' sec data s' = Some s2 \<and>
           (\<forall>d' k. media s2 d' k = (if d' = 0 \<and> k = word_of_nat (0 + unat (100 :: u32) + unat sec) then data
              else media demo_bsys d' k)))
       else block_read b' sec s' = None \<and> block_write b' sec data s' = None"
    using partition_isolation [OF s'(1) n demo_bsys_maps f t] by blast
  have "\<exists>s1. block_read b' 7 s' = Some (media s' 0 107, s1)" using b'(2) [rule_format, of 7 "[]"] by simp
  moreover have "block_read b' 300 s' = None" using b'(2) [rule_format, of 300 "[]"] by simp
  ultimately show ?thesis using s' b'(1) demo_bsys_maps by (auto simp: demo_bsys_def)
qed

section \<open>Extended partitions\<close>

text \<open>
  The scan of an extended partition reads sector 0 again instead of the sector it
  was given.
\<close>

definition mbr_extended :: "u8 list \<Rightarrow> u32 \<Rightarrow> bool" where
  "mbr_extended pt ofs \<longleftrightarrow> get16 pt 510 = 0xaa55 \<and> fst (snd (pt_entry pt 0)) = ofs \<and>
     is_extended (fst (pt_entry pt 0)) \<and> snd (snd (pt_entry pt 0)) \<noteq> 0"

lemma is_extended_nz: "is_extended t \<Longrightarrow> t \<noteq> 0"
  by (auto simp: is_extended_def)

lemma foldM_ConsD: "foldM f (x # xs) s = Some r \<Longrightarrow> \<exists>s'. f x s = Some s'"
  by (cases "f x s") auto

lemma read_partition_table_stuck:
  assumes "read_partition_table b sector prim ns = Some r"
  shows "\<not> (maps_to (blocks (snd ns)) b d off n \<and> mbr_extended (media (snd ns) d (word_of_nat off)) ofs \<and>
    2 * unat ofs < n \<and> (sector = 0 \<or> (sector = ofs \<or> sector = ofs + ofs) \<and> prim = ofs \<and> sector \<noteq> 0))"
proof (rule read_partition_table.raw_induct [where P = "\<lambda>b sector prim ns _. \<not> (maps_to (blocks (snd ns)) b d off n \<and>
    mbr_extended (media (snd ns) d (word_of_nat off)) ofs \<and> 2 * unat ofs < n \<and>
    (sector = 0 \<or> (sector = ofs \<or> sector = ofs + ofs) \<and> prim = ofs \<and> sector \<noteq> 0))", OF _ assms], goal_cases)
  case (1 rpt b sector prim ns r)
  show ?case
  proof (rule notI, elim conjE)
    assume m: "maps_to (blocks (snd ns)) b d off n" and x: "mbr_extended (media (snd ns) d (word_of_nat off)) ofs"
      and n: "2 * unat ofs < n"
      and sec: "sector = 0 \<or> (sector = ofs \<or> sector = ofs + ofs) \<and> prim = ofs \<and> sector \<noteq> 0"
    obtain blk where blk: "blocks (snd ns) b = Some blk" "unat (bsize blk) = n" using maps_to_size [OF m] by blast
    have u2: "unat (ofs + ofs) = 2 * unat ofs"
      by (subst sector_sum) (use n blk(2) u32_lt [of "bsize blk"] in simp_all)
    have lt: "\<not> bsize blk \<le> sector" using sec n u2 blk(2) by (auto simp: word_le_nat_alt)
    let ?s = "snd (malloc (snd ns))"
    have ms: "maps_to (blocks ?s) b d off n" using m by (simp add: malloc_def)
    obtain c where c: "block_read b 0 ?s = Some (media ?s d (word_of_nat (off + unat (0 :: u32))), ?s\<lparr>read_cnt := c\<rparr>)"
      using block_read_maps [OF ms refl, of 0] n by auto
    let ?t = "?s\<lparr>read_cnt := c\<rparr>"
    have pt: "media ?s d (word_of_nat (off + unat (0 :: u32))) = media (snd ns) d (word_of_nat off)"
      by (simp add: malloc_def)
    let ?sec = "if sector = 0 then ofs else ofs + prim" let ?prim = "if sector = 0 then ofs else prim"
    have "\<exists>r'. rpt b ?sec ?prim (fst ns, ?t) = Some r'"
    proof -
      let ?pt = "media (snd ns) d (word_of_nat off)"
      let ?F = "\<lambda>i ns. if snd (snd (pt_entry ?pt i)) = 0 \<or> fst (pt_entry ?pt i) = 0 then Some ns
              else if is_extended (fst (pt_entry ?pt i)) then
                if sector = 0 then rpt b (fst (snd (pt_entry ?pt i))) (fst (snd (pt_entry ?pt i))) ns
                else rpt b (fst (snd (pt_entry ?pt i)) + prim) prim ns
              else do {
                s \<leftarrow> found_partition b (fst (pt_entry ?pt i)) (fst (snd (pt_entry ?pt i)) + sector)
                       (snd (snd (pt_entry ?pt i))) (Suc (fst ns)) (snd ns);
                Some (Suc (fst ns), s) }"
      have sig: "get16 ?pt 510 = 0xaa55" using x by (simp add: mbr_extended_def)
      have f: "foldM ?F [0, 1, 2, 3] (fst ns, ?t) = Some r"
        using "1"(2) blk(1) lt c sig unfolding pt
        by (simp add: block_size_def Let_def split_def cong: if_cong del: foldM.simps)
      have f0: "?F 0 (fst ns, ?t) = rpt b ?sec ?prim (fst ns, ?t)"
        using x is_extended_nz by (simp add: mbr_extended_def)
      from foldM_ConsD [OF f] f0 show ?thesis by simp
    qed
    moreover have "?sec = 0 \<or> (?sec = ofs \<or> ?sec = ofs + ofs) \<and> ?prim = ofs \<and> ?sec \<noteq> 0" using sec by auto
    moreover have "maps_to (blocks ?t) b d off n" "mbr_extended (media ?t d (word_of_nat off)) ofs"
      using m x by (simp_all add: malloc_def)
    ultimately show False using "1"(1) n by fastforce
  qed
qed

text \<open>C34: Scanning a disk whose first partition table entry is an extended partition
that starts in the first half of the disk never returns: the recursive call reads
the master boot record again, finds the same entry, and so on.\<close>

theorem extended_partition_never_returns:
  assumes "maps_to (blocks s) b d off n" and "get16 (media s d (word_of_nat off)) 510 = 0xaa55"
    and "pt_entry (media s d (word_of_nat off)) 0 = (ty, ofs, sz)" and "is_extended ty" and "sz \<noteq> 0"
    and "2 * unat ofs < n"
  shows "partition_scan b s = None"
proof (rule ccontr)
  assume "partition_scan b s \<noteq> None"
  then obtain r where "read_partition_table b 0 0 (0, s) = Some r" by (auto simp: partition_scan_def)
  from read_partition_table_stuck [OF this] assms show False by (fastforce simp: mbr_extended_def)
qed

definition demo_mbr :: "u8 list" where
  "demo_mbr = replicate 446 0 @ [0, 0, 0, 0, 5, 0, 0, 0, 10, 0, 0, 0, 50, 0, 0, 0] @ replicate 48 0 @ [0x55, 0xaa]"

theorem extended_partition_never_returns_witness:
  "maps_to (blocks (demo_bsys\<lparr>media := (\<lambda>_ _. demo_mbr)\<rparr>)) 1 0 0 1000 \<and> is_extended 5 \<and>
   partition_scan 1 (demo_bsys\<lparr>media := (\<lambda>_ _. demo_mbr)\<rparr>) = None"
proof -
  let ?s = "demo_bsys\<lparr>media := (\<lambda>_ _. demo_mbr)\<rparr>"
  have m: "maps_to (blocks ?s) 1 0 0 1000" using demo_bsys_maps by simp
  have g: "get16 (media ?s 0 (word_of_nat 0)) 510 = 0xaa55"
    by (simp add: get16_def demo_mbr_def nth_append)
  have e: "pt_entry (media ?s 0 (word_of_nat 0)) 0 = (5, 10, 50)"
    by (simp add: pt_entry_def get32_def demo_mbr_def nth_append)
  have x: "is_extended 5" by (simp add: is_extended_def)
  show ?thesis using extended_partition_never_returns [OF m g e x] m x by simp
qed

end
