(* ===== verification/Inode.thy ===== *)
theory Inode
  imports Block Bitmap "HOL-Library.Signed_Division"
begin

text \<open>
  \<open>filesys/inode.c\<close>, \<open>filesys/file.c\<close>, \<open>filesys/free-map.c\<close> and the file transfer
  of \<open>lib/kernel/bitmap.c\<close>: the file system below directories, on the block
  devices of theory \<open>Block\<close>. \<open>off_t\<close> is a signed 32-bit integer, here \<open>int\<close>; what
  is stored on disk is converted with \<open>word_of_int\<close> and \<open>sint\<close>. A buffer is the list of its bytes:
  reading returns the bytes read, writing is given the bytes. A pointer to an
  object that does not exist (any more) has no result.
\<close>

unbundle bit_operations_syntax

section \<open>State\<close>

definition INODE_MAGIC :: u32 where "INODE_MAGIC = 0x494e4f44"
definition FREE_MAP_SECTOR :: u32 where "FREE_MAP_SECTOR = 0"
definition ROOT_DIR_SECTOR :: u32 where "ROOT_DIR_SECTOR = 1"

record inode_disk =
  d_start :: u32
  d_length :: int
  d_magic :: u32

record inode =
  i_sector :: u32
  open_cnt :: int
  removed :: bool
  deny_write_cnt :: int
  idata :: inode_disk

record ofile =
  f_inode :: ptr
  pos :: int
  deny_write :: bool

record dir =
  dir_inode :: ptr
  dir_pos :: int

record fsys = bsys +
  fs_device :: ptr
  inodes :: "ptr \<Rightarrow> inode option"
  open_inodes :: "ptr list"
  files :: "ptr \<Rightarrow> ofile option"
  dirs :: "ptr \<Rightarrow> dir option"
  free_map :: bitmap
  free_map_file :: ptr

definition disk_bytes :: "inode_disk \<Rightarrow> u8 list" where
  "disk_bytes d = put32 (d_start d) @ put32 (word_of_int (d_length d)) @ put32 (d_magic d) @ replicate 500 0"

definition parse_inode :: "u8 list \<Rightarrow> inode_disk" where
  "parse_inode bs = \<lparr>d_start = get32 bs 0, d_length = sint (get32 bs 4), d_magic = get32 bs 8\<rparr>"

definition bytes_to_sectors :: "int \<Rightarrow> u32" where
  "bytes_to_sectors sz = word_of_int ((sz + 512 - 1) sdiv 512)"

definition byte_to_sector :: "inode \<Rightarrow> int \<Rightarrow> u32" where
  "byte_to_sector ino p =
     (if p < d_length (idata ino) then d_start (idata ino) + word_of_int (p sdiv 512) else - 1)"

definition inode_length :: "inode \<Rightarrow> int" where
  "inode_length ino = d_length (idata ino)"

definition upd_inode :: "ptr \<Rightarrow> (inode \<Rightarrow> inode) \<Rightarrow> 'a fsys_scheme \<Rightarrow> 'a fsys_scheme option" where
  "upd_inode i f s = do { ino \<leftarrow> inodes s i; Some (s\<lparr>inodes := (inodes s)(i \<mapsto> f ino)\<rparr>) }"

section \<open>Reading and writing an inode\<close>

definition chunk :: "inode \<Rightarrow> int \<Rightarrow> int \<Rightarrow> int" where
  "chunk ino sz offset =
     (let sector_ofs = offset smod 512;
          inode_left = inode_length ino - offset;
          sector_left = 512 - sector_ofs;
          min_left = (if inode_left < sector_left then inode_left else sector_left)
      in if sz < min_left then sz else min_left)"

text \<open>\<open>bounce\<close>: the bounce buffer has been allocated.\<close>

definition get_bounce :: "bool \<Rightarrow> 'a fsys_scheme \<Rightarrow> bool \<times> 'a fsys_scheme" where
  "get_bounce bounce s = (if bounce then (True, s) else (let (p, s) = malloc s in (p \<noteq> 0, s)))"

partial_function (option) read_loop ::
  "inode \<Rightarrow> bool \<Rightarrow> int \<Rightarrow> int \<Rightarrow> u8 list \<Rightarrow> 'a fsys_scheme \<Rightarrow> (u8 list \<times> 'a fsys_scheme) option" where
  "read_loop ino bounce sz offset bytes_read s =
     (if sz > 0 then
        let sector_idx = byte_to_sector ino offset;
            sector_ofs = offset smod 512;
            chunk_size = chunk ino sz offset
        in if chunk_size \<le> 0 then Some (bytes_read, s)
           else if sector_ofs = 0 \<and> chunk_size = 512 then do {
             (data, s) \<leftarrow> block_read (fs_device s) sector_idx s;
             read_loop ino bounce (sz - chunk_size) (offset + chunk_size) (bytes_read @ data) s }
           else (let (bounce, s) = get_bounce bounce s
             in if \<not> bounce then Some (bytes_read, s)
                else do {
                  (data, s) \<leftarrow> block_read (fs_device s) sector_idx s;
                  read_loop ino bounce (sz - chunk_size) (offset + chunk_size)
                    (bytes_read @ take (nat chunk_size) (drop (nat sector_ofs) data)) s })
      else Some (bytes_read, s))"

definition inode_read_at :: "ptr \<Rightarrow> int \<Rightarrow> int \<Rightarrow> 'a fsys_scheme \<Rightarrow> (u8 list \<times> 'a fsys_scheme) option" where
  "inode_read_at i sz offset s = do {
     ino \<leftarrow> inodes s i;
     read_loop ino False sz offset [] s }"

text \<open>\<open>bs\<close> after the first \<open>ofs\<close> bytes replaced by \<open>xs\<close>: \<open>memcpy (bs + ofs, xs, length xs)\<close>.\<close>

definition overlay :: "u8 list \<Rightarrow> nat \<Rightarrow> u8 list \<Rightarrow> u8 list" where
  "overlay bs ofs xs = take ofs bs @ xs @ drop (ofs + length xs) bs"

partial_function (option) write_loop ::
  "inode \<Rightarrow> bool \<Rightarrow> u8 list \<Rightarrow> int \<Rightarrow> int \<Rightarrow> int \<Rightarrow> 'a fsys_scheme \<Rightarrow> (int \<times> 'a fsys_scheme) option" where
  "write_loop ino bounce buffer sz offset bytes_written s =
     (if sz > 0 then
        let sector_idx = byte_to_sector ino offset;
            sector_ofs = offset smod 512;
            sector_left = 512 - sector_ofs;
            chunk_size = chunk ino sz offset;
            part = take (nat chunk_size) (drop (nat bytes_written) buffer)
        in if chunk_size \<le> 0 then Some (bytes_written, s)
           else if sector_ofs = 0 \<and> chunk_size = 512 then do {
             s \<leftarrow> block_write (fs_device s) sector_idx part s;
             write_loop ino bounce buffer (sz - chunk_size) (offset + chunk_size) (bytes_written + chunk_size) s }
           else (let (bounce, s) = get_bounce bounce s
             in if \<not> bounce then Some (bytes_written, s)
                else do {
                  (data, s) \<leftarrow> (if sector_ofs > 0 \<or> chunk_size < sector_left
                                 then block_read (fs_device s) sector_idx s
                                 else Some (replicate 512 0, s));
                  s \<leftarrow> block_write (fs_device s) sector_idx (overlay data (nat sector_ofs) part) s;
                  write_loop ino bounce buffer (sz - chunk_size) (offset + chunk_size)
                    (bytes_written + chunk_size) s })
      else Some (bytes_written, s))"

definition inode_write_at ::
  "ptr \<Rightarrow> u8 list \<Rightarrow> int \<Rightarrow> int \<Rightarrow> 'a fsys_scheme \<Rightarrow> (int \<times> 'a fsys_scheme) option" where
  "inode_write_at i buffer sz offset s = do {
     ino \<leftarrow> inodes s i;
     if deny_write_cnt ino \<noteq> 0 then Some (0, s)
     else write_loop ino False buffer sz offset 0 s }"

section \<open>Opening, closing, removing\<close>

definition inode_init :: "'a fsys_scheme \<Rightarrow> 'a fsys_scheme" where
  "inode_init s = s\<lparr>open_inodes := []\<rparr>"

definition inode_reopen :: "ptr \<Rightarrow> 'a fsys_scheme \<Rightarrow> (ptr \<times> 'a fsys_scheme) option" where
  "inode_reopen i s =
     (if i \<noteq> 0 then do {
        s \<leftarrow> upd_inode i (\<lambda>ino. ino\<lparr>open_cnt := open_cnt ino + 1\<rparr>) s;
        Some (i, s) }
      else Some (i, s))"

definition inode_get_inumber :: "ptr \<Rightarrow> 'a fsys_scheme \<Rightarrow> u32 option" where
  "inode_get_inumber i s = map_option i_sector (inodes s i)"

definition inode_open :: "u32 \<Rightarrow> 'a fsys_scheme \<Rightarrow> (ptr \<times> 'a fsys_scheme) option" where
  "inode_open sector s = do {
     hit \<leftarrow> findM (\<lambda>i. do { ino \<leftarrow> inodes s i; Some (i_sector ino = sector) }) (open_inodes s);
     case hit of
       Some i \<Rightarrow> inode_reopen i s
     | None \<Rightarrow> do {
         let (i, s) = malloc s;
         if i = 0 then Some (0, s)
         else do {
           let s = s\<lparr>open_inodes := i # open_inodes s\<rparr>;
           (data, s) \<leftarrow> block_read (fs_device s) sector s;
           let ino = \<lparr>i_sector = sector, open_cnt = 1, removed = False, deny_write_cnt = 0,
                      idata = parse_inode data\<rparr>;
           Some (i, s\<lparr>inodes := (inodes s)(i \<mapsto> ino)\<rparr>) } } }"

definition inode_remove :: "ptr \<Rightarrow> 'a fsys_scheme \<Rightarrow> 'a fsys_scheme option" where
  "inode_remove i s = do {
     ASSERT (i \<noteq> 0);
     upd_inode i (\<lambda>ino. ino\<lparr>removed := True\<rparr>) s }"

definition inode_deny_write :: "ptr \<Rightarrow> 'a fsys_scheme \<Rightarrow> 'a fsys_scheme option" where
  "inode_deny_write i s = do {
     ino \<leftarrow> inodes s i;
     let ino = ino\<lparr>deny_write_cnt := deny_write_cnt ino + 1\<rparr>;
     ASSERT (deny_write_cnt ino \<le> open_cnt ino);
     Some (s\<lparr>inodes := (inodes s)(i \<mapsto> ino)\<rparr>) }"

definition inode_allow_write :: "ptr \<Rightarrow> 'a fsys_scheme \<Rightarrow> 'a fsys_scheme option" where
  "inode_allow_write i s = do {
     ino \<leftarrow> inodes s i;
     ASSERT (deny_write_cnt ino > 0);
     ASSERT (deny_write_cnt ino \<le> open_cnt ino);
     Some (s\<lparr>inodes := (inodes s)(i \<mapsto> ino\<lparr>deny_write_cnt := deny_write_cnt ino - 1\<rparr>)\<rparr>) }"

section \<open>The free map\<close>

definition file_read_at :: "ptr \<Rightarrow> int \<Rightarrow> int \<Rightarrow> 'a fsys_scheme \<Rightarrow> (u8 list \<times> 'a fsys_scheme) option" where
  "file_read_at f sz file_ofs s = do { fl \<leftarrow> files s f; inode_read_at (f_inode fl) sz file_ofs s }"

definition file_write_at :: "ptr \<Rightarrow> u8 list \<Rightarrow> int \<Rightarrow> int \<Rightarrow> 'a fsys_scheme \<Rightarrow> (int \<times> 'a fsys_scheme) option" where
  "file_write_at f buffer sz file_ofs s = do { fl \<leftarrow> files s f; inode_write_at (f_inode fl) buffer sz file_ofs s }"

definition bitmap_file_size :: "bitmap \<Rightarrow> u32" where
  "bitmap_file_size b = byte_cnt (bit_cnt b)"

fun words_of :: "u8 list \<Rightarrow> u32 list" where
  "words_of (a # b # c # d # bs) = get32 [a, b, c, d] 0 # words_of bs"
| "words_of bs = []"

text \<open>A short read overwrites the first bytes of the map.\<close>

definition bitmap_read :: "bitmap \<Rightarrow> ptr \<Rightarrow> 'a fsys_scheme \<Rightarrow> (bool \<times> bitmap \<times> 'a fsys_scheme) option" where
  "bitmap_read b f s =
     (if bit_cnt b > 0 then do {
        let sz = sint (byte_cnt (bit_cnt b));
        (bs, s) \<leftarrow> file_read_at f sz 0 s;
        let ws = words_of (bs @ drop (length bs) (concat (map put32 (bits b))));
        let k = unat (elem_cnt (bit_cnt b)) - 1;
        Some (int (length bs) = sz, b\<lparr>bits := ws[k := ws ! k AND last_mask b]\<rparr>, s) }
      else Some (True, b, s))"

definition bitmap_write :: "bitmap \<Rightarrow> ptr \<Rightarrow> 'a fsys_scheme \<Rightarrow> (bool \<times> 'a fsys_scheme) option" where
  "bitmap_write b f s = do {
     let sz = sint (byte_cnt (bit_cnt b));
     (n, s) \<leftarrow> file_write_at f (concat (map put32 (bits b))) sz 0 s;
     Some (n = sz, s) }"

text \<open>\<open>junk\<close>: the uninitialised words of the new bitmap.\<close>

definition free_map_init :: "u32 list \<Rightarrow> 'a fsys_scheme \<Rightarrow> 'a fsys_scheme option" where
  "free_map_init junk s = do {
     n \<leftarrow> block_size (fs_device s) s;
     let (d, s) = malloc s;
     let (e, s) = (if d \<noteq> 0 then malloc s else (0, s));
     b \<leftarrow> bitmap_create n (d \<noteq> 0) (if e \<noteq> 0 then Some (take (unat (elem_cnt n)) junk) else None);
     b \<leftarrow> b;
     b \<leftarrow> bitmap_mark b FREE_MAP_SECTOR;
     b \<leftarrow> bitmap_mark b ROOT_DIR_SECTOR;
     Some (s\<lparr>free_map := b\<rparr>) }"

text \<open>The result is the first sector, if there is one.\<close>

definition free_map_allocate :: "u32 \<Rightarrow> 'a fsys_scheme \<Rightarrow> (u32 option \<times> 'a fsys_scheme) option" where
  "free_map_allocate cnt s = do {
     (sector, b) \<leftarrow> bitmap_scan_and_flip (free_map s) 0 cnt False;
     let s = s\<lparr>free_map := b\<rparr>;
     (sector, s) \<leftarrow>
       (if sector \<noteq> BITMAP_ERROR \<and> free_map_file s \<noteq> 0 then do {
          (success, s) \<leftarrow> bitmap_write (free_map s) (free_map_file s) s;
          if success then Some (sector, s)
          else do {
            b \<leftarrow> bitmap_set_multiple (free_map s) sector cnt False;
            Some (BITMAP_ERROR, s\<lparr>free_map := b\<rparr>) } }
        else Some (sector, s));
     Some (if sector \<noteq> BITMAP_ERROR then Some sector else None, s) }"

definition free_map_release :: "u32 \<Rightarrow> u32 \<Rightarrow> 'a fsys_scheme \<Rightarrow> 'a fsys_scheme option" where
  "free_map_release sector cnt s = do {
     all_set \<leftarrow> bitmap_all (free_map s) sector cnt;
     ASSERT all_set;
     b \<leftarrow> bitmap_set_multiple (free_map s) sector cnt False;
     let s = s\<lparr>free_map := b\<rparr>;
     (_, s) \<leftarrow> bitmap_write (free_map s) (free_map_file s) s;
     Some s }"

section \<open>Creating and closing inodes\<close>

definition inode_create :: "u32 \<Rightarrow> int \<Rightarrow> 'a fsys_scheme \<Rightarrow> (bool \<times> 'a fsys_scheme) option" where
  "inode_create sector len s = do {
     ASSERT (len \<ge> 0);
     let (p, s) = malloc s;
     if p \<noteq> 0 then do {
       let sectors = bytes_to_sectors len;
       (start, s) \<leftarrow> free_map_allocate sectors s;
       case start of
         None \<Rightarrow> Some (False, s)
       | Some start \<Rightarrow> do {
           s \<leftarrow> block_write (fs_device s) sector
                  (disk_bytes \<lparr>d_start = start, d_length = len, d_magic = INODE_MAGIC\<rparr>) s;
           s \<leftarrow> foldM (\<lambda>i s. block_write (fs_device s) (start + word_of_nat i) (replicate 512 0) s)
                  [0..<unat sectors] s;
           Some (True, s) } }
     else Some (False, s) }"

definition inode_close :: "ptr \<Rightarrow> 'a fsys_scheme \<Rightarrow> 'a fsys_scheme option" where
  "inode_close i s =
     (if i = 0 then Some s
      else do {
        s \<leftarrow> upd_inode i (\<lambda>ino. ino\<lparr>open_cnt := open_cnt ino - 1\<rparr>) s;
        ino \<leftarrow> inodes s i;
        if open_cnt ino = 0 then do {
          let s = s\<lparr>open_inodes := removeAll i (open_inodes s)\<rparr>;
          s \<leftarrow> (if removed ino then do {
                   s \<leftarrow> free_map_release (i_sector ino) 1 s;
                   free_map_release (d_start (idata ino)) (bytes_to_sectors (d_length (idata ino))) s }
                 else Some s);
          Some (s\<lparr>inodes := (inodes s)(i := None)\<rparr>) }
        else Some s })"

section \<open>Open files\<close>

definition file_open :: "ptr \<Rightarrow> 'a fsys_scheme \<Rightarrow> (ptr \<times> 'a fsys_scheme) option" where
  "file_open i s = do {
     let (f, s) = malloc s;
     if i \<noteq> 0 \<and> f \<noteq> 0
     then Some (f, s\<lparr>files := (files s)(f \<mapsto> \<lparr>f_inode = i, pos = 0, deny_write = False\<rparr>)\<rparr>)
     else do { s \<leftarrow> inode_close i s; Some (0, s) } }"

definition file_reopen :: "ptr \<Rightarrow> 'a fsys_scheme \<Rightarrow> (ptr \<times> 'a fsys_scheme) option" where
  "file_reopen f s = do {
     fl \<leftarrow> files s f;
     (i, s) \<leftarrow> inode_reopen (f_inode fl) s;
     file_open i s }"

definition file_get_inode :: "ptr \<Rightarrow> 'a fsys_scheme \<Rightarrow> ptr option" where
  "file_get_inode f s = map_option f_inode (files s f)"

definition file_read :: "ptr \<Rightarrow> int \<Rightarrow> 'a fsys_scheme \<Rightarrow> (u8 list \<times> 'a fsys_scheme) option" where
  "file_read f sz s = do {
     fl \<leftarrow> files s f;
     (bs, s) \<leftarrow> inode_read_at (f_inode fl) sz (pos fl) s;
     Some (bs, s\<lparr>files := (files s)(f \<mapsto> fl\<lparr>pos := pos fl + int (length bs)\<rparr>)\<rparr>) }"

definition file_write :: "ptr \<Rightarrow> u8 list \<Rightarrow> int \<Rightarrow> 'a fsys_scheme \<Rightarrow> (int \<times> 'a fsys_scheme) option" where
  "file_write f buffer sz s = do {
     fl \<leftarrow> files s f;
     (n, s) \<leftarrow> inode_write_at (f_inode fl) buffer sz (pos fl) s;
     Some (n, s\<lparr>files := (files s)(f \<mapsto> fl\<lparr>pos := pos fl + n\<rparr>)\<rparr>) }"

definition file_deny_write :: "ptr \<Rightarrow> 'a fsys_scheme \<Rightarrow> 'a fsys_scheme option" where
  "file_deny_write f s = do {
     ASSERT (f \<noteq> 0);
     fl \<leftarrow> files s f;
     if \<not> deny_write fl
     then inode_deny_write (f_inode fl) (s\<lparr>files := (files s)(f \<mapsto> fl\<lparr>deny_write := True\<rparr>)\<rparr>)
     else Some s }"

definition file_allow_write :: "ptr \<Rightarrow> 'a fsys_scheme \<Rightarrow> 'a fsys_scheme option" where
  "file_allow_write f s = do {
     ASSERT (f \<noteq> 0);
     fl \<leftarrow> files s f;
     if deny_write fl
     then inode_allow_write (f_inode fl) (s\<lparr>files := (files s)(f \<mapsto> fl\<lparr>deny_write := False\<rparr>)\<rparr>)
     else Some s }"

definition file_close :: "ptr \<Rightarrow> 'a fsys_scheme \<Rightarrow> 'a fsys_scheme option" where
  "file_close f s =
     (if f \<noteq> 0 then do {
        s \<leftarrow> file_allow_write f s;
        fl \<leftarrow> files s f;
        s \<leftarrow> inode_close (f_inode fl) s;
        Some (s\<lparr>files := (files s)(f := None)\<rparr>) }
      else Some s)"

definition file_length :: "ptr \<Rightarrow> 'a fsys_scheme \<Rightarrow> int option" where
  "file_length f s = do {
     ASSERT (f \<noteq> 0);
     fl \<leftarrow> files s f;
     ino \<leftarrow> inodes s (f_inode fl);
     Some (inode_length ino) }"

definition file_seek :: "ptr \<Rightarrow> int \<Rightarrow> 'a fsys_scheme \<Rightarrow> 'a fsys_scheme option" where
  "file_seek f new_pos s = do {
     ASSERT (f \<noteq> 0);
     ASSERT (new_pos \<ge> 0);
     fl \<leftarrow> files s f;
     Some (s\<lparr>files := (files s)(f \<mapsto> fl\<lparr>pos := new_pos\<rparr>)\<rparr>) }"

definition file_tell :: "ptr \<Rightarrow> 'a fsys_scheme \<Rightarrow> int option" where
  "file_tell f s = do {
     ASSERT (f \<noteq> 0);
     fl \<leftarrow> files s f;
     Some (pos fl) }"

section \<open>The free map file\<close>

definition free_map_open :: "'a fsys_scheme \<Rightarrow> 'a fsys_scheme option" where
  "free_map_open s = do {
     (i, s) \<leftarrow> inode_open FREE_MAP_SECTOR s;
     (f, s) \<leftarrow> file_open i s;
     let s = s\<lparr>free_map_file := f\<rparr>;
     ASSERT (f \<noteq> 0);
     (success, b, s) \<leftarrow> bitmap_read (free_map s) f s;
     ASSERT success;
     Some (s\<lparr>free_map := b\<rparr>) }"

definition free_map_close :: "'a fsys_scheme \<Rightarrow> 'a fsys_scheme option" where
  "free_map_close s = file_close (free_map_file s) s"

definition free_map_create :: "'a fsys_scheme \<Rightarrow> 'a fsys_scheme option" where
  "free_map_create s = do {
     (success, s) \<leftarrow> inode_create FREE_MAP_SECTOR (sint (bitmap_file_size (free_map s))) s;
     ASSERT success;
     (i, s) \<leftarrow> inode_open FREE_MAP_SECTOR s;
     (f, s) \<leftarrow> file_open i s;
     let s = s\<lparr>free_map_file := f\<rparr>;
     ASSERT (f \<noteq> 0);
     (success, s) \<leftarrow> bitmap_write (free_map s) f s;
     ASSERT success;
     Some s }"

end
