(* ===== verification/Inode_IO.thy ===== *)
theory Inode_IO
  imports Inode
begin

text \<open>
  The correctness of \<open>inode_read_at\<close> and \<open>inode_write_at\<close>: the file system device is
  an array of bytes, an inode is a range of it, and the two loops over sectors with
  their bounce buffer read and write that range byte for byte.
\<close>

section \<open>The device as an array of bytes\<close>

text \<open>The file system device is the \<open>n\<close> sectors from \<open>off\<close> on of disk \<open>d\<close>.\<close>

definition fsdev :: "nat \<Rightarrow> nat \<Rightarrow> nat \<Rightarrow> 'a fsys_scheme \<Rightarrow> bool" where
  "fsdev d off n s \<longleftrightarrow> maps_to (blocks s) (fs_device s) d off n \<and>
     (\<forall>k < n. length (media s d (word_of_nat (off + k))) = 512)"

definition sect :: "nat \<Rightarrow> nat \<Rightarrow> 'a fsys_scheme \<Rightarrow> nat \<Rightarrow> u8 list" where
  "sect d off s k = media s d (word_of_nat (off + k))"

definition dbyte :: "nat \<Rightarrow> nat \<Rightarrow> 'a fsys_scheme \<Rightarrow> nat \<Rightarrow> u8" where
  "dbyte d off s p = sect d off s (p div 512) ! (p mod 512)"

lemma fsdev_length: "fsdev d off n s \<Longrightarrow> k < n \<Longrightarrow> length (sect d off s k) = 512"
  by (simp add: fsdev_def sect_def)

lemma fsdev_bound: "fsdev d off n s \<Longrightarrow> off + n \<le> 2 ^ 28"
  using maps_to_bound by (auto simp: fsdev_def)

text \<open>Input and output change the counters, the allocations and the media, nothing else.\<close>

definition io :: "'a fsys_scheme \<Rightarrow> 'a fsys_scheme \<Rightarrow> bool" where
  "io s s' \<longleftrightarrow> s' = s\<lparr>allocs := allocs s', read_cnt := read_cnt s', write_cnt := write_cnt s', media := media s'\<rparr> \<and>
     allocs s \<le> allocs s'"

lemma io_refl [simp]: "io s s"
  by (simp add: io_def)

lemma ioI: "allocs s \<le> a \<Longrightarrow> io s (s\<lparr>allocs := a, read_cnt := c, write_cnt := w, media := m\<rparr>)"
  by (simp add: io_def)

lemma ioD:
  assumes "io s s'"
  obtains a c w m where "s' = s\<lparr>allocs := a, read_cnt := c, write_cnt := w, media := m\<rparr>" "allocs s \<le> a"
  using assms unfolding io_def by blast

lemma io_trans [trans]:
  assumes "io s s'" and "io s' s''"
  shows "io s s''"
proof -
  obtain a c w m where 1: "s' = s\<lparr>allocs := a, read_cnt := c, write_cnt := w, media := m\<rparr>" "allocs s \<le> a"
    using ioD [OF assms(1)] .
  obtain a' c' w' m' where 2: "s'' = s'\<lparr>allocs := a', read_cnt := c', write_cnt := w', media := m'\<rparr>" "allocs s' \<le> a'"
    using ioD [OF assms(2)] .
  show ?thesis using 1 2 by (simp add: io_def)
qed

lemma io_frame:
  assumes "io s s'"
  shows "inodes s' = inodes s" and "files s' = files s" and "dirs s' = dirs s" and "open_inodes s' = open_inodes s"
    and "free_map s' = free_map s" and "free_map_file s' = free_map_file s" and "fs_device s' = fs_device s"
    and "blocks s' = blocks s" and "mem_ok s' = mem_ok s" and "allocs s \<le> allocs s'"
  using assms by (auto elim!: ioD)

lemma sector_word: "fsdev d off n s \<Longrightarrow> k < n \<Longrightarrow> unat (word_of_nat k :: u32) = k"
  using fsdev_bound [of d off n s] by (simp add: unat_of_nat take_bit_nat_eq_self)

lemma fs_block_read:
  assumes dev: "fsdev d off n s" and k: "k < n"
  shows "\<exists>s'. block_read (fs_device s) (word_of_nat k) s = Some (sect d off s k, s') \<and> io s s' \<and> media s' = media s \<and>
    allocs s' = allocs s"
proof -
  have m: "maps_to (blocks s) (fs_device s) d off n" using dev by (simp add: fsdev_def)
  obtain c where "block_read (fs_device s) (word_of_nat k) s = Some (sect d off s k, s\<lparr>read_cnt := c\<rparr>)"
    using block_read_maps [OF m refl, of "word_of_nat k"] sector_word [OF dev k] k by (auto simp: sect_def)
  then show ?thesis by (simp add: io_def)
qed

lemma fsdev_media_cong:
  "io s s' \<Longrightarrow> media s' = media s \<Longrightarrow> fsdev d off n s' = fsdev d off n s \<and> dbyte d off s' = dbyte d off s \<and>
    sect d off s' = sect d off s"
  by (auto simp: fsdev_def dbyte_def sect_def io_frame fun_eq_iff)

lemma fs_block_write:
  assumes dev: "fsdev d off n s" and k: "k < n" and len: "length bs = 512"
  shows "\<exists>s'. block_write (fs_device s) (word_of_nat k) bs s = Some s' \<and> io s s' \<and> fsdev d off n s' \<and>
    allocs s' = allocs s \<and> (\<forall>j < n. sect d off s' j = (if j = k then bs else sect d off s j))"
proof -
  have m: "maps_to (blocks s) (fs_device s) d off n" using dev by (simp add: fsdev_def)
  let ?m = "(media s)(d := (media s d)(word_of_nat (off + k) := bs))"
  obtain c where c: "block_write (fs_device s) (word_of_nat k) bs s = Some (s\<lparr>media := ?m, write_cnt := c\<rparr>)"
    using block_write_maps [OF m refl, of "word_of_nat k" bs] sector_word [OF dev k] k by auto
  let ?s = "s\<lparr>media := ?m, write_cnt := c\<rparr>"
  have inj: "word_of_nat (off + j) = (word_of_nat (off + k) :: u32) \<longleftrightarrow> j = k" if "j < n" for j
  proof -
    have "off + j < 2 ^ 32" "off + k < 2 ^ 32" using that k fsdev_bound [OF dev] by simp_all
    then have "unat (word_of_nat (off + j) :: u32) = off + j" "unat (word_of_nat (off + k) :: u32) = off + k"
      by (simp_all only: unat_of_nat take_bit_nat_eq_self len_bit0 len_num1) (simp_all add: take_bit_nat_eq_self)
    then show ?thesis by (metis add_left_cancel)
  qed
  have sec: "\<forall>j < n. sect d off ?s j = (if j = k then bs else sect d off s j)" using inj by (auto simp: sect_def)
  then have "fsdev d off n ?s" using dev len by (auto simp: fsdev_def sect_def)
  moreover have "io s ?s" by (simp add: io_def)
  ultimately show ?thesis using c sec by simp
qed

section \<open>An inode as a range of bytes\<close>

definition ino_ok :: "nat \<Rightarrow> inode \<Rightarrow> bool" where
  "ino_ok n ino \<longleftrightarrow> 0 \<le> d_length (idata ino) \<and>
     unat (d_start (idata ino)) * 512 + nat (d_length (idata ino)) \<le> n * 512"

definition base :: "inode \<Rightarrow> nat" where
  "base ino = unat (d_start (idata ino)) * 512"

definition len :: "inode \<Rightarrow> nat" where
  "len ino = nat (d_length (idata ino))"

text \<open>The contents of a file.\<close>

definition content :: "nat \<Rightarrow> nat \<Rightarrow> 'a fsys_scheme \<Rightarrow> inode \<Rightarrow> u8 list" where
  "content d off s ino = map (\<lambda>p. dbyte d off s (base ino + p)) [0..<len ino]"

lemma length_content [simp]: "length (content d off s ino) = len ino"
  by (simp add: content_def)

lemma smod_sdiv_nat: "0 \<le> o' \<Longrightarrow> o' smod 512 = int (nat o' mod 512)" "0 \<le> o' \<Longrightarrow> o' sdiv 512 = int (nat o' div 512)"
proof -
  assume "0 \<le> o'"
  then show "o' sdiv 512 = int (nat o' div 512)" by (cases "o' = 0") (simp_all add: signed_divide_int_def zdiv_int)
  from \<open>0 \<le> o'\<close> show "o' smod 512 = int (nat o' mod 512)" by (cases "o' = 0") (simp_all add: smod_int_alt_def zmod_int)
qed

lemma chunk_inside:
  assumes "0 \<le> ofs" and "0 < sz" and "nat ofs < len ino"
  shows "chunk ino sz ofs = int (min (nat sz) (min (len ino - nat ofs) (512 - nat ofs mod 512)))"
proof -
  obtain l o' z where n: "ofs = int o'" "sz = int z" "d_length (idata ino) = int l"
    using assms by (metis len_def nat_0_le order_less_le_trans less_nat_zero_code nat_le_0 nat_eq_iff2 zero_le_imp_eq_int
        order_less_imp_le not_le)
  have "o' mod 512 < 512" by simp
  then obtain r where r: "o' mod 512 + r = 512" "512 - int (o' mod 512) = int r" "512 - o' mod 512 = r"
    by (metis add_diff_inverse_nat less_imp_le_nat not_less of_nat_diff of_nat_numeral)
  have sm: "int o' smod 512 = int (o' mod 512)" using smod_sdiv_nat(1) [of "int o'"] by simp
  show ?thesis
    using assms r unfolding chunk_def inode_length_def len_def Let_def n sm by (auto simp: min_def) linarith
qed

lemma chunk_outside: "0 \<le> ofs \<Longrightarrow> len ino \<le> nat ofs \<Longrightarrow> chunk ino sz ofs \<le> 0"
  by (auto simp: chunk_def inode_length_def len_def Let_def)

lemma byte_to_sector_inside:
  assumes "ino_ok n ino" and "0 \<le> ofs" and "nat ofs < len ino"
  shows "byte_to_sector ino ofs = word_of_nat ((base ino + nat ofs) div 512)"
    and "(base ino + nat ofs) div 512 < n" and "(base ino + nat ofs) mod 512 = nat ofs mod 512"
proof -
  have d: "(base ino + nat ofs) div 512 = unat (d_start (idata ino)) + nat ofs div 512"
    by (simp add: base_def)
  show "byte_to_sector ino ofs = word_of_nat ((base ino + nat ofs) div 512)"
    using assms(2,3) unfolding d
    by (simp add: byte_to_sector_def smod_sdiv_nat len_def zless_nat_eq_int_zless)
  have "base ino + len ino \<le> n * 512" using assms(1) by (simp add: ino_ok_def base_def len_def)
  then have "base ino + nat ofs < n * 512" using assms(3) by linarith
  then show "(base ino + nat ofs) div 512 < n" by (simp add: less_mult_imp_div_less)
  show "(base ino + nat ofs) mod 512 = nat ofs mod 512" by (simp add: base_def)
qed

text \<open>Bytes inside one sector.\<close>

lemma sector_bytes:
  assumes "length (sect d off s (p div 512)) = 512" and "p mod 512 + c \<le> 512"
  shows "take c (drop (p mod 512) (sect d off s (p div 512))) = map (dbyte d off s) [p..<p + c]"
proof (rule nth_equalityI)
  fix i assume "i < length (take c (drop (p mod 512) (sect d off s (p div 512))))"
  then have i: "i < c" using assms by simp
  have e: "p + i = (p mod 512 + i) + 512 * (p div 512)" by simp
  have "(p + i) div 512 = p div 512" "(p + i) mod 512 = p mod 512 + i"
    using i assms(2) unfolding e by (simp_all only: div_mult_self2 mod_mult_self2) simp_all
  then show "take c (drop (p mod 512) (sect d off s (p div 512))) ! i = map (dbyte d off s) [p..<p + c] ! i"
    using i assms by (simp add: dbyte_def)
qed (use assms in simp)

section \<open>Reading\<close>

lemma upt_join: "i \<le> j \<Longrightarrow> j \<le> k \<Longrightarrow> [i..<j] @ [j..<k] = [i..<k]"
  by (metis le_add_diff_inverse upt_add_eq_append)

text \<open>Where a transfer of \<open>sz\<close> bytes from \<open>ofs\<close> on ends.\<close>

definition upto_end :: "inode \<Rightarrow> int \<Rightarrow> int \<Rightarrow> nat" where
  "upto_end ino sz ofs = max (nat ofs) (min (nat ofs + nat sz) (len ino))"

lemma upto_end_step:
  assumes "0 \<le> ofs" and "c \<le> nat sz" and "nat ofs + c \<le> len ino"
  shows "upto_end ino (sz - int c) (ofs + int c) = upto_end ino sz ofs"
  using assms by (auto simp: upto_end_def nat_add_distrib nat_diff_distrib' max_def min_def)

lemma chunk_nat:
  assumes "0 \<le> ofs" and "0 < sz" and "nat ofs < len ino"
  obtains c where "chunk ino sz ofs = int c" "0 < c" "c \<le> nat sz" "nat ofs + c \<le> len ino"
    "nat ofs mod 512 + c \<le> 512"
proof -
  define c where "c = min (nat sz) (min (len ino - nat ofs) (512 - nat ofs mod 512))"
  have m: "nat ofs mod 512 < 512" by simp
  have "c \<le> nat sz" "c \<le> len ino - nat ofs" "c \<le> 512 - nat ofs mod 512" "0 < c"
    using assms m by (simp_all add: c_def min_le_iff_disj)
  with that [of c] chunk_inside [OF assms] assms(3) m show thesis unfolding c_def by linarith
qed

lemma get_bounce_ok:
  "\<exists>s'. get_bounce bounce s = (bounce \<or> mem_ok s (allocs s), s') \<and> io s s' \<and> media s' = media s"
  by (simp add: get_bounce_def malloc_def io_def)

lemma sect_file:
  assumes dev: "fsdev d off n s" and ok: "ino_ok n ino" and "0 \<le> ofs" and "nat ofs < len ino"
    and c: "nat ofs mod 512 + c \<le> 512"
  shows "take c (drop (nat ofs mod 512) (sect d off s ((base ino + nat ofs) div 512))) =
    map (\<lambda>p. dbyte d off s (base ino + p)) [nat ofs..<nat ofs + c]"
proof -
  note b = byte_to_sector_inside [OF ok assms(3,4)]
  have "map (\<lambda>p. dbyte d off s (base ino + p)) [nat ofs..<nat ofs + c] =
      map (dbyte d off s) (map (\<lambda>p. p + base ino) [nat ofs..<nat ofs + c])" by (simp add: comp_def add.commute)
  also have "map (\<lambda>p. p + base ino) [nat ofs..<nat ofs + c] = [base ino + nat ofs..<base ino + nat ofs + c]"
    by (rule nth_equalityI) simp_all
  finally show ?thesis
    using sector_bytes [of d off s "base ino + nat ofs" c] fsdev_length [OF dev b(2)] c b(3) by simp
qed

lemma read_loop_ok:
  assumes "fsdev d off n s" and "ino_ok n ino" and "0 \<le> ofs"
  shows "\<exists>s' k. read_loop ino bounce sz ofs acc s =
      Some (acc @ map (\<lambda>p. dbyte d off s (base ino + p)) [nat ofs..<k], s') \<and> io s s' \<and> media s' = media s \<and>
      nat ofs \<le> k \<and> k \<le> upto_end ino sz ofs \<and> (bounce \<or> mem_ok s (allocs s) \<longrightarrow> k = upto_end ino sz ofs)"
  using assms
proof (induction "nat sz" arbitrary: bounce sz ofs acc s rule: less_induct)
  case less
  note dev = less.prems(1) and ok = less.prems(2) and o = less.prems(3)
  show ?case
  proof (cases "0 < sz \<and> nat ofs < len ino")
    case False
    then have "read_loop ino bounce sz ofs acc s = Some (acc, s)"
      using chunk_outside [OF o, of ino sz] by (subst read_loop.simps) (auto simp: Let_def not_less)
    moreover have "upto_end ino sz ofs = nat ofs" using False by (auto simp: upto_end_def)
    ultimately show ?thesis by (intro exI [of _ s] exI [of _ "nat ofs"]) simp
  next
    case True
    then have pos: "0 < sz" and inside: "nat ofs < len ino" by simp_all
    obtain c where ch: "chunk ino sz ofs = int c" and c: "0 < c" "c \<le> nat sz" "nat ofs + c \<le> len ino"
      "nat ofs mod 512 + c \<le> 512" using chunk_nat [OF o pos inside] .
    note b = byte_to_sector_inside [OF ok o inside]
    let ?k = "(base ino + nat ofs) div 512"
    let ?bytes = "\<lambda>s i j. map (\<lambda>p. dbyte d off s (base ino + p)) [i..<j]"
    have sz: "nat (sz - int c) < nat sz" using c pos by linarith
    have oc: "0 \<le> ofs + int c" "nat (ofs + int c) = nat ofs + c" using o by simp_all
    have e: "upto_end ino (sz - int c) (ofs + int c) = upto_end ino sz ofs" by (rule upto_end_step [OF o c(2,3)])
    have le: "nat ofs + c \<le> upto_end ino sz ofs" using c by (simp add: upto_end_def)
    have go: "\<exists>s' k. read_loop ino bo (sz - int c) (ofs + int c) (acc @ ?bytes s (nat ofs) (nat ofs + c)) s1 =
        Some (acc @ ?bytes s (nat ofs) k, s') \<and> io s s' \<and> media s' = media s \<and> nat ofs \<le> k \<and>
        k \<le> upto_end ino sz ofs \<and> (bo \<or> mem_ok s1 (allocs s1) \<longrightarrow> k = upto_end ino sz ofs)"
      if s1: "io s s1" "media s1 = media s" for bo s1
    proof -
      have dev1: "fsdev d off n s1" and by1: "dbyte d off s1 = dbyte d off s"
        using fsdev_media_cong [OF s1] dev by simp_all
      from less.hyps [OF sz dev1 ok oc(1)] obtain s' k where
        IH: "read_loop ino bo (sz - int c) (ofs + int c) (acc @ ?bytes s (nat ofs) (nat ofs + c)) s1 =
          Some ((acc @ ?bytes s (nat ofs) (nat ofs + c)) @ ?bytes s1 (nat (ofs + int c)) k, s')"
        "io s1 s'" "media s' = media s1" "nat (ofs + int c) \<le> k" "k \<le> upto_end ino (sz - int c) (ofs + int c)"
        "bo \<or> mem_ok s1 (allocs s1) \<longrightarrow> k = upto_end ino (sz - int c) (ofs + int c)" by blast
      have "?bytes s (nat ofs) (nat ofs + c) @ ?bytes s (nat ofs + c) k = ?bytes s (nat ofs) k"
        using IH(4) oc(2) by (simp add: upt_join flip: map_append)
      then show ?thesis
        using IH s1 io_trans [OF s1(1) IH(2)] unfolding e oc(2) by1 by (intro exI [of _ s'] exI [of _ k]) auto
    qed
    show ?thesis
    proof (cases "nat ofs mod 512 = 0 \<and> c = 512")
      case full: True
      obtain s1 where s1: "block_read (fs_device s) (word_of_nat ?k) s = Some (sect d off s ?k, s1)"
        "io s s1" "media s1 = media s" "allocs s1 = allocs s" using fs_block_read [OF dev b(2)] by blast
      have data: "sect d off s ?k = ?bytes s (nat ofs) (nat ofs + c)"
        using sect_file [OF dev ok o inside c(4)] full fsdev_length [OF dev b(2)] by simp
      have "read_loop ino bounce sz ofs acc s =
          read_loop ino bounce (sz - int c) (ofs + int c) (acc @ ?bytes s (nat ofs) (nat ofs + c)) s1"
        using pos ch c(1) full s1(1) b(1) smod_sdiv_nat(1) [OF o]
        by (subst read_loop.simps) (simp add: Let_def data)
      then show ?thesis using go [OF s1(2,3), of bounce] s1(4) io_frame(9) [OF s1(2)] by simp
    next
      case part: False
      have np: "\<not> (ofs smod 512 = 0 \<and> chunk ino sz ofs = 512)"
        using part ch smod_sdiv_nat(1) [OF o] by auto
      obtain s0 where s0: "get_bounce bounce s = (bounce \<or> mem_ok s (allocs s), s0)" "io s s0" "media s0 = media s"
        using get_bounce_ok by blast
      show ?thesis
      proof (cases "bounce \<or> mem_ok s (allocs s)")
        case False
        then have "read_loop ino bounce sz ofs acc s = Some (acc, s0)"
          using pos ch c(1) np s0(1) by (subst read_loop.simps) (auto simp: Let_def)
        then show ?thesis using s0 False le by (intro exI [of _ s0] exI [of _ "nat ofs"]) simp
      next
        case True
        have dev0: "fsdev d off n s0" "sect d off s0 = sect d off s"
          using fsdev_media_cong [OF s0(2,3)] dev by simp_all
        obtain s1 where s1: "block_read (fs_device s0) (word_of_nat ?k) s0 = Some (sect d off s ?k, s1)"
          "io s0 s1" "media s1 = media s0" using fs_block_read [OF dev0(1) b(2)] dev0(2) by auto
        have data: "take c (drop (nat ofs mod 512) (sect d off s ?k)) = ?bytes s (nat ofs) (nat ofs + c)"
          by (rule sect_file [OF dev ok o inside c(4)])
        have "read_loop ino bounce sz ofs acc s =
            read_loop ino True (sz - int c) (ofs + int c) (acc @ ?bytes s (nat ofs) (nat ofs + c)) s1"
          using pos ch c(1) np s0(1) s1(1) b(1) smod_sdiv_nat(1) [OF o] True data
          by (subst read_loop.simps) (auto simp: Let_def)
        then show ?thesis using go [OF io_trans [OF s0(2) s1(2)], of True] s1(3) s0(3) True by simp
      qed
    qed
  qed
qed

section \<open>Writing\<close>

lemma overlay_full: "length xs = length bs \<Longrightarrow> overlay bs 0 xs = xs"
  by (simp add: overlay_def)

lemma length_overlay: "r + length xs \<le> length bs \<Longrightarrow> length (overlay bs r xs) = length bs"
  by (simp add: overlay_def)

lemma nth_overlay:
  "r + length xs \<le> length bs \<Longrightarrow> i < length bs \<Longrightarrow>
    overlay bs r xs ! i = (if r \<le> i \<and> i < r + length xs then xs ! (i - r) else bs ! i)"
  by (auto simp: overlay_def nth_append min_def)

lemma write_sector_bytes:
  assumes sec: "\<forall>j < n. sect d off s' j = (if j = P div 512 then overlay (sect d off s j) (P mod 512) xs else sect d off s j)"
    and fit: "P mod 512 + length xs \<le> 512" and len: "\<forall>j < n. length (sect d off s j) = 512" and p: "p < n * 512"
  shows "dbyte d off s' p = (if P \<le> p \<and> p < P + length xs then xs ! (p - P) else dbyte d off s p)"
proof -
  have j: "p div 512 < n" using p by (simp add: less_mult_imp_div_less)
  note ep = div_mult_mod_eq [of p 512] and eP = div_mult_mod_eq [of P 512]
  show ?thesis
  proof (cases "p div 512 = P div 512")
    case True
    have in_iff: "P mod 512 \<le> p mod 512 \<longleftrightarrow> P \<le> p" and lt_iff: "p mod 512 < P mod 512 + length xs \<longleftrightarrow> p < P + length xs"
      using ep eP True by linarith+
    have "p mod 512 - P mod 512 = p - P" using ep eP True by linarith
    then show ?thesis
      using sec j True fit len nth_overlay [of "P mod 512" xs "sect d off s (p div 512)" "p mod 512"]
      by (simp add: dbyte_def in_iff lt_iff)
  next
    case False
    have "\<not> (P \<le> p \<and> p < P + length xs)"
    proof
      assume a: "P \<le> p \<and> p < P + length xs"
      then have "P div 512 \<le> p div 512" by (simp add: div_le_mono)
      moreover have "P + length xs \<le> (P div 512 + 1) * 512" 
        using fit div_mult_mod_eq [of P 512] unfolding distrib_right mult_1 by linarith
      then have "p < (P div 512 + 1) * 512" using a by simp
      then have "p div 512 < P div 512 + 1" by (rule less_mult_imp_div_less)
      ultimately show False using False by simp
    qed
    then show ?thesis using sec j False by (auto simp: dbyte_def)
  qed
qed

definition written_bytes :: "nat \<Rightarrow> nat \<Rightarrow> nat \<Rightarrow> 'a fsys_scheme \<Rightarrow> 'a fsys_scheme \<Rightarrow> nat \<Rightarrow> u8 list \<Rightarrow> bool" where
  "written_bytes d off n s s' P xs \<longleftrightarrow>
     (\<forall>p < n * 512. dbyte d off s' p = (if P \<le> p \<and> p < P + length xs then xs ! (p - P) else dbyte d off s p))"

lemma written_bytes_trans:
  assumes "written_bytes d off n s s' P xs" and "written_bytes d off n s' s'' (P + length xs) ys"
  shows "written_bytes d off n s s'' P (xs @ ys)"
  using assms unfolding written_bytes_def by (auto simp: nth_append)

lemma written_bytes_cong:
  "written_bytes d off n s s' P xs \<Longrightarrow> dbyte d off s0 = dbyte d off s \<Longrightarrow> written_bytes d off n s0 s' P xs"
  by (simp add: written_bytes_def)

lemma written_bytes_Nil [simp]: "dbyte d off s' = dbyte d off s \<Longrightarrow> written_bytes d off n s s' P []"
  by (auto simp: written_bytes_def)

lemma fs_write_part:
  assumes dev: "fsdev d off n s" and P: "P div 512 < n" and fit: "P mod 512 + length xs \<le> 512"
  shows "\<exists>s'. block_write (fs_device s) (word_of_nat (P div 512)) (overlay (sect d off s (P div 512)) (P mod 512) xs) s =
      Some s' \<and> io s s' \<and> fsdev d off n s' \<and> allocs s' = allocs s \<and> written_bytes d off n s s' P xs"
proof -
  have l: "\<forall>j < n. length (sect d off s j) = 512" using fsdev_length [OF dev] by blast
  have "length (overlay (sect d off s (P div 512)) (P mod 512) xs) = 512" using l P fit by (simp add: length_overlay)
  from fs_block_write [OF dev P this] obtain s' where s':
    "block_write (fs_device s) (word_of_nat (P div 512)) (overlay (sect d off s (P div 512)) (P mod 512) xs) s = Some s'"
    "io s s'" "fsdev d off n s'" "allocs s' = allocs s"
    "\<forall>j < n. sect d off s' j = (if j = P div 512 then overlay (sect d off s (P div 512)) (P mod 512) xs else sect d off s j)"
    by blast
  have "\<forall>j < n. sect d off s' j = (if j = P div 512 then overlay (sect d off s j) (P mod 512) xs else sect d off s j)"
    using s'(5) by simp
  then have "written_bytes d off n s s' P xs"
    unfolding written_bytes_def using write_sector_bytes [OF _ fit l] by blast
  with s' show ?thesis by blast
qed

lemma write_loop_ok:
  assumes "fsdev d off n s" and "ino_ok n ino" and "0 \<le> ofs" and "nat sz \<le> length (drop w buf)"
  shows "\<exists>s' k. write_loop ino bounce buf sz ofs (int w) s = Some (int (w + (k - nat ofs)), s') \<and> io s s' \<and>
      fsdev d off n s' \<and> written_bytes d off n s s' (base ino + nat ofs) (take (k - nat ofs) (drop w buf)) \<and>
      nat ofs \<le> k \<and> k \<le> upto_end ino sz ofs \<and> (bounce \<or> mem_ok s (allocs s) \<longrightarrow> k = upto_end ino sz ofs)"
  using assms
proof (induction "nat sz" arbitrary: bounce sz ofs w s rule: less_induct)
  case less
  note dev = less.prems(1) and ok = less.prems(2) and o = less.prems(3) and bl = less.prems(4)
  show ?case
  proof (cases "0 < sz \<and> nat ofs < len ino")
    case False
    then have "write_loop ino bounce buf sz ofs (int w) s = Some (int w, s)"
      using chunk_outside [OF o, of ino sz] by (subst write_loop.simps) (auto simp: Let_def not_less)
    moreover have "upto_end ino sz ofs = nat ofs" using False by (auto simp: upto_end_def)
    ultimately show ?thesis using dev by (intro exI [of _ s] exI [of _ "nat ofs"]) simp
  next
    case True
    then have pos: "0 < sz" and inside: "nat ofs < len ino" by simp_all
    obtain c where ch: "chunk ino sz ofs = int c" and c: "0 < c" "c \<le> nat sz" "nat ofs + c \<le> len ino"
      "nat ofs mod 512 + c \<le> 512" using chunk_nat [OF o pos inside] .
    note b = byte_to_sector_inside [OF ok o inside]
    let ?P = "base ino + nat ofs" let ?part = "take c (drop w buf)"
    have pl: "length ?part = c" using bl c(2) by simp
    have sz: "nat (sz - int c) < nat sz" using c pos by linarith
    have oc: "0 \<le> ofs + int c" "nat (ofs + int c) = nat ofs + c" using o by simp_all
    have e: "upto_end ino (sz - int c) (ofs + int c) = upto_end ino sz ofs" by (rule upto_end_step [OF o c(2,3)])
    have le: "nat ofs + c \<le> upto_end ino sz ofs" using c by (simp add: upto_end_def)
    have bl': "nat (sz - int c) \<le> length (drop (w + c) buf)" using bl c(2) by simp
    have sm: "ofs smod 512 = int (nat ofs mod 512)" by (rule smod_sdiv_nat(1) [OF o])
    have go: "\<exists>s' k. write_loop ino bo buf (sz - int c) (ofs + int c) (int w + int c) s1 =
          Some (int (w + (k - nat ofs)), s') \<and> io s s' \<and> fsdev d off n s' \<and>
          written_bytes d off n s s' ?P (take (k - nat ofs) (drop w buf)) \<and>
          nat ofs \<le> k \<and> k \<le> upto_end ino sz ofs \<and> (bo \<or> mem_ok s1 (allocs s1) \<longrightarrow> k = upto_end ino sz ofs)"
      if s1: "io s s1" "fsdev d off n s1" "written_bytes d off n s s1 ?P ?part" for bo s1
    proof -
      from less.hyps [OF sz s1(2) ok oc(1) bl'] obtain s' k where
        IH: "write_loop ino bo buf (sz - int c) (ofs + int c) (int (w + c)) s1 = Some (int (w + c + (k - (nat ofs + c))), s')"
        "io s1 s'" "fsdev d off n s'"
        "written_bytes d off n s1 s' (base ino + (nat ofs + c)) (take (k - (nat ofs + c)) (drop (w + c) buf))"
        "nat ofs + c \<le> k" "k \<le> upto_end ino sz ofs"
        "bo \<or> mem_ok s1 (allocs s1) \<longrightarrow> k = upto_end ino sz ofs" unfolding e oc(2) by blast
      have kk: "w + c + (k - (nat ofs + c)) = w + (k - nat ofs)" using IH(5) by simp
      have tk: "?part @ take (k - (nat ofs + c)) (drop (w + c) buf) = take (k - nat ofs) (drop w buf)"
        using IH(5) take_add [of c "k - (nat ofs + c)" "drop w buf"] by (simp add: add.commute)
      have "written_bytes d off n s1 s' (?P + length ?part) (take (k - (nat ofs + c)) (drop (w + c) buf))"
        using IH(4) unfolding pl by (simp add: add.assoc)
      then have "written_bytes d off n s s' ?P (take (k - nat ofs) (drop w buf))"
        using written_bytes_trans [OF s1(3)] unfolding tk [symmetric] by blast
      moreover have "nat ofs \<le> k" using IH(5) by simp
      ultimately show ?thesis
        using IH(1,3,6,7) io_trans [OF s1(1) IH(2)] unfolding kk of_nat_add [of w c, symmetric]
        by (intro exI [of _ s'] exI [of _ k]) blast
    qed
    have fit: "?P mod 512 + length ?part \<le> 512" using c(4) unfolding pl b(3) .
    show ?thesis
    proof (cases "nat ofs mod 512 = 0 \<and> c = 512")
      case full: True
      have sp: "overlay (sect d off s (?P div 512)) (?P mod 512) ?part = ?part"
        using full pl fsdev_length [OF dev b(2)] b(3) by (simp add: overlay_full)
      obtain s1 where s1: "block_write (fs_device s) (word_of_nat (?P div 512)) ?part s = Some s1"
        "io s s1" "fsdev d off n s1" "allocs s1 = allocs s" "written_bytes d off n s s1 ?P ?part"
        using fs_write_part [OF dev b(2) fit] unfolding sp by blast
      have "write_loop ino bounce buf sz ofs (int w) s =
          write_loop ino bounce buf (sz - int c) (ofs + int c) (int w + int c) s1"
        using pos ch c(1) full s1(1) b(1) sm by (subst write_loop.simps) (simp add: Let_def)
      then show ?thesis using go [OF s1(2,3,5), of bounce] s1(4) io_frame(9) [OF s1(2)] by simp
    next
      case part: False
      have np: "\<not> (ofs smod 512 = 0 \<and> chunk ino sz ofs = 512)" using part ch sm by auto
      have rd: "0 < ofs smod 512 \<or> chunk ino sz ofs < 512 - ofs smod 512" using part ch sm c(4) by auto
      obtain s0 where s0: "get_bounce bounce s = (bounce \<or> mem_ok s (allocs s), s0)" "io s s0" "media s0 = media s"
        using get_bounce_ok by blast
      have dev0: "fsdev d off n s0" "dbyte d off s0 = dbyte d off s"
        using fsdev_media_cong [OF s0(2,3)] dev by simp_all
      show ?thesis
      proof (cases "bounce \<or> mem_ok s (allocs s)")
        case False
        then have "write_loop ino bounce buf sz ofs (int w) s = Some (int w, s0)"
          using pos ch c(1) np s0(1) by (subst write_loop.simps) (auto simp: Let_def)
        then show ?thesis using s0 False le dev0 by (intro exI [of _ s0] exI [of _ "nat ofs"]) simp
      next
        case True
        obtain sr where sr: "block_read (fs_device s0) (word_of_nat (?P div 512)) s0 = Some (sect d off s0 (?P div 512), sr)"
          "io s0 sr" "media sr = media s0" using fs_block_read [OF dev0(1) b(2)] by blast
        have devr: "fsdev d off n sr" "dbyte d off sr = dbyte d off s0" "sect d off sr = sect d off s0"
          using fsdev_media_cong [OF sr(2,3)] dev0(1) by simp_all
        obtain s1 where s1: "block_write (fs_device sr) (word_of_nat (?P div 512))
            (overlay (sect d off sr (?P div 512)) (?P mod 512) ?part) sr = Some s1"
          "io sr s1" "fsdev d off n s1" "written_bytes d off n sr s1 ?P ?part"
          using fs_write_part [OF devr(1) b(2) fit] by blast
        have w1: "written_bytes d off n s s1 ?P ?part"
          using s1(4) by (rule written_bytes_cong) (simp add: devr(2) dev0(2))
        have "write_loop ino bounce buf sz ofs (int w) s =
            write_loop ino True buf (sz - int c) (ofs + int c) (int w + int c) s1"
          using pos ch c(1) np rd s0(1) sr(1) s1(1) b(1,3) sm True devr(3)
          by (subst write_loop.simps) (auto simp: Let_def)
        then show ?thesis
          using go [OF io_trans [OF s0(2) io_trans [OF sr(2) s1(2)]] s1(3) w1, of True] True by simp
      qed
    qed
  qed
qed

section \<open>The two operations\<close>

lemma max_min_sub: "max i (min (i + z) l) - i = min z (l - (i :: nat))"
  by (cases "l \<le> i") (auto simp: max_def min_def)

lemma upto_end_sub: "upto_end ino sz ofs - nat ofs = min (nat sz) (len ino - nat ofs)"
  unfolding upto_end_def by (rule max_min_sub)

lemma content_slice:
  "nat ofs \<le> k \<Longrightarrow> k \<le> max (nat ofs) (len ino) \<Longrightarrow>
    map (\<lambda>p. dbyte d off s (base ino + p)) [nat ofs..<k] = take (k - nat ofs) (drop (nat ofs) (content d off s ino))"
proof (cases "k \<le> len ino")
  case True
  then show "map (\<lambda>p. dbyte d off s (base ino + p)) [nat ofs..<k] =
      take (k - nat ofs) (drop (nat ofs) (content d off s ino))" if "nat ofs \<le> k"
    using that by (simp add: content_def take_map drop_map drop_upt take_upt)
next
  case False
  assume "nat ofs \<le> k" "k \<le> max (nat ofs) (len ino)"
  with False have "k = nat ofs" by (simp add: max_def split: if_splits)
  then show "map (\<lambda>p. dbyte d off s (base ino + p)) [nat ofs..<k] =
      take (k - nat ofs) (drop (nat ofs) (content d off s ino))" by simp
qed

lemma inode_read_at_ok:
  assumes "fsdev d off n s" and "inodes s i = Some ino" and "ino_ok n ino" and "0 \<le> ofs"
  shows "\<exists>s' k. inode_read_at i sz ofs s = Some (take k (drop (nat ofs) (content d off s ino)), s') \<and> io s s' \<and>
    media s' = media s \<and> k \<le> nat sz \<and> (mem_ok s (allocs s) \<longrightarrow> k = nat sz)"
proof -
  obtain s' k where r: "read_loop ino False sz ofs [] s =
      Some ([] @ map (\<lambda>p. dbyte d off s (base ino + p)) [nat ofs..<k], s')" "io s s'" "media s' = media s"
    "nat ofs \<le> k" "k \<le> upto_end ino sz ofs" "False \<or> mem_ok s (allocs s) \<longrightarrow> k = upto_end ino sz ofs"
    using read_loop_ok [OF assms(1,3,4)] by blast
  have "k \<le> max (nat ofs) (len ino)" using r(5) by (auto simp: upto_end_def)
  note sl = content_slice [OF r(4) this, of d off s]
  let ?c = "drop (nat ofs) (content d off s ino)"
  have t: "take (k - nat ofs) ?c = take (if mem_ok s (allocs s) then nat sz else k - nat ofs) ?c"
    using r(6) upto_end_sub [of ino sz ofs] by (auto simp: min_def)
  have "k - nat ofs \<le> nat sz" using diff_le_mono [OF r(5), of "nat ofs"] upto_end_sub [of ino sz ofs] by simp
  moreover have "inode_read_at i sz ofs s = Some (take (k - nat ofs) ?c, s')"
    using r(1) assms(2) unfolding inode_read_at_def sl by simp
  ultimately show ?thesis
    unfolding t using r(2,3)
    by (intro exI [of _ s'] exI [of _ "if mem_ok s (allocs s) then nat sz else k - nat ofs"]) simp
qed

lemma content_overlay:
  assumes w: "written_bytes d off n s s' (base ino + P) xs" and fit: "P + length xs \<le> len ino"
    and ok: "ino_ok n ino"
  shows "content d off s' ino = overlay (content d off s ino) P xs"
proof (rule nth_equalityI)
  show "length (content d off s' ino) = length (overlay (content d off s ino) P xs)"
    using fit by (simp add: length_overlay)
  fix p assume "p < length (content d off s' ino)"
  then have p: "p < len ino" by simp
  have "base ino + p < n * 512" using p ok by (auto simp: ino_ok_def base_def len_def)
  then have "dbyte d off s' (base ino + p) =
      (if base ino + P \<le> base ino + p \<and> base ino + p < base ino + P + length xs then xs ! (base ino + p - (base ino + P))
       else dbyte d off s (base ino + p))" using w by (simp add: written_bytes_def)
  then show "content d off s' ino ! p = overlay (content d off s ino) P xs ! p"
    using p fit nth_overlay [of P xs "content d off s ino" p] by (simp add: content_def)
qed

lemma content_apart:
  assumes w: "written_bytes d off n s s' P xs" and ok: "ino_ok n ino"
    and "base ino + len ino \<le> P \<or> P + length xs \<le> base ino \<or> xs = []"
  shows "content d off s' ino = content d off s ino"
proof -
  have "dbyte d off s' (base ino + p) = dbyte d off s (base ino + p)" if "p < len ino" for p
  proof -
    have "base ino + p < n * 512" using that ok by (auto simp: ino_ok_def base_def len_def)
    then show ?thesis using w assms(3) that by (auto simp: written_bytes_def)
  qed
  then show ?thesis by (simp add: content_def)
qed

lemma sect_apart:
  assumes w: "written_bytes d off n s s' P xs" and dev: "fsdev d off n s" "fsdev d off n s'" and k: "k < n"
    and "k * 512 + 512 \<le> P \<or> P + length xs \<le> k * 512"
  shows "sect d off s' k = sect d off s k"
proof (rule nth_equalityI)
  show "length (sect d off s' k) = length (sect d off s k)" using fsdev_length [OF dev(1) k] fsdev_length [OF dev(2) k] by simp
  fix i assume "i < length (sect d off s' k)"
  then have i: "i < 512" using fsdev_length [OF dev(2) k] by simp
  then have "k * 512 + i < n * 512" using k by simp
  then have "dbyte d off s' (k * 512 + i) = dbyte d off s (k * 512 + i)"
    using w assms(5) i by (auto simp: written_bytes_def)
  then show "sect d off s' k ! i = sect d off s k ! i" using i by (simp add: dbyte_def)
qed

lemma inode_write_at_ok:
  assumes "fsdev d off n s" and i: "inodes s i = Some ino" and ok: "ino_ok n ino" and o: "0 \<le> ofs"
    and b: "nat sz \<le> length buf" and dw: "deny_write_cnt ino = 0"
  shows "\<exists>s' k. inode_write_at i buf sz ofs s = Some (int k, s') \<and> io s s' \<and> fsdev d off n s' \<and>
    written_bytes d off n s s' (base ino + nat ofs) (take k buf) \<and> k \<le> length buf \<and> (k = 0 \<or> nat ofs + k \<le> len ino) \<and>
    k \<le> min (nat sz) (len ino - nat ofs) \<and> (mem_ok s (allocs s) \<longrightarrow> k = min (nat sz) (len ino - nat ofs))"
proof -
  have b0: "nat sz \<le> length (drop 0 buf)" using b by simp
  obtain s' k where r: "write_loop ino False buf sz ofs (int 0) s = Some (int (0 + (k - nat ofs)), s')" "io s s'"
    "fsdev d off n s'" "written_bytes d off n s s' (base ino + nat ofs) (take (k - nat ofs) (drop 0 buf))"
    "nat ofs \<le> k" "k \<le> upto_end ino sz ofs" "False \<or> mem_ok s (allocs s) \<longrightarrow> k = upto_end ino sz ofs"
    using write_loop_ok [OF assms(1) ok o b0, of False] by blast
  have le: "k - nat ofs \<le> min (nat sz) (len ino - nat ofs)" using r(6) upto_end_sub [of ino sz ofs] by (metis diff_le_mono)
  have eq: "mem_ok s (allocs s) \<longrightarrow> k - nat ofs = min (nat sz) (len ino - nat ofs)"
    using r(7) upto_end_sub [of ino sz ofs] by simp
  have e: "k - nat ofs = 0 \<or> nat ofs + (k - nat ofs) \<le> len ino"
  proof -
    have "k - nat ofs \<le> len ino - nat ofs" using le by simp
    then show ?thesis by linarith
  qed
  have kb: "k - nat ofs \<le> length buf" using le b by simp
  show ?thesis
    using r(1-4) le eq e kb i dw by (intro exI [of _ s'] exI [of _ "k - nat ofs"]) (simp add: inode_write_at_def)
qed

text \<open>C13: Reading an open file returns exactly the bytes of its contents from the
offset on, as many as asked for and as there are, across sector boundaries and at
the end of the file. If the bounce buffer cannot be allocated it returns a shorter
prefix. Nothing but counters changes.\<close>

theorem inode_read_at_correct:
  assumes "fsdev d off n s" and "inodes s i = Some ino" and "ino_ok n ino" and "0 \<le> ofs"
  shows "\<exists>s' k. inode_read_at i sz ofs s = Some (take k (drop (nat ofs) (content d off s ino)), s') \<and>
    k \<le> nat sz \<and> (mem_ok s (allocs s) \<longrightarrow> k = nat sz) \<and>
    media s' = media s \<and> inodes s' = inodes s \<and> files s' = files s \<and> free_map s' = free_map s"
proof -
  obtain s' k where r: "inode_read_at i sz ofs s = Some (take k (drop (nat ofs) (content d off s ino)), s')" "io s s'"
    "media s' = media s" "k \<le> nat sz" "mem_ok s (allocs s) \<longrightarrow> k = nat sz"
    using inode_read_at_ok [OF assms] by blast
  then show ?thesis using io_frame [OF r(2)] by (intro exI [of _ s'] exI [of _ k]) simp
qed


definition demo_inode :: inode where
  "demo_inode = \<lparr>i_sector = 2, open_cnt = 1, removed = False, deny_write_cnt = 0,
     idata = \<lparr>d_start = 3, d_length = 1000, d_magic = INODE_MAGIC\<rparr>\<rparr>"

definition demo_fsys :: fsys where
  "demo_fsys = \<lparr>allocs = 1, mem_ok = (\<lambda>_. True),
     blocks = [1 \<mapsto> \<lparr>bname = [104, 100, 97], btype = BLOCK_RAW, bsize = 1000, ops = Ide 0\<rparr>], all_blocks = [1],
     block_by_role = (\<lambda>_. 0), read_cnt = (\<lambda>_. 0), write_cnt = (\<lambda>_. 0), media = (\<lambda>_. demo_disk),
     fs_device = 1, inodes = [5 \<mapsto> demo_inode], open_inodes = [5], files = Map.empty, dirs = Map.empty,
     free_map = \<lparr>bit_cnt = 1000, bits = replicate 32 0\<rparr>, free_map_file = 0\<rparr>"

lemma demo_fsdev: "fsdev 0 0 1000 demo_fsys"
  using demo_bsys_maps by (simp add: fsdev_def demo_fsys_def demo_bsys_def demo_disk_def)

lemma demo_inode_ok: "inodes demo_fsys 5 = Some demo_inode" "ino_ok 1000 demo_inode" "mem_ok demo_fsys = (\<lambda>_. True)"
  "0 \<le> deny_write_cnt demo_inode" "deny_write_cnt demo_inode = 0"
  by (simp_all add: demo_fsys_def ino_ok_def demo_inode_def)

theorem inode_read_at_correct_witness:
  "fsdev 0 0 1000 demo_fsys \<and> ino_ok 1000 demo_inode \<and>
   (\<exists>s'. inode_read_at 5 600 300 demo_fsys = Some (take 600 (drop 300 (content 0 0 demo_fsys demo_inode)), s'))"
proof -
  have "(0 :: int) \<le> 300" by simp
  from inode_read_at_correct [OF demo_fsdev demo_inode_ok(1,2) this, of 600] obtain s' k where
    "inode_read_at 5 600 300 demo_fsys = Some (take k (drop (nat 300) (content 0 0 demo_fsys demo_inode)), s')"
    "mem_ok demo_fsys (allocs demo_fsys) \<longrightarrow> k = nat 600" by blast
  then show ?thesis using demo_fsdev demo_inode_ok(2,3) by simp
qed


end
