(* ===== verification/Directory.thy ===== *)
theory Directory
  imports Inode_IO
begin

text \<open>
  \<open>filesys/directory.c\<close> and \<open>filesys/filesys.c\<close>. A directory is a file that holds an
  array of 20-byte entries. A name argument is the value of the C string, without its
  terminator; it is never a null pointer here. An entry on the stack of a function
  starts with arbitrary contents, which is an argument of the model where the code
  may write them to disk.
\<close>

section \<open>Directory entries\<close>

definition NAME_MAX :: nat where "NAME_MAX = 14"

record dir_entry =
  inode_sector :: u32
  ename :: "u8 list"
  in_use :: bool

text \<open>The structure as bytes, \<open>sizeof\<close> 20: a word, \<open>char[NAME_MAX + 1]\<close> and a \<open>bool\<close>.\<close>

definition entry_bytes :: "dir_entry \<Rightarrow> u8 list" where
  "entry_bytes e = put32 (inode_sector e) @ ename e @ [if in_use e then 1 else 0]"

definition parse_entry :: "u8 list \<Rightarrow> dir_entry" where
  "parse_entry bs = \<lparr>inode_sector = get32 bs 0, ename = take 15 (drop 4 bs), in_use = bs ! 19 \<noteq> 0\<rparr>"

text \<open>
  \<open>strcmp (a, b) == 0\<close> for arrays of characters; a comparison that runs off one of
  the arrays has no result.
\<close>

fun streq :: "u8 list \<Rightarrow> u8 list \<Rightarrow> bool option" where
  "streq (a # as) (b # bs) = (if a \<noteq> b then Some False else if a = 0 then Some True else streq as bs)"
| "streq _ _ = None"

text \<open>\<open>strlcpy (dst, src, size)\<close>, with \<open>src\<close> the value of the source string and \<open>size > 0\<close>.\<close>

definition strlcpy_bytes :: "u8 list \<Rightarrow> u8 list \<Rightarrow> nat \<Rightarrow> u8 list" where
  "strlcpy_bytes dst src sz = overlay dst 0 (take (sz - 1) src @ [0])"

section \<open>Directories\<close>

definition dir_create :: "u32 \<Rightarrow> u32 \<Rightarrow> 'a fsys_scheme \<Rightarrow> (bool \<times> 'a fsys_scheme) option" where
  "dir_create sector entry_cnt s = inode_create sector (sint (entry_cnt * 20)) s"

definition dir_open :: "ptr \<Rightarrow> 'a fsys_scheme \<Rightarrow> (ptr \<times> 'a fsys_scheme) option" where
  "dir_open i s = do {
     let (d, s) = malloc s;
     if i \<noteq> 0 \<and> d \<noteq> 0
     then Some (d, s\<lparr>dirs := (dirs s)(d \<mapsto> \<lparr>dir_inode = i, dir_pos = 0\<rparr>)\<rparr>)
     else do { s \<leftarrow> inode_close i s; Some (0, s) } }"

definition dir_open_root :: "'a fsys_scheme \<Rightarrow> (ptr \<times> 'a fsys_scheme) option" where
  "dir_open_root s = do { (i, s) \<leftarrow> inode_open ROOT_DIR_SECTOR s; dir_open i s }"

definition dir_reopen :: "ptr \<Rightarrow> 'a fsys_scheme \<Rightarrow> (ptr \<times> 'a fsys_scheme) option" where
  "dir_reopen d s = do {
     dr \<leftarrow> dirs s d;
     (i, s) \<leftarrow> inode_reopen (dir_inode dr) s;
     dir_open i s }"

definition dir_close :: "ptr \<Rightarrow> 'a fsys_scheme \<Rightarrow> 'a fsys_scheme option" where
  "dir_close d s =
     (if d \<noteq> 0 then do {
        dr \<leftarrow> dirs s d;
        s \<leftarrow> inode_close (dir_inode dr) s;
        Some (s\<lparr>dirs := (dirs s)(d := None)\<rparr>) }
      else Some s)"

definition dir_get_inode :: "ptr \<Rightarrow> 'a fsys_scheme \<Rightarrow> ptr option" where
  "dir_get_inode d s = map_option dir_inode (dirs s d)"

text \<open>\<open>lookup\<close>: the entry and its offset, if there is one.\<close>

partial_function (option) lookup_loop ::
  "ptr \<Rightarrow> u8 list \<Rightarrow> u32 \<Rightarrow> 'a fsys_scheme \<Rightarrow> ((dir_entry \<times> u32) option \<times> 'a fsys_scheme) option" where
  "lookup_loop i name ofs s = do {
     (bs, s) \<leftarrow> inode_read_at i 20 (sint ofs) s;
     if length bs = 20 then do {
       let e = parse_entry bs;
       hit \<leftarrow> (if in_use e then streq (name @ [0]) (ename e) else Some False);
       if hit then Some (Some (e, ofs), s)
       else lookup_loop i name (ofs + 20) s }
     else Some (None, s) }"

definition lookup ::
  "ptr \<Rightarrow> u8 list \<Rightarrow> 'a fsys_scheme \<Rightarrow> ((dir_entry \<times> u32) option \<times> 'a fsys_scheme) option" where
  "lookup d name s = do {
     ASSERT (d \<noteq> 0);
     dr \<leftarrow> dirs s d;
     lookup_loop (dir_inode dr) name 0 s }"

text \<open>The result is \<open>*inode\<close>; the function returns whether it is not null.\<close>

definition dir_lookup :: "ptr \<Rightarrow> u8 list \<Rightarrow> 'a fsys_scheme \<Rightarrow> (ptr \<times> 'a fsys_scheme) option" where
  "dir_lookup d name s = do {
     ASSERT (d \<noteq> 0);
     (found, s) \<leftarrow> lookup d name s;
     case found of
       Some (e, _) \<Rightarrow> inode_open (inode_sector e) s
     | None \<Rightarrow> Some (0, s) }"

partial_function (option) free_slot ::
  "ptr \<Rightarrow> dir_entry \<Rightarrow> int \<Rightarrow> 'a fsys_scheme \<Rightarrow> (int \<times> dir_entry \<times> 'a fsys_scheme) option" where
  "free_slot i e ofs s = do {
     (bs, s) \<leftarrow> inode_read_at i 20 ofs s;
     let e = parse_entry (overlay (entry_bytes e) 0 bs);
     if length bs = 20 \<and> in_use e then free_slot i e (ofs + 20) s
     else Some (ofs, e, s) }"

definition dir_add ::
  "ptr \<Rightarrow> u8 list \<Rightarrow> u32 \<Rightarrow> dir_entry \<Rightarrow> 'a fsys_scheme \<Rightarrow> (bool \<times> 'a fsys_scheme) option" where
  "dir_add d name sector e s = do {
     ASSERT (d \<noteq> 0);
     dr \<leftarrow> dirs s d;
     if name = [] \<or> length name > NAME_MAX then Some (False, s)
     else do {
       (found, s) \<leftarrow> lookup d name s;
       if found \<noteq> None then Some (False, s)
       else do {
         (ofs, e, s) \<leftarrow> free_slot (dir_inode dr) e 0 s;
         let e = e\<lparr>in_use := True\<rparr>;
         let e = e\<lparr>ename := strlcpy_bytes (ename e) name 15\<rparr>;
         let e = e\<lparr>inode_sector := sector\<rparr>;
         (n, s) \<leftarrow> inode_write_at (dir_inode dr) (entry_bytes e) 20 ofs s;
         Some (n = 20, s) } } }"

definition dir_remove :: "ptr \<Rightarrow> u8 list \<Rightarrow> 'a fsys_scheme \<Rightarrow> (bool \<times> 'a fsys_scheme) option" where
  "dir_remove d name s = do {
     ASSERT (d \<noteq> 0);
     dr \<leftarrow> dirs s d;
     (found, s) \<leftarrow> lookup d name s;
     case found of
       None \<Rightarrow> do { s \<leftarrow> inode_close 0 s; Some (False, s) }
     | Some (e, ofs) \<Rightarrow> do {
         (i, s) \<leftarrow> inode_open (inode_sector e) s;
         if i = 0 then do { s \<leftarrow> inode_close i s; Some (False, s) }
         else do {
           let e = e\<lparr>in_use := False\<rparr>;
           (n, s) \<leftarrow> inode_write_at (dir_inode dr) (entry_bytes e) 20 (sint ofs) s;
           if n \<noteq> 20 then do { s \<leftarrow> inode_close i s; Some (False, s) }
           else do {
             s \<leftarrow> inode_remove i s;
             s \<leftarrow> inode_close i s;
             Some (True, s) } } } }"

text \<open>The result has the contents of the buffer for the name.\<close>

partial_function (option) dir_readdir ::
  "ptr \<Rightarrow> u8 list \<Rightarrow> 'a fsys_scheme \<Rightarrow> (bool \<times> u8 list \<times> 'a fsys_scheme) option" where
  "dir_readdir d name s = do {
     dr \<leftarrow> dirs s d;
     (bs, s) \<leftarrow> inode_read_at (dir_inode dr) 20 (dir_pos dr) s;
     if length bs = 20 then do {
       let s = s\<lparr>dirs := (dirs s)(d \<mapsto> dr\<lparr>dir_pos := dir_pos dr + 20\<rparr>)\<rparr>;
       let e = parse_entry bs;
       if in_use e then Some (True, strlcpy_bytes name (takeWhile (\<lambda>c. c \<noteq> 0) (ename e)) (NAME_MAX + 1), s)
       else dir_readdir d name s }
     else Some (False, name, s) }"

section \<open>The file system\<close>

definition do_format :: "'a fsys_scheme \<Rightarrow> 'a fsys_scheme option" where
  "do_format s = do {
     s \<leftarrow> free_map_create s;
     (success, s) \<leftarrow> dir_create ROOT_DIR_SECTOR 16 s;
     ASSERT success;
     free_map_close s }"

text \<open>\<open>junk\<close>: the uninitialised words of the new bitmap.\<close>

definition filesys_init :: "u32 list \<Rightarrow> bool \<Rightarrow> 'a fsys_scheme \<Rightarrow> 'a fsys_scheme option" where
  "filesys_init junk format s = do {
     b \<leftarrow> block_get_role BLOCK_FILESYS s;
     let s = s\<lparr>fs_device := b\<rparr>;
     ASSERT (fs_device s \<noteq> 0);
     let s = inode_init s;
     s \<leftarrow> free_map_init junk s;
     s \<leftarrow> (if format then do_format s else Some s);
     free_map_open s }"

definition filesys_done :: "'a fsys_scheme \<Rightarrow> 'a fsys_scheme option" where
  "filesys_done s = free_map_close s"

text \<open>\<open>inode_sector\<close> is 0 until the allocation succeeds; the conjunction stops at the first failure.\<close>

definition filesys_create ::
  "u8 list \<Rightarrow> int \<Rightarrow> dir_entry \<Rightarrow> 'a fsys_scheme \<Rightarrow> (bool \<times> 'a fsys_scheme) option" where
  "filesys_create name initial_size e s = do {
     (d, s) \<leftarrow> dir_open_root s;
     (success, sector, s) \<leftarrow>
       (if d = 0 then Some (False, 0, s)
        else do {
          (allocated, s) \<leftarrow> free_map_allocate 1 s;
          case allocated of
            None \<Rightarrow> Some (False, 0, s)
          | Some sector \<Rightarrow> do {
              (created, s) \<leftarrow> inode_create sector initial_size s;
              if \<not> created then Some (False, sector, s)
              else do {
                (added, s) \<leftarrow> dir_add d name sector e s;
                Some (added, sector, s) } } });
     s \<leftarrow> (if \<not> success \<and> sector \<noteq> 0 then free_map_release sector 1 s else Some s);
     s \<leftarrow> dir_close d s;
     Some (success, s) }"

definition filesys_open :: "u8 list \<Rightarrow> 'a fsys_scheme \<Rightarrow> (ptr \<times> 'a fsys_scheme) option" where
  "filesys_open name s = do {
     (d, s) \<leftarrow> dir_open_root s;
     (i, s) \<leftarrow> (if d \<noteq> 0 then dir_lookup d name s else Some (0, s));
     s \<leftarrow> dir_close d s;
     file_open i s }"

definition filesys_remove :: "u8 list \<Rightarrow> 'a fsys_scheme \<Rightarrow> (bool \<times> 'a fsys_scheme) option" where
  "filesys_remove name s = do {
     (d, s) \<leftarrow> dir_open_root s;
     (success, s) \<leftarrow> (if d \<noteq> 0 then dir_remove d name s else Some (False, s));
     s \<leftarrow> dir_close d s;
     Some (success, s) }"

end
