(* ===== verification/Directory_Map.thy ===== *)
theory Directory_Map
  imports Directory
begin

text \<open>
  A directory as a finite map from names to sectors. The contents of the directory's
  file are an array of slots; the map has the slots in use. The loops of \<open>lookup\<close> and
  \<open>dir_add\<close> find the slot the map says, and writing a slot updates the map at one name.
\<close>

section \<open>Slots\<close>

definition slot :: "u8 list \<Rightarrow> nat \<Rightarrow> dir_entry" where
  "slot cs k = parse_entry (take 20 (drop (20 * k) cs))"

definition slots :: "u8 list \<Rightarrow> nat" where
  "slots cs = length cs div 20"

definition fname :: "dir_entry \<Rightarrow> u8 list" where
  "fname e = takeWhile (\<lambda>c. c \<noteq> 0) (ename e)"

definition hit :: "u8 list \<Rightarrow> u8 list \<Rightarrow> nat \<Rightarrow> bool" where
  "hit cs name k \<longleftrightarrow> in_use (slot cs k) \<and> fname (slot cs k) = name"

definition dir_map :: "u8 list \<Rightarrow> u8 list \<Rightarrow> u32 option" where
  "dir_map cs name = map_option (\<lambda>k. inode_sector (slot cs k)) (find (hit cs name) [0..<slots cs])"

text \<open>Names in use are terminated and differ.\<close>

definition dir_ok :: "u8 list \<Rightarrow> bool" where
  "dir_ok cs \<longleftrightarrow> (\<forall>k < slots cs. in_use (slot cs k) \<longrightarrow> 0 \<in> set (ename (slot cs k))) \<and>
     (\<forall>j < slots cs. \<forall>k < slots cs. in_use (slot cs j) \<and> in_use (slot cs k) \<and> fname (slot cs j) = fname (slot cs k) \<longrightarrow> j = k)"

lemma slot_fits: "k < slots cs \<Longrightarrow> 20 * k + 20 \<le> length cs"
proof -
  assume "k < slots cs"
  then have "20 * Suc k \<le> 20 * (length cs div 20)" by (simp add: slots_def)
  also have "\<dots> \<le> length cs" by simp
  finally show ?thesis by simp
qed

lemma length_ename_slot [simp]: "k < slots cs \<Longrightarrow> length (ename (slot cs k)) = 15"
  using slot_fits [of k cs] by (simp add: slot_def parse_entry_def)

lemma length_entry_bytes [simp]: "length (entry_bytes e) = 5 + length (ename e)"
  by (simp add: entry_bytes_def)

lemma parse_entry_bytes: "length (ename e) = 15 \<Longrightarrow> parse_entry (entry_bytes e) = e" for e :: dir_entry
  by (cases e) (simp add: parse_entry_def entry_bytes_def nth_append put32_def [symmetric])

lemma streq_name:
  "0 \<notin> set name \<Longrightarrow> 0 \<in> set nm \<Longrightarrow> streq (name @ [0]) nm = Some (takeWhile (\<lambda>c. c \<noteq> 0) nm = name)"
proof (induction name arbitrary: nm)
  case Nil
  then show ?case by (cases nm) auto
next
  case (Cons a name)
  then show ?case by (cases nm) auto
qed

lemma fname_strlcpy:
  "0 \<notin> set name \<Longrightarrow> length name \<le> 14 \<Longrightarrow> fname (e\<lparr>ename := strlcpy_bytes nm name 15\<rparr>) = name"
  by (subst fname_def, simp add: strlcpy_bytes_def overlay_def, subst takeWhile_append2) auto

lemma length_strlcpy [simp]:
  "length name \<le> 14 \<Longrightarrow> length nm = 15 \<Longrightarrow> length (strlcpy_bytes nm name 15) = 15"
  by (simp add: strlcpy_bytes_def overlay_def)

lemma strlcpy_terminated [simp]: "0 \<in> set (strlcpy_bytes nm name sz)"
  by (simp add: strlcpy_bytes_def overlay_def)

lemma length_overlay_fits: "P + length xs \<le> length cs \<Longrightarrow> length (overlay cs P xs) = length cs"
  by (simp add: overlay_def)

lemma slots_overlay [simp]: "k < slots cs \<Longrightarrow> length xs = 20 \<Longrightarrow> slots (overlay cs (20 * k) xs) = slots cs"
  using slot_fits [of k cs] by (simp add: slots_def length_overlay_fits)

lemma slot_overlay:
  assumes "k < slots cs" and "j < slots cs" and "length xs = 20"
  shows "slot (overlay cs (20 * k) xs) j = (if j = k then parse_entry xs else slot cs j)"
proof -
  have k: "20 * k + 20 \<le> length cs" and j: "20 * j + 20 \<le> length cs" using assms slot_fits by blast+
  have "take 20 (drop (20 * j) (overlay cs (20 * k) xs)) = (if j = k then xs else take 20 (drop (20 * j) cs))"
  proof (rule nth_equalityI)
    show "length (take 20 (drop (20 * j) (overlay cs (20 * k) xs))) = length (if j = k then xs else take 20 (drop (20 * j) cs))"
      using k j assms(3) by (simp add: length_overlay_fits)
    fix p assume "p < length (take 20 (drop (20 * j) (overlay cs (20 * k) xs)))"
    then have p: "p < 20" by simp
    have "j < k \<Longrightarrow> 20 * j + p < 20 * k" "k < j \<Longrightarrow> 20 * k + 20 \<le> 20 * j + p" using p by auto
    then show "take 20 (drop (20 * j) (overlay cs (20 * k) xs)) ! p = (if j = k then xs else take 20 (drop (20 * j) cs)) ! p"
      using k j p assms(3) nth_overlay [of "20 * k" xs cs "20 * j + p"] length_overlay_fits [of "20 * k" xs cs]
      by (cases j k rule: linorder_cases) auto
  qed
  then show ?thesis by (simp add: slot_def)
qed

section \<open>The map\<close>

lemma dir_map_Some:
  assumes "dir_ok cs" and "k < slots cs" and "hit cs name k"
  shows "dir_map cs name = Some (inode_sector (slot cs k))"
proof -
  have "find (hit cs name) [0..<slots cs] = Some k"
    unfolding find_upt_Some_iff using assms by (auto simp: dir_ok_def hit_def) (metis less_trans nat_neq_iff)
  then show ?thesis by (simp add: dir_map_def)
qed

lemma dir_map_None: "dir_map cs name = None \<longleftrightarrow> (\<forall>k < slots cs. \<not> hit cs name k)"
  by (simp add: dir_map_def find_upt_None_iff)

lemma dir_mapE:
  assumes "dir_map cs name = Some x"
  obtains k where "k < slots cs" "hit cs name k" "x = inode_sector (slot cs k)"
  using assms by (auto simp: dir_map_def find_upt_Some_iff)

lemma dir_ok_set:
  assumes ok: "dir_ok cs" and k: "k < slots cs" and e: "length (ename e) = 15"
    and new: "in_use e \<Longrightarrow> 0 \<in> set (ename e) \<and> (\<forall>j < slots cs. j \<noteq> k \<longrightarrow> \<not> hit cs (fname e) j)"
  shows "dir_ok (overlay cs (20 * k) (entry_bytes e))"
proof -
  have l: "length (entry_bytes e) = 20" using e by simp
  have s: "slot (overlay cs (20 * k) (entry_bytes e)) j = (if j = k then e else slot cs j)" if "j < slots cs" for j
    using slot_overlay [OF k that l] parse_entry_bytes [OF e] by simp
  show ?thesis
    unfolding dir_ok_def slots_overlay [OF k l]
  proof (intro conjI allI impI, goal_cases)
    case (1 j)
    then show ?case using ok new s [of j] by (auto simp: dir_ok_def)
  next
    case (2 i j)
    then show ?case
      using ok new s [of i] s [of j] by (auto simp: dir_ok_def hit_def split: if_splits)
  qed
qed

text \<open>Filling a free slot and freeing a slot update the map at one name.\<close>

lemma dir_map_add:
  assumes ok: "dir_ok cs" and k: "k < slots cs" and free: "\<not> in_use (slot cs k)" and e: "length (ename e) = 15"
    and use: "in_use e" "0 \<in> set (ename e)" and new: "dir_map cs (fname e) = None"
  shows "dir_map (overlay cs (20 * k) (entry_bytes e)) = (dir_map cs)(fname e \<mapsto> inode_sector e)" (is "dir_map ?cs = _")
    and "dir_ok (overlay cs (20 * k) (entry_bytes e))"
proof -
  have l: "length (entry_bytes e) = 20" using e by simp
  have s: "slot ?cs j = (if j = k then e else slot cs j)" if "j < slots cs" for j
    using slot_overlay [OF k that l] parse_entry_bytes [OF e] by simp
  have no: "\<not> hit cs (fname e) j" if "j < slots cs" for j using new that by (simp add: dir_map_None)
  show ok': "dir_ok ?cs" using dir_ok_set [OF ok k e] use no by blast
  note sl = slots_overlay [OF k l]
  have h: "hit ?cs nm j \<longleftrightarrow> (if j = k then nm = fname e else hit cs nm j)" if "j < slots cs" for j nm
    using s [OF that] use by (auto simp: hit_def)
  show "dir_map ?cs = (dir_map cs)(fname e \<mapsto> inode_sector e)"
  proof
    fix nm
    show "dir_map ?cs nm = ((dir_map cs)(fname e \<mapsto> inode_sector e)) nm"
    proof (cases "nm = fname e")
      case True
      then show ?thesis using dir_map_Some [OF ok', of k nm] k sl h [OF k] s [OF k] by simp
    next
      case ne: False
      show ?thesis
      proof (cases "dir_map cs nm")
        case None
        then have "dir_map ?cs nm = None" using h ne sl by (simp add: dir_map_None)
        then show ?thesis using None ne by simp
      next
        case (Some x)
        then obtain j where j: "j < slots cs" "hit cs nm j" "x = inode_sector (slot cs j)" by (rule dir_mapE)
        then have "j \<noteq> k" using free by (auto simp: hit_def)
        then show ?thesis using dir_map_Some [OF ok', of j nm] j sl h [OF j(1)] s [OF j(1)] ne Some by simp
      qed
    qed
  qed
qed

lemma dir_map_clear:
  assumes ok: "dir_ok cs" and k: "k < slots cs" and h0: "hit cs name k" and e: "e = (slot cs k)\<lparr>in_use := False\<rparr>"
  shows "dir_map (overlay cs (20 * k) (entry_bytes e)) = (dir_map cs)(name := None)" (is "dir_map ?cs = _")
    and "dir_ok (overlay cs (20 * k) (entry_bytes e))"
proof -
  have le: "length (ename e) = 15" using k e by simp
  then have l: "length (entry_bytes e) = 20" by simp
  have s: "slot ?cs j = (if j = k then e else slot cs j)" if "j < slots cs" for j
    using slot_overlay [OF k that l] parse_entry_bytes [OF le] by simp
  show ok': "dir_ok ?cs" using dir_ok_set [OF ok k le] e by simp
  note sl = slots_overlay [OF k l]
  have h: "hit ?cs nm j \<longleftrightarrow> j \<noteq> k \<and> hit cs nm j" if "j < slots cs" for j nm
    using s [OF that] e by (auto simp: hit_def)
  have one: "j = k" if "j < slots cs" "hit cs name j" for j using ok that k h0 by (auto simp: dir_ok_def hit_def)
  show "dir_map ?cs = (dir_map cs)(name := None)"
  proof
    fix nm
    show "dir_map ?cs nm = ((dir_map cs)(name := None)) nm"
    proof (cases "nm = name")
      case True
      then show ?thesis using h one sl by (auto simp: dir_map_None)
    next
      case ne: False
      show ?thesis
      proof (cases "dir_map cs nm")
        case None
        then have "dir_map ?cs nm = None" using h sl by (simp add: dir_map_None)
        then show ?thesis using None by simp
      next
        case (Some x)
        then obtain j where j: "j < slots cs" "hit cs nm j" "x = inode_sector (slot cs j)" by (rule dir_mapE)
        then have "j \<noteq> k" using h0 ne by (auto simp: hit_def)
        then show ?thesis using dir_map_Some [OF ok', of j nm] j sl h [OF j(1)] s [OF j(1)] ne Some by simp
      qed
    qed
  qed
qed

section \<open>Searching a directory\<close>

text \<open>Memory never runs out: the bounce buffers are always there.\<close>

definition mem_total :: "'a heap_scheme \<Rightarrow> bool" where
  "mem_total s \<longleftrightarrow> mem_ok s = (\<lambda>_. True)"

lemma io_mem_total: "io s s' \<Longrightarrow> mem_total s' = mem_total s"
  by (simp add: mem_total_def io_frame)

lemma sint_nat: "m < 2 ^ 31 \<Longrightarrow> sint (word_of_nat m :: u32) = int m"
  by (simp add: signed_of_nat signed_take_bit_int_eq_self)

lemma read_slot:
  assumes "fsdev d off n s" and "inodes s i = Some ino" and "ino_ok n ino" and "mem_total s"
  shows "\<exists>s'. inode_read_at i 20 (int (20 * k)) s = Some (take 20 (drop (20 * k) (content d off s ino)), s') \<and> io s s' \<and>
    media s' = media s"
proof -
  have "(0 :: int) \<le> int (20 * k)" by simp
  from inode_read_at_ok [OF assms(1-3) this, of 20] assms(4) show ?thesis by (auto simp: mem_total_def nat_mult_distrib)
qed

lemma slot_short: "length (take 20 (drop (20 * k) cs)) = 20 \<longleftrightarrow> k < slots cs"
proof
  assume "length (take 20 (drop (20 * k) cs)) = 20"
  then have "20 * Suc k \<le> length cs" by simp
  then have "20 * Suc k div 20 \<le> length cs div 20" by (rule div_le_mono)
  then show "k < slots cs" by (simp add: slots_def)
next
  assume "k < slots cs"
  from slot_fits [OF this] show "length (take 20 (drop (20 * k) cs)) = 20" by simp
qed

lemma upt_find_step: "k < m \<Longrightarrow> find P [k..<m] = (if P k then Some k else find P [Suc k..<m])"
  by (simp add: upt_conv_Cons)

lemma lookup_loop_ok:
  assumes "fsdev d off n s" and "inodes s i = Some ino" and "ino_ok n ino" and "mem_total s" and "len ino < 2 ^ 31"
    and "dir_ok cs" and "cs = content d off s ino" and "0 \<notin> set name" and "k \<le> slots cs"
  shows "\<exists>s'. lookup_loop i name (word_of_nat (20 * k)) s =
      Some (map_option (\<lambda>j. (slot cs j, word_of_nat (20 * j))) (find (hit cs name) [k..<slots cs]), s') \<and> io s s' \<and>
      media s' = media s"
  using assms
proof (induction "slots cs - k" arbitrary: k s)
  case (0 k s)
  obtain s' where s': "inode_read_at i 20 (int (20 * k)) s = Some (take 20 (drop (20 * k) cs), s')" "io s s'" "media s' = media s"
    using read_slot [OF 0(2-5)] 0(8) by blast
  have "20 * k \<le> length cs" using 0(10) unfolding slots_def by linarith
  then have si: "sint (word_of_nat (20 * k) :: u32) = int (20 * k)" using 0(6,8) by (intro sint_nat) simp
  have "length (take 20 (drop (20 * k) cs)) \<noteq> 20" using slot_short [of k cs] 0(1) by simp
  then have "lookup_loop i name (word_of_nat (20 * k)) s = Some (None, s')"
    by (subst lookup_loop.simps) (simp only: si s'(1) bind.bind_lunit prod.case if_False)
  then show ?case using s' 0(1) by simp
next
  case (Suc m k s)
  then have k: "k < slots cs" by simp
  obtain s1 where s1: "inode_read_at i 20 (int (20 * k)) s = Some (take 20 (drop (20 * k) cs), s1)" "io s s1" "media s1 = media s"
    using read_slot [OF Suc(3-6)] Suc(9) by blast
  have "20 * k \<le> length cs" using Suc(11) unfolding slots_def by linarith
  then have si: "sint (word_of_nat (20 * k) :: u32) = int (20 * k)" using Suc(7,9) by (intro sint_nat) simp
  have l: "length (take 20 (drop (20 * k) cs)) = 20" using slot_short [of k cs] k by simp
  have c: "(if in_use (slot cs k) then streq (name @ [0]) (ename (slot cs k)) else Some False) = Some (hit cs name k)"
    using Suc(8,10) k streq_name [of name "ename (slot cs k)"] by (auto simp: dir_ok_def hit_def fname_def)
  have w: "word_of_nat (20 * k) + 20 = (word_of_nat (20 * Suc k) :: u32)" by simp
  have step: "lookup_loop i name (word_of_nat (20 * k)) s =
      (if hit cs name k then Some (Some (slot cs k, word_of_nat (20 * k)), s1)
       else lookup_loop i name (word_of_nat (20 * Suc k)) s1)"
    by (subst lookup_loop.simps)
      (simp only: si s1(1) bind.bind_lunit prod.case l if_True refl Let_def slot_def [symmetric] c w)
  show ?case
  proof (cases "hit cs name k")
    case True
    then show ?thesis using step s1 upt_find_step [OF k, of "hit cs name"] by simp
  next
    case False
    note fr = fsdev_media_cong [OF s1(2,3), of d off n]
    have e: "cs = content d off s1 ino" using Suc(9) fr by (simp add: content_def)
    have m: "m = slots cs - Suc k" using Suc(2) by simp
    have p: "fsdev d off n s1" "inodes s1 i = Some ino" "mem_total s1"
      using fr Suc(3,4,6) io_frame(1) [OF s1(2)] io_mem_total [OF s1(2)] by simp_all
    from Suc(1) [OF m p(1,2) Suc(5) p(3) Suc(7,8) e Suc(10) Suc_leI [OF k]]
    obtain s' where s': "lookup_loop i name (word_of_nat (20 * Suc k)) s1 =
        Some (map_option (\<lambda>j. (slot cs j, word_of_nat (20 * j))) (find (hit cs name) [Suc k..<slots cs]), s')"
        "io s1 s'" "media s' = media s1" by blast
    then show ?thesis using step False upt_find_step [OF k, of "hit cs name"] io_trans [OF s1(2) s'(2)] s1(3) by simp
  qed
qed

text \<open>The first slot from \<open>k\<close> on that is free, or the end.\<close>

definition next_free :: "u8 list \<Rightarrow> nat \<Rightarrow> nat" where
  "next_free cs k = (case find (\<lambda>j. \<not> in_use (slot cs j)) [k..<slots cs] of Some j \<Rightarrow> j | None \<Rightarrow> slots cs)"

lemma next_free_step:
  "k < slots cs \<Longrightarrow> next_free cs k = (if in_use (slot cs k) then next_free cs (Suc k) else k)"
  by (simp add: next_free_def upt_find_step)

lemma next_free_bound: "next_free cs k \<le> slots cs"
  by (auto simp: next_free_def find_upt_Some_iff split: option.splits)

lemma next_free_free: "next_free cs k < slots cs \<Longrightarrow> \<not> in_use (slot cs (next_free cs k))"
  unfolding next_free_def by (auto dest: find_upt_Some_iff [THEN iffD1] split: option.splits)

lemma entry_overlay:
  "length (ename e) = 15 \<Longrightarrow> length bs \<le> 20 \<Longrightarrow> length (ename (parse_entry (overlay (entry_bytes e) 0 bs))) = 15"
  by (simp add: parse_entry_def overlay_def)

lemma entry_overlay_full: "length bs = 20 \<Longrightarrow> length (ename e) = 15 \<Longrightarrow> overlay (entry_bytes e) 0 bs = bs"
  by (simp add: overlay_def)

lemma free_slot_ok:
  assumes "fsdev d off n s" and "inodes s i = Some ino" and "ino_ok n ino" and "mem_total s"
    and "cs = content d off s ino" and "length (ename e) = 15" and "k \<le> slots cs"
  shows "\<exists>s' e'. free_slot i e (int (20 * k)) s = Some (int (20 * next_free cs k), e', s') \<and> length (ename e') = 15 \<and>
      io s s' \<and> media s' = media s"
  using assms
proof (induction "slots cs - k" arbitrary: k s e)
  case (0 k s)
  obtain s' where s': "inode_read_at i 20 (int (20 * k)) s = Some (take 20 (drop (20 * k) cs), s')" "io s s'" "media s' = media s"
    using read_slot [OF 0(2-5)] 0(6) by blast
  have n: "length (take 20 (drop (20 * k) cs)) \<noteq> 20" using slot_short [of k cs] 0(1) by simp
  have "next_free cs k = k" using 0(1,8) by (simp add: next_free_def)
  then have "free_slot i e (int (20 * k)) s =
      Some (int (20 * next_free cs k), parse_entry (overlay (entry_bytes e) 0 (take 20 (drop (20 * k) cs))), s')"
    using n by (subst free_slot.simps) (simp only: s'(1) bind.bind_lunit prod.case if_False Let_def simp_thms)
  then show ?case using s'(2,3) entry_overlay [OF 0(7)] by simp
next
  case (Suc m k s)
  then have k: "k < slots cs" by simp
  obtain s1 where s1: "inode_read_at i 20 (int (20 * k)) s = Some (take 20 (drop (20 * k) cs), s1)" "io s s1" "media s1 = media s"
    using read_slot [OF Suc(3-6)] Suc(7) by blast
  have l: "length (take 20 (drop (20 * k) cs)) = 20" using slot_short [of k cs] k by simp
  note ov = entry_overlay_full [OF l Suc(8)]
  have w: "int (20 * k) + 20 = int (20 * Suc k)" by simp
  have step: "free_slot i e (int (20 * k)) s =
      (if in_use (slot cs k) then free_slot i (slot cs k) (int (20 * Suc k)) s1 else Some (int (20 * k), slot cs k, s1))"
    by (subst free_slot.simps)
      (simp only: s1(1) bind.bind_lunit prod.case l ov refl Let_def slot_def [symmetric] w simp_thms)
  show ?case
  proof (cases "in_use (slot cs k)")
    case False
    then show ?thesis using step s1(2,3) next_free_step [OF k] k by simp
  next
    case True
    note fr = fsdev_media_cong [OF s1(2,3), of d off n]
    have e: "cs = content d off s1 ino" using Suc(7) fr by (simp add: content_def)
    have m: "m = slots cs - Suc k" using Suc(2) by simp
    have p: "fsdev d off n s1" "inodes s1 i = Some ino" "mem_total s1"
      using fr Suc(3,4,6) io_frame(1) [OF s1(2)] io_mem_total [OF s1(2)] by simp_all
    from Suc(1) [OF m p(1,2) Suc(5) p(3) e length_ename_slot [OF k] Suc_leI [OF k]]
    obtain s' e' where s': "free_slot i (slot cs k) (int (20 * Suc k)) s1 = Some (int (20 * next_free cs (Suc k)), e', s')"
        "length (ename e') = 15" "io s1 s'" "media s' = media s1" by blast
    then show ?thesis
      using step True next_free_step [OF k] io_trans [OF s1(2) s'(3)] s1(3) by (intro exI [of _ s'] exI [of _ e']) simp
  qed
qed

section \<open>Adding a name\<close>

definition dir_full :: "u8 list \<Rightarrow> bool" where
  "dir_full cs \<longleftrightarrow> (\<forall>k < slots cs. in_use (slot cs k))"

lemma next_free_full: "next_free cs 0 < slots cs \<longleftrightarrow> \<not> dir_full cs"
  unfolding next_free_def dir_full_def
  by (auto dest: find_upt_None_iff [THEN iffD1] find_upt_Some_iff [THEN iffD1] split: option.splits)

lemma slot_overlay_tail:
  assumes "20 * slots cs + length xs \<le> length cs" and "j < slots cs"
  shows "slot (overlay cs (20 * slots cs) xs) j = slot cs j"
proof -
  have "20 * j + 20 \<le> 20 * slots cs" using assms(2) by simp
  then show ?thesis using assms(1) by (simp add: slot_def overlay_def drop_take)
qed

lemma dir_overlay_tail:
  assumes "20 * slots cs + length xs \<le> length cs"
  shows "dir_ok (overlay cs (20 * slots cs) xs) = dir_ok cs" and "dir_map (overlay cs (20 * slots cs) xs) = dir_map cs"
proof -
  have l: "slots (overlay cs (20 * slots cs) xs) = slots cs" using length_overlay_fits [OF assms] by (simp add: slots_def)
  note s = slot_overlay_tail [OF assms]
  show "dir_ok (overlay cs (20 * slots cs) xs) = dir_ok cs" unfolding dir_ok_def l using s by simp
  have "find (hit (overlay cs (20 * slots cs) xs) nm) [0..<slots cs] = find (hit cs nm) [0..<slots cs]" for nm
    by (rule find_cong) (simp add: hit_def s)
  moreover have "inode_sector (slot (overlay cs (20 * slots cs) xs) k) = inode_sector (slot cs k)"
    if "find (hit cs nm) [0..<slots cs] = Some k" for nm k
    using that s [of k] by (simp add: find_upt_Some_iff)
  ultimately show "dir_map (overlay cs (20 * slots cs) xs) = dir_map cs"
    by (auto simp: dir_map_def l fun_eq_iff split: option.splits intro!: map_option_cong)
qed

text \<open>What it takes to work on the directory behind \<open>dp\<close>, whose file has the contents \<open>cs\<close>.\<close>

definition dir_at :: "nat \<Rightarrow> nat \<Rightarrow> nat \<Rightarrow> 'a fsys_scheme \<Rightarrow> ptr \<Rightarrow> dir \<Rightarrow> inode \<Rightarrow> bool" where
  "dir_at d off n s dp dr ino \<longleftrightarrow> fsdev d off n s \<and> dp \<noteq> 0 \<and> dirs s dp = Some dr \<and> inodes s (dir_inode dr) = Some ino \<and>
     ino_ok n ino \<and> len ino < 2 ^ 31 \<and> mem_total s \<and> dir_ok (content d off s ino) \<and> deny_write_cnt ino = 0"

lemma dir_atD:
  assumes "dir_at d off n s dp dr ino"
  shows "fsdev d off n s" and "dp \<noteq> 0" and "dirs s dp = Some dr" and "inodes s (dir_inode dr) = Some ino"
    and "ino_ok n ino" and "len ino < 2 ^ 31" and "mem_total s" and "dir_ok (content d off s ino)" and "deny_write_cnt ino = 0"
  using assms by (simp_all add: dir_at_def)

lemma dir_at_read:
  assumes "dir_at d off n s dp dr ino" and "io s s'" and "media s' = media s"
  shows "dir_at d off n s' dp dr ino" and "content d off s' = content d off s"
proof -
  note fr = fsdev_media_cong [OF assms(2,3), of d off n]
  show c: "content d off s' = content d off s" using fr by (simp add: content_def fun_eq_iff)
  show "dir_at d off n s' dp dr ino"
    using assms(1) fr io_frame [OF assms(2)] io_mem_total [OF assms(2)] c by (simp add: dir_at_def)
qed

lemma lookup_ok:
  assumes at: "dir_at d off n s dp dr ino" and name: "0 \<notin> set name" and cs: "cs = content d off s ino"
  shows "\<exists>s'. lookup dp name s =
      Some (map_option (\<lambda>j. (slot cs j, word_of_nat (20 * j))) (find (hit cs name) [0..<slots cs]), s') \<and> io s s' \<and>
      media s' = media s"
  using lookup_loop_ok [OF dir_atD(1,4,5,7,6,8) [OF at] refl name, of 0] dir_atD(2,3) [OF at] cs by (simp add: lookup_def)

definition addable :: "u8 list \<Rightarrow> u8 list \<Rightarrow> bool" where
  "addable cs name \<longleftrightarrow> name \<noteq> [] \<and> length name \<le> NAME_MAX \<and> dir_map cs name = None \<and> \<not> dir_full cs"

lemma dir_add_ok:
  assumes at: "dir_at d off n s dp dr ino" and name: "0 \<notin> set name" and e: "length (ename e) = 15"
    and cs: "cs = content d off s ino"
  shows "\<exists>s' P xs. dir_add dp name sector e s = Some (addable cs name, s') \<and> io s s' \<and> fsdev d off n s' \<and>
      written_bytes d off n s s' (base ino + P) xs \<and> (xs = [] \<or> P + length xs \<le> len ino) \<and>
      dir_ok (content d off s' ino) \<and>
      dir_map (content d off s' ino) = (if addable cs name then (dir_map cs)(name \<mapsto> sector) else dir_map cs)"
proof -
  note D = dir_atD [OF at]
  obtain s1 where s1: "lookup dp name s =
      Some (map_option (\<lambda>j. (slot cs j, word_of_nat (20 * j))) (find (hit cs name) [0..<slots cs]), s1)" "io s s1"
    "media s1 = media s"
    using lookup_ok [OF at name cs] by blast
  note at1 = dir_at_read [OF at s1(2,3)]
  note D1 = dir_atD [OF at1(1)]
  have cs1: "cs = content d off s1 ino" using at1(2) cs by simp
  consider (bad) "name = [] \<or> length name > NAME_MAX" | (dup) "\<not> (name = [] \<or> length name > NAME_MAX)" "dir_map cs name \<noteq> None"
    | (new) "\<not> (name = [] \<or> length name > NAME_MAX)" "dir_map cs name = None" by blast
  then show ?thesis
  proof cases
    case bad
    then have "dir_add dp name sector e s = Some (addable cs name, s)" and na: "\<not> addable cs name"
      using D(2,3) by (auto simp: dir_add_def addable_def)
    then show ?thesis using D(1,8) cs by (intro exI [of _ s] exI [of _ 0] exI [of _ "[]"]) simp
  next
    case dup
    then have "dir_add dp name sector e s = Some (addable cs name, s1)" and na: "\<not> addable cs name"
      using D(2,3) s1(1) by (auto simp: dir_add_def addable_def dir_map_def)
    then show ?thesis using D1(1,8) cs1 s1(2) fsdev_media_cong [OF s1(2,3), of d off n]
      by (intro exI [of _ s1] exI [of _ 0] exI [of _ "[]"]) simp
  next
    case new
    then have nl: "length name \<le> 14" "name \<noteq> []" by (simp_all add: NAME_MAX_def)
    obtain s2 e2 where s2: "free_slot (dir_inode dr) e (int (20 * 0)) s1 = Some (int (20 * next_free cs 0), e2, s2)"
      "length (ename e2) = 15" "io s1 s2" "media s2 = media s1"
      using free_slot_ok [OF D1(1,4,5,7) cs1 e, of 0] by blast
    note at2 = dir_at_read [OF at1(1) s2(3,4)]
    note D2 = dir_atD [OF at2(1)]
    have cs2: "content d off s2 ino = cs" using at2(2) cs1 by simp
    let ?k = "next_free cs 0"
    let ?e = "e2\<lparr>in_use := True, ename := strlcpy_bytes (ename e2) name 15, inode_sector := sector\<rparr>"
    have le: "length (ename ?e) = 15" using s2(2) nl by simp
    have "fname (e2\<lparr>ename := strlcpy_bytes (ename e2) name 15\<rparr>) = name" using fname_strlcpy [OF name nl(1)] .
    then have fn: "fname ?e = name" by (simp add: fname_def)
    obtain s3 m where s3: "inode_write_at (dir_inode dr) (entry_bytes ?e) 20 (int (20 * ?k)) s2 = Some (int m, s3)" "io s2 s3"
      "fsdev d off n s3" "written_bytes d off n s2 s3 (base ino + 20 * ?k) (take m (entry_bytes ?e))"
      "m = 0 \<or> 20 * ?k + m \<le> len ino" "m = min 20 (len ino - 20 * ?k)"
      using inode_write_at_ok [OF D2(1,4,5) _ _ D2(9), of "int (20 * ?k)" 20 "entry_bytes ?e"] le D2(7)
      by (auto simp: mem_total_def nat_mult_distrib simp del: of_nat_mult)
    have ll: "length (take m (entry_bytes ?e)) = m" using s3(6) le by simp
    have run: "dir_add dp name sector e s = Some (m = 20, s3)"
      using D(2,3) s1(1) new s2(1) s3(1) by (auto simp: dir_add_def dir_map_def Let_def)
    have w: "written_bytes d off n s s3 (base ino + 20 * ?k) (take m (entry_bytes ?e))"
      by (rule written_bytes_cong [OF s3(4)])
        (simp add: fsdev_media_cong [OF s1(2,3), of d off n] fsdev_media_cong [OF s2(3,4), of d off n])
    have ios: "io s s3" using io_trans [OF s1(2) io_trans [OF s2(3) s3(2)]] .
    have cl: "length cs = len ino" using cs by simp
    show ?thesis
    proof (cases "dir_full cs")
      case False
      then have k: "?k < slots cs" by (simp add: next_free_full)
      have m20: "m = 20" using slot_fits [OF k] s3(6) cl by simp
      have c3: "content d off s3 ino = overlay cs (20 * ?k) (entry_bytes ?e)"
        using content_overlay [OF s3(4) _ D2(5)] slot_fits [OF k] cl m20 le cs2 by simp
      have "addable cs name" using new False by (auto simp: addable_def)
      then show ?thesis
        using run m20 ios s3(3,5) w c3 ll cs new(2) fn
          dir_map_add [OF D(8) [folded cs] k next_free_free [OF k] le]
        by (intro exI [of _ s3] exI [of _ "20 * ?k"] exI [of _ "take m (entry_bytes ?e)"]) simp
    next
      case True
      then have k: "?k = slots cs" using next_free_full [of cs] next_free_bound [of cs 0] by simp
      have "length cs - 20 * slots cs < 20" unfolding slots_def by (simp add: minus_mult_div_eq_mod)
      then have m: "m < 20" using s3(6) cl k by simp
      have "\<not> addable cs name" using True by (simp add: addable_def)
      moreover have "dir_ok (content d off s3 ino) \<and> dir_map (content d off s3 ino) = dir_map cs"
      proof (cases "m = 0")
        case True
        then have "content d off s3 ino = cs" using content_apart [OF s3(4) D2(5)] cs2 by simp
        then show ?thesis using D(8) cs by simp
      next
        case False
        then have f: "20 * slots cs + length (take m (entry_bytes ?e)) \<le> length cs" using s3(5) k ll cl by simp
        then have "content d off s3 ino = overlay cs (20 * slots cs) (take m (entry_bytes ?e))"
          using content_overlay [OF s3(4) _ D2(5)] cl cs2 k by simp
        then show ?thesis using dir_overlay_tail [OF f] D(8) cs by simp
      qed
      ultimately show ?thesis
        using run m ios s3(3,5) w ll
        by (intro exI [of _ s3] exI [of _ "20 * ?k"] exI [of _ "take m (entry_bytes ?e)"]) auto
    qed
  qed
qed

end
