(* ===== verification/Free_Map.thy ===== *)
theory Free_Map
  imports Directory_Map
begin

text \<open>
  The free map (\<open>filesys/free-map.c\<close>): allocating and releasing sectors changes the
  bits of the map in memory and writes the whole map to its file, so that the two
  stay equal.
\<close>

definition bits_bytes :: "bitmap \<Rightarrow> u8 list" where
  "bits_bytes b = concat (map put32 (bits b))"

lemma length_bits_bytes [simp]: "length (bits_bytes b) = 4 * length (bits b)"
proof -
  have "length (concat (map put32 ws)) = 4 * length ws" for ws by (induction ws) simp_all
  then show ?thesis by (simp add: bits_bytes_def)
qed

text \<open>The open file of the free map: \<open>fi\<close> is its inode and has room for the map.\<close>

definition fm_file :: "nat \<Rightarrow> nat \<Rightarrow> nat \<Rightarrow> 'a fsys_scheme \<Rightarrow> inode \<Rightarrow> bool" where
  "fm_file d off n s fi \<longleftrightarrow> fsdev d off n s \<and> mem_total s \<and> free_map_file s \<noteq> 0 \<and>
     (\<exists>fl. files s (free_map_file s) = Some fl \<and> inodes s (f_inode fl) = Some fi) \<and> ino_ok n fi \<and>
     deny_write_cnt fi = 0 \<and> bm_inv (free_map s) \<and> unat (bit_cnt (free_map s)) = n \<and> len fi = 4 * length (bits (free_map s))"

lemma sint_byte_cnt:
  assumes "bm_inv b" and "unat (bit_cnt b) \<le> 2 ^ 28"
  shows "sint (byte_cnt (bit_cnt b)) = int (4 * length (bits b))"
proof -
  have e: "unat (elem_cnt (bit_cnt b)) = length (bits b)" using unat_elem_cnt [of "bit_cnt b"] assms(1) by (simp add: bm_inv_def)
  have "(unat (bit_cnt b) + 31) div 32 \<le> (2 ^ 28 + 31) div 32" using assms(2) by (intro div_le_mono) simp
  then have l: "length (bits b) \<le> 8388608" using assms(1) by (simp add: bm_inv_def)
  have "unat (byte_cnt (bit_cnt b)) = 4 * length (bits b)"
    unfolding byte_cnt_def using l e by (subst unat_mult_small) simp_all
  moreover have "byte_cnt (bit_cnt b) = word_of_nat (unat (byte_cnt (bit_cnt b)))" by simp
  ultimately have "byte_cnt (bit_cnt b) = word_of_nat (4 * length (bits b))" by simp
  then show ?thesis using sint_nat [of "4 * length (bits b)"] l by simp
qed

lemma bitmap_write_ok:
  assumes fm: "fm_file d off n s fi"
  shows "\<exists>s'. bitmap_write (free_map s) (free_map_file s) s = Some (True, s') \<and> io s s' \<and> fsdev d off n s' \<and>
    written_bytes d off n s s' (base fi) (bits_bytes (free_map s)) \<and> content d off s' fi = bits_bytes (free_map s)"
proof -
  let ?b = "free_map s"
  obtain fl where F: "fsdev d off n s" "mem_total s" "files s (free_map_file s) = Some fl" "inodes s (f_inode fl) = Some fi"
    "ino_ok n fi" "deny_write_cnt fi = 0" "bm_inv ?b" "unat (bit_cnt ?b) = n" "len fi = 4 * length (bits ?b)"
    using fm by (auto simp: fm_file_def)
  have sz: "sint (byte_cnt (bit_cnt ?b)) = int (4 * length (bits ?b))"
    using sint_byte_cnt [OF F(7)] F(8) fsdev_bound [OF F(1)] by simp
  have nz: "nat (int (4 * length (bits ?b))) \<le> length (bits_bytes ?b)" by simp
  obtain s' where s': "inode_write_at (f_inode fl) (bits_bytes ?b) (int (4 * length (bits ?b))) 0 s = Some (int (4 * length (bits ?b)), s')"
    "io s s'" "fsdev d off n s'" "written_bytes d off n s s' (base fi + 0) (bits_bytes ?b)"
    using inode_write_at_ok [OF F(1,4,5) _ nz F(6), of 0] F(2,9)
    by (auto simp: mem_total_def simp del: of_nat_mult)
  have "content d off s' fi = overlay (content d off s fi) 0 (bits_bytes ?b)"
    using content_overlay [OF s'(4) _ F(5)] F(9) by simp
  then have "content d off s' fi = bits_bytes ?b" using F(9) by (simp add: overlay_def)
  then show ?thesis
    using s' F(3) sz by (intro exI [of _ s']) (simp add: bitmap_write_def file_write_at_def bits_bytes_def [symmetric])
qed

text \<open>Storing another map of the same size in memory.\<close>

lemma fm_file_store:
  assumes "fm_file d off n s fi" and "bm_inv b" and "bit_cnt b = bit_cnt (free_map s)"
  shows "fm_file d off n (s\<lparr>free_map := b\<rparr>) fi"
  using assms by (simp add: fm_file_def fsdev_def mem_total_def bm_inv_def)

lemma dbyte_free_map [simp]: "dbyte d off (s\<lparr>free_map := b\<rparr>) = dbyte d off s"
  by (simp add: dbyte_def sect_def fun_eq_iff)

lemma written_bytes_free_map [simp]: "written_bytes d off n (s\<lparr>free_map := b\<rparr>) s' P xs = written_bytes d off n s s' P xs"
  by (simp add: written_bytes_def)

definition fm_sync :: "nat \<Rightarrow> nat \<Rightarrow> nat \<Rightarrow> 'a fsys_scheme \<Rightarrow> inode \<Rightarrow> bool" where
  "fm_sync d off n s fi \<longleftrightarrow> fm_file d off n s fi \<and> content d off s fi = bits_bytes (free_map s)"

text \<open>A new map \<open>b\<close> is stored and written out.\<close>

definition fm_update :: "nat \<Rightarrow> nat \<Rightarrow> nat \<Rightarrow> inode \<Rightarrow> bitmap \<Rightarrow> 'a fsys_scheme \<Rightarrow> 'a fsys_scheme \<Rightarrow> bool" where
  "fm_update d off n fi b s s' \<longleftrightarrow> io (s\<lparr>free_map := b\<rparr>) s' \<and> written_bytes d off n s s' (base fi) (bits_bytes b) \<and>
     bm_inv b \<and> bit_cnt b = bit_cnt (free_map s) \<and> fm_sync d off n s' fi"

lemma fm_update_store:
  assumes "fm_file d off n s fi" and "bm_inv b" and "bit_cnt b = bit_cnt (free_map s)"
  shows "\<exists>s'. bitmap_write b (free_map_file s) (s\<lparr>free_map := b\<rparr>) = Some (True, s') \<and> fm_update d off n fi b s s'"
proof -
  note f1 = fm_file_store [OF assms]
  obtain s' where s': "bitmap_write b (free_map_file s) (s\<lparr>free_map := b\<rparr>) = Some (True, s')" "io (s\<lparr>free_map := b\<rparr>) s'"
    "fsdev d off n s'" "written_bytes d off n s s' (base fi) (bits_bytes b)" "content d off s' fi = bits_bytes b"
    using bitmap_write_ok [OF f1] by auto
  have "fm_sync d off n s' fi"
    using f1 s'(3,5) io_frame [OF s'(2)] by (auto simp: fm_sync_def fm_file_def mem_total_def)
  then show ?thesis using s' assms(2,3) by (auto simp: fm_update_def)
qed

lemma free_map_allocate_ok:
  assumes fm: "fm_file d off n s fi"
  shows "case first_run (bm_abs (free_map s)) 0 (unat cnt) False of
      None \<Rightarrow> free_map_allocate cnt s = Some (None, s)
    | Some i \<Rightarrow> \<exists>b s'. free_map_allocate cnt s = Some (Some (of_nat i), s') \<and> fm_update d off n fi b s s' \<and>
        bm_abs b = replace_range i (unat cnt) True (bm_abs (free_map s)) \<and> unat (of_nat i :: u32) = i \<and> i + unat cnt \<le> n"
proof -
  have F: "bm_inv (free_map s)" "unat (bit_cnt (free_map s)) = n" "free_map_file s \<noteq> 0" using fm by (auto simp: fm_file_def)
  have z: "0 \<le> bit_cnt (free_map s)" by simp
  note sc = bitmap_scan_and_flip_abs [OF F(1) z, of cnt False]
  show ?thesis
  proof (cases "first_run (bm_abs (free_map s)) 0 (unat cnt) False")
    case None
    then show ?thesis using sc by (simp add: free_map_allocate_def)
  next
    case (Some i)
    then obtain b where b: "bitmap_scan_and_flip (free_map s) 0 cnt False = Some (of_nat i, b)" "of_nat i \<noteq> BITMAP_ERROR"
      "unat (of_nat i :: u32) = i" "bm_inv b" "bit_cnt b = bit_cnt (free_map s)"
      "bm_abs b = replace_range i (unat cnt) True (bm_abs (free_map s))"
      using sc by auto
    obtain s' where s': "bitmap_write b (free_map_file s) (s\<lparr>free_map := b\<rparr>) = Some (True, s')" "fm_update d off n fi b s s'"
      using fm_update_store [OF fm b(4,5)] by blast
    have "run_at (bm_abs (free_map s)) (unat cnt) False i" using Some by (simp add: first_run_Some_iff)
    then have "i + unat cnt \<le> n" using F(2) by (simp add: run_at_def)
    moreover have "free_map_allocate cnt s = Some (Some (of_nat i), s')"
      using b(1,2) s'(1) F(3) by (simp add: free_map_allocate_def Let_def)
    ultimately show ?thesis using Some s'(2) b(3,6) by auto
  qed
qed

lemma free_map_release_ok:
  assumes fm: "fm_file d off n s fi" and run: "run_at (bm_abs (free_map s)) (unat cnt) True (unat sector)"
  shows "\<exists>b s'. free_map_release sector cnt s = Some s' \<and> fm_update d off n fi b s s' \<and>
        bm_abs b = replace_range (unat sector) (unat cnt) False (bm_abs (free_map s))"
proof -
  have F: "bm_inv (free_map s)" using fm by (auto simp: fm_file_def)
  have r: "in_range (free_map s) sector cnt" using run by (simp add: in_range_def run_at_def)
  obtain b where b: "bitmap_set_multiple (free_map s) sector cnt False = Some b" "bm_inv b"
    "bit_cnt b = bit_cnt (free_map s)" "bm_abs b = replace_range (unat sector) (unat cnt) False (bm_abs (free_map s))"
    using bitmap_set_multiple_abs [OF F r] by blast
  obtain s' where s': "bitmap_write b (free_map_file s) (s\<lparr>free_map := b\<rparr>) = Some (True, s')" "fm_update d off n fi b s s'"
    using fm_update_store [OF fm b(2,3)] by blast
  show ?thesis
    using b(1,4) s' bitmap_all_abs [OF F r] run
    by (intro exI [of _ b] exI [of _ s']) (simp add: free_map_release_def Let_def)
qed

end
