(* ===== verification/Fs_Core.thy ===== *)
theory Fs_Core
  imports Free_Map
begin

text \<open>
  The invariant of the file system: the sectors of distinct files are disjoint and
  marked in the free map, the free map on disk is the one in memory, the root
  directory is well-formed, and the table of open inodes agrees with the disk and
  with the number of references. Every operation below the interface keeps it.
\<close>

section \<open>Files on disk\<close>

definition dino :: "nat \<Rightarrow> nat \<Rightarrow> 'a fsys_scheme \<Rightarrow> nat \<Rightarrow> inode_disk" where
  "dino d off s k = parse_inode (sect d off s k)"

definition secs :: "inode_disk \<Rightarrow> nat" where
  "secs di = unat (bytes_to_sectors (d_length di))"

definition extent :: "inode_disk \<Rightarrow> nat set" where
  "extent di = {unat (d_start di)..<unat (d_start di) + secs di}"

definition own :: "(nat \<Rightarrow> inode_disk) \<Rightarrow> nat \<Rightarrow> nat set" where
  "own D k = insert k (extent (D k))"

definition dok :: "nat \<Rightarrow> inode_disk \<Rightarrow> bool" where
  "dok n di \<longleftrightarrow> 0 \<le> d_length di \<and> d_length di < 2 ^ 31 \<and> unat (d_start di) + secs di \<le> n"

definition dnode :: "inode_disk \<Rightarrow> inode" where
  "dnode di = \<lparr>i_sector = 0, open_cnt = 0, removed = False, deny_write_cnt = 0, idata = di\<rparr>"

text \<open>The contents of the file whose inode is in sector \<open>k\<close>.\<close>

definition file_bytes :: "nat \<Rightarrow> nat \<Rightarrow> 'a fsys_scheme \<Rightarrow> nat \<Rightarrow> u8 list" where
  "file_bytes d off s k = content d off s (dnode (dino d off s k))"

lemma dnode_data [simp]: "base (dnode di) = unat (d_start di) * 512" "len (dnode di) = nat (d_length di)" "idata (dnode di) = di"
  by (simp_all add: base_def len_def dnode_def)

lemma content_dnode: "content d off s ino = content d off s (dnode (idata ino))"
  by (simp add: content_def) (simp add: base_def len_def)

lemma secs_eq:
  assumes "0 \<le> d_length di" and "d_length di < 2 ^ 31"
  shows "secs di = (nat (d_length di) + 511) div 512"
proof -
  have "(d_length di + 512 - 1) sdiv 512 = int (nat (d_length di + 511) div 512)"
    using smod_sdiv_nat(2) [of "d_length di + 511"] assms(1) by (simp add: add.commute)
  moreover have "nat (d_length di + 511) = nat (d_length di) + 511" using assms(1) by (simp add: nat_add_distrib)
  moreover have "(nat (d_length di) + 511) div 512 < 2 ^ 32" by (rule le_less_trans [OF div_le_dividend]) (use assms in simp)
  ultimately show ?thesis by (simp add: secs_def bytes_to_sectors_def unat_of_nat_small)
qed

lemma secs_bounds: "dok n di \<Longrightarrow> nat (d_length di) \<le> secs di * 512" "dok n di \<Longrightarrow> p < nat (d_length di) \<Longrightarrow> p div 512 < secs di"
  unfolding dok_def by (auto simp: secs_eq)

lemma dok_ino: "dok n (idata ino) \<Longrightarrow> ino_ok n ino"
  using secs_bounds(1) [of n "idata ino"] by (auto simp: dok_def ino_ok_def)

lemma dok_ino_dnode: "dok n di \<Longrightarrow> ino_ok n (dnode di)"
  by (rule dok_ino) simp

lemma file_frame:
  assumes ok: "dok n (dino d off s k)" and same: "\<And>j. j \<in> own (dino d off s) k \<Longrightarrow> sect d off s' j = sect d off s j"
  shows "dino d off s' k = dino d off s k" and "file_bytes d off s' k = file_bytes d off s k"
proof -
  show k: "dino d off s' k = dino d off s k" using same [of k] by (simp add: dino_def own_def)
  let ?di = "dino d off s k"
  have "dbyte d off s' (base (dnode ?di) + p) = dbyte d off s (base (dnode ?di) + p)" if "p < nat (d_length ?di)" for p
  proof -
    have e: "(unat (d_start ?di) * 512 + p) div 512 = unat (d_start ?di) + p div 512" by simp
    then have "(unat (d_start ?di) * 512 + p) div 512 \<in> own (dino d off s) k"
      using secs_bounds(2) [OF ok that] by (simp add: own_def extent_def)
    then show ?thesis using same by (simp add: dbyte_def)
  qed
  then show "file_bytes d off s' k = file_bytes d off s k" unfolding file_bytes_def k by (simp add: content_def)
qed

lemma written_frame:
  assumes w: "written_bytes d off n s s' (base ino + P) xs" and fit: "xs = [] \<or> P + length xs \<le> len ino"
    and dev: "fsdev d off n s" "fsdev d off n s'" and ok: "dok n (idata ino)" and j: "j < n" "j \<notin> extent (idata ino)"
  shows "sect d off s' j = sect d off s j"
proof (cases "xs = []")
  case True
  then have "written_bytes d off n s s' (j * 512 + 512) []" using w by (auto simp: written_bytes_def)
  then show ?thesis using sect_apart [OF _ dev j(1)] by simp
next
  case False
  then have f: "P + length xs \<le> nat (d_length (idata ino))" using fit by (simp add: len_def)
  have b: "base ino = unat (d_start (idata ino)) * 512" by (simp add: base_def)
  from j(2) have "j < unat (d_start (idata ino)) \<or> unat (d_start (idata ino)) + secs (idata ino) \<le> j" by (auto simp: extent_def)
  then show ?thesis
  proof
    assume "j < unat (d_start (idata ino))"
    then have "j * 512 + 512 \<le> base ino + P" unfolding b by linarith
    then show ?thesis using sect_apart [OF w dev j(1)] by blast
  next
    assume "unat (d_start (idata ino)) + secs (idata ino) \<le> j"
    then have "base ino + P + length xs \<le> j * 512" unfolding b using f secs_bounds(1) [OF ok] by linarith
    then show ?thesis using sect_apart [OF w dev j(1)] by blast
  qed
qed

section \<open>The invariant\<close>

text \<open>The sectors that hold the inode of a file with a name, and those of any file that still exists.\<close>

definition named :: "(u8 list \<Rightarrow> u32 option) \<Rightarrow> nat set" where
  "named N = {0, 1} \<union> unat ` ran N"

definition live :: "(u8 list \<Rightarrow> u32 option) \<Rightarrow> (ptr \<Rightarrow> inode option) \<Rightarrow> nat set" where
  "live N I = named N \<union> (\<lambda>ino. unat (i_sector ino)) ` ran I"

definition layout :: "nat \<Rightarrow> nat set \<Rightarrow> (nat \<Rightarrow> inode_disk) \<Rightarrow> bool list \<Rightarrow> bool" where
  "layout n L D B \<longleftrightarrow>
     (\<forall>k \<in> L. k < n \<and> dok n (D k) \<and> k \<notin> extent (D k) \<and> (\<forall>j \<in> own D k. B ! j)) \<and>
     (\<forall>k \<in> L. \<forall>k' \<in> L. k \<noteq> k' \<longrightarrow> own D k \<inter> own D k' = {})"

definition names_ok :: "(u8 list \<Rightarrow> u32 option) \<Rightarrow> bool" where
  "names_ok N \<longleftrightarrow> inj_on N (dom N) \<and> (\<forall>x \<in> ran N. x \<noteq> 0 \<and> x \<noteq> 1)"

text \<open>An open inode with \<open>r\<close> references, \<open>q\<close> of which deny writing.\<close>

definition node_ok :: "(nat \<Rightarrow> inode_disk) \<Rightarrow> (u8 list \<Rightarrow> u32 option) \<Rightarrow> nat \<Rightarrow> nat \<Rightarrow> inode \<Rightarrow> bool" where
  "node_ok D N r q ino \<longleftrightarrow> idata ino = D (unat (i_sector ino)) \<and> open_cnt ino = int r \<and> 0 < r \<and>
     deny_write_cnt ino = int q \<and> q \<le> r \<and> (removed ino \<longleftrightarrow> unat (i_sector ino) \<notin> named N) \<and>
     (unat (i_sector ino) \<in> {0, 1} \<longrightarrow> q = 0)"

definition itab_ok :: "(nat \<Rightarrow> inode_disk) \<Rightarrow> (u8 list \<Rightarrow> u32 option) \<Rightarrow> (ptr \<Rightarrow> nat) \<Rightarrow> (ptr \<Rightarrow> nat) \<Rightarrow>
    (ptr \<Rightarrow> inode option) \<Rightarrow> ptr list \<Rightarrow> nat \<Rightarrow> bool" where
  "itab_ok D N R Q I os a \<longleftrightarrow> distinct os \<and> set os = dom I \<and> (\<forall>i \<in> dom I. 0 < i \<and> i \<le> a) \<and>
     (\<forall>i ino. I i = Some ino \<longrightarrow> node_ok D N (R i) (Q i) ino) \<and>
     (\<forall>i j x y. I i = Some x \<and> I j = Some y \<and> i_sector x = i_sector y \<longrightarrow> i = j) \<and>
     (\<forall>i. I i = None \<longrightarrow> R i = 0 \<and> Q i = 0)"

definition names :: "nat \<Rightarrow> nat \<Rightarrow> 'a fsys_scheme \<Rightarrow> u8 list \<Rightarrow> u32 option" where
  "names d off s = dir_map (file_bytes d off s 1)"

text \<open>A file holds the map \<open>b\<close>, whatever is in the unused bits of its last word.\<close>

definition map_sync :: "u8 list \<Rightarrow> bitmap \<Rightarrow> bool" where
  "map_sync cs b \<longleftrightarrow> (\<exists>b'. cs = bits_bytes b' \<and> bit_cnt b' = bit_cnt b \<and> length (bits b') = length (bits b) \<and> bm_abs b' = bm_abs b)"

lemma map_sync_self [simp]: "map_sync (bits_bytes b) b"
  by (auto simp: map_sync_def)

text \<open>\<open>R\<close> and \<open>Q\<close>: how often each inode is referred to and how many of those deny writing.\<close>

definition core :: "nat \<Rightarrow> nat \<Rightarrow> nat \<Rightarrow> (ptr \<Rightarrow> nat) \<Rightarrow> (ptr \<Rightarrow> nat) \<Rightarrow> 'a fsys_scheme \<Rightarrow> bool" where
  "core d off n R Q s \<longleftrightarrow> fsdev d off n s \<and> mem_total s \<and> bm_inv (free_map s) \<and> unat (bit_cnt (free_map s)) = n \<and>
     layout n (live (names d off s) (inodes s)) (dino d off s) (bm_abs (free_map s)) \<and> names_ok (names d off s) \<and>
     itab_ok (dino d off s) (names d off s) R Q (inodes s) (open_inodes s) (allocs s) \<and>
     dir_ok (file_bytes d off s 1) \<and> map_sync (file_bytes d off s 0) (free_map s) \<and>
     (\<exists>fl i0. free_map_file s \<noteq> 0 \<and> files s (free_map_file s) = Some fl \<and> inodes s (f_inode fl) = Some i0 \<and> i_sector i0 = 0)"

lemma coreD:
  assumes "core d off n R Q s"
  shows "fsdev d off n s" and "mem_total s" and "bm_inv (free_map s)" and "unat (bit_cnt (free_map s)) = n"
    and "layout n (live (names d off s) (inodes s)) (dino d off s) (bm_abs (free_map s))" and "names_ok (names d off s)"
    and "itab_ok (dino d off s) (names d off s) R Q (inodes s) (open_inodes s) (allocs s)"
    and "dir_ok (file_bytes d off s 1)" and "map_sync (file_bytes d off s 0) (free_map s)"
    and "\<exists>fl i0. free_map_file s \<noteq> 0 \<and> files s (free_map_file s) = Some fl \<and> inodes s (f_inode fl) = Some i0 \<and> i_sector i0 = 0"
  using assms unfolding core_def by blast+

lemma coreI:
  assumes "fsdev d off n s" and "mem_total s" and "bm_inv (free_map s)" and "unat (bit_cnt (free_map s)) = n"
    and "layout n (live (names d off s) (inodes s)) (dino d off s) (bm_abs (free_map s))" and "names_ok (names d off s)"
    and "itab_ok (dino d off s) (names d off s) R Q (inodes s) (open_inodes s) (allocs s)"
    and "dir_ok (file_bytes d off s 1)" and "map_sync (file_bytes d off s 0) (free_map s)"
    and "\<exists>fl i0. free_map_file s \<noteq> 0 \<and> files s (free_map_file s) = Some fl \<and> inodes s (f_inode fl) = Some i0 \<and> i_sector i0 = 0"
  shows "core d off n R Q s"
  unfolding core_def using assms by blast

lemma named_basic [simp]: "0 \<in> named N" "Suc 0 \<in> named N"
  by (simp_all add: named_def)

lemma named_live: "k \<in> named N \<Longrightarrow> k \<in> live N I"
  by (simp add: live_def)

lemma open_live: "I i = Some ino \<Longrightarrow> unat (i_sector ino) \<in> live N I"
  by (auto simp: live_def ran_def)

lemma layoutD:
  assumes "layout n L D B" and "k \<in> L"
  shows "k < n" and "dok n (D k)" and "k \<notin> extent (D k)" and "j \<in> own D k \<Longrightarrow> B ! j"
  using assms by (auto simp: layout_def)

lemma layout_own: "layout n L D B \<Longrightarrow> k \<in> L \<Longrightarrow> own D k \<subseteq> {..<n}"
  using layoutD(1,2) [of n L D B k] by (auto simp: own_def extent_def dok_def)

lemma layout_disjoint: "layout n L D B \<Longrightarrow> k \<in> L \<Longrightarrow> k' \<in> L \<Longrightarrow> k \<noteq> k' \<Longrightarrow> own D k \<inter> own D k' = {}"
  by (auto simp: layout_def)

lemma own_cong: "D' k = D k \<Longrightarrow> own D' k = own D k"
  by (simp add: own_def)

lemma layout_cong: "(\<And>k. k \<in> L \<Longrightarrow> D' k = D k) \<Longrightarrow> layout n L D' B = layout n L D B"
  by (simp add: layout_def own_def)

lemma layout_mono: "layout n L D B \<Longrightarrow> L' \<subseteq> L \<Longrightarrow> layout n L' D B"
  unfolding layout_def by blast

lemma itabD:
  assumes "itab_ok D N R Q I os a" and "I i = Some ino"
  shows "node_ok D N (R i) (Q i) ino" and "i \<in> set os" and "0 < i" and "i \<le> a"
  using assms by (auto simp: itab_ok_def)

lemma itab_cong:
  assumes eq: "\<And>k. k \<in> live N I \<Longrightarrow> D' k = D k" and a: "a \<le> a'" and t: "itab_ok D N R Q I os a"
  shows "itab_ok D' N R Q I os a'"
proof -
  have "node_ok D' N (R i) (Q i) ino" if "I i = Some ino" for i ino
    using eq [OF open_live [of I i ino N, OF that]] itabD(1) [OF t that] by (simp add: node_ok_def)
  moreover have "0 < i \<and> i \<le> a'" if "i \<in> dom I" for i
    using itabD(3,4) [OF t] that a by (metis domD le_trans)
  ultimately show ?thesis using t by (simp add: itab_ok_def)
qed

lemma core_open:
  assumes "core d off n R Q s" and "inodes s i = Some ino"
  shows "idata ino = dino d off s (unat (i_sector ino))" and "open_cnt ino = int (R i)" and "0 < R i"
    and "deny_write_cnt ino = int (Q i)" and "Q i \<le> R i" and "removed ino \<longleftrightarrow> unat (i_sector ino) \<notin> named (names d off s)"
    and "unat (i_sector ino) \<in> {0, 1} \<Longrightarrow> Q i = 0" and "i \<in> set (open_inodes s)" and "0 < i" and "i \<le> allocs s"
  using itabD [OF coreD(7) [OF assms(1)] assms(2)] by (auto simp: node_ok_def)

lemma core_open_file:
  assumes "core d off n R Q s" and "inodes s i = Some ino"
  shows "dok n (idata ino)" and "ino_ok n ino" and "content d off s ino = file_bytes d off s (unat (i_sector ino))"
proof -
  have "unat (i_sector ino) \<in> live (names d off s) (inodes s)" using open_live [of "inodes s" i] assms(2) by blast
  then show d: "dok n (idata ino)" using layoutD(2) [OF coreD(5) [OF assms(1)]] core_open(1) [OF assms] by simp
  then show "ino_ok n ino" by (rule dok_ino)
  show "content d off s ino = file_bytes d off s (unat (i_sector ino))"
    unfolding file_bytes_def core_open(1) [OF assms, symmetric] by (rule content_dnode)
qed

section \<open>What input and output keep\<close>

text \<open>A step that changes no sector outside the file \<open>k0\<close>.\<close>

lemma core_touch:
  assumes c: "core d off n R Q s" and k0: "k0 \<in> live (names d off s) (inodes s)"
    and same: "\<And>j. j < n \<Longrightarrow> j \<notin> extent (dino d off s k0) \<Longrightarrow> sect d off s' j = sect d off s j"
    and k: "k \<in> live (names d off s) (inodes s)"
  shows "dino d off s' k = dino d off s k" and "k \<noteq> k0 \<Longrightarrow> file_bytes d off s' k = file_bytes d off s k"
proof -
  note l = coreD(5) [OF c]
  have kn: "k \<notin> extent (dino d off s k0)"
    using layoutD(3) [OF l k] layout_disjoint [OF l k k0] by (cases "k = k0") (auto simp: own_def)
  show "dino d off s' k = dino d off s k" using same [OF layoutD(1) [OF l k] kn] by (simp add: dino_def)
  show "file_bytes d off s' k = file_bytes d off s k" if "k \<noteq> k0"
  proof (rule file_frame(2) [OF layoutD(2) [OF l k]])
    fix j assume j: "j \<in> own (dino d off s) k"
    then have "j \<notin> extent (dino d off s k0)" using layout_disjoint [OF l k k0 that] by (auto simp: own_def)
    then show "sect d off s' j = sect d off s j" using same layout_own [OF l k] j by blast
  qed
qed

text \<open>A step that changes no sector of any file.\<close>

lemma core_io:
  assumes c: "core d off n R Q s" and io: "io s s'" and dev: "fsdev d off n s'"
    and same: "\<And>k j. k \<in> live (names d off s) (inodes s) \<Longrightarrow> j \<in> own (dino d off s) k \<Longrightarrow> sect d off s' j = sect d off s j"
  shows "core d off n R Q s'" and "names d off s' = names d off s"
    and "\<And>k. k \<in> live (names d off s) (inodes s) \<Longrightarrow> dino d off s' k = dino d off s k \<and> file_bytes d off s' k = file_bytes d off s k"
proof -
  note C = coreD [OF c] and fr = io_frame [OF io]
  show eq: "dino d off s' k = dino d off s k \<and> file_bytes d off s' k = file_bytes d off s k"
    if "k \<in> live (names d off s) (inodes s)" for k
    using file_frame [OF layoutD(2) [OF C(5) that] same [OF that]] by simp
  have e: "file_bytes d off s' 0 = file_bytes d off s 0" "file_bytes d off s' 1 = file_bytes d off s 1"
    using eq [OF named_live [of 0]] eq [OF named_live [of 1]] by simp_all
  show nm: "names d off s' = names d off s" by (simp add: names_def e del: One_nat_def)
  have "itab_ok (dino d off s') (names d off s) R Q (inodes s) (open_inodes s) (allocs s')"
    by (rule itab_cong [OF _ fr(10) C(7)]) (simp add: eq)
  moreover have "layout n (live (names d off s) (inodes s)) (dino d off s') (bm_abs (free_map s))"
    using layout_cong [of "live (names d off s) (inodes s)" "dino d off s'" "dino d off s"] eq C(5) by blast
  ultimately show "core d off n R Q s'"
    using C(2,3,4,6,8,9,10) dev io_mem_total [OF io]
    by (intro coreI) (simp_all only: fr nm e)
qed

lemma core_read:
  assumes "core d off n R Q s" and "io s s'" and "media s' = media s"
  shows "core d off n R Q s'" and "names d off s' = names d off s" and "dino d off s' = dino d off s"
    and "file_bytes d off s' = file_bytes d off s"
proof -
  note fr = fsdev_media_cong [OF assms(2,3), of d off n]
  have dev: "fsdev d off n s'" using fr coreD(1) [OF assms(1)] by simp
  show "core d off n R Q s'" "names d off s' = names d off s"
    using core_io(1,2) [OF assms(1,2) dev] fr by simp_all
  show di: "dino d off s' = dino d off s" using fr by (simp add: dino_def fun_eq_iff)
  then show "file_bytes d off s' = file_bytes d off s" using fr by (simp add: file_bytes_def content_def fun_eq_iff)
qed

lemma core_written:
  assumes c: "core d off n R Q s" and i: "inodes s i = Some ino" and io: "io s s'" and dev: "fsdev d off n s'"
    and w: "written_bytes d off n s s' (base ino + P) xs" and fit: "xs = [] \<or> P + length xs \<le> len ino"
  shows "\<And>k. k \<in> live (names d off s) (inodes s) \<Longrightarrow> dino d off s' k = dino d off s k"
    and "\<And>k. k \<in> live (names d off s) (inodes s) \<Longrightarrow> k \<noteq> unat (i_sector ino) \<Longrightarrow> file_bytes d off s' k = file_bytes d off s k"
    and "unat (i_sector ino) \<notin> {0, 1} \<Longrightarrow> core d off n R Q s'"
    and "unat (i_sector ino) \<noteq> 1 \<Longrightarrow> names d off s' = names d off s"
proof -
  let ?k0 = "unat (i_sector ino)" and ?L = "live (names d off s) (inodes s)"
  note C = coreD [OF c] and fr = io_frame [OF io]
  have k0: "?k0 \<in> ?L" using open_live [of "inodes s" i ino] i by blast
  have same: "sect d off s' j = sect d off s j" if "j < n" "j \<notin> extent (dino d off s ?k0)" for j
    using written_frame [OF w fit C(1) dev core_open_file(1) [OF c i]] that core_open(1) [OF c i] by simp
  note t = core_touch [OF c k0 same]
  show di: "dino d off s' k = dino d off s k" if "k \<in> ?L" for k using t(1) that by blast
  show fb: "file_bytes d off s' k = file_bytes d off s k" if "k \<in> ?L" "k \<noteq> ?k0" for k using t(2) that by blast
  show nm: "names d off s' = names d off s" if "?k0 \<noteq> 1"
    unfolding names_def using fb [OF named_live [of 1]] that by simp
  show "core d off n R Q s'" if k1: "?k0 \<notin> {0, 1}"
  proof -
    have e: "file_bytes d off s' 0 = file_bytes d off s 0" "file_bytes d off s' 1 = file_bytes d off s 1"
      "names d off s' = names d off s"
      using fb [OF named_live [of 0]] fb [OF named_live [of 1]] nm k1 by simp_all
    have "itab_ok (dino d off s') (names d off s) R Q (inodes s) (open_inodes s) (allocs s')"
      by (rule itab_cong [OF di fr(10) C(7)])
    moreover have "layout n ?L (dino d off s') (bm_abs (free_map s))"
      using layout_cong [of ?L "dino d off s'" "dino d off s"] di C(5) by blast
    ultimately show ?thesis
      using C(2,3,4,6,8,9,10) dev io_mem_total [OF io] by (intro coreI) (simp_all only: fr e)
  qed
qed

section \<open>The free map\<close>

lemma core_fm:
  assumes c: "core d off n R Q s"
  shows "\<exists>fi i. fm_file d off n s fi \<and> inodes s i = Some fi \<and> i_sector fi = 0"
proof -
  note C = coreD [OF c]
  obtain fl fi where F: "free_map_file s \<noteq> 0" "files s (free_map_file s) = Some fl" "inodes s (f_inode fl) = Some fi"
    "i_sector fi = 0" using C(10) by blast
  have "length (content d off s fi) = 4 * length (bits (free_map s))"
    using core_open_file(3) [OF c F(3)] F(4) C(9) by (auto simp: map_sync_def)
  then have "len fi = 4 * length (bits (free_map s))" by simp
  then have "fm_file d off n s fi"
    unfolding fm_file_def using C(1-4) F core_open_file(2) [OF c F(3)] core_open(4,7) [OF c F(3)] by auto
  then show ?thesis using F(3,4) by blast
qed

lemma core_fm_update:
  assumes c: "core d off n R Q s" and i: "inodes s i = Some fi" "i_sector fi = 0" and u: "fm_update d off n fi b s s'"
    and keep: "\<And>k j. k \<in> live (names d off s) (inodes s) \<Longrightarrow> j \<in> own (dino d off s) k \<Longrightarrow> bm_abs b ! j"
  shows "core d off n R Q s'" and "names d off s' = names d off s"
    and "\<And>k. k \<in> live (names d off s) (inodes s) \<Longrightarrow> dino d off s' k = dino d off s k"
    and "\<And>k. k \<in> live (names d off s) (inodes s) \<Longrightarrow> k \<noteq> 0 \<Longrightarrow> file_bytes d off s' k = file_bytes d off s k"
proof -
  let ?L = "live (names d off s) (inodes s)"
  note C = coreD [OF c]
  have u': "io (s\<lparr>free_map := b\<rparr>) s'" "written_bytes d off n s s' (base fi + 0) (bits_bytes b)" "bm_inv b"
    "bit_cnt b = bit_cnt (free_map s)" "fm_sync d off n s' fi"
    using u by (simp_all add: fm_update_def)
  note fr = io_frame [OF u'(1), simplified]
  have dev: "fsdev d off n s'" and mt: "mem_total s'" and ct: "content d off s' fi = bits_bytes b"
    and ln: "len fi = 4 * length (bits b)" using u'(5) fr by (auto simp: fm_sync_def fm_file_def)
  have same: "sect d off s' j = sect d off s j" if "j < n" "j \<notin> extent (dino d off s 0)" for j
    using written_frame [OF u'(2) _ C(1) dev core_open_file(1) [OF c i(1)]] that core_open(1) [OF c i(1)] i(2) ln by simp
  have l0: "0 \<in> ?L" by (simp add: named_live)
  note t = core_touch [OF c l0 same]
  show di: "dino d off s' k = dino d off s k" if "k \<in> ?L" for k using t(1) that by blast
  show fb: "file_bytes d off s' k = file_bytes d off s k" if "k \<in> ?L" "k \<noteq> 0" for k using t(2) that by blast
  have f1: "file_bytes d off s' 1 = file_bytes d off s 1" using fb [OF named_live [of 1]] by simp
  then show nm: "names d off s' = names d off s" by (simp add: names_def)
  have "idata fi = dino d off s' 0" using core_open(1) [OF c i(1)] i(2) di [OF l0] by simp
  then have f0: "map_sync (file_bytes d off s' 0) b" using ct content_dnode [of d off s' fi] by (simp add: file_bytes_def)
  have "itab_ok (dino d off s') (names d off s) R Q (inodes s) (open_inodes s) (allocs s')"
    by (rule itab_cong [OF di fr(10) C(7)])
  moreover have "layout n ?L (dino d off s') (bm_abs b)"
  proof -
    have "layout n ?L (dino d off s) (bm_abs b)" using C(5) keep unfolding layout_def by blast
    then show ?thesis using layout_cong [of ?L "dino d off s'" "dino d off s"] di by blast
  qed
  ultimately show "core d off n R Q s'"
    using C(4,6,8,10) dev mt u'(3,4) f0 by (intro coreI) (simp_all only: fr f1 nm)
qed

text \<open>Allocating sectors: the run found was free, so it belongs to no file.\<close>

lemma core_allocate:
  assumes c: "core d off n R Q s"
  shows "\<exists>r s'. free_map_allocate cnt s = Some (r, s') \<and> core d off n R Q s' \<and> names d off s' = names d off s \<and>
    inodes s' = inodes s \<and> files s' = files s \<and> dirs s' = dirs s \<and> allocs s \<le> allocs s' \<and> open_inodes s' = open_inodes s \<and>
    free_map_file s' = free_map_file s \<and>
    (\<forall>k \<in> live (names d off s) (inodes s). dino d off s' k = dino d off s k \<and>
       (k \<noteq> 0 \<longrightarrow> file_bytes d off s' k = file_bytes d off s k)) \<and>
    (r = None \<longrightarrow> s' = s) \<and> (r = None \<longleftrightarrow> (\<forall>j. \<not> run_at (bm_abs (free_map s)) (unat cnt) False j)) \<and>
    (\<forall>x. r = Some x \<longrightarrow> run_at (bm_abs (free_map s)) (unat cnt) False (unat x) \<and>
       bm_abs (free_map s') = replace_range (unat x) (unat cnt) True (bm_abs (free_map s))) \<and>
    (\<forall>x j. r = Some x \<and> j < unat x \<longrightarrow> \<not> run_at (bm_abs (free_map s)) (unat cnt) False j)"
proof -
  note C = coreD [OF c]
  obtain fi i where fi: "fm_file d off n s fi" "inodes s i = Some fi" "i_sector fi = 0" using core_fm [OF c] by blast
  note fm = fi(1)
  show ?thesis
  proof (cases "first_run (bm_abs (free_map s)) 0 (unat cnt) False")
    case None
    then have "free_map_allocate cnt s = Some (None, s)" using free_map_allocate_ok [OF fm, of cnt] by simp
    moreover have "\<forall>j. \<not> run_at (bm_abs (free_map s)) (unat cnt) False j" using None by (simp add: first_run_None_iff)
    ultimately show ?thesis using c by (intro exI [of _ None] exI [of _ s]) simp
  next
    case (Some a)
    then obtain b s' where r: "free_map_allocate cnt s = Some (Some (of_nat a), s')" "fm_update d off n fi b s s'"
      "bm_abs b = replace_range a (unat cnt) True (bm_abs (free_map s))" "unat (of_nat a :: u32) = a"
      using free_map_allocate_ok [OF fm, of cnt] by auto
    have keep: "bm_abs b ! j" if "k \<in> live (names d off s) (inodes s)" "j \<in> own (dino d off s) k" for k j
      using layoutD(4) [OF C(5) that] layout_own [OF C(5) that(1)] that(2) r(3) C(4) by (auto simp: nth_replace_range)
    note u = core_fm_update [OF c fi(2,3) r(2) keep]
    have io: "io (s\<lparr>free_map := b\<rparr>) s'" using r(2) by (simp add: fm_update_def)
    note fr = io_frame [OF io, simplified]
    have run: "run_at (bm_abs (free_map s)) (unat cnt) False a" "\<forall>j < a. \<not> run_at (bm_abs (free_map s)) (unat cnt) False j"
      using Some by (simp_all add: first_run_Some_iff)
    show ?thesis
      using r(1,3,4) u fr run
      by (intro exI [of _ "Some (of_nat a)"] exI [of _ s']) auto
  qed
qed

section \<open>The table of open inodes\<close>

lemma view_tables [simp]:
  "sect d off (s\<lparr>inodes := I\<rparr>) = sect d off s" "sect d off (s\<lparr>open_inodes := os\<rparr>) = sect d off s"
  "sect d off (s\<lparr>files := F\<rparr>) = sect d off s" "sect d off (s\<lparr>dirs := E\<rparr>) = sect d off s"
  "sect d off (s\<lparr>free_map := b\<rparr>) = sect d off s" "sect d off (s\<lparr>allocs := a\<rparr>) = sect d off s"
  "sect d off (s\<lparr>free_map_file := f\<rparr>) = sect d off s"
  by (simp_all add: sect_def fun_eq_iff)

lemma fsdev_tables [simp]:
  "fsdev d off n (s\<lparr>inodes := I\<rparr>) = fsdev d off n s" "fsdev d off n (s\<lparr>open_inodes := os\<rparr>) = fsdev d off n s"
  "fsdev d off n (s\<lparr>files := F\<rparr>) = fsdev d off n s" "fsdev d off n (s\<lparr>dirs := E\<rparr>) = fsdev d off n s"
  "fsdev d off n (s\<lparr>free_map := b\<rparr>) = fsdev d off n s" "fsdev d off n (s\<lparr>allocs := a\<rparr>) = fsdev d off n s"
  "fsdev d off n (s\<lparr>free_map_file := f\<rparr>) = fsdev d off n s"
  by (simp_all add: fsdev_def)

lemma files_cong:
  assumes "sect d off s' = sect d off s"
  shows "dino d off s' = dino d off s" and "file_bytes d off s' = file_bytes d off s" and "names d off s' = names d off s"
    and "content d off s' = content d off s" and "dbyte d off s' = dbyte d off s"
proof -
  show b: "dbyte d off s' = dbyte d off s" using assms by (simp add: dbyte_def fun_eq_iff)
  show c: "content d off s' = content d off s" using b by (simp add: content_def fun_eq_iff)
  show i: "dino d off s' = dino d off s" using assms by (simp add: dino_def fun_eq_iff)
  show f: "file_bytes d off s' = file_bytes d off s" by (simp add: file_bytes_def c i fun_eq_iff)
  show "names d off s' = names d off s" by (simp add: names_def f)
qed

lemma mem_total_tables [simp]:
  "mem_total (s\<lparr>inodes := I\<rparr>) = mem_total s" "mem_total (s\<lparr>open_inodes := os\<rparr>) = mem_total s"
  "mem_total (s\<lparr>files := F\<rparr>) = mem_total s" "mem_total (s\<lparr>dirs := E\<rparr>) = mem_total s"
  "mem_total (s\<lparr>free_map := b\<rparr>) = mem_total s" "mem_total (s\<lparr>allocs := a\<rparr>) = mem_total s"
  "mem_total (s\<lparr>free_map_file := f\<rparr>) = mem_total s"
  by (simp_all add: mem_total_def)

lemma image_ran: "f ` ran m = (\<lambda>j. f (the (m j))) ` dom m"
proof
  show "f ` ran m \<subseteq> (\<lambda>j. f (the (m j))) ` dom m"
  proof
    fix y assume "y \<in> f ` ran m"
    then obtain j x where "m j = Some x" "y = f x" by (auto simp: ran_def)
    then show "y \<in> (\<lambda>j. f (the (m j))) ` dom m" by (intro image_eqI [of _ _ j]) auto
  qed
qed (auto simp: ran_def)

lemma live_update: "I i = Some ino \<Longrightarrow> i_sector ino' = i_sector ino \<Longrightarrow> live N (I(i \<mapsto> ino')) = live N I"
  by (auto simp: live_def image_ran insert_absorb domI intro!: image_cong arg_cong2 [of _ _ _ _ "(\<union>)"])

lemma itabI:
  assumes "distinct os" and "set os = dom I" and "\<And>i ino. I i = Some ino \<Longrightarrow> 0 < i \<and> i \<le> a \<and> node_ok D N (R i) (Q i) ino"
    and "\<And>i j x y. I i = Some x \<Longrightarrow> I j = Some y \<Longrightarrow> i_sector x = i_sector y \<Longrightarrow> i = j"
    and "\<And>i. I i = None \<Longrightarrow> R i = 0 \<and> Q i = 0"
  shows "itab_ok D N R Q I os a"
proof -
  have "0 < i \<and> i \<le> a" if "i \<in> dom I" for i using assms(3) that by blast
  then show ?thesis unfolding itab_ok_def using assms by simp
qed

lemma itab_parts:
  assumes "itab_ok D N R Q I os a"
  shows "distinct os" and "set os = dom I" and "I i = Some x \<Longrightarrow> I j = Some y \<Longrightarrow> i_sector x = i_sector y \<Longrightarrow> i = j"
    and "I i = None \<Longrightarrow> R i = 0 \<and> Q i = 0"
  using assms unfolding itab_ok_def by simp_all

lemma itab_update:
  assumes t: "itab_ok D N R Q I os a" and i: "I i = Some ino" and sec: "i_sector ino' = i_sector ino" and ok: "node_ok D N r q ino'"
  shows "itab_ok D N (R(i := r)) (Q(i := q)) (I(i \<mapsto> ino')) os a"
proof (rule itabI, goal_cases)
  case (4 j k x y)
  then have "\<exists>x'. I j = Some x' \<and> i_sector x' = i_sector x" "\<exists>y'. I k = Some y' \<and> i_sector y' = i_sector y"
    using i sec by (auto split: if_splits)
  then show ?case using itab_parts(3) [OF t] 4(3) by metis
qed (use itab_parts [OF t] i itabD [OF t] ok in \<open>auto split: if_splits\<close>)

text \<open>Changing an open inode but not its sector.\<close>

lemma core_update_inode:
  assumes c: "core d off n R Q s" and i: "inodes s i = Some ino" and sec: "i_sector ino' = i_sector ino"
    and ok: "node_ok (dino d off s) (names d off s) r q ino'"
  shows "core d off n (R(i := r)) (Q(i := q)) (s\<lparr>inodes := (inodes s)(i \<mapsto> ino')\<rparr>)"
proof -
  let ?s = "s\<lparr>inodes := (inodes s)(i \<mapsto> ino')\<rparr>"
  note C = coreD [OF c] and e = files_cong [of d off ?s s, OF view_tables(1)]
  obtain fl i0 where F: "free_map_file s \<noteq> 0" "files s (free_map_file s) = Some fl" "inodes s (f_inode fl) = Some i0"
    "i_sector i0 = 0" using C(10) by blast
  have "\<exists>i0. inodes ?s (f_inode fl) = Some i0 \<and> i_sector i0 = 0" using F(3,4) i sec by (cases "f_inode fl = i") auto
  then have "\<exists>fl i0. free_map_file ?s \<noteq> 0 \<and> files ?s (free_map_file ?s) = Some fl \<and> inodes ?s (f_inode fl) = Some i0 \<and> i_sector i0 = 0"
    using F(1,2) by simp
  moreover have "layout n (live (names d off ?s) (inodes ?s)) (dino d off ?s) (bm_abs (free_map ?s))"
    using C(5) live_update [of "inodes s" i ino ino'] i sec e by simp
  moreover have "itab_ok (dino d off ?s) (names d off ?s) (R(i := r)) (Q(i := q)) (inodes ?s) (open_inodes ?s) (allocs ?s)"
    using itab_update [OF C(7) i sec ok] e by simp
  ultimately show ?thesis using C(1-4,6,8,9) e by (intro coreI) simp_all
qed

lemma core_reopen:
  assumes c: "core d off n R Q s" and i: "inodes s i = Some ino"
  shows "inode_reopen i s = Some (i, s\<lparr>inodes := (inodes s)(i \<mapsto> ino\<lparr>open_cnt := open_cnt ino + 1\<rparr>)\<rparr>)"
    and "core d off n (R(i := Suc (R i))) Q (s\<lparr>inodes := (inodes s)(i \<mapsto> ino\<lparr>open_cnt := open_cnt ino + 1\<rparr>)\<rparr>)"
proof -
  note o = core_open [OF c i]
  show "inode_reopen i s = Some (i, s\<lparr>inodes := (inodes s)(i \<mapsto> ino\<lparr>open_cnt := open_cnt ino + 1\<rparr>)\<rparr>)"
    using i o(9) by (simp add: inode_reopen_def upd_inode_def)
  have "node_ok (dino d off s) (names d off s) (Suc (R i)) (Q i) (ino\<lparr>open_cnt := open_cnt ino + 1\<rparr>)"
    using o by (auto simp: node_ok_def)
  from core_update_inode [OF c i _ this] show "core d off n (R(i := Suc (R i))) Q (s\<lparr>inodes := (inodes s)(i \<mapsto> ino\<lparr>open_cnt := open_cnt ino + 1\<rparr>)\<rparr>)"
    by simp
qed

lemma itab_new:
  assumes t: "itab_ok D N R Q I os a" and new: "i = Suc a" and sec: "\<And>j x. I j = Some x \<Longrightarrow> i_sector x \<noteq> i_sector ino"
    and ok: "node_ok D N 1 0 ino"
  shows "itab_ok D N (R(i := 1)) Q (I(i \<mapsto> ino)) (i # os) i"
proof -
  have I: "I i = None" using itabD(4) [OF t, of i] new by (cases "I i") auto
  have s: "i \<notin> set os" "Q i = 0" using itab_parts(2,4) [OF t] I by auto
  show ?thesis
  proof (rule itabI, goal_cases)
    case (3 j x)
    then show ?case using itabD [OF t, of j x] new ok s(2) by (auto split: if_splits)
  next
    case (4 j k x y)
    then show ?case using itab_parts(3) [OF t, of j x k y] sec [of j x] sec [of k y] by (auto split: if_splits)
  qed (use itab_parts [OF t] s in \<open>auto split: if_splits\<close>)
qed

lemma live_new: "live N (I(i \<mapsto> ino)) \<subseteq> insert (unat (i_sector ino)) (live N I)"
  by (auto simp: live_def ran_def split: if_splits)

lemma core_new:
  assumes c: "core d off n R Q s" and k: "unat sector \<in> named (names d off s)"
    and new: "\<And>j x. inodes s j = Some x \<Longrightarrow> i_sector x \<noteq> sector"
    and ino: "ino = \<lparr>i_sector = sector, open_cnt = 1, removed = False, deny_write_cnt = 0, idata = dino d off s (unat sector)\<rparr>"
    and i: "i = Suc (allocs s)"
    and s': "s' = s\<lparr>allocs := i, open_inodes := i # open_inodes s, read_cnt := cnt, inodes := (inodes s)(i \<mapsto> ino)\<rparr>"
  shows "core d off n (R(i := 1)) Q s'" and "names d off s' = names d off s" and "file_bytes d off s' = file_bytes d off s"
    and "dino d off s' = dino d off s" and "R i = 0" and "inodes s i = None"
proof -
  note C = coreD [OF c]
  have "sect d off s' = sect d off s" unfolding s' by (simp add: sect_def fun_eq_iff)
  note e = files_cong [OF this]
  show "names d off s' = names d off s" "file_bytes d off s' = file_bytes d off s" "dino d off s' = dino d off s" by (rule e)+
  show I: "inodes s i = None" using itabD(4) [OF C(7), of i] i by (cases "inodes s i") auto
  then show "R i = 0" using itab_parts(4) [OF C(7)] by blast
  have nk: "node_ok (dino d off s) (names d off s) 1 0 ino" using k unfolding ino by (simp add: node_ok_def)
  have it: "itab_ok (dino d off s) (names d off s) (R(i := 1)) Q ((inodes s)(i \<mapsto> ino)) (i # open_inodes s) i"
    by (rule itab_new [OF C(7) i _ nk]) (use new in \<open>simp add: ino\<close>)
  have "live (names d off s) ((inodes s)(i \<mapsto> ino)) \<subseteq> live (names d off s) (inodes s)"
    using live_new [of "names d off s" "inodes s" i ino] named_live [OF k] by (auto simp: ino)
  note l = layout_mono [OF C(5) this]
  obtain fl i0 where F: "free_map_file s \<noteq> 0" "files s (free_map_file s) = Some fl" "inodes s (f_inode fl) = Some i0"
    "i_sector i0 = 0" using C(10) by blast
  then have "f_inode fl \<noteq> i" using I by auto
  then have fm: "\<exists>fl i0. free_map_file s' \<noteq> 0 \<and> files s' (free_map_file s') = Some fl \<and> inodes s' (f_inode fl) = Some i0 \<and> i_sector i0 = 0"
    using F by (simp add: s')
  show "core d off n (R(i := 1)) Q s'"
  proof (rule coreI)
    show "fsdev d off n s'" using C(1) by (simp add: s' fsdev_def)
    show "mem_total s'" using C(2) by (simp add: s' mem_total_def)
  qed (use C(3,4,6,8,9) e it l fm in \<open>simp_all add: s' del: One_nat_def\<close>)
qed

lemma inode_open_ok:
  assumes c: "core d off n R Q s" and k: "unat sector \<in> named (names d off s)"
  shows "\<exists>i s' ino. inode_open sector s = Some (i, s') \<and> core d off n (R(i := Suc (R i))) Q s' \<and> i \<noteq> 0 \<and>
    inodes s' i = Some ino \<and> i_sector ino = sector \<and> names d off s' = names d off s \<and> file_bytes d off s' = file_bytes d off s \<and>
    dino d off s' = dino d off s \<and> files s' = files s \<and> dirs s' = dirs s \<and> free_map_file s' = free_map_file s \<and> allocs s \<le> allocs s' \<and>
    (\<forall>j. j \<noteq> i \<longrightarrow> inodes s' j = inodes s j) \<and> free_map s' = free_map s \<and>
    (\<forall>z. inodes s i = Some z \<longrightarrow> i_sector z = sector) \<and>
    (inodes s i = None \<longleftrightarrow> (\<forall>j z. inodes s j = Some z \<longrightarrow> i_sector z \<noteq> sector))"
proof -
  note C = coreD [OF c]
  let ?q = "\<lambda>i. i_sector (the (inodes s i)) = sector"
  have "Option.bind (inodes s i) (\<lambda>ino. Some (i_sector ino = sector)) = Some (?q i)" if "i \<in> set (open_inodes s)" for i
    using that itab_parts(2) [OF C(7)] by auto
  then have f: "findM (\<lambda>i. do { ino \<leftarrow> inodes s i; Some (i_sector ino = sector) }) (open_inodes s) = Some (find ?q (open_inodes s))"
    by (rule findM_pure)
  show ?thesis
  proof (cases "find ?q (open_inodes s)")
    case (Some i)
    then have "i \<in> set (open_inodes s)" "?q i" by (auto simp: find_Some_iff)
    then obtain ino where i: "inodes s i = Some ino" "i_sector ino = sector" using itab_parts(2) [OF C(7)] by auto
    let ?s = "s\<lparr>inodes := (inodes s)(i \<mapsto> ino\<lparr>open_cnt := open_cnt ino + 1\<rparr>)\<rparr>"
    have "inode_open sector s = Some (i, ?s)" unfolding inode_open_def f using Some core_reopen(1) [OF c i(1)] by simp
    then show ?thesis
      using core_reopen(2) [OF c i(1)] i core_open(9) [OF c i(1)] files_cong [of d off ?s s, OF view_tables(1)]
      by (intro exI [of _ i] exI [of _ ?s] exI [of _ "ino\<lparr>open_cnt := open_cnt ino + 1\<rparr>"]) auto
  next
    case None
    have new: "i_sector x \<noteq> sector" if "inodes s j = Some x" for j x
      using None that itab_parts(2) [OF C(7)] by (auto simp: find_None_iff)
    let ?i = "Suc (allocs s)"
    let ?s1 = "s\<lparr>allocs := ?i, open_inodes := ?i # open_inodes s\<rparr>"
    have kn: "unat sector < n" using layoutD(1) [OF C(5) named_live [OF k]] .
    have m: "maps_to (blocks s) (fs_device s) d off n" using C(1) by (simp add: fsdev_def)
    then have m1: "maps_to (blocks ?s1) (fs_device s) d off n" by simp
    obtain cnt where r: "block_read (fs_device s) sector ?s1 = Some (sect d off s (unat sector), ?s1\<lparr>read_cnt := cnt\<rparr>)"
      using block_read_maps [OF m1 refl kn] by (auto simp: sect_def)
    let ?ino = "\<lparr>i_sector = sector, open_cnt = 1, removed = False, deny_write_cnt = 0, idata = dino d off s (unat sector)\<rparr>"
    let ?s' = "s\<lparr>allocs := ?i, open_inodes := ?i # open_inodes s, read_cnt := cnt, inodes := (inodes s)(?i \<mapsto> ?ino)\<rparr>"
    have "inode_open sector s = Some (?i, ?s')"
      unfolding inode_open_def f using None r C(2) by (simp add: malloc_def mem_total_def Let_def dino_def)
    then show ?thesis
      using core_new [where cnt = cnt, OF c k new refl refl refl] new
      by (intro exI [of _ ?i] exI [of _ ?s'] exI [of _ ?ino]) simp
  qed
qed

section \<open>Closing an inode\<close>

lemma io_inodes: "io z z' \<Longrightarrow> io (z\<lparr>inodes := I\<rparr>) (z'\<lparr>inodes := I\<rparr>)"
proof -
  assume "io z z'"
  then obtain a c w m where "z' = z\<lparr>allocs := a, read_cnt := c, write_cnt := w, media := m\<rparr>" "allocs z \<le> a" by (rule ioD)
  then show ?thesis by (simp add: io_def)
qed

lemma fm_file_inodes:
  assumes "fm_file d off n s fi" and "\<And>j x. inodes s j = Some x \<Longrightarrow> I j = Some x"
  shows "fm_file d off n (s\<lparr>inodes := I\<rparr>) fi"
  using assms by (auto simp: fm_file_def)

lemma fm_update_inodes:
  assumes u: "fm_update d off n fi b z z'" and fm: "fm_file d off n (z\<lparr>inodes := I\<rparr>) fi"
  shows "fm_update d off n fi b (z\<lparr>inodes := I\<rparr>) (z'\<lparr>inodes := I\<rparr>)"
proof -
  have u': "io (z\<lparr>free_map := b\<rparr>) z'" "written_bytes d off n z z' (base fi) (bits_bytes b)" "bm_inv b"
    "bit_cnt b = bit_cnt (free_map z)" "fm_sync d off n z' fi"
    using u by (simp_all add: fm_update_def)
  note fr = io_frame [OF u'(1), simplified]
  have "io (z\<lparr>inodes := I, free_map := b\<rparr>) (z'\<lparr>inodes := I\<rparr>)" 
  proof -
    have "z\<lparr>inodes := I, free_map := b\<rparr> = z\<lparr>free_map := b, inodes := I\<rparr>" by simp
    then show ?thesis using io_inodes [OF u'(1), of I] by (simp only:)
  qed
  moreover have "written_bytes d off n (z\<lparr>inodes := I\<rparr>) (z'\<lparr>inodes := I\<rparr>) (base fi) (bits_bytes b)"
    using u'(2) files_cong(5) [of d off "z\<lparr>inodes := I\<rparr>" z] files_cong(5) [of d off "z'\<lparr>inodes := I\<rparr>" z']
    by (simp add: written_bytes_def)
  moreover have "fm_sync d off n (z'\<lparr>inodes := I\<rparr>) fi"
    using u'(5) fm fr files_cong(4) [of d off "z'\<lparr>inodes := I\<rparr>" z'] by (auto simp: fm_sync_def fm_file_def)
  ultimately show ?thesis using u'(3,4) by (simp add: fm_update_def)
qed

lemma live_drop:
  assumes "itab_ok D N R Q I os a" and "I i = Some ino"
  shows "live N (I(i := None)) \<subseteq> live N I"
    and "unat (i_sector ino) \<notin> named N \<Longrightarrow> unat (i_sector ino) \<notin> live N (I(i := None))"
proof -
  show "live N (I(i := None)) \<subseteq> live N I" by (auto simp: live_def ran_def split: if_splits)
  have "unat (i_sector x) \<noteq> unat (i_sector ino)" if "(I(i := None)) j = Some x" for j x
    using itab_parts(3) [OF assms(1) _ assms(2), of j x] that by (auto simp: word_unat_eq_iff split: if_splits)
  then show "unat (i_sector ino) \<notin> live N (I(i := None))" if "unat (i_sector ino) \<notin> named N"
    using that by (auto simp: live_def ran_def) metis
qed

lemma core_drop:
  assumes c: "core d off n R Q s" and i: "inodes s i = Some ino" and q: "Q i = 0" and nz: "i_sector ino \<noteq> 0"
  shows "core d off n (R(i := 0)) Q (s\<lparr>open_inodes := removeAll i (open_inodes s), inodes := (inodes s)(i := None)\<rparr>)"
proof -
  let ?s = "s\<lparr>open_inodes := removeAll i (open_inodes s), inodes := (inodes s)(i := None)\<rparr>"
  note C = coreD [OF c]
  have e: "dino d off ?s = dino d off s" "file_bytes d off ?s = file_bytes d off s" "names d off ?s = names d off s"
    using files_cong [of d off ?s s] by simp_all
  have "itab_ok (dino d off s) (names d off s) (R(i := 0)) Q ((inodes s)(i := None)) (removeAll i (open_inodes s)) (allocs s)"
  proof (rule itabI, goal_cases)
    case (4 j k x y)
    then show ?case using itab_parts(3) [OF C(7), of j x k y] by (auto split: if_splits)
  qed (use itab_parts [OF C(7)] itabD [OF C(7)] q in \<open>auto simp: distinct_removeAll split: if_splits\<close>)
  moreover have "layout n (live (names d off s) ((inodes s)(i := None))) (dino d off s) (bm_abs (free_map s))"
    by (rule layout_mono [OF C(5) live_drop(1) [OF C(7) i]])
  moreover obtain fl i0 where F: "free_map_file s \<noteq> 0" "files s (free_map_file s) = Some fl" "inodes s (f_inode fl) = Some i0"
    "i_sector i0 = 0" using C(10) by blast
  moreover have "f_inode fl \<noteq> i" using F i nz by auto
  ultimately show ?thesis using C(1-4,6,8,9) e by (intro coreI) (simp_all del: One_nat_def)
qed

text \<open>Releasing the sectors of a file that is gone.\<close>

lemma core_release:
  assumes c: "core d off n R Q s" and fm: "fm_file d off n s fi" and i: "inodes s i = Some fi" "i_sector fi = 0"
    and u: "fm_update d off n fi b s s'" and b: "bm_abs b = replace_range x cnt False (bm_abs (free_map s))"
    and gone: "\<forall>k \<in> live (names d off s) (inodes s). own (dino d off s) k \<inter> {x..<x + cnt} = {}"
  shows "core d off n R Q s'" and "names d off s' = names d off s"
    and "\<And>k. k \<in> live (names d off s) (inodes s) \<Longrightarrow> dino d off s' k = dino d off s k"
    and "\<And>k. k \<in> live (names d off s) (inodes s) \<Longrightarrow> k \<noteq> 0 \<Longrightarrow> file_bytes d off s' k = file_bytes d off s k"
proof -
  note C = coreD [OF c]
  have keep: "bm_abs b ! j" if "k \<in> live (names d off s) (inodes s)" "j \<in> own (dino d off s) k" for k j
    using layoutD(4) [OF C(5) that] layout_own [OF C(5) that(1)] that gone C(4)
    by (fastforce simp: b nth_replace_range)
  show "core d off n R Q s'" by (rule core_fm_update(1) [OF c i u keep])
  show "names d off s' = names d off s" by (rule core_fm_update(2) [OF c i u keep])
  show "dino d off s' k = dino d off s k" if "k \<in> live (names d off s) (inodes s)" for k
    by (rule core_fm_update(3) [OF c i u keep that])
  show "file_bytes d off s' k = file_bytes d off s k" if "k \<in> live (names d off s) (inodes s)" "k \<noteq> 0" for k
    by (rule core_fm_update(4) [OF c i u keep that])
qed

text \<open>The free bits after the last reference to a removed file is closed.\<close>

definition freed :: "inode \<Rightarrow> bool list \<Rightarrow> bool list" where
  "freed ino B = replace_range (unat (d_start (idata ino))) (secs (idata ino)) False
     (replace_range (unat (i_sector ino)) 1 False B)"

lemma close_removed:
  assumes c: "core d off n R Q s" and i: "inodes s i = Some ino" and q: "Q i = 0" and rm: "removed ino"
    and s2: "s2 = s\<lparr>inodes := (inodes s)(i \<mapsto> ino'), open_inodes := removeAll i (open_inodes s)\<rparr>"
    and s0: "s0 = s\<lparr>open_inodes := removeAll i (open_inodes s), inodes := (inodes s)(i := None)\<rparr>"
  shows "\<exists>s3 s4 s'. free_map_release (i_sector ino) 1 s2 = Some s3 \<and>
    free_map_release (d_start (idata ino)) (bytes_to_sectors (d_length (idata ino))) s3 = Some s4 \<and>
    s' = s4\<lparr>inodes := (inodes s4)(i := None)\<rparr> \<and> core d off n (R(i := 0)) Q s' \<and> names d off s' = names d off s \<and>
    (\<forall>k \<in> live (names d off s0) (inodes s0). dino d off s' k = dino d off s k \<and>
       (k \<noteq> 0 \<longrightarrow> file_bytes d off s' k = file_bytes d off s k)) \<and>
    files s' = files s \<and> dirs s' = dirs s \<and> free_map_file s' = free_map_file s \<and> inodes s' = (inodes s)(i := None) \<and>
    allocs s \<le> allocs s' \<and> bm_abs (free_map s') = freed ino (bm_abs (free_map s))"
proof -
  let ?I = "(inodes s)(i := None)" and ?k = "unat (i_sector ino)" and ?di = "idata ino" and ?B = "bm_abs (free_map s)"
  note C = coreD [OF c] and o = core_open [OF c i]
  have e: "dino d off s0 = dino d off s" "file_bytes d off s0 = file_bytes d off s" "names d off s0 = names d off s"
    "free_map s0 = free_map s" "inodes s0 = ?I" using files_cong [of d off s0 s] by (simp_all add: s0)
  have kn: "?k \<notin> named (names d off s)" using o(6) rm by simp
  then have nz: "i_sector ino \<noteq> 0" by auto
  have c0: "core d off n (R(i := 0)) Q s0" unfolding s0 by (rule core_drop [OF c i q nz])
  obtain fi j where fi: "fm_file d off n s0 fi" "inodes s0 j = Some fi" "i_sector fi = 0" using core_fm [OF c0] by blast
  note f0 = fi(1)
  have s20: "s2\<lparr>inodes := ?I\<rparr> = s0" and s02: "s2 = s0\<lparr>inodes := (inodes s)(i \<mapsto> ino')\<rparr>" by (simp_all add: s0 s2)
  have f2: "fm_file d off n s2 fi" unfolding s02 by (rule fm_file_inodes [OF f0]) (auto simp: s0 split: if_splits)
  have kl: "?k \<in> live (names d off s) (inodes s)" using open_live [of "inodes s" i ino] i by blast
  have ow: "own (dino d off s) ?k = insert ?k (extent ?di)" using o(1) by (simp add: own_def)
  note lay = coreD(5) [OF c0, unfolded e]
  have apart: "own (dino d off s) k \<inter> own (dino d off s) ?k = {}" if "k \<in> live (names d off s) ?I" for k
    using layout_disjoint [OF C(5) _ kl, of k] that live_drop [OF C(7) i] kn by blast
  \<comment> \<open>the inode's own sector\<close>
  have "run_at ?B (unat 1) True ?k" using layoutD(1,4) [OF C(5) kl] C(4) by (auto simp: run_at_def own_def)
  then have r1: "run_at (bm_abs (free_map s2)) (unat 1) True ?k" by (simp add: s2)
  obtain b1 s3 where b1: "free_map_release (i_sector ino) 1 s2 = Some s3" "fm_update d off n fi b1 s2 s3"
    "bm_abs b1 = replace_range ?k 1 False ?B" using free_map_release_ok [OF f2 r1] by (auto simp: s2)
  have u1: "fm_update d off n fi b1 s0 (s3\<lparr>inodes := ?I\<rparr>)"
    using fm_update_inodes [OF b1(2), of ?I] f0 unfolding s20 by blast
  let ?t1 = "s3\<lparr>inodes := ?I\<rparr>"
  have g1: "\<forall>k \<in> live (names d off s0) (inodes s0). own (dino d off s0) k \<inter> {?k..<?k + 1} = {}"
    using apart unfolding e ow by auto
  have b1': "bm_abs b1 = replace_range ?k 1 False (bm_abs (free_map s0))" using b1(3) e(4) by simp
  note c1 = core_release [OF c0 f0 fi(2,3) u1 b1' g1]
  have io1: "io (s2\<lparr>free_map := b1\<rparr>) s3" using b1(2) by (simp add: fm_update_def)
  note fr1 = io_frame [OF io1, simplified]
  have f3: "fm_file d off n s3 fi" using b1(2) by (simp add: fm_update_def fm_sync_def)
  \<comment> \<open>the data\<close>
  have bs: "unat (bytes_to_sectors (d_length ?di)) = secs ?di" by (simp add: secs_def)
  have "run_at b1' (secs ?di) True (unat (d_start ?di))" if "b1' = bm_abs b1" for b1'
    unfolding run_at_def that b1(3)
  proof (intro conjI allI impI)
    show "unat (d_start ?di) + secs ?di \<le> length (replace_range ?k 1 False ?B)"
      using layoutD(2) [OF C(5) kl] o(1) C(4) by (simp add: dok_def)
    fix p assume "p < secs ?di"
    then have p: "unat (d_start ?di) + p \<in> extent ?di" by (simp add: extent_def)
    then have "unat (d_start ?di) + p \<noteq> ?k" "?B ! (unat (d_start ?di) + p)" "unat (d_start ?di) + p < n"
      using layoutD(3,4) [OF C(5) kl] layout_own [OF C(5) kl] o(1) ow by auto
    then show "replace_range ?k 1 False ?B ! (unat (d_start ?di) + p) = True" using C(4) by (simp add: nth_replace_range)
  qed
  then have r2: "run_at (bm_abs (free_map s3)) (unat (bytes_to_sectors (d_length ?di))) True (unat (d_start ?di))"
    using fr1 bs by simp
  obtain b2 s4 where b2: "free_map_release (d_start ?di) (bytes_to_sectors (d_length ?di)) s3 = Some s4" "fm_update d off n fi b2 s3 s4"
    "bm_abs b2 = replace_range (unat (d_start ?di)) (secs ?di) False (bm_abs (free_map s3))"
    using free_map_release_ok [OF f3 r2] bs by auto
  have f1': "fm_file d off n ?t1 fi" using u1 by (simp add: fm_update_def fm_sync_def)
  have u2: "fm_update d off n fi b2 ?t1 (s4\<lparr>inodes := ?I\<rparr>)" by (rule fm_update_inodes [OF b2(2) f1'])
  let ?t2 = "s4\<lparr>inodes := ?I\<rparr>"
  have i1: "inodes ?t1 j = Some fi" using fi(2) e(5) by simp
  have g2: "\<forall>k \<in> live (names d off ?t1) (inodes ?t1).
      own (dino d off ?t1) k \<inter> {unat (d_start ?di)..<unat (d_start ?di) + secs ?di} = {}"
  proof
    fix k assume "k \<in> live (names d off ?t1) (inodes ?t1)"
    then have k: "k \<in> live (names d off s0) (inodes s0)" using c1(2) e(5) by simp
    have "own (dino d off ?t1) k = own (dino d off s) k" using c1(3) [OF k] e(1) by (simp add: own_def)
    moreover have "k \<in> live (names d off s) ?I" using k e by simp
    ultimately show "own (dino d off ?t1) k \<inter> {unat (d_start ?di)..<unat (d_start ?di) + secs ?di} = {}"
      using apart [of k] unfolding ow by (auto simp: extent_def)
  qed
  have b2': "bm_abs b2 = replace_range (unat (d_start ?di)) (secs ?di) False (bm_abs (free_map ?t1))" using b2(3) by simp
  note c2 = core_release [OF c1(1) f1' i1 fi(3) u2 b2' g2]
  have io2: "io (s3\<lparr>free_map := b2\<rparr>) s4" using b2(2) by (simp add: fm_update_def)
  note fr2 = io_frame [OF io2, simplified]
  have t2: "?t2 = s4\<lparr>inodes := (inodes s4)(i := None)\<rparr>" using fr1 fr2 by (simp add: s2)
  have lv: "live (names d off ?t1) (inodes ?t1) = live (names d off s0) (inodes s0)" using c1(2) e(5) by simp
  have di: "dino d off ?t2 k = dino d off s k \<and> (k \<noteq> 0 \<longrightarrow> file_bytes d off ?t2 k = file_bytes d off s k)"
    if k: "k \<in> live (names d off s0) (inodes s0)" for k
    using c1(3,4) [OF k] c2(3,4) [of k] k e(1,2) unfolding lv by simp
  have nm: "names d off ?t2 = names d off s" using c1(2) c2(2) e(3) by simp
  have fb: "bm_abs (free_map ?t2) = freed ino ?B" using b2(3) b1(3) fr1 fr2 by (simp add: freed_def)
  have fin: "files ?t2 = files s" "dirs ?t2 = dirs s" "free_map_file ?t2 = free_map_file s" "inodes ?t2 = ?I"
    "allocs s \<le> allocs ?t2"
    using fr1 fr2 by (simp_all add: s2)
  show ?thesis
    by (intro exI [of _ s3] exI [of _ s4] exI [of _ ?t2] conjI ballI) (rule b1(1) b2(1) t2 c2(1) nm fb fin | use di in blast)+
qed

lemma inode_close_ok:
  assumes c: "core d off n R Q s" and i: "inodes s i = Some ino" and q: "Suc (Q i) \<le> R i" and nz: "R i = 1 \<Longrightarrow> i_sector ino \<noteq> 0"
  shows "\<exists>s'. inode_close i s = Some s' \<and> core d off n (R(i := R i - 1)) Q s' \<and> names d off s' = names d off s \<and>
    (\<forall>k \<in> live (names d off s) (if R i = 1 then (inodes s)(i := None) else inodes s). dino d off s' k = dino d off s k \<and>
       (k \<noteq> 0 \<longrightarrow> file_bytes d off s' k = file_bytes d off s k)) \<and>
    files s' = files s \<and> dirs s' = dirs s \<and> free_map_file s' = free_map_file s \<and> allocs s \<le> allocs s' \<and>
    inodes s' = (inodes s)(i := if R i = 1 then None else Some (ino\<lparr>open_cnt := open_cnt ino - 1\<rparr>)) \<and>
    bm_abs (free_map s') = (if R i = 1 \<and> removed ino then freed ino (bm_abs (free_map s)) else bm_abs (free_map s))"
proof -
  note C = coreD [OF c] and o = core_open [OF c i]
  let ?ino = "ino\<lparr>open_cnt := open_cnt ino - 1\<rparr>"
  show ?thesis
  proof (cases "R i = 1")
    case False
    let ?s = "s\<lparr>inodes := (inodes s)(i \<mapsto> ?ino)\<rparr>"
    have "node_ok (dino d off s) (names d off s) (R i - 1) (Q i) ?ino" using o q False by (auto simp: node_ok_def)
    then have "core d off n (R(i := R i - 1)) (Q(i := Q i)) ?s" by (intro core_update_inode [OF c i]) simp_all
    moreover have "inode_close i s = Some ?s" using o(2,9) q False i by (simp add: inode_close_def upd_inode_def)
    ultimately show ?thesis
      using False files_cong [of d off ?s s, OF view_tables(1)] by (intro exI [of _ ?s]) simp
  next
    case True
    then have q0: "Q i = 0" and oc: "open_cnt ino - 1 = 0" using q o(2) by simp_all
    let ?s0 = "s\<lparr>open_inodes := removeAll i (open_inodes s), inodes := (inodes s)(i := None)\<rparr>"
    let ?s2 = "s\<lparr>inodes := (inodes s)(i \<mapsto> ?ino), open_inodes := removeAll i (open_inodes s)\<rparr>"
    have e: "dino d off ?s0 = dino d off s" "file_bytes d off ?s0 = file_bytes d off s" "names d off ?s0 = names d off s"
      using files_cong [of d off ?s0 s] by simp_all
    show ?thesis
    proof (cases "removed ino")
      case False
      have "core d off n (R(i := 0)) Q ?s0" by (rule core_drop [OF c i q0 nz [OF True]])
      moreover have "inode_close i s = Some ?s0" using o(9) oc False i by (simp add: inode_close_def upd_inode_def)
      ultimately show ?thesis using False True e by (intro exI [of _ ?s0]) simp
    next
      case rm: True
      obtain s3 s4 s' where r: "free_map_release (i_sector ino) 1 ?s2 = Some s3"
        "free_map_release (d_start (idata ino)) (bytes_to_sectors (d_length (idata ino))) s3 = Some s4"
        "s' = s4\<lparr>inodes := (inodes s4)(i := None)\<rparr>" "core d off n (R(i := 0)) Q s'" "names d off s' = names d off s"
        "\<forall>k \<in> live (names d off ?s0) (inodes ?s0). dino d off s' k = dino d off s k \<and>
           (k \<noteq> 0 \<longrightarrow> file_bytes d off s' k = file_bytes d off s k)"
        "files s' = files s" "dirs s' = dirs s" "free_map_file s' = free_map_file s" "inodes s' = (inodes s)(i := None)"
        "allocs s \<le> allocs s'" "bm_abs (free_map s') = freed ino (bm_abs (free_map s))"
        using close_removed [OF c i q0 rm refl refl, of ?ino] by blast
      have "inode_close i s = Some s'" using o(9) oc rm i r(1-3) by (simp add: inode_close_def upd_inode_def)
      then show ?thesis using True rm r e by (intro exI [of _ s']) simp
    qed
  qed
qed

end
