(* ===== verification/Fs_Ops.thy ===== *)
theory Fs_Ops
  imports Fs_Core
begin

text \<open>
  The operations on directories and files above the invariant of theory \<open>Fs_Core\<close>:
  creating an inode, opening the root directory, looking up, adding and removing
  names, and the interface of \<open>filesys/filesys.c\<close> and \<open>filesys/file.c\<close>.
\<close>

section \<open>Creating an inode\<close>

lemma get32_drop: "i = length as \<Longrightarrow> get32 (as @ bs) i = get32 bs 0"
  by (simp add: get32_def nth_append numeral_2_eq_2 numeral_3_eq_3)

lemma parse_disk_bytes:
  assumes "0 \<le> d_length di" and "d_length di < 2 ^ 31"
  shows "parse_inode (disk_bytes di) = di" and "length (disk_bytes di) = 512"
proof -
  let ?r = "replicate 500 (0 :: u8)" and ?l = "word_of_int (d_length di) :: u32"
  have "get32 (put32 (d_start di) @ put32 ?l @ put32 (d_magic di) @ ?r) 4 = ?l"
    by (subst get32_drop) simp_all
  moreover have "get32 ((put32 (d_start di) @ put32 ?l) @ put32 (d_magic di) @ ?r) 8 = d_magic di"
    by (subst get32_drop) simp_all
  moreover have "sint ?l = d_length di" using sint_nat [of "nat (d_length di)"] assms by simp
  ultimately show "parse_inode (disk_bytes di) = di" by (cases di) (simp add: parse_inode_def disk_bytes_def)
  show "length (disk_bytes di) = 512" by (simp add: disk_bytes_def)
qed

lemma zero_sectors:
  assumes dev: "fsdev d off n s" and m: "a + m \<le> n"
  shows "\<exists>s'. foldM (\<lambda>i s. block_write (fs_device s) (word_of_nat a + word_of_nat i) (replicate 512 0) s) [0..<m] s = Some s' \<and>
    (io s s' \<and> fsdev d off n s' \<and> allocs s' = allocs s \<and>
     (\<forall>j < n. sect d off s' j = (if a \<le> j \<and> j < a + m then replicate 512 0 else sect d off s j)))"
proof (rule foldM_upt)
  fix i :: nat and r :: "'a fsys_scheme"
  assume i: "i < m" and r: "io s r \<and> fsdev d off n r \<and> allocs r = allocs s \<and>
     (\<forall>j < n. sect d off r j = (if a \<le> j \<and> j < a + i then replicate 512 0 else sect d off s j))"
  have "a + i < n" using i m by simp
  with r obtain r' where r': "block_write (fs_device r) (word_of_nat (a + i)) (replicate 512 0) r = Some r'" "io r r'"
    "fsdev d off n r'" "allocs r' = allocs r" "\<forall>j < n. sect d off r' j = (if j = a + i then replicate 512 0 else sect d off r j)"
    using fs_block_write [of d off n r "a + i" "replicate 512 0"] by auto
  then show "\<exists>s'. block_write (fs_device r) (word_of_nat a + word_of_nat i) (replicate 512 0) r = Some s' \<and>
    (io s s' \<and> fsdev d off n s' \<and> allocs s' = allocs s \<and>
     (\<forall>j < n. sect d off s' j = (if a \<le> j \<and> j < a + Suc i then replicate 512 0 else sect d off s j)))"
    using r io_trans [of s r r'] by auto
qed (use dev in auto)

lemma file_zero:
  assumes "dok n di" and "\<And>j. j \<in> extent di \<Longrightarrow> sect d off s j = replicate 512 0"
  shows "content d off s (dnode di) = replicate (nat (d_length di)) 0"
proof (rule nth_equalityI)
  fix p assume "p < length (content d off s (dnode di))"
  then have p: "p < nat (d_length di)" by simp
  have "(unat (d_start di) * 512 + p) div 512 = unat (d_start di) + p div 512" by simp
  then have "(unat (d_start di) * 512 + p) div 512 \<in> extent di" using secs_bounds(2) [OF assms(1) p] by (simp add: extent_def)
  then show "content d off s (dnode di) ! p = replicate (nat (d_length di)) 0 ! p"
    using p assms(2) by (simp add: content_def dbyte_def)
qed simp

text \<open>
  A sector that is marked but belongs to no file can take a new inode; afterwards it
  can be given a name: the layout has room for it.
\<close>

lemma core_allocs: "core d off n R Q s \<Longrightarrow> allocs s \<le> a \<Longrightarrow> core d off n R Q (s\<lparr>allocs := a\<rparr>)"
  using core_read(1) [of d off n R Q s "s\<lparr>allocs := a\<rparr>"] by (simp add: io_def)

lemma allocs_view [simp]:
  "names d off (s\<lparr>allocs := a\<rparr>) = names d off s" "dino d off (s\<lparr>allocs := a\<rparr>) = dino d off s"
  "file_bytes d off (s\<lparr>allocs := a\<rparr>) = file_bytes d off s"
  using files_cong [of d off "s\<lparr>allocs := a\<rparr>" s] by simp_all

lemma write_header:
  assumes c: "core d off n R Q s" and x: "x < n" and own: "\<forall>k \<in> live (names d off s) (inodes s). x \<notin> own (dino d off s) k"
    and a: "a + m \<le> n" and free: "\<forall>k \<in> live (names d off s) (inodes s). \<forall>j \<in> own (dino d off s) k. j < a \<or> a + m \<le> j"
    and xa: "x < a \<or> a + m \<le> x" and bs: "length bs = 512"
  shows "\<exists>s1 s2. block_write (fs_device s) (word_of_nat x) bs s = Some s1 \<and>
    foldM (\<lambda>i s. block_write (fs_device s) (word_of_nat a + word_of_nat i) (replicate 512 0) s) [0..<m] s1 = Some s2 \<and>
    io s s2 \<and> core d off n R Q s2 \<and> names d off s2 = names d off s \<and> sect d off s2 x = bs \<and>
    (\<forall>k \<in> live (names d off s) (inodes s). dino d off s2 k = dino d off s k \<and> file_bytes d off s2 k = file_bytes d off s k) \<and>
    (\<forall>j. a \<le> j \<and> j < a + m \<longrightarrow> sect d off s2 j = replicate 512 0)"
proof -
  note C = coreD [OF c]
  obtain s1 where s1: "block_write (fs_device s) (word_of_nat x) bs s = Some s1" "io s s1" "fsdev d off n s1"
    "\<forall>j < n. sect d off s1 j = (if j = x then bs else sect d off s j)"
    using fs_block_write [OF C(1) x bs] by blast
  obtain s2 where s2: "foldM (\<lambda>i s. block_write (fs_device s) (word_of_nat a + word_of_nat i) (replicate 512 0) s) [0..<m] s1 = Some s2"
    "io s1 s2" "fsdev d off n s2"
    "\<forall>j < n. sect d off s2 j = (if a \<le> j \<and> j < a + m then replicate 512 0 else sect d off s1 j)"
    using zero_sectors [OF s1(3) a] by blast
  have io: "io s s2" using io_trans [OF s1(2) s2(2)] .
  have same: "sect d off s2 j = sect d off s j" if "k \<in> live (names d off s) (inodes s)" "j \<in> own (dino d off s) k" for k j
  proof -
    have "j < n" using layout_own [OF C(5) that(1)] that(2) by blast
    then show ?thesis using s1(4) s2(4) free own that by (metis le_less_trans less_irrefl not_less)
  qed
  have "core d off n R Q s2" by (rule core_io(1) [OF c io s2(3) same])
  moreover have "names d off s2 = names d off s" by (rule core_io(2) [OF c io s2(3) same])
  moreover have "\<forall>k \<in> live (names d off s) (inodes s). dino d off s2 k = dino d off s k \<and> file_bytes d off s2 k = file_bytes d off s k"
  proof
    fix k assume k: "k \<in> live (names d off s) (inodes s)"
    show "dino d off s2 k = dino d off s k \<and> file_bytes d off s2 k = file_bytes d off s k"
      by (rule core_io(3) [OF c io s2(3) same k])
  qed
  moreover have "sect d off s2 x = bs" using s1(4) s2(4) x xa by auto
  moreover have "\<forall>j. a \<le> j \<and> j < a + m \<longrightarrow> sect d off s2 j = replicate 512 0" using s2(4) a by auto
  ultimately show ?thesis using s1(1) s2(1) io by (intro exI [of _ s1] exI [of _ s2]) blast
qed

lemma layout_insert:
  assumes l: "layout n L D B" and x: "x < n" "dok n (D x)" "x \<notin> extent (D x)" "\<And>j. j \<in> own D x \<Longrightarrow> B ! j"
    and dis: "\<And>k. k \<in> L \<Longrightarrow> own D k \<inter> own D x = {}"
  shows "layout n (insert x L) D B"
  unfolding layout_def
proof (intro conjI ballI impI, goal_cases)
  case (5 k k')
  then show ?case using layout_disjoint [OF l, of k k'] dis [of k] dis [of k'] by blast
qed (use layoutD [OF l] x in auto)

lemma inode_create_ok:
  assumes c: "core d off n R Q s" and x: "unat sector < n" and own: "\<forall>k \<in> live (names d off s) (inodes s). unat sector \<notin> own (dino d off s) k"
    and bit: "bm_abs (free_map s) ! unat sector" and len: "0 \<le> l" "l < 2 ^ 31"
  shows "\<exists>ok s'. inode_create sector l s = Some (ok, s') \<and> core d off n R Q s' \<and> names d off s' = names d off s \<and>
    inodes s' = inodes s \<and> files s' = files s \<and> dirs s' = dirs s \<and> free_map_file s' = free_map_file s \<and> allocs s \<le> allocs s' \<and>
    (\<forall>k \<in> live (names d off s) (inodes s). dino d off s' k = dino d off s k \<and>
       (k \<noteq> 0 \<longrightarrow> file_bytes d off s' k = file_bytes d off s k)) \<and> bm_abs (free_map s') ! unat sector \<and>
    (ok \<longleftrightarrow> (\<exists>j. run_at (bm_abs (free_map s)) (unat (bytes_to_sectors l)) False j)) \<and>
    (ok \<longrightarrow> layout n (insert (unat sector) (live (names d off s) (inodes s))) (dino d off s') (bm_abs (free_map s')) \<and>
       file_bytes d off s' (unat sector) = replicate (nat l) 0)"
proof -
  let ?x = "unat sector" and ?m = "unat (bytes_to_sectors l)" and ?L = "live (names d off s) (inodes s)" and ?B = "bm_abs (free_map s)"
  let ?s0 = "s\<lparr>allocs := Suc (allocs s)\<rparr>"
  note C = coreD [OF c]
  have c0: "core d off n R Q ?s0" using core_allocs [OF c, of "Suc (allocs s)"] by simp
  have run0: "inode_create sector l s = do {
       (start, s) \<leftarrow> free_map_allocate (bytes_to_sectors l) ?s0;
       case start of
         None \<Rightarrow> Some (False, s)
       | Some start \<Rightarrow> do {
           s \<leftarrow> block_write (fs_device s) sector (disk_bytes \<lparr>d_start = start, d_length = l, d_magic = INODE_MAGIC\<rparr>) s;
           s \<leftarrow> foldM (\<lambda>i s. block_write (fs_device s) (start + word_of_nat i) (replicate 512 0) s) [0..<?m] s;
           Some (True, s) } }"
    using len(1) C(2) by (simp add: inode_create_def malloc_def mem_total_def Let_def)
  obtain r s1 where s1: "free_map_allocate (bytes_to_sectors l) ?s0 = Some (r, s1)" "core d off n R Q s1"
    "names d off s1 = names d off s" "inodes s1 = inodes s" "files s1 = files s" "dirs s1 = dirs s" "allocs s \<le> allocs s1"
    "\<forall>k \<in> ?L. dino d off s1 k = dino d off s k \<and> (k \<noteq> 0 \<longrightarrow> file_bytes d off s1 k = file_bytes d off s k)"
    "r = None \<longrightarrow> s1 = ?s0" "r = None \<longleftrightarrow> (\<forall>j. \<not> run_at ?B ?m False j)"
    "\<forall>y. r = Some y \<longrightarrow> run_at ?B ?m False (unat y) \<and> bm_abs (free_map s1) = replace_range (unat y) ?m True ?B"
    "free_map_file s1 = free_map_file s"
  proof -
    have e: "names d off ?s0 = names d off s" "inodes ?s0 = inodes s" "files ?s0 = files s" "dirs ?s0 = dirs s"
      "dino d off ?s0 = dino d off s" "file_bytes d off ?s0 = file_bytes d off s" "free_map ?s0 = free_map s"
      "free_map_file ?s0 = free_map_file s" "allocs s \<le> allocs ?s0" by simp_all
    from core_allocate [OF c0, of "bytes_to_sectors l", unfolded e(1-8)] e(9) show thesis
      by (elim exE conjE, intro that) (assumption | erule (1) le_trans)+
  qed
  show ?thesis
  proof (cases r)
    case None
    then have "inode_create sector l s = Some (False, ?s0)" using s1(1,9) run0 by simp
    then show ?thesis using c0 bit None s1(10) by (intro exI [of _ False] exI [of _ ?s0]) simp
  next
    case (Some y)
    let ?a = "unat y" and ?di = "\<lparr>d_start = y, d_length = l, d_magic = INODE_MAGIC\<rparr>"
    have ra: "run_at ?B ?m False ?a" and B1: "bm_abs (free_map s1) = replace_range ?a ?m True ?B" using s1(11) Some by auto
    have an: "?a + ?m \<le> n" using ra C(4) by (simp add: run_at_def)
    have ls: "live (names d off s1) (inodes s1) = ?L" using s1(3,4) by simp
    have ow: "own (dino d off s1) k = own (dino d off s) k" if "k \<in> ?L" for k using s1(8) that by (simp add: own_def)
    have fr: "j < ?a \<or> ?a + ?m \<le> j" if "k \<in> ?L" "j \<in> own (dino d off s) k" for k j
      using layoutD(4) [OF C(5) that] run_at_nth [OF ra, of j] by force
    have xa: "?x < ?a \<or> ?a + ?m \<le> ?x" using bit run_at_nth [OF ra, of ?x] by force
    have w1: "word_of_nat ?x = sector" "word_of_nat ?a = y" by simp_all
    have di: "dok n ?di" "extent ?di = {?a..<?a + ?m}" using len an by (simp_all add: dok_def secs_def extent_def)
    have pd: "parse_inode (disk_bytes ?di) = ?di" "length (disk_bytes ?di) = 512"
      using parse_disk_bytes [of ?di] len by simp_all
    obtain s2 s3 where s3: "block_write (fs_device s1) sector (disk_bytes ?di) s1 = Some s2"
      "foldM (\<lambda>i s. block_write (fs_device s) (y + word_of_nat i) (replicate 512 0) s) [0..<?m] s2 = Some s3"
      "io s1 s3" "core d off n R Q s3" "names d off s3 = names d off s1" "sect d off s3 ?x = disk_bytes ?di"
      "\<forall>k \<in> ?L. dino d off s3 k = dino d off s1 k \<and> file_bytes d off s3 k = file_bytes d off s1 k"
      "\<forall>j. ?a \<le> j \<and> j < ?a + ?m \<longrightarrow> sect d off s3 j = replicate 512 0"
    proof -
      have o1: "\<forall>k \<in> live (names d off s1) (inodes s1). ?x \<notin> own (dino d off s1) k" unfolding ls using own ow by simp
      have f1: "\<forall>k \<in> live (names d off s1) (inodes s1). \<forall>j \<in> own (dino d off s1) k. j < ?a \<or> ?a + ?m \<le> j"
        unfolding ls using fr ow by simp
      show thesis
        using write_header [OF s1(2) x o1 an f1 xa pd(2)] unfolding w1 ls
        by (elim exE conjE, intro that) assumption+
    qed
    note f3 = io_frame [OF s3(3)]
    have d3: "dino d off s3 ?x = ?di" using s3(6) pd(1) by (simp add: dino_def)
    have run: "inode_create sector l s = Some (True, s3)" using run0 s1(1) Some s3(1,2) by simp
    have ow3: "own (dino d off s3) k = own (dino d off s) k" if "k \<in> ?L" for k
      using s1(8) s3(7) that by (simp add: own_def)
    have x3: "bm_abs (free_map s3) ! ?x" using bit B1 f3(5) x C(4) by (simp add: nth_replace_range)
    have "layout n ?L (dino d off s3) (bm_abs (free_map s3))" using coreD(5) [OF s3(4)] s3(5) s1(3,4) f3(1) by simp
    then have lay: "layout n (insert ?x ?L) (dino d off s3) (bm_abs (free_map s3))"
    proof (rule layout_insert)
      show "?x \<notin> extent (dino d off s3 ?x)" using xa d3 di(2) by auto
      fix j assume "j \<in> own (dino d off s3) ?x"
      then show "bm_abs (free_map s3) ! j" using x3 d3 di(2) B1 f3(5) an C(4) by (auto simp: own_def nth_replace_range)
    next
      fix k assume k: "k \<in> ?L"
      show "own (dino d off s3) k \<inter> own (dino d off s3) ?x = {}"
        unfolding ow3 [OF k] using fr [OF k] own k d3 di(2) by (force simp: own_def)
    qed (use x d3 di in simp_all)
    have "file_bytes d off s3 ?x = replicate (nat l) 0"
      unfolding file_bytes_def d3 using file_zero [OF di(1), of d off s3] s3(8) di(2) by simp
    then show ?thesis
      using run s3(4,5,7) s1(3-8,10,12) f3 x3 lay Some by (intro exI [of _ True] exI [of _ s3]) auto
  qed
qed

section \<open>The root directory\<close>

text \<open>The files of \<open>K\<close> keep their place and, the free map apart, their contents.\<close>

definition keeps :: "nat \<Rightarrow> nat \<Rightarrow> nat set \<Rightarrow> 'a fsys_scheme \<Rightarrow> 'a fsys_scheme \<Rightarrow> bool" where
  "keeps d off K s s' \<longleftrightarrow> (\<forall>k \<in> K. dino d off s' k = dino d off s k \<and> (k \<noteq> 0 \<longrightarrow> file_bytes d off s' k = file_bytes d off s k))"

lemma keeps_trans: "keeps d off K s s' \<Longrightarrow> keeps d off K s' s'' \<Longrightarrow> keeps d off K s s''"
  by (simp add: keeps_def)

lemma keeps_mono: "keeps d off K s s' \<Longrightarrow> K' \<subseteq> K \<Longrightarrow> keeps d off K' s s'"
  by (auto simp: keeps_def)

lemma keeps_eq: "dino d off s' = dino d off s \<Longrightarrow> file_bytes d off s' = file_bytes d off s \<Longrightarrow> keeps d off K s s'"
  by (simp add: keeps_def)

lemma core_dirs: "core d off n R Q s \<Longrightarrow> core d off n R Q (s\<lparr>dirs := E\<rparr>)"
  using files_cong [of d off "s\<lparr>dirs := E\<rparr>" s] by (simp add: core_def)

lemma core_files: "core d off n R Q s \<Longrightarrow> F (free_map_file s) = files s (free_map_file s) \<Longrightarrow> core d off n R Q (s\<lparr>files := F\<rparr>)"
  using files_cong [of d off "s\<lparr>files := F\<rparr>" s] by (simp add: core_def)

text \<open>\<open>p\<close> is an open root directory on the inode \<open>i\<close>.\<close>

definition root_at :: "'a fsys_scheme \<Rightarrow> ptr \<Rightarrow> ptr \<Rightarrow> inode \<Rightarrow> bool" where
  "root_at s p i ino \<longleftrightarrow> p \<noteq> 0 \<and> (\<exists>dr. dirs s p = Some dr \<and> dir_inode dr = i) \<and> inodes s i = Some ino \<and> i_sector ino = 1"

lemma dir_open_root_ok:
  assumes c: "core d off n R Q s"
  shows "\<exists>p s' i ino. dir_open_root s = Some (p, s') \<and> core d off n (R(i := Suc (R i))) Q s' \<and> allocs s < p \<and> p \<le> allocs s' \<and>
    dirs s' = (dirs s)(p \<mapsto> \<lparr>dir_inode = i, dir_pos = 0\<rparr>) \<and> root_at s' p i ino \<and> names d off s' = names d off s \<and>
    dino d off s' = dino d off s \<and> file_bytes d off s' = file_bytes d off s \<and> files s' = files s \<and>
    free_map_file s' = free_map_file s \<and> free_map s' = free_map s \<and> (\<forall>j. j \<noteq> i \<longrightarrow> inodes s' j = inodes s j) \<and>
    (\<forall>z. inodes s i = Some z \<longrightarrow> i_sector z = 1)"
proof -
  have "unat ROOT_DIR_SECTOR \<in> named (names d off s)" by (simp add: ROOT_DIR_SECTOR_def)
  from inode_open_ok [OF c this] obtain i s1 ino where s1: "inode_open ROOT_DIR_SECTOR s = Some (i, s1)"
    "core d off n (R(i := Suc (R i))) Q s1" "i \<noteq> 0" "inodes s1 i = Some ino" "i_sector ino = ROOT_DIR_SECTOR"
    "names d off s1 = names d off s" "file_bytes d off s1 = file_bytes d off s" "dino d off s1 = dino d off s"
    "files s1 = files s" "dirs s1 = dirs s" "free_map_file s1 = free_map_file s" "allocs s \<le> allocs s1"
    "\<forall>j. j \<noteq> i \<longrightarrow> inodes s1 j = inodes s j" "free_map s1 = free_map s"
    "\<forall>z. inodes s i = Some z \<longrightarrow> i_sector z = ROOT_DIR_SECTOR" by (elim exE conjE) (rule that)
  let ?p = "Suc (allocs s1)"
  let ?s = "s1\<lparr>allocs := ?p, dirs := (dirs s1)(?p \<mapsto> \<lparr>dir_inode = i, dir_pos = 0\<rparr>)\<rparr>"
  have "dir_open_root s = Some (?p, ?s)"
    using s1(1,3) coreD(2) [OF s1(2)] by (simp add: dir_open_root_def dir_open_def malloc_def mem_total_def Let_def)
  moreover have "core d off n (R(i := Suc (R i))) Q ?s"
    using core_dirs [OF core_allocs [OF s1(2), of ?p]] by simp
  moreover have "root_at ?s ?p i ino" using s1(4,5) by (simp add: root_at_def ROOT_DIR_SECTOR_def)
  ultimately show ?thesis
    using s1 files_cong [of d off ?s s1]
    by (intro exI [of _ ?p] exI [of _ ?s] exI [of _ i] exI [of _ ino]) (simp add: ROOT_DIR_SECTOR_def)
qed

lemma dir_close_root_ok:
  assumes c: "core d off n R Q s" and r: "root_at s p i ino"
  shows "\<exists>s'. dir_close p s = Some s' \<and> core d off n (R(i := R i - 1)) Q s' \<and> dirs s' = (dirs s)(p := None) \<and>
    names d off s' = names d off s \<and> keeps d off (live (names d off s) (inodes s)) s s' \<and> files s' = files s \<and>
    free_map_file s' = free_map_file s \<and> allocs s \<le> allocs s' \<and> bm_abs (free_map s') = bm_abs (free_map s) \<and>
    inodes s' = (inodes s)(i := if R i = 1 then None else Some (ino\<lparr>open_cnt := open_cnt ino - 1\<rparr>))"
proof -
  obtain dr where p: "p \<noteq> 0" "dirs s p = Some dr" "dir_inode dr = i" and i: "inodes s i = Some ino" "i_sector ino = 1"
    using r by (auto simp: root_at_def)
  note o = core_open [OF c i(1)]
  have Q0: "Q i = 0" using o(7) i(2) by simp
  then have q: "Suc (Q i) \<le> R i" using o(3) by simp
  have nr: "\<not> removed ino" using o(6) i(2) by simp
  have nz: "i_sector ino \<noteq> 0" using i(2) by simp
  from inode_close_ok [OF c i(1) q nz] obtain s1 where s1: "inode_close i s = Some s1" "core d off n (R(i := R i - 1)) Q s1"
    "names d off s1 = names d off s"
    "\<forall>k \<in> live (names d off s) (if R i = 1 then (inodes s)(i := None) else inodes s). dino d off s1 k = dino d off s k \<and>
       (k \<noteq> 0 \<longrightarrow> file_bytes d off s1 k = file_bytes d off s k)"
    "files s1 = files s" "dirs s1 = dirs s" "free_map_file s1 = free_map_file s" "allocs s \<le> allocs s1"
    "inodes s1 = (inodes s)(i := if R i = 1 then None else Some (ino\<lparr>open_cnt := open_cnt ino - 1\<rparr>))"
    "bm_abs (free_map s1) = bm_abs (free_map s)" using nr by auto
  let ?s = "s1\<lparr>dirs := (dirs s1)(p := None)\<rparr>"
  have "live (names d off s) (inodes s) \<subseteq> live (names d off s) ((inodes s)(i := None))"
  proof
    fix k assume "k \<in> live (names d off s) (inodes s)"
    then consider "k \<in> named (names d off s)" | j x where "inodes s j = Some x" "k = unat (i_sector x)" by (auto simp: live_def ran_def)
    then show "k \<in> live (names d off s) ((inodes s)(i := None))"
    proof cases
      case (2 j x)
      then show ?thesis using i named_live [of 1] open_live [of "(inodes s)(i := None)" j x] by (cases "j = i") auto
    qed (rule named_live)
  qed
  then have "keeps d off (live (names d off s) (inodes s)) s s1" using s1(4) unfolding keeps_def by (auto split: if_splits)
  then show ?thesis
    using p s1 core_dirs [OF s1(2)] files_cong [of d off ?s s1]
    by (intro exI [of _ ?s]) (simp add: dir_close_def keeps_def)
qed

lemma root_dir_at:
  assumes c: "core d off n R Q s" and r: "root_at s p i ino"
  shows "\<exists>dr. dir_at d off n s p dr ino \<and> dir_inode dr = i" and "content d off s ino = file_bytes d off s 1"
proof -
  obtain dr where p: "p \<noteq> 0" "dirs s p = Some dr" "dir_inode dr = i" and i: "inodes s i = Some ino" "i_sector ino = 1"
    using r by (auto simp: root_at_def)
  show e: "content d off s ino = file_bytes d off s 1" using core_open_file(3) [OF c i(1)] i(2) by simp
  have "len ino < 2 ^ 31" using core_open_file(1) [OF c i(1)] by (auto simp: dok_def len_def)
  then have "dir_at d off n s p dr ino"
    using p i core_open_file(2) [OF c i(1)] coreD(1,2,8) [OF c] e core_open(4,7) [OF c i(1)] by (simp add: dir_at_def)
  then show "\<exists>dr. dir_at d off n s p dr ino \<and> dir_inode dr = i" using p(3) by blast
qed

lemma dir_lookup_core:
  assumes c: "core d off n R Q s" and r: "root_at s p i ino" and name: "0 \<notin> set name"
  shows "case names d off s name of
      None \<Rightarrow> \<exists>s'. dir_lookup p name s = Some (0, s') \<and> io s s' \<and> media s' = media s
    | Some x \<Rightarrow> \<exists>j s1 s'. io s s1 \<and> media s1 = media s \<and> inode_open x s1 = Some (j, s') \<and> dir_lookup p name s = Some (j, s')"
proof -
  obtain dr where at: "dir_at d off n s p dr ino" using root_dir_at(1) [OF c r] by blast
  let ?cs = "file_bytes d off s 1"
  note e = root_dir_at(2) [OF c r]
  obtain s1 where s1: "lookup p name s =
      Some (map_option (\<lambda>j. (slot ?cs j, word_of_nat (20 * j))) (find (hit ?cs name) [0..<slots ?cs]), s1)" "io s s1"
    "media s1 = media s" using lookup_ok [OF at name e [symmetric]] by blast
  have p: "p \<noteq> 0" using r by (simp add: root_at_def)
  show ?thesis
  proof (cases "find (hit ?cs name) [0..<slots ?cs]")
    case None
    then have "names d off s name = None" by (simp add: names_def dir_map_def)
    then show ?thesis using s1 p None by (simp add: dir_lookup_def)
  next
    case (Some k)
    let ?x = "inode_sector (slot ?cs k)"
    have nm: "names d off s name = Some ?x" using Some by (simp add: names_def dir_map_def)
    have cs: "core d off n R Q s1" "names d off s1 = names d off s" using core_read [OF c s1(2,3)] by simp_all
    have "?x \<in> ran (names d off s)" using nm by (rule ranI)
    then have "unat ?x \<in> named (names d off s1)" unfolding cs(2) named_def by blast
    from inode_open_ok [OF cs(1) this] obtain j s' where "inode_open ?x s1 = Some (j, s')" by blast
    then show ?thesis using nm s1 p Some by (auto simp: dir_lookup_def)
  qed
qed

section \<open>Adding and removing names\<close>

lemma named_add_new: "N name = None \<Longrightarrow> named (N(name \<mapsto> x)) = insert (unat x) (named N)"
  by (simp add: named_def ran_map_upd)

lemma dir_add_core:
  assumes c: "core d off n R Q s" and r: "root_at s p i ino" and name: "0 \<notin> set name" and e: "length (ename e) = 15"
    and new: "unat x \<notin> live (names d off s) (inodes s)"
    and lay: "layout n (insert (unat x) (live (names d off s) (inodes s))) (dino d off s) (bm_abs (free_map s))"
  shows "\<exists>s'. dir_add p name x e s = Some (addable (file_bytes d off s 1) name, s') \<and> io s s' \<and> core d off n R Q s' \<and>
    names d off s' = (if addable (file_bytes d off s 1) name then (names d off s)(name \<mapsto> x) else names d off s) \<and>
    keeps d off (insert (unat x) (live (names d off s) (inodes s)) - {1}) s s' \<and> dino d off s' 1 = dino d off s 1"
proof -
  let ?L = "live (names d off s) (inodes s)" and ?cs = "file_bytes d off s 1" and ?N = "names d off s" and ?x = "unat x"
  let ?ok = "addable ?cs name"
  note C = coreD [OF c]
  obtain dr where at: "dir_at d off n s p dr ino" using root_dir_at(1) [OF c r] by blast
  note ecs = root_dir_at(2) [OF c r]
  have i: "inodes s i = Some ino" "i_sector ino = 1" using r by (auto simp: root_at_def)
  have u1: "unat (i_sector ino) = 1" using i(2) by simp
  obtain s' P xs where s': "dir_add p name x e s = Some (?ok, s')" "io s s'" "fsdev d off n s'"
      "written_bytes d off n s s' (base ino + P) xs" "xs = [] \<or> P + length xs \<le> len ino"
      "dir_ok (content d off s' ino)" "dir_map (content d off s' ino) = (if ?ok then (dir_map ?cs)(name \<mapsto> x) else dir_map ?cs)"
    using dir_add_ok [OF at name e ecs [symmetric]] by blast
  note W = core_written [OF c i(1) s'(2-5), unfolded u1] and fr = io_frame [OF s'(2)]
  have l1: "1 \<in> ?L" by (simp add: named_live)
  have d1: "idata ino = dino d off s 1" using core_open(1) [OF c i(1)] u1 by simp
  have fb1: "file_bytes d off s' 1 = content d off s' ino"
    unfolding file_bytes_def W(1) [OF l1] d1 [symmetric] by (rule content_dnode [symmetric])
  then have nm: "names d off s' = (if ?ok then ?N(name \<mapsto> x) else ?N)" using s'(7) by (simp add: names_def)
  have x1: "?x \<noteq> 1" using new l1 by auto
  \<comment> \<open>the new file is not touched\<close>
  have same: "sect d off s' j = sect d off s j" if "j \<in> own (dino d off s) ?x" for j
  proof -
    have "j \<notin> extent (idata ino)"
      using layout_disjoint [OF lay, of ?x 1] that l1 x1 unfolding d1 by (auto simp: own_def)
    moreover have "j < n" using layout_own [OF lay, of ?x] that by auto
    ultimately show ?thesis using written_frame [OF s'(4,5) C(1) s'(3) core_open_file(1) [OF c i(1)]] by blast
  qed
  have fx: "dino d off s' ?x = dino d off s ?x" "file_bytes d off s' ?x = file_bytes d off s ?x"
    using file_frame [OF layoutD(2) [OF lay] same] by simp_all
  have di: "dino d off s' k = dino d off s k" if "k \<in> insert ?x ?L" for k using W(1) fx(1) that by blast
  have kp: "keeps d off (insert ?x ?L - {1}) s s'" unfolding keeps_def using di W(2) fx(2) by auto
  have f0: "file_bytes d off s' 0 = file_bytes d off s 0" using W(2) [OF named_live [of 0]] by simp
  have lay': "layout n (insert ?x ?L) (dino d off s') (bm_abs (free_map s))"
    using layout_cong [of "insert ?x ?L" "dino d off s'" "dino d off s"] di lay by blast
  have "core d off n R Q s'"
  proof (cases ?ok)
    case False
    have "itab_ok (dino d off s') ?N R Q (inodes s) (open_inodes s) (allocs s')"
      by (rule itab_cong [OF _ fr(10) C(7)]) (use di in blast)
    then show ?thesis
      using C(2,3,4,6,9,10) s'(3,6) io_mem_total [OF s'(2)] nm False f0 fb1 layout_mono [OF lay' subset_insertI]
      by (intro coreI) (simp_all only: fr if_False)
  next
    case True
    then have nn: "?N name = None" by (simp add: addable_def names_def)
    have N': "names d off s' = ?N(name \<mapsto> x)" using nm True by simp
    have nd: "named (?N(name \<mapsto> x)) = insert ?x (named ?N)" using nn by (rule named_add_new)
    have lv: "live (?N(name \<mapsto> x)) (inodes s) = insert ?x ?L" unfolding live_def nd by blast
    have nx: "x \<notin> ran ?N" using new by (auto simp: live_def named_def)
    have "names_ok (?N(name \<mapsto> x))"
      unfolding names_ok_def
    proof
      show "inj_on (?N(name \<mapsto> x)) (dom (?N(name \<mapsto> x)))"
        using C(6) nx nn unfolding names_ok_def inj_on_def by (auto simp: ran_def split: if_splits)
      have "0 \<in> ?L" by (simp add: named_live)
      then have "x \<noteq> 0" "x \<noteq> 1" using new x1 by auto
      then show "\<forall>y \<in> ran (?N(name \<mapsto> x)). y \<noteq> 0 \<and> y \<noteq> 1" using C(6) nn by (auto simp: names_ok_def ran_map_upd)
    qed
    moreover have "itab_ok (dino d off s') (?N(name \<mapsto> x)) R Q (inodes s) (open_inodes s) (allocs s')"
    proof (rule itabI)
      fix j y assume j: "inodes s j = Some y"
      then have yl: "unat (i_sector y) \<in> ?L" by (rule open_live)
      then have "unat (i_sector y) \<noteq> ?x" using new by auto
      then show "0 < j \<and> j \<le> allocs s' \<and> node_ok (dino d off s') (?N(name \<mapsto> x)) (R j) (Q j) y"
        using itabD [OF C(7) j] fr(10) di yl unfolding node_ok_def nd by auto
    qed (use itab_parts [OF C(7)] in \<open>auto\<close>)
    ultimately show ?thesis
      using C(2,3,4,9,10) s'(3,6) io_mem_total [OF s'(2)] lay' f0 fb1
      by (intro coreI) (simp_all only: fr N' lv)
  qed
  then show ?thesis using s'(1,2) nm kp di [of 1] l1 by (intro exI [of _ s']) blast
qed

lemma unat_eq_iff32: "unat a = unat b \<longleftrightarrow> a = b" for a b :: u32
  by (simp only: word_unat_eq_iff)

lemma named_del:
  assumes "names_ok N" and "N name = Some x"
  shows "named (N(name := None)) = named N - {unat x}"
proof -
  have "ran (N(name := None)) = ran N - {x}"
  proof
    show "ran (N(name := None)) \<subseteq> ran N - {x}"
      using assms by (auto simp: names_ok_def inj_on_def ran_def split: if_splits) (metis domI)
    show "ran N - {x} \<subseteq> ran (N(name := None))"
    proof
      fix y assume "y \<in> ran N - {x}"
      then obtain a where "N a = Some y" "y \<noteq> x" by (auto simp: ran_def)
      then have "(N(name := None)) a = Some y" using assms(2) by auto
      then show "y \<in> ran (N(name := None))" by (rule ranI)
    qed
  qed
  moreover have "unat x \<noteq> 0" "unat x \<noteq> 1"
  proof -
    have "x \<noteq> 0" "x \<noteq> 1" using assms(1) ranI [of N name x, OF assms(2)] by (auto simp: names_ok_def)
    then show "unat x \<noteq> 0" "unat x \<noteq> 1" using unat_eq_iff32 [of x 0] unat_eq_iff32 [of x 1] by simp_all
  qed
  moreover have "unat ` (ran N - {x}) = unat ` ran N - {unat x}"
  proof -
    have "inj_on unat (UNIV :: u32 set)" by (simp only: inj_on_def unat_eq_iff32) simp
    from inj_on_image_set_diff [OF this, of "ran N" "{x}"] show ?thesis by simp
  qed
  ultimately show ?thesis by (auto simp: named_def)
qed

text \<open>The entry has been erased and the inode marked: the file has lost its name and lives on until it is closed.\<close>

lemma core_unname:
  assumes c: "core d off n R Q s" and i: "inodes s i = Some ino" "i_sector ino = 1" and j: "inodes s j = Some y" "i_sector y = x"
    and nx: "names d off s name = Some x"
    and w: "io s s'" "fsdev d off n s'" "written_bytes d off n s s' (base ino + P) xs" "P + length xs \<le> len ino"
    and dir: "dir_ok (content d off s' ino)" "dir_map (content d off s' ino) = (dir_map (file_bytes d off s 1))(name := None)"
    and s'': "s'' = s'\<lparr>inodes := (inodes s')(j \<mapsto> y\<lparr>removed := True\<rparr>)\<rparr>"
  shows "core d off n R Q s''" and "names d off s'' = (names d off s)(name := None)"
    and "keeps d off (live (names d off s) (inodes s) - {1}) s s''"
proof -
  let ?N = "names d off s" and ?N' = "(names d off s)(name := None)" and ?I = "(inodes s)(j \<mapsto> y\<lparr>removed := True\<rparr>)"
  let ?L = "live (names d off s) (inodes s)"
  note C = coreD [OF c] and fr = io_frame [OF w(1)]
  have u1: "unat (i_sector ino) = 1" using i(2) by simp
  note W = core_written [OF c i(1) w(1-3) disjI2 [OF w(4)], unfolded u1]
  have l1: "1 \<in> ?L" by (simp add: named_live)
  have d1: "idata ino = dino d off s 1" using core_open(1) [OF c i(1)] u1 by simp
  have fb1: "file_bytes d off s' 1 = content d off s' ino"
    unfolding file_bytes_def W(1) [OF l1] d1 [symmetric] by (rule content_dnode [symmetric])
  note e = files_cong [of d off s'' s', unfolded s'', OF view_tables(1), folded s'']
  show nm: "names d off s'' = ?N'" using e(3) fb1 dir(2) by (simp add: names_def)
  have f0: "file_bytes d off s'' 0 = file_bytes d off s 0" using W(2) [OF named_live [of 0]] e(2) by simp
  show "keeps d off (?L - {1}) s s''" unfolding keeps_def using W(1,2) e by auto
  have I'': "inodes s'' = ?I" using fr(1) by (simp add: s'')
  note nd = named_del [OF C(6) nx]
  have xn: "unat x \<in> ?L" using open_live [of "inodes s" j y ?N] j by simp
  have lv: "live ?N' ?I = ?L"
  proof -
    have "live ?N' ?I = live ?N' (inodes s)" using j(1) by (rule live_update) simp
    also have "\<dots> = ?L"
      unfolding live_def nd using image_eqI [of "unat x" "\<lambda>ino. unat (i_sector ino)" y "ran (inodes s)"] j ranI [of "inodes s" j y] by auto
    finally show ?thesis .
  qed
  have no: "names_ok ?N'" using C(6) by (auto simp: names_ok_def inj_on_def ran_def)
  have it: "itab_ok (dino d off s'') ?N' R Q ?I (open_inodes s) (allocs s')"
  proof (rule itabI, goal_cases)
    case (3 k z)
    show ?case
    proof (cases "k = j")
      case True
      then have "z = y\<lparr>removed := True\<rparr>" using 3 by simp
      then show ?thesis
        using itabD [OF C(7) j(1)] True fr(10) W(1) [OF xn] e(1) j(2) unfolding node_ok_def nd by auto
    next
      case False
      then have k: "inodes s k = Some z" using 3 by simp
      then have "i_sector z \<noteq> x" using itab_parts(3) [OF C(7) k j(1)] j(2) False by auto
      then have "unat (i_sector z) \<noteq> unat x" by (simp only: unat_eq_iff32 simp_thms)
      then show ?thesis
        using itabD [OF C(7) k] fr(10) W(1) [OF open_live [of "inodes s" k z, OF k]] e(1) unfolding node_ok_def nd by auto
    qed
  next
    case (4 k l z v)
    then have "\<exists>z'. inodes s k = Some z' \<and> i_sector z' = i_sector z" "\<exists>v'. inodes s l = Some v' \<and> i_sector v' = i_sector v"
      using j by (auto split: if_splits)
    then show ?case using itab_parts(3) [OF C(7)] 4(3) by metis
  qed (use itab_parts [OF C(7)] j in \<open>auto split: if_splits\<close>)
  have lay: "layout n ?L (dino d off s'') (bm_abs (free_map s))"
    using layout_cong [of ?L "dino d off s''" "dino d off s"] W(1) e(1) C(5) by metis
  obtain fl i0 where F: "free_map_file s \<noteq> 0" "files s (free_map_file s) = Some fl" "inodes s (f_inode fl) = Some i0"
    "i_sector i0 = 0" using C(10) by blast
  have "\<exists>i0. ?I (f_inode fl) = Some i0 \<and> i_sector i0 = 0" using F(3,4) j by (cases "f_inode fl = j") auto
  then have fm: "\<exists>fl i0. free_map_file s'' \<noteq> 0 \<and> files s'' (free_map_file s'') = Some fl \<and> inodes s'' (f_inode fl) = Some i0 \<and> i_sector i0 = 0"
    using F(1,2) I'' fr by (simp add: s'')
  show "core d off n R Q s''"
  proof (rule coreI)
    show "fsdev d off n s''" "mem_total s''" using w(2) C(2) io_mem_total [OF w(1)] by (simp_all add: s'')
    show "bm_inv (free_map s'')" "unat (bit_cnt (free_map s'')) = n" using C(3,4) fr by (simp_all add: s'')
    show "layout n (live (names d off s'') (inodes s'')) (dino d off s'') (bm_abs (free_map s''))"
      using lay fr(5) unfolding nm I'' lv by (simp add: s'')
    show "names_ok (names d off s'')" using no nm by simp
    show "itab_ok (dino d off s'') (names d off s'') R Q (inodes s'') (open_inodes s'') (allocs s'')"
      using it fr(4) unfolding nm I'' by (simp add: s'')
    show "dir_ok (file_bytes d off s'' 1)" using dir(1) fb1 e(2) by simp
    show "map_sync (file_bytes d off s'' 0) (free_map s'')" using f0 C(9) fr(5) by (simp add: s'')
  qed (rule fm)
qed

end
