(* ===== verification/Fs_Api.thy ===== *)
theory Fs_Api
  imports Fs_Ops
begin

text \<open>
  The interface of the file system: \<open>filesys_create\<close>, \<open>filesys_open\<close>, \<open>filesys_remove\<close> and
  the operations on open files. The invariant \<open>fs_inv\<close> counts the references to each
  inode from the open files and directories; every operation returns and keeps it.
\<close>

section \<open>Removing a name\<close>

lemma dir_remove_core:
  assumes c: "core d off n R Q s" and r: "root_at s p i ino" and name: "0 \<notin> set name" and nx: "names d off s name = Some x"
  shows "\<exists>s'. dir_remove p name s = Some (True, s') \<and> core d off n R Q s' \<and> names d off s' = (names d off s)(name := None) \<and>
    keeps d off (live (names d off s') (inodes s') - {1}) s s' \<and> files s' = files s \<and> dirs s' = dirs s \<and>
    free_map_file s' = free_map_file s \<and> allocs s \<le> allocs s' \<and> inodes s' i = inodes s i \<and> dom (inodes s') = dom (inodes s) \<and>
    (\<forall>j y. inodes s j = Some y \<longrightarrow> (\<exists>y'. inodes s' j = Some y' \<and> i_sector y' = i_sector y)) \<and>
    ((\<forall>j y. inodes s j = Some y \<longrightarrow> i_sector y \<noteq> x) \<longrightarrow>
      (\<exists>y. i_sector y = x \<and> idata y = dino d off s (unat x) \<and> bm_abs (free_map s') = freed y (bm_abs (free_map s)))) \<and>
    ((\<exists>j y. inodes s j = Some y \<and> i_sector y = x) \<longrightarrow> bm_abs (free_map s') = bm_abs (free_map s))"
proof -
  let ?cs = "file_bytes d off s 1" and ?N = "names d off s"
  obtain dr where at: "dir_at d off n s p dr ino" "dir_inode dr = i" using root_dir_at(1) [OF c r] by blast
  note e0 = root_dir_at(2) [OF c r]
  have i: "inodes s i = Some ino" "i_sector ino = 1" "p \<noteq> 0" using r by (auto simp: root_at_def)
  obtain k where k: "find (hit ?cs name) [0..<slots ?cs] = Some k" "x = inode_sector (slot ?cs k)"
    using nx by (auto simp: names_def dir_map_def)
  then have kh: "k < slots ?cs" "hit ?cs name k" by (auto simp: find_upt_Some_iff)
  obtain s1 where s1: "lookup p name s = Some (Some (slot ?cs k, word_of_nat (20 * k)), s1)" "io s s1" "media s1 = media s"
    using lookup_ok [OF at(1) name e0 [symmetric]] k by auto
  note c1 = core_read [OF c s1(2,3)] and f1 = io_frame [OF s1(2)]
  have xr: "x \<in> ran ?N" using nx by (rule ranI)
  then have "unat x \<in> named (names d off s1)" unfolding c1(2) named_def by blast
  from inode_open_ok [OF c1(1) this] obtain j s2 y where s2: "inode_open x s1 = Some (j, s2)"
    "core d off n (R(j := Suc (R j))) Q s2" "j \<noteq> 0" "inodes s2 j = Some y" "i_sector y = x" "names d off s2 = names d off s1"
    "file_bytes d off s2 = file_bytes d off s1" "dino d off s2 = dino d off s1" "files s2 = files s1" "dirs s2 = dirs s1"
    "free_map_file s2 = free_map_file s1" "allocs s1 \<le> allocs s2" "\<forall>l. l \<noteq> j \<longrightarrow> inodes s2 l = inodes s1 l"
    "free_map s2 = free_map s1" "\<forall>z. inodes s1 j = Some z \<longrightarrow> i_sector z = x"
    "inodes s1 j = None \<longleftrightarrow> (\<forall>l z. inodes s1 l = Some z \<longrightarrow> i_sector z \<noteq> x)" by (elim exE conjE) (rule that)
  have xn: "x \<noteq> 0" "x \<noteq> 1" using coreD(6) [OF c] xr by (auto simp: names_ok_def)
  have ij: "i \<noteq> j" using s2(15) i f1(1) xn by auto
  have i2: "inodes s2 i = Some ino" using s2(13) ij i f1(1) by simp
  have r2: "root_at s2 p i ino" using r i2 s2(10) f1(3) by (simp add: root_at_def)
  \<comment> \<open>erasing the entry\<close>
  let ?e = "(slot ?cs k)\<lparr>in_use := False\<rparr>"
  have cs2: "content d off s2 ino = ?cs" using root_dir_at(2) [OF s2(2) r2] s2(7) c1(4) by simp
  have le: "length (entry_bytes ?e) = 20" using kh(1) by simp
  have fit: "20 * k + 20 \<le> len ino" using slot_fits [OF kh(1)] e0 [symmetric] by simp
  have ok2: "ino_ok n ino" "deny_write_cnt ino = 0" "len ino < 2 ^ 31"
    using dir_atD [OF at(1)] by simp_all
  have si: "sint (word_of_nat (20 * k) :: u32) = int (20 * k)" using fit ok2(3) by (intro sint_nat) simp
  have mt2: "mem_ok s2 (allocs s2)" using coreD(2) [OF s2(2)] by (simp add: mem_total_def)
  have o2: "(0 :: int) \<le> int (20 * k)" and l2: "nat 20 \<le> length (entry_bytes ?e)" using le by simp_all
  obtain s3 m where w: "inode_write_at i (entry_bytes ?e) 20 (int (20 * k)) s2 = Some (int m, s3)" "io s2 s3" "fsdev d off n s3"
    "written_bytes d off n s2 s3 (base ino + 20 * k) (take m (entry_bytes ?e))" "m = min (nat 20) (len ino - 20 * k)"
    using inode_write_at_ok [OF coreD(1) [OF s2(2)] i2 ok2(1) o2 l2 ok2(2)] mt2 unfolding nat_int by blast
  have m: "m = 20" using w(5) fit by simp
  have w4: "written_bytes d off n s2 s3 (base ino + 20 * k) (entry_bytes ?e)" using w(4) m le by simp
  have c3: "content d off s3 ino = overlay ?cs (20 * k) (entry_bytes ?e)"
    using content_overlay [OF w4 _ ok2(1)] fit le cs2 by simp
  have dm: "dir_ok (content d off s3 ino)" "dir_map (content d off s3 ino) = (dir_map ?cs)(name := None)"
    unfolding c3 using dir_map_clear [OF coreD(8) [OF c] kh refl] by simp_all
  let ?s4 = "s3\<lparr>inodes := (inodes s3)(j \<mapsto> y\<lparr>removed := True\<rparr>)\<rparr>"
  have nm2: "names d off s2 name = Some x" using nx s2(6) c1(2) by simp
  have fit': "20 * k + length (entry_bytes ?e) \<le> len ino" using fit le by simp
  have dm2: "dir_map (content d off s3 ino) = (dir_map (file_bytes d off s2 1))(name := None)" using dm(2) s2(7) c1(4) by simp
  note U = core_unname [OF s2(2) i2 i(2) s2(4,5) nm2 w(2,3) w4 fit' dm(1) dm2 refl]
  note f3 = io_frame [OF w(2)]
  have rm: "inode_remove j s3 = Some ?s4" using s2(3,4) f3(1) by (simp add: inode_remove_def upd_inode_def)
  \<comment> \<open>closing\<close>
  let ?y = "y\<lparr>removed := True\<rparr>" and ?R = "R(j := Suc (R j))"
  have j4: "inodes ?s4 j = Some ?y" by simp
  have "Q j \<le> R j" using itab_parts(4) [OF coreD(7) [OF c1(1)], of j] core_open(5) [OF c1(1), of j] by (cases "inodes s1 j") auto
  then have q4: "Suc (Q j) \<le> ?R j" by simp
  have nz: "i_sector ?y \<noteq> 0" using s2(5) xn by simp
  from inode_close_ok [OF U(1) j4 q4 nz] obtain s5 where s5: "inode_close j ?s4 = Some s5"
    "core d off n (?R(j := ?R j - 1)) Q s5" "names d off s5 = names d off ?s4"
    "\<forall>k \<in> live (names d off ?s4) (if ?R j = 1 then (inodes ?s4)(j := None) else inodes ?s4). dino d off s5 k = dino d off ?s4 k \<and>
       (k \<noteq> 0 \<longrightarrow> file_bytes d off s5 k = file_bytes d off ?s4 k)"
    "files s5 = files ?s4" "dirs s5 = dirs ?s4" "free_map_file s5 = free_map_file ?s4" "allocs ?s4 \<le> allocs s5"
    "inodes s5 = (inodes ?s4)(j := if ?R j = 1 then None else Some (?y\<lparr>open_cnt := open_cnt ?y - 1\<rparr>))"
    "bm_abs (free_map s5) = (if ?R j = 1 \<and> removed ?y then freed ?y (bm_abs (free_map ?s4)) else bm_abs (free_map ?s4))" by blast
  have run: "dir_remove p name s = Some (True, s5)"
    using i(3) dir_atD(3) [OF at(1)] at(2) s1(1) k(2) s2(1,3) w(1) m rm s5(1) unfolding si [symmetric]
    by (simp add: dir_remove_def Let_def)
  have R5: "?R(j := ?R j - 1) = R" by simp
  have nm5: "names d off s5 = ?N(name := None)" using s5(3) U(2) s2(6) c1(2) by simp
  have Rj: "?R j = 1 \<longleftrightarrow> inodes s1 j = None"
    using itab_parts(4) [OF coreD(7) [OF c1(1)], of j] core_open(3) [OF c1(1), of j] by (cases "inodes s1 j") auto
  have I5: "inodes s5 = (inodes s)(j := if inodes s j = None then None else Some (?y\<lparr>open_cnt := open_cnt ?y - 1\<rparr>))"
    using s5(9) Rj s2(13) f1(1) f3(1) by (auto simp: fun_eq_iff)
  have L5: "live (names d off s5) (inodes s5) \<subseteq> live (names d off s2) (inodes s2)"
  proof -
    have "named (names d off s5) \<subseteq> named (names d off s2)"
      unfolding nm5 s2(6) c1(2) named_del [OF coreD(6) [OF c] nx] by blast
    moreover have "(\<lambda>ino. unat (i_sector ino)) ` ran (inodes s5) \<subseteq> (\<lambda>ino. unat (i_sector ino)) ` ran (inodes s2)"
    proof
      fix v assume "v \<in> (\<lambda>ino. unat (i_sector ino)) ` ran (inodes s5)"
      then obtain l z where "inodes s5 l = Some z" "v = unat (i_sector z)" by (auto simp: ran_def)
      then have "\<exists>z'. inodes s2 l = Some z' \<and> v = unat (i_sector z')"
        using s2(4,13) I5 f1(1) by (cases "l = j") (auto split: if_splits)
      then show "v \<in> (\<lambda>ino. unat (i_sector ino)) ` ran (inodes s2)" by (auto simp: ran_def)
    qed
    ultimately show ?thesis unfolding live_def by blast
  qed
  have L5': "live (names d off s5) (inodes s5) \<subseteq> live (names d off ?s4) (if ?R j = 1 then (inodes ?s4)(j := None) else inodes ?s4)"
  proof (cases "?R j = 1")
    case True
    then show ?thesis using s5(3,9) by simp
  next
    case False
    have "inodes s5 = (inodes ?s4)(j \<mapsto> ?y\<lparr>open_cnt := open_cnt ?y - 1\<rparr>)" using s5(9) False by simp
    then have "live (names d off s5) (inodes s5) = live (names d off s5) (inodes ?s4)"
      using live_update [of "inodes ?s4" j ?y "?y\<lparr>open_cnt := open_cnt ?y - 1\<rparr>" "names d off s5"] j4 by simp
    then show ?thesis using False s5(3) by simp
  qed
  have k5: "keeps d off (live (names d off s5) (inodes s5) - {1}) s s5"
  proof (rule keeps_trans)
    show "keeps d off (live (names d off s5) (inodes s5) - {1}) ?s4 s5"
      by (rule keeps_mono [OF s5(4) [folded keeps_def] order_trans [OF Diff_subset L5']])
    have "keeps d off (live (names d off s5) (inodes s5) - {1}) s2 ?s4" 
      by (rule keeps_mono [OF U(3) Diff_mono [OF L5 subset_refl]])
    then show "keeps d off (live (names d off s5) (inodes s5) - {1}) s ?s4" using s2(7,8) c1(3,4) unfolding keeps_def by simp
  qed
  have b5: "bm_abs (free_map s5) = (if inodes s j = None then freed ?y (bm_abs (free_map s)) else bm_abs (free_map s))"
    using s5(10) Rj f1(1,5) s2(14) f3(5) by simp
  have yd: "i_sector ?y = x" "idata ?y = dino d off s (unat x)"
    using s2(5) core_open(1) [OF s2(2,4)] s2(8) c1(3) by simp_all
  have n5: "inodes s j = None \<longleftrightarrow> (\<forall>l z. inodes s l = Some z \<longrightarrow> i_sector z \<noteq> x)" using s2(16) f1(1) by simp
  have i5: "inodes s5 i = inodes s i" using I5 ij by simp
  have d5: "dom (inodes s5) = dom (inodes s)" using I5 by (auto split: if_splits)
  have sc: "\<exists>z'. inodes s5 l = Some z' \<and> i_sector z' = i_sector z" if "inodes s l = Some z" for l z
    using that I5 s2(15) f1(1) s2(5) by (cases "l = j") auto
  have fr5: "files s5 = files s" "dirs s5 = dirs s" "free_map_file s5 = free_map_file s" "allocs s \<le> allocs s5"
    using s5(5-8) f3 s2(9-12) f1 by simp_all
  show ?thesis
  proof (intro exI [of _ s5] conjI)
    show "core d off n R Q s5" using s5(2) unfolding R5 .
    show "(\<forall>j y. inodes s j = Some y \<longrightarrow> i_sector y \<noteq> x) \<longrightarrow>
      (\<exists>y. i_sector y = x \<and> idata y = dino d off s (unat x) \<and> bm_abs (free_map s5) = freed y (bm_abs (free_map s)))"
      using b5 n5 yd by (intro impI exI [of _ ?y]) simp
    show "(\<exists>j y. inodes s j = Some y \<and> i_sector y = x) \<longrightarrow> bm_abs (free_map s5) = bm_abs (free_map s)" using b5 n5 by auto
    show "\<forall>j y. inodes s j = Some y \<longrightarrow> (\<exists>y'. inodes s5 j = Some y' \<and> i_sector y' = i_sector y)" using sc by blast
  qed (rule run nm5 k5 fr5 i5 d5)+
qed

section \<open>The invariant with its references counted\<close>

definition file_refs :: "'a fsys_scheme \<Rightarrow> ptr \<Rightarrow> ptr set" where
  "file_refs s i = {f. \<exists>fl. files s f = Some fl \<and> f_inode fl = i}"

definition dir_refs :: "'a fsys_scheme \<Rightarrow> ptr \<Rightarrow> ptr set" where
  "dir_refs s i = {p. \<exists>dr. dirs s p = Some dr \<and> dir_inode dr = i}"

definition deny_refs :: "'a fsys_scheme \<Rightarrow> ptr \<Rightarrow> ptr set" where
  "deny_refs s i = {f. \<exists>fl. files s f = Some fl \<and> f_inode fl = i \<and> deny_write fl}"

definition refs :: "'a fsys_scheme \<Rightarrow> ptr \<Rightarrow> nat" where
  "refs s i = card (file_refs s i) + card (dir_refs s i)"

definition denies :: "'a fsys_scheme \<Rightarrow> ptr \<Rightarrow> nat" where
  "denies s i = card (deny_refs s i)"

text \<open>A user's file is not the free map's and not a directory; a directory is the root directory.\<close>

definition tables_ok :: "'a fsys_scheme \<Rightarrow> bool" where
  "tables_ok s \<longleftrightarrow> finite (dom (files s)) \<and> finite (dom (dirs s)) \<and>
     (\<forall>f \<in> dom (files s) \<union> dom (dirs s). 0 < f \<and> f \<le> allocs s) \<and>
     (\<forall>f fl. files s f = Some fl \<longrightarrow> 0 \<le> pos fl \<and>
        (\<exists>ino. inodes s (f_inode fl) = Some ino \<and> (f \<noteq> free_map_file s \<longrightarrow> i_sector ino \<noteq> 0 \<and> i_sector ino \<noteq> 1))) \<and>
     (\<forall>p dr. dirs s p = Some dr \<longrightarrow> 0 \<le> dir_pos dr \<and> (\<exists>ino. inodes s (dir_inode dr) = Some ino \<and> i_sector ino = 1))"

definition fs_inv :: "nat \<Rightarrow> nat \<Rightarrow> nat \<Rightarrow> 'a fsys_scheme \<Rightarrow> bool" where
  "fs_inv d off n s \<longleftrightarrow> core d off n (refs s) (denies s) s \<and> tables_ok s"

lemma refs_cong: "files s' = files s \<Longrightarrow> dirs s' = dirs s \<Longrightarrow> refs s' = refs s \<and> denies s' = denies s"
  by (simp add: refs_def denies_def file_refs_def dir_refs_def deny_refs_def fun_eq_iff)

lemma tablesD:
  assumes "tables_ok s"
  shows "finite (dom (files s))" and "finite (dom (dirs s))"
    and "files s f = Some fl \<Longrightarrow> 0 < f \<and> f \<le> allocs s \<and> 0 \<le> pos fl"
    and "files s f = Some fl \<Longrightarrow> \<exists>ino. inodes s (f_inode fl) = Some ino \<and> (f \<noteq> free_map_file s \<longrightarrow> i_sector ino \<noteq> 0 \<and> i_sector ino \<noteq> 1)"
    and "dirs s p = Some dr \<Longrightarrow> 0 < p \<and> p \<le> allocs s \<and> 0 \<le> dir_pos dr"
    and "dirs s p = Some dr \<Longrightarrow> \<exists>ino. inodes s (dir_inode dr) = Some ino \<and> i_sector ino = 1"
    and "allocs s < f \<Longrightarrow> files s f = None \<and> dirs s f = None"
proof -
  show "allocs s < f \<Longrightarrow> files s f = None \<and> dirs s f = None"
    using assms unfolding tables_ok_def by (metis Un_iff domIff not_less)
qed (use assms in \<open>simp_all add: tables_ok_def domI\<close>)

lemma finite_refs:
  assumes "tables_ok s"
  shows "finite (file_refs s i)" and "finite (dir_refs s i)" and "finite (deny_refs s i)"
proof -
  show "finite (file_refs s i)" by (rule finite_subset [OF _ tablesD(1) [OF assms]]) (auto simp: file_refs_def)
  show "finite (dir_refs s i)" by (rule finite_subset [OF _ tablesD(2) [OF assms]]) (auto simp: dir_refs_def)
  show "finite (deny_refs s i)" by (rule finite_subset [OF _ tablesD(1) [OF assms]]) (auto simp: deny_refs_def)
qed

lemma refs_pos:
  assumes "tables_ok s"
  shows "files s f = Some fl \<Longrightarrow> 0 < refs s (f_inode fl)" and "dirs s p = Some dr \<Longrightarrow> 0 < refs s (dir_inode dr)"
proof -
  show "0 < refs s (f_inode fl)" if "files s f = Some fl"
  proof -
    have "f \<in> file_refs s (f_inode fl)" using that by (simp add: file_refs_def)
    then show ?thesis using finite_refs(1) [OF assms] by (auto simp: refs_def card_gt_0_iff)
  qed
  show "0 < refs s (dir_inode dr)" if "dirs s p = Some dr"
  proof -
    have "p \<in> dir_refs s (dir_inode dr)" using that by (simp add: dir_refs_def)
    then show ?thesis using finite_refs(2) [OF assms] by (auto simp: refs_def card_gt_0_iff)
  qed
qed

text \<open>An inode that stays open stays on its sector.\<close>

definition nodes_keep :: "'a fsys_scheme \<Rightarrow> 'a fsys_scheme \<Rightarrow> bool" where
  "nodes_keep s s' \<longleftrightarrow> (\<forall>l z z'. inodes s l = Some z \<longrightarrow> inodes s' l = Some z' \<longrightarrow> i_sector z' = i_sector z)"

lemma core_node: "core d off n R Q s \<Longrightarrow> 0 < R i \<Longrightarrow> \<exists>ino. inodes s i = Some ino"
  using itab_parts(4) [OF coreD(7), of d off n R Q s i] by (cases "inodes s i") auto

text \<open>A step that opens and closes no file and no directory.\<close>

lemma fs_inv_same:
  assumes inv: "fs_inv d off n s" and c: "core d off n (refs s) (denies s) s'" and k: "nodes_keep s s'"
    and f: "files s' = files s" "dirs s' = dirs s" "free_map_file s' = free_map_file s" "allocs s \<le> allocs s'"
  shows "fs_inv d off n s'"
proof -
  have t: "tables_ok s" using inv by (simp add: fs_inv_def)
  note T = tablesD [OF t] and rc = refs_cong [OF f(1,2)]
  have "tables_ok s'"
    unfolding tables_ok_def
  proof (intro conjI allI impI ballI, goal_cases)
    case (4 g)
    then have "g \<le> allocs s" using T(3,5) f(1,2) by auto
    then show ?case using f(4) by simp
  next
    case (6 g fl)
    then have g: "files s g = Some fl" using f(1) by simp
    obtain z where z: "inodes s (f_inode fl) = Some z" "g \<noteq> free_map_file s \<longrightarrow> i_sector z \<noteq> 0 \<and> i_sector z \<noteq> 1" using T(4) [OF g] by blast
    obtain z' where z': "inodes s' (f_inode fl) = Some z'" using core_node [OF c refs_pos(1) [OF t g]] by blast
    have "i_sector z' = i_sector z" using k z(1) z' unfolding nodes_keep_def by blast
    then show ?case using z' z(2) f(3) by simp
  next
    case (8 q dr)
    then have g: "dirs s q = Some dr" using f(2) by simp
    obtain z where z: "inodes s (dir_inode dr) = Some z" "i_sector z = 1" using T(6) [OF g] by blast
    obtain z' where z': "inodes s' (dir_inode dr) = Some z'" using core_node [OF c refs_pos(2) [OF t g]] by blast
    have "i_sector z' = i_sector z" using k z(1) z' unfolding nodes_keep_def by blast
    then show ?case using z' z(2) by simp
  qed (use T f in auto)
  then show ?thesis using c rc by (simp add: fs_inv_def)
qed

lemma refs_add_file:
  assumes t: "tables_ok s" and f: "files s f = None" "files s' = (files s)(f \<mapsto> fl)" "dirs s' = dirs s" "\<not> deny_write fl"
  shows "refs s' = (refs s)(f_inode fl := Suc (refs s (f_inode fl)))" and "denies s' = denies s"
proof -
  have "file_refs s' i = (if i = f_inode fl then insert f (file_refs s i) else file_refs s i)" for i
    using f(1) unfolding file_refs_def f(2) by (auto split: if_splits)
  moreover have "f \<notin> file_refs s i" for i using f(1) by (simp add: file_refs_def)
  moreover have "dir_refs s' i = dir_refs s i" for i by (simp add: dir_refs_def f(3))
  ultimately show "refs s' = (refs s)(f_inode fl := Suc (refs s (f_inode fl)))"
    using finite_refs(1) [OF t] by (auto simp: refs_def fun_eq_iff)
  have "deny_refs s' i = deny_refs s i" for i
    using f(1,4) unfolding deny_refs_def f(2) by (auto split: if_splits)
  then show "denies s' = denies s" by (simp add: denies_def fun_eq_iff)
qed

lemma fs_inv_open_file:
  assumes inv: "fs_inv d off n s" and c: "core d off n ((refs s)(f_inode fl := Suc (refs s (f_inode fl)))) (denies s) s'"
    and k: "nodes_keep s s'" and f: "files s' = (files s)(f \<mapsto> fl)" "allocs s < f" "f \<le> allocs s'" "\<not> deny_write fl" "pos fl = 0"
    and ino: "inodes s' (f_inode fl) = Some ino" "i_sector ino \<noteq> 0" "i_sector ino \<noteq> 1"
    and same: "dirs s' = dirs s" "free_map_file s' = free_map_file s"
  shows "fs_inv d off n s'"
proof -
  have t: "tables_ok s" using inv by (simp add: fs_inv_def)
  note T = tablesD [OF t]
  have new: "files s f = None" using T(7) [OF f(2)] by simp
  note rf = refs_add_file [OF t new f(1) same(1) f(4)]
  have al: "allocs s \<le> allocs s'" using f(2,3) by simp
  have "tables_ok s'"
    unfolding tables_ok_def
  proof (intro conjI allI impI ballI, goal_cases)
    case (3 g)
    then show ?case using T(3,5) f(1,2) same(1) by (auto split: if_splits)
  next
    case (4 g)
    then have "g \<le> allocs s \<or> g = f" using T(3,5) f(1) same(1) by (auto split: if_splits)
    then show ?case using al f(3) by auto
  next
    case (5 g gl)
    then show ?case using T(3) f(1,5) by (auto split: if_splits)
  next
    case (6 g gl)
    show ?case
    proof (cases "g = f")
      case True
      then show ?thesis using 6 f(1) ino by auto
    next
      case False
      then have g: "files s g = Some gl" using 6 f(1) by simp
      obtain z where z: "inodes s (f_inode gl) = Some z" "g \<noteq> free_map_file s \<longrightarrow> i_sector z \<noteq> 0 \<and> i_sector z \<noteq> 1" using T(4) [OF g] by blast
      have "0 < ((refs s)(f_inode fl := Suc (refs s (f_inode fl)))) (f_inode gl)" using refs_pos(1) [OF t g] by simp
      then obtain z' where z': "inodes s' (f_inode gl) = Some z'" using core_node [OF c] by blast
      have "i_sector z' = i_sector z" using k z(1) z' unfolding nodes_keep_def by blast
      then show ?thesis using z' z(2) same(2) by simp
    qed
  next
    case (8 q dr)
    then have g: "dirs s q = Some dr" using same(1) by simp
    obtain z where z: "inodes s (dir_inode dr) = Some z" "i_sector z = 1" using T(6) [OF g] by blast
    have "0 < ((refs s)(f_inode fl := Suc (refs s (f_inode fl)))) (dir_inode dr)" using refs_pos(2) [OF t g] by simp
    then obtain z' where z': "inodes s' (dir_inode dr) = Some z'" using core_node [OF c] by blast
    have "i_sector z' = i_sector z" using k z(1) z' unfolding nodes_keep_def by blast
    then show ?case using z' z(2) by simp
  qed (use T f(1) same in auto)
  then show ?thesis using c rf by (simp add: fs_inv_def)
qed

section \<open>Opening a file\<close>

text \<open>The state between opening and closing the root directory around a call.\<close>

definition session :: "nat \<Rightarrow> nat \<Rightarrow> nat \<Rightarrow> 'a fsys_scheme \<Rightarrow> ptr \<Rightarrow> ptr \<Rightarrow> 'a fsys_scheme \<Rightarrow> bool" where
  "session d off n s p i s' \<longleftrightarrow> (\<exists>ino. root_at s' p i ino) \<and> dirs s p = None \<and> (dirs s')(p := None) = dirs s \<and>
     files s' = files s \<and> free_map_file s' = free_map_file s \<and> allocs s \<le> allocs s' \<and>
     (\<forall>z. inodes s i = Some z \<longrightarrow> i_sector z = 1) \<and> nodes_keep s s'"

lemma session_start:
  assumes inv: "fs_inv d off n s"
  shows "\<exists>p i s'. dir_open_root s = Some (p, s') \<and> core d off n ((refs s)(i := Suc (refs s i))) (denies s) s' \<and>
    session d off n s p i s' \<and> names d off s' = names d off s \<and> dino d off s' = dino d off s \<and>
    file_bytes d off s' = file_bytes d off s \<and> free_map s' = free_map s \<and> p \<noteq> 0 \<and> (\<forall>j. j \<noteq> i \<longrightarrow> inodes s' j = inodes s j)"
proof -
  have c: "core d off n (refs s) (denies s) s" and t: "tables_ok s" using inv by (simp_all add: fs_inv_def)
  from dir_open_root_ok [OF c] obtain p s' i ino where s': "dir_open_root s = Some (p, s')"
    "core d off n ((refs s)(i := Suc (refs s i))) (denies s) s'" "allocs s < p" "p \<le> allocs s'"
    "dirs s' = (dirs s)(p \<mapsto> \<lparr>dir_inode = i, dir_pos = 0\<rparr>)" "root_at s' p i ino" "names d off s' = names d off s"
    "dino d off s' = dino d off s" "file_bytes d off s' = file_bytes d off s" "files s' = files s"
    "free_map_file s' = free_map_file s" "free_map s' = free_map s" "\<forall>j. j \<noteq> i \<longrightarrow> inodes s' j = inodes s j"
    "\<forall>z. inodes s i = Some z \<longrightarrow> i_sector z = 1" by blast
  have "dirs s p = None" using tablesD(7) [OF t s'(3)] by simp
  moreover have "nodes_keep s s'"
    unfolding nodes_keep_def
  proof (intro allI impI)
    fix l z z' assume "inodes s l = Some z" "inodes s' l = Some z'"
    then show "i_sector z' = i_sector z" using s'(6,13,14) by (cases "l = i") (auto simp: root_at_def)
  qed
  ultimately have "session d off n s p i s'" using s' by (auto simp: session_def fun_upd_idem)
  then show ?thesis using s' by (auto simp: root_at_def)
qed

lemma session_end:
  assumes c: "core d off n R Q s1" and se: "session d off n s p i s1" and ri: "0 < R i"
  shows "\<exists>s'. dir_close p s1 = Some s' \<and> core d off n (R(i := R i - 1)) Q s' \<and> dirs s' = dirs s \<and> files s' = files s \<and>
    free_map_file s' = free_map_file s \<and> allocs s1 \<le> allocs s' \<and> nodes_keep s s' \<and> names d off s' = names d off s1 \<and>
    keeps d off (live (names d off s1) (inodes s1)) s1 s' \<and> bm_abs (free_map s') = bm_abs (free_map s1) \<and>
    (\<forall>j. j \<noteq> i \<longrightarrow> inodes s' j = inodes s1 j) \<and> live (names d off s1) (inodes s') \<subseteq> live (names d off s1) (inodes s1)"
proof -
  obtain ino where r: "root_at s1 p i ino" using se by (auto simp: session_def)
  obtain s' where s': "dir_close p s1 = Some s'" "core d off n (R(i := R i - 1)) Q s'" "dirs s' = (dirs s1)(p := None)"
    "names d off s' = names d off s1" "keeps d off (live (names d off s1) (inodes s1)) s1 s'" "files s' = files s1"
    "free_map_file s' = free_map_file s1" "allocs s1 \<le> allocs s'" "bm_abs (free_map s') = bm_abs (free_map s1)"
    "inodes s' = (inodes s1)(i := if R i = 1 then None else Some (ino\<lparr>open_cnt := open_cnt ino - 1\<rparr>))"
    using dir_close_root_ok [OF c r] by (elim exE conjE) (rule that)
  have S: "(dirs s1)(p := None) = dirs s" "files s1 = files s" "free_map_file s1 = free_map_file s"
    "\<forall>z. inodes s i = Some z \<longrightarrow> i_sector z = 1" "nodes_keep s s1"
    using se by (simp_all add: session_def)
  have "i_sector ino = 1" using r by (simp add: root_at_def)
  have "nodes_keep s s'"
    unfolding nodes_keep_def
  proof (intro allI impI)
    fix l z z' assume l: "inodes s l = Some z" "inodes s' l = Some z'"
    show "i_sector z' = i_sector z"
    proof (cases "l = i")
      case True
      then show ?thesis using l s'(10) S(4) \<open>i_sector ino = 1\<close> by (auto split: if_splits)
    next
      case False
      then have "inodes s1 l = Some z'" using l(2) s'(10) by simp
      then show ?thesis using S(5) l(1) unfolding nodes_keep_def by blast
    qed
  qed
  moreover have "live (names d off s1) (inodes s') \<subseteq> live (names d off s1) (inodes s1)"
  proof
    fix k assume "k \<in> live (names d off s1) (inodes s')"
    then consider "k \<in> named (names d off s1)" | l z where "inodes s' l = Some z" "k = unat (i_sector z)"
      by (auto simp: live_def ran_def)
    then show "k \<in> live (names d off s1) (inodes s1)"
    proof cases
      case (2 l z)
      then show ?thesis
        using s'(10) \<open>i_sector ino = 1\<close> named_live [of 1] open_live [of "inodes s1" l z] by (cases "l = i") (auto split: if_splits)
    qed (rule named_live)
  qed
  ultimately show ?thesis using s'(1-9) s'(10) S(1-3) by (intro exI [of _ s']) simp
qed

text \<open>Closing the directory brings the interface's invariant back.\<close>

lemma session_finish:
  assumes inv: "fs_inv d off n s" and c: "core d off n ((refs s)(i := Suc (refs s i))) (denies s) s1" and se: "session d off n s p i s1"
  shows "\<exists>s'. dir_close p s1 = Some s' \<and> fs_inv d off n s' \<and> files s' = files s \<and> free_map_file s' = free_map_file s \<and>
    names d off s' = names d off s1 \<and> keeps d off (live (names d off s1) (inodes s1)) s1 s' \<and>
    live (names d off s') (inodes s') \<subseteq> live (names d off s1) (inodes s1) \<and> bm_abs (free_map s') = bm_abs (free_map s1) \<and>
    nodes_keep s s'"
proof -
  let ?R = "refs s" and ?Q = "denies s"
  obtain s5 where s5: "dir_close p s1 = Some s5" "core d off n ((?R(i := Suc (?R i)))(i := (?R(i := Suc (?R i))) i - 1)) ?Q s5"
    "dirs s5 = dirs s" "files s5 = files s" "free_map_file s5 = free_map_file s" "allocs s1 \<le> allocs s5" "nodes_keep s s5"
    "names d off s5 = names d off s1" "keeps d off (live (names d off s1) (inodes s1)) s1 s5"
    "bm_abs (free_map s5) = bm_abs (free_map s1)" "live (names d off s1) (inodes s5) \<subseteq> live (names d off s1) (inodes s1)"
    using session_end [OF c se] by auto
  have c5: "core d off n ?R ?Q s5" using s5(2) by simp
  have "fs_inv d off n s5"
    by (rule fs_inv_same [OF inv c5 s5(7,4,3,5)]) (use se s5(6) in \<open>simp add: session_def\<close>)
  then show ?thesis using s5 by (intro exI [of _ s5]) simp
qed

lemma sessionD:
  assumes "session d off n s p i s1"
  shows "\<exists>ino. root_at s1 p i ino" and "allocs s \<le> allocs s1" and "nodes_keep s s1" and "\<forall>z. inodes s i = Some z \<longrightarrow> i_sector z = 1"
  using assms unfolding session_def by blast+

lemma nodes_keep_cong: "nodes_keep s s1 \<Longrightarrow> inodes s2 = inodes s1 \<Longrightarrow> nodes_keep s s2"
  by (simp only: nodes_keep_def)

lemma session_step:
  assumes "session d off n s p i s1" and "dirs s2 = dirs s1" and "files s2 = files s1" and "free_map_file s2 = free_map_file s1"
    and "allocs s1 \<le> allocs s2" and "inodes s2 i = Some ino" and "i_sector ino = 1" and "nodes_keep s s2"
  shows "session d off n s p i s2"
proof -
  have "\<exists>dr. dirs s1 p = Some dr \<and> dir_inode dr = i" and "p \<noteq> 0" using assms(1) by (auto simp: session_def root_at_def)
  then have "root_at s2 p i ino" using assms(2,6,7) by (simp add: root_at_def)
  then have "\<exists>ino. root_at s2 p i ino" by blast
  moreover have "allocs s \<le> allocs s2" using assms(1,5) by (simp add: session_def)
  ultimately show ?thesis using assms(1,8) unfolding session_def assms(2-4) by blast
qed

lemma session_io:
  assumes se: "session d off n s p i s1" and io: "io s1 s2"
  shows "session d off n s p i s2"
proof -
  note f = io_frame [OF io]
  obtain ino where "inodes s1 i = Some ino" "i_sector ino = 1" using sessionD(1) [OF se] by (auto simp: root_at_def)
  then show ?thesis using session_step [OF se f(3,2,6,10) _ _ nodes_keep_cong [OF sessionD(3) [OF se] f(1)]] f(1) by metis
qed

lemma file_open_ok:
  assumes c: "core d off n R Q s" and i: "i \<noteq> 0" and fm: "free_map_file s \<le> allocs s"
  shows "\<exists>f s'. file_open i s = Some (f, s') \<and> core d off n R Q s' \<and> f = Suc (allocs s) \<and> allocs s' = f \<and>
    files s' = (files s)(f \<mapsto> \<lparr>f_inode = i, pos = 0, deny_write = False\<rparr>) \<and> inodes s' = inodes s \<and> dirs s' = dirs s \<and>
    free_map_file s' = free_map_file s \<and> free_map s' = free_map s \<and> names d off s' = names d off s \<and>
    dino d off s' = dino d off s \<and> file_bytes d off s' = file_bytes d off s"
proof -
  let ?f = "Suc (allocs s)"
  let ?s = "s\<lparr>allocs := ?f, files := (files s)(?f \<mapsto> \<lparr>f_inode = i, pos = 0, deny_write = False\<rparr>)\<rparr>"
  have "file_open i s = Some (?f, ?s)"
    using i coreD(2) [OF c] by (simp add: file_open_def malloc_def mem_total_def Let_def)
  moreover have "core d off n R Q ?s"
    using core_files [OF core_allocs [OF c, of ?f], of "(files s)(?f \<mapsto> \<lparr>f_inode = i, pos = 0, deny_write = False\<rparr>)"] fm by simp
  ultimately show ?thesis using files_cong [of d off ?s s] by (intro exI [of _ ?f] exI [of _ ?s]) simp
qed

lemma nodes_keepI:
  assumes "nodes_keep s s1" and "\<And>l. l \<noteq> j \<Longrightarrow> inodes s2 l = inodes s1 l" and "inodes s2 j = Some y"
    and "\<And>z. inodes s j = Some z \<Longrightarrow> i_sector z = i_sector y"
  shows "nodes_keep s s2"
  unfolding nodes_keep_def
proof (intro allI impI)
  fix l z z' assume l: "inodes s l = Some z" "inodes s2 l = Some z'"
  show "i_sector z' = i_sector z"
  proof (cases "l = j")
    case True
    then show ?thesis using l assms(3) assms(4) [of z] by simp
  next
    case False
    then have "inodes s1 l = Some z'" using l(2) assms(2) by simp
    then show ?thesis using assms(1) l(1) unfolding nodes_keep_def by blast
  qed
qed

lemma live_keep:
  assumes "\<And>l z. I l = Some z \<Longrightarrow> \<exists>z'. I' l = Some z' \<and> i_sector z' = i_sector z"
  shows "live N I \<subseteq> live N I'"
proof
  fix k assume "k \<in> live N I"
  then consider "k \<in> named N" | l z where "I l = Some z" "k = unat (i_sector z)" by (auto simp: live_def ran_def)
  then show "k \<in> live N I'"
  proof cases
    case (2 l z)
    then obtain z' where "I' l = Some z'" "i_sector z' = i_sector z" using assms by blast
    then show ?thesis using open_live [of I' l z' N] 2(2) by simp
  qed (rule named_live)
qed

lemma filesys_open_ok:
  assumes inv: "fs_inv d off n s" and name: "0 \<notin> set name"
  shows "\<exists>f s'. filesys_open name s = Some (f, s') \<and> fs_inv d off n s' \<and> names d off s' = names d off s \<and>
    keeps d off (live (names d off s) (inodes s)) s s' \<and> bm_abs (free_map s') = bm_abs (free_map s) \<and>
    free_map_file s' = free_map_file s \<and> nodes_keep s s' \<and>
    (case names d off s name of
       None \<Rightarrow> f = 0 \<and> files s' = files s
     | Some x \<Rightarrow> \<exists>i ino. f \<noteq> 0 \<and> files s f = None \<and> files s' = (files s)(f \<mapsto> \<lparr>f_inode = i, pos = 0, deny_write = False\<rparr>) \<and>
         inodes s' i = Some ino \<and> i_sector ino = x)"
proof -
  let ?R = "refs s" and ?Q = "denies s" and ?L = "live (names d off s) (inodes s)"
  have t: "tables_ok s" and cs: "core d off n ?R ?Q s" using inv by (simp_all add: fs_inv_def)
  obtain p i s1 where s1: "dir_open_root s = Some (p, s1)" "core d off n (?R(i := Suc (?R i))) ?Q s1" "session d off n s p i s1"
    "names d off s1 = names d off s" "dino d off s1 = dino d off s" "file_bytes d off s1 = file_bytes d off s"
    "free_map s1 = free_map s" "p \<noteq> 0" "\<forall>j. j \<noteq> i \<longrightarrow> inodes s1 j = inodes s j"
    using session_start [OF inv] by blast
  obtain ino1 where r1: "root_at s1 p i ino1" using sessionD(1) [OF s1(3)] by blast
  have i1: "inodes s1 i = Some ino1" "i_sector ino1 = 1" using r1 by (auto simp: root_at_def)
  have L1: "?L \<subseteq> live (names d off s1) (inodes s1)"
    unfolding s1(4)
  proof (rule live_keep)
    fix j z assume "inodes s j = Some z"
    then show "\<exists>z'. inodes s1 j = Some z' \<and> i_sector z' = i_sector z"
      using i1 sessionD(4) [OF s1(3)] s1(9) by (cases "j = i") auto
  qed
  note lk = dir_lookup_core [OF s1(2) r1 name, unfolded s1(4)]
  show ?thesis
  proof (cases "names d off s name")
    case None
    obtain s2 where s2: "dir_lookup p name s1 = Some (0, s2)" "io s1 s2" "media s2 = media s1" using lk None by auto
    note c2 = core_read [OF s1(2) s2(2,3)] and f2 = io_frame [OF s2(2)]
    obtain s3 where s3: "dir_close p s2 = Some s3" "core d off n ((?R(i := Suc (?R i)))(i := (?R(i := Suc (?R i))) i - 1)) ?Q s3"
      "dirs s3 = dirs s" "files s3 = files s" "free_map_file s3 = free_map_file s" "allocs s2 \<le> allocs s3" "nodes_keep s s3"
      "names d off s3 = names d off s2" "keeps d off (live (names d off s2) (inodes s2)) s2 s3"
      "bm_abs (free_map s3) = bm_abs (free_map s2)"
      using session_end [OF c2(1) session_io [OF s1(3) s2(2)]] by auto
    let ?s = "s3\<lparr>allocs := Suc (allocs s3)\<rparr>"
    have c3: "core d off n ?R ?Q s3" using s3(2) by simp
    have run: "filesys_open name s = Some (0, ?s)"
      using s1(1,8) s2(1) s3(1) coreD(2) [OF c3]
      by (simp add: filesys_open_def file_open_def malloc_def mem_total_def inode_close_def Let_def)
    have "core d off n ?R ?Q ?s" using core_allocs [OF c3] by simp
    moreover have nk: "nodes_keep s ?s" by (rule nodes_keep_cong [OF s3(7)]) simp
    ultimately have "fs_inv d off n ?s"
      using fs_inv_same [OF inv] s3(3-6) f2(10) sessionD(2) [OF s1(3)] by simp
    moreover have "keeps d off ?L s ?s"
    proof -
      have "keeps d off ?L s2 s3" using keeps_mono [OF s3(9)] L1 c2(2) f2(1) by simp
      then show ?thesis using c2(3,4) s1(5,6) by (simp add: keeps_def)
    qed
    ultimately show ?thesis
      using run None s3(4,5,8,10) c2(2) s1(4,7) f2(5) nk by (intro exI [of _ 0] exI [of _ ?s]) simp
  next
    case (Some x)
    obtain j s2 s3 where s3: "io s1 s2" "media s2 = media s1" "inode_open x s2 = Some (j, s3)" "dir_lookup p name s1 = Some (j, s3)"
      using lk Some by auto
    note c2 = core_read [OF s1(2) s3(1,2)] and f2 = io_frame [OF s3(1)]
    have xr: "x \<in> ran (names d off s)" using Some by (rule ranI)
    then have "unat x \<in> named (names d off s2)" unfolding c2(2) s1(4) named_def by blast
    from inode_open_ok [OF c2(1) this] s3(3) obtain y where s3':
      "core d off n ((?R(i := Suc (?R i)))(j := Suc ((?R(i := Suc (?R i))) j))) ?Q s3" "j \<noteq> 0" "inodes s3 j = Some y" "i_sector y = x"
      "names d off s3 = names d off s2" "file_bytes d off s3 = file_bytes d off s2" "dino d off s3 = dino d off s2"
      "files s3 = files s2" "dirs s3 = dirs s2" "free_map_file s3 = free_map_file s2" "allocs s2 \<le> allocs s3"
      "\<forall>l. l \<noteq> j \<longrightarrow> inodes s3 l = inodes s2 l" "free_map s3 = free_map s2" "\<forall>z. inodes s2 j = Some z \<longrightarrow> i_sector z = x" by auto
    have xn: "x \<noteq> 0" "x \<noteq> 1" using coreD(6) [OF cs] xr by (auto simp: names_ok_def)
    have ij: "i \<noteq> j" using s3'(14) i1 f2(1) xn by auto
    have nk2: "nodes_keep s s2" by (rule nodes_keep_cong [OF sessionD(3) [OF s1(3)] f2(1)])
    have nk3: "nodes_keep s s3"
      by (rule nodes_keepI [OF nk2 _ s3'(3)]) (use s3'(4,12,14) ij s1(9) f2(1) in auto)
    have i3: "inodes s3 i = Some ino1" using s3'(12) ij i1 f2(1) by simp
    have se3: "session d off n s p i s3"
      by (rule session_step [OF session_io [OF s1(3) s3(1)] s3'(9,8,10,11) i3 i1(2) nk3])
    let ?R3 = "(?R(i := Suc (?R i)))(j := Suc ((?R(i := Suc (?R i))) j))"
    have R3: "?R3(i := ?R3 i - 1) = ?R(j := Suc (?R j))" using ij by auto
    obtain s4 where s4: "dir_close p s3 = Some s4" "core d off n (?R3(i := ?R3 i - 1)) ?Q s4"
      "dirs s4 = dirs s" "files s4 = files s" "free_map_file s4 = free_map_file s" "allocs s3 \<le> allocs s4" "nodes_keep s s4"
      "names d off s4 = names d off s3" "keeps d off (live (names d off s3) (inodes s3)) s3 s4"
      "bm_abs (free_map s4) = bm_abs (free_map s3)" "\<forall>l. l \<noteq> i \<longrightarrow> inodes s4 l = inodes s3 l"
      using session_end [OF s3'(1) se3] ij by auto
    note c4 = s4(2) [unfolded R3]
    have al: "allocs s \<le> allocs s4" using sessionD(2) [OF se3] s4(6) by simp
    have fm: "free_map_file s4 \<le> allocs s4"
    proof -
      obtain fl where "files s (free_map_file s) = Some fl" using coreD(10) [OF cs] by blast
      then show ?thesis using tablesD(3) [OF t] al s4(5) by force
    qed
    obtain f s5 where s5: "file_open j s4 = Some (f, s5)" "core d off n (?R(j := Suc (?R j))) ?Q s5" "f = Suc (allocs s4)" "allocs s5 = f"
      "files s5 = (files s4)(f \<mapsto> \<lparr>f_inode = j, pos = 0, deny_write = False\<rparr>)" "inodes s5 = inodes s4" "dirs s5 = dirs s4"
      "free_map_file s5 = free_map_file s4" "free_map s5 = free_map s4" "names d off s5 = names d off s4"
      "dino d off s5 = dino d off s4" "file_bytes d off s5 = file_bytes d off s4"
      using file_open_ok [OF c4 s3'(2) fm] by blast
    let ?fl = "\<lparr>f_inode = j, pos = 0, deny_write = False\<rparr>"
    have fl: "files s5 = (files s)(f \<mapsto> ?fl)" "allocs s < f" using s5(3,5) s4(4) al by simp_all
    have j5: "inodes s5 j = Some y" using s5(6) s4(11) ij s3'(3) by simp
    have nk5: "nodes_keep s s5" by (rule nodes_keep_cong [OF s4(7) s5(6)])
    have yn: "i_sector y \<noteq> 0" "i_sector y \<noteq> 1" using xn unfolding s3'(4) .
    have fi: "fs_inv d off n s5"
      by (rule fs_inv_open_file [OF inv _ nk5 fl _ _ _ _ yn]) (use s5(2,4,7,8) s4(3,5) j5 in simp_all)
    have run: "filesys_open name s = Some (f, s5)"
      using s1(1,8) s3(4) s4(1) s5(1) by (simp add: filesys_open_def)
    have "live (names d off s1) (inodes s1) \<subseteq> live (names d off s1) (inodes s3)"
    proof (rule live_keep)
      fix l z assume "inodes s1 l = Some z"
      then show "\<exists>z'. inodes s3 l = Some z' \<and> i_sector z' = i_sector z"
        using s3'(3,4,12,14) f2(1) by (cases "l = j") auto
    qed
    then have L3: "?L \<subseteq> live (names d off s3) (inodes s3)" using L1 s3'(5) c2(2) by simp
    have "keeps d off ?L s s5"
    proof -
      have "keeps d off ?L s3 s4" by (rule keeps_mono [OF s4(9) L3])
      then show ?thesis using s3'(6,7) c2(3,4) s1(5,6) s5(11,12) by (simp add: keeps_def)
    qed
    moreover have "files s f = None" using tablesD(7) [OF t fl(2)] by simp
    ultimately show ?thesis
      using run fi nk5 Some fl(1) j5 s3'(4) s5(3,8,9,10) s4(5,8,10) s3'(5,13) c2(2) f2(5) s1(4,7)
      by (intro exI [of _ f] exI [of _ s5]) auto
  qed
qed

section \<open>Creating a file\<close>

lemma session_same:
  assumes se: "session d off n s p i s1" and "dirs s2 = dirs s1" and "files s2 = files s1" and "free_map_file s2 = free_map_file s1"
    and "allocs s1 \<le> allocs s2" and I: "inodes s2 = inodes s1"
  shows "session d off n s p i s2"
proof -
  obtain ino where "inodes s1 i = Some ino" "i_sector ino = 1" using sessionD(1) [OF se] by (auto simp: root_at_def)
  then show ?thesis
    using session_step [OF assms(1-5) _ _ nodes_keep_cong [OF sessionD(3) [OF se] I]] I by metis
qed

lemma core_release_one:
  assumes c: "core d off n R Q s" and x: "unat x < n" "bm_abs (free_map s) ! unat x"
    and gone: "\<forall>k \<in> live (names d off s) (inodes s). unat x \<notin> own (dino d off s) k"
  shows "\<exists>s'. free_map_release x 1 s = Some s' \<and> core d off n R Q s' \<and> names d off s' = names d off s \<and>
    keeps d off (live (names d off s) (inodes s)) s s' \<and> files s' = files s \<and> dirs s' = dirs s \<and> inodes s' = inodes s \<and>
    free_map_file s' = free_map_file s \<and> allocs s \<le> allocs s'"
proof -
  obtain fi i where fi: "fm_file d off n s fi" "inodes s i = Some fi" "i_sector fi = 0" using core_fm [OF c] by blast
  note fm = fi(1)
  have run: "run_at (bm_abs (free_map s)) (unat 1) True (unat x)" using x coreD(4) [OF c] by (simp add: run_at_def)
  obtain b s' where r: "free_map_release x 1 s = Some s'" "fm_update d off n fi b s s'"
    "bm_abs b = replace_range (unat x) 1 False (bm_abs (free_map s))"
    using free_map_release_ok [OF fm run] by auto
  have g: "\<forall>k \<in> live (names d off s) (inodes s). own (dino d off s) k \<inter> {unat x..<unat x + 1} = {}" using gone by auto
  note u = core_release [OF c fm fi(2,3) r(2,3) g]
  have io: "io (s\<lparr>free_map := b\<rparr>) s'" using r(2) by (simp add: fm_update_def)
  note fr = io_frame [OF io, simplified]
  have "keeps d off (live (names d off s) (inodes s)) s s'" unfolding keeps_def using u(3,4) by blast
  then show ?thesis using r(1) u(1,2) fr by (intro exI [of _ s']) simp
qed

text \<open>Creating the inode and its name inside a session; the sector has just been allocated.\<close>

definition create_entry ::
  "ptr \<Rightarrow> u8 list \<Rightarrow> int \<Rightarrow> dir_entry \<Rightarrow> u32 \<Rightarrow> 'a fsys_scheme \<Rightarrow> (bool \<times> 'a fsys_scheme) option" where
  "create_entry p name l e x s = do {
     (created, s) \<leftarrow> inode_create x l s;
     if \<not> created then Some (False, s) else dir_add p name x e s }"

lemma create_entry_ok:
  assumes c: "core d off n R Q s" and r: "root_at s p i ino" and name: "0 \<notin> set name" and e: "length (ename e) = 15"
    and len: "0 \<le> l" "l < 2 ^ 31" and x: "unat x < n" "bm_abs (free_map s) ! unat x"
    and gone: "\<forall>k \<in> live (names d off s) (inodes s). unat x \<notin> own (dino d off s) k"
  shows "\<exists>ok s'. create_entry p name l e x s = Some (ok, s') \<and> core d off n R Q s' \<and>
    files s' = files s \<and> dirs s' = dirs s \<and> inodes s' = inodes s \<and> free_map_file s' = free_map_file s \<and> allocs s \<le> allocs s' \<and>
    names d off s' = (if ok then (names d off s)(name \<mapsto> x) else names d off s) \<and>
    keeps d off (live (names d off s) (inodes s) - {1}) s s' \<and>
    (ok \<longleftrightarrow> addable (file_bytes d off s 1) name \<and> (\<exists>j. run_at (bm_abs (free_map s)) (unat (bytes_to_sectors l)) False j)) \<and>
    (ok \<longrightarrow> file_bytes d off s' (unat x) = replicate (nat l) 0) \<and>
    (\<not> ok \<longrightarrow> bm_abs (free_map s') ! unat x \<and> (\<forall>k \<in> live (names d off s) (inodes s). unat x \<notin> own (dino d off s') k))"
proof -
  let ?L = "live (names d off s) (inodes s)" and ?x = "unat x"
  obtain created s1 where s1: "inode_create x l s = Some (created, s1)" "core d off n R Q s1" "names d off s1 = names d off s"
    "inodes s1 = inodes s" "files s1 = files s" "dirs s1 = dirs s" "free_map_file s1 = free_map_file s" "allocs s \<le> allocs s1"
    "\<forall>k \<in> ?L. dino d off s1 k = dino d off s k \<and> (k \<noteq> 0 \<longrightarrow> file_bytes d off s1 k = file_bytes d off s k)"
    "bm_abs (free_map s1) ! ?x" "created \<longleftrightarrow> (\<exists>j. run_at (bm_abs (free_map s)) (unat (bytes_to_sectors l)) False j)"
    "created \<longrightarrow> layout n (insert ?x ?L) (dino d off s1) (bm_abs (free_map s1)) \<and> file_bytes d off s1 ?x = replicate (nat l) 0"
    using inode_create_ok [OF c x(1) gone x(2) len] by (elim exE conjE) (rule that)
  have k1: "keeps d off ?L s s1" using s1(9) by (simp add: keeps_def)
  have f1: "file_bytes d off s1 1 = file_bytes d off s 1" using s1(9) named_live [of 1 "names d off s" "inodes s"] by simp
  have xL: "?x \<notin> ?L" using gone by (auto simp: own_def)
  have own1: "own (dino d off s1) k = own (dino d off s) k" if "k \<in> ?L" for k using s1(9) that by (simp add: own_def)
  show ?thesis
  proof (cases created)
    case False
    then have "create_entry p name l e x s = Some (False, s1)" using s1(1) by (simp add: create_entry_def)
    then show ?thesis
      using False s1 gone own1 keeps_mono [OF k1 Diff_subset] by (intro exI [of _ False] exI [of _ s1]) simp
  next
    case True
    then have lay: "layout n (insert ?x ?L) (dino d off s1) (bm_abs (free_map s1))" and z: "file_bytes d off s1 ?x = replicate (nat l) 0"
      using s1(12) by simp_all
    have r1: "root_at s1 p i ino" using r s1(4,6) by (simp add: root_at_def)
    let ?ok = "addable (file_bytes d off s1 1) name"
    obtain s2 where s2: "dir_add p name x e s1 = Some (?ok, s2)" "io s1 s2" "core d off n R Q s2"
      "names d off s2 = (if ?ok then (names d off s1)(name \<mapsto> x) else names d off s1)"
      "keeps d off (insert ?x ?L - {1}) s1 s2" "dino d off s2 1 = dino d off s1 1"
      using dir_add_core [OF s1(2) r1 name e, unfolded s1(3,4), OF xL lay] unfolding s1(3) by blast
    note f2 = io_frame [OF s2(2)]
    have run: "create_entry p name l e x s = Some (?ok, s2)" using True s1(1) s2(1) by (simp add: create_entry_def)
    have x1: "?x \<noteq> 1" using xL named_live [of 1 "names d off s" "inodes s"] by auto
    have x0: "?x \<noteq> 0" using xL named_live [of 0 "names d off s" "inodes s"] by (metis named_basic(1))
    have z2: "file_bytes d off s2 ?x = replicate (nat l) 0" using s2(5) x1 x0 z by (simp add: keeps_def)
    have g2: "?x \<notin> own (dino d off s2) k" if k: "k \<in> ?L" for k
    proof -
      have "own (dino d off s2) k = own (dino d off s1) k"
        using s2(5,6) k by (cases "k = 1") (simp_all add: keeps_def own_def)
      then show ?thesis using gone k own1 by simp
    qed
    have b2: "bm_abs (free_map s2) ! ?x" using s1(10) f2(5) by simp
    have k2: "keeps d off (?L - {1}) s s2"
      by (rule keeps_trans [OF keeps_mono [OF k1 Diff_subset] keeps_mono [OF s2(5)]]) blast
    show ?thesis
      using run s2(3,4) s1(3-8,11) f2 True f1 z2 g2 b2 k2 by (intro exI [of _ ?ok] exI [of _ s2]) simp
  qed
qed

lemma filesys_create_unfold:
  assumes "dir_open_root s = Some (p, s1)" and "p \<noteq> 0" and "free_map_allocate 1 s1 = Some (Some x, s2)" and "x \<noteq> 0"
    and "create_entry p name l e x s2 = Some (ok, s3)"
  shows "filesys_create name l e s = do {
    s4 \<leftarrow> (if ok then Some s3 else free_map_release x 1 s3);
    s5 \<leftarrow> dir_close p s4;
    Some (ok, s5) }"
proof -
  obtain created s' where ic: "inode_create x l s2 = Some (created, s')"
    using assms(5) by (cases "inode_create x l s2") (auto simp: create_entry_def)
  show ?thesis
    using assms(1-4) assms(5) [unfolded create_entry_def] ic by (cases created; cases ok) (simp_all add: filesys_create_def)
qed

lemma run_after_first:
  assumes a: "run_at B (Suc m) False a" and x: "run_at B 1 False x" and first: "\<forall>j < x. \<not> run_at B 1 False j"
  shows "\<exists>j. run_at (replace_range x 1 True B) m False j"
proof -
  have "run_at B 1 False a" using a by (auto simp: run_at_def)
  then have "x \<le> a" using first by (meson not_le)
  then have "run_at (replace_range x 1 True B) m False (Suc a)"
    using a by (auto simp: run_at_def nth_replace_range)
  then show ?thesis ..
qed

lemma filesys_create_ok:
  assumes inv: "fs_inv d off n s" and name: "0 \<notin> set name" and e: "length (ename e) = 15" and len: "0 \<le> l" "l < 2 ^ 31"
  shows "\<exists>ok s'. filesys_create name l e s = Some (ok, s') \<and> fs_inv d off n s' \<and> files s' = files s \<and>
    keeps d off (live (names d off s) (inodes s) - {1}) s s' \<and> free_map_file s' = free_map_file s \<and> nodes_keep s s' \<and>
    (if ok then \<exists>x. names d off s' = (names d off s)(name \<mapsto> x) \<and> file_bytes d off s' (unat x) = replicate (nat l) 0 \<and>
       unat x \<notin> live (names d off s) (inodes s)
     else names d off s' = names d off s) \<and>
    (\<not> addable (file_bytes d off s 1) name \<longrightarrow> \<not> ok) \<and>
    (addable (file_bytes d off s 1) name \<and> (\<exists>j. run_at (bm_abs (free_map s)) (Suc (unat (bytes_to_sectors l))) False j) \<longrightarrow> ok)"
proof -
  let ?R = "refs s" and ?Q = "denies s" and ?L = "live (names d off s) (inodes s)" and ?m = "unat (bytes_to_sectors l)"
  have t: "tables_ok s" and cs: "core d off n ?R ?Q s" using inv by (simp_all add: fs_inv_def)
  obtain p i s1 where s1: "dir_open_root s = Some (p, s1)" "core d off n (?R(i := Suc (?R i))) ?Q s1" "session d off n s p i s1"
    "names d off s1 = names d off s" "dino d off s1 = dino d off s" "file_bytes d off s1 = file_bytes d off s"
    "free_map s1 = free_map s" "p \<noteq> 0" "\<forall>j. j \<noteq> i \<longrightarrow> inodes s1 j = inodes s j"
    using session_start [OF inv] by blast
  obtain ino1 where r1: "root_at s1 p i ino1" using sessionD(1) [OF s1(3)] by blast
  have i1: "inodes s1 i = Some ino1" "i_sector ino1 = 1" using r1 by (auto simp: root_at_def)
  have L1: "?L \<subseteq> live (names d off s) (inodes s1)"
  proof (rule live_keep)
    fix j z assume "inodes s j = Some z"
    then show "\<exists>z'. inodes s1 j = Some z' \<and> i_sector z' = i_sector z"
      using i1 sessionD(4) [OF s1(3)] s1(9) by (cases "j = i") auto
  qed
  obtain r s2 where s2: "free_map_allocate 1 s1 = Some (r, s2)" "core d off n (?R(i := Suc (?R i))) ?Q s2"
    "names d off s2 = names d off s1" "inodes s2 = inodes s1" "files s2 = files s1" "dirs s2 = dirs s1" "allocs s1 \<le> allocs s2"
    "free_map_file s2 = free_map_file s1"
    "\<forall>k \<in> live (names d off s1) (inodes s1). dino d off s2 k = dino d off s1 k \<and> (k \<noteq> 0 \<longrightarrow> file_bytes d off s2 k = file_bytes d off s1 k)"
    "r = None \<longrightarrow> s2 = s1" "r = None \<longleftrightarrow> (\<forall>j. \<not> run_at (bm_abs (free_map s1)) (unat (1 :: u32)) False j)"
    "\<forall>x. r = Some x \<longrightarrow> run_at (bm_abs (free_map s1)) (unat (1 :: u32)) False (unat x) \<and>
       bm_abs (free_map s2) = replace_range (unat x) (unat (1 :: u32)) True (bm_abs (free_map s1))"
    "\<forall>x j. r = Some x \<and> j < unat x \<longrightarrow> \<not> run_at (bm_abs (free_map s1)) (unat (1 :: u32)) False j"
    using core_allocate [OF s1(2), of 1] by (elim exE conjE) (rule that)
  show ?thesis
  proof (cases r)
    case None
    then have e2: "s2 = s1" using s2(10) by simp
    obtain s' where s': "dir_close p s1 = Some s'" "fs_inv d off n s'" "files s' = files s" "free_map_file s' = free_map_file s"
      "names d off s' = names d off s1" "keeps d off (live (names d off s1) (inodes s1)) s1 s'" "nodes_keep s s'"
      using session_finish [OF inv s1(2,3)] by blast
    have run: "filesys_create name l e s = Some (False, s')"
      using s1(1,8) s2(1) None e2 s'(1) by (simp add: filesys_create_def)
    have "keeps d off (?L - {1}) s1 s'" by (rule keeps_mono [OF s'(6)]) (use L1 s1(4) in auto)
    then have kp: "keeps d off (?L - {1}) s s'" using s1(5,6) by (simp add: keeps_def)
    have "\<not> run_at (bm_abs (free_map s)) (Suc ?m) False j" for j
    proof
      assume "run_at (bm_abs (free_map s)) (Suc ?m) False j"
      then have "run_at (bm_abs (free_map s1)) (unat (1 :: u32)) False j" using s1(7) by (auto simp: run_at_def)
      then show False using s2(11) None by blast
    qed
    then show ?thesis using run s' kp s1(4) by (intro exI [of _ False] exI [of _ s']) simp
  next
    case (Some x)
    let ?B = "bm_abs (free_map s)" and ?L1 = "live (names d off s1) (inodes s1)"
    have B2: "run_at ?B 1 False (unat x)" "bm_abs (free_map s2) = replace_range (unat x) 1 True ?B"
      "\<forall>j < unat x. \<not> run_at ?B 1 False j" using s2(12,13) Some s1(7) by auto
    have xn: "unat x < n" using B2(1) coreD(4) [OF cs] by (simp add: run_at_def)
    have xb: "bm_abs (free_map s2) ! unat x" using B2(2) xn coreD(4) [OF cs] by (simp add: nth_replace_range)
    have own2: "own (dino d off s2) k = own (dino d off s1) k" if "k \<in> ?L1" for k using s2(9) that by (simp add: own_def)
    have "\<not> ?B ! unat x" using B2(1) by (simp add: run_at_def)
    then have g: "\<forall>k \<in> ?L1. unat x \<notin> own (dino d off s1) k" using layoutD(4) [OF coreD(5) [OF s1(2)]] s1(7) by metis
    then have x0: "x \<noteq> 0" using named_live [of 0 "names d off s1" "inodes s1"] by (force simp: own_def)
    have g2: "\<forall>k \<in> live (names d off s2) (inodes s2). unat x \<notin> own (dino d off s2) k" unfolding s2(3,4) using g own2 by simp
    have r2: "root_at s2 p i ino1" using r1 s2(4,6) by (simp add: root_at_def)
    have f2: "file_bytes d off s2 1 = file_bytes d off s 1" using s2(9) s1(6) named_live [of 1 "names d off s1" "inodes s1"] by simp
    obtain ok s3 where s3: "create_entry p name l e x s2 = Some (ok, s3)" "core d off n (?R(i := Suc (?R i))) ?Q s3"
      "files s3 = files s2" "dirs s3 = dirs s2" "inodes s3 = inodes s2" "free_map_file s3 = free_map_file s2" "allocs s2 \<le> allocs s3"
      "names d off s3 = (if ok then (names d off s2)(name \<mapsto> x) else names d off s2)"
      "keeps d off (live (names d off s2) (inodes s2) - {1}) s2 s3"
      "ok \<longleftrightarrow> addable (file_bytes d off s2 1) name \<and> (\<exists>j. run_at (bm_abs (free_map s2)) ?m False j)"
      "ok \<longrightarrow> file_bytes d off s3 (unat x) = replicate (nat l) 0"
      "\<not> ok \<longrightarrow> bm_abs (free_map s3) ! unat x \<and> (\<forall>k \<in> live (names d off s2) (inodes s2). unat x \<notin> own (dino d off s3) k)"
      using create_entry_ok [OF s2(2) r2 name e len xn xb g2] by (elim exE conjE) (rule that)
    have se3: "session d off n s p i s3"
      by (rule session_same [OF session_same [OF s1(3) s2(6,5,8,7,4)] s3(4,3,6,7,5)])
    note un = filesys_create_unfold [OF s1(1,8) s2(1) [unfolded Some] x0 s3(1)]
    have k2: "keeps d off (?L1 - {1}) s s3"
    proof (rule keeps_trans)
      show "keeps d off (?L1 - {1}) s s2" using s2(9) s1(5,6) by (simp add: keeps_def)
      show "keeps d off (?L1 - {1}) s2 s3" using s3(9) s2(3,4) by simp
    qed
    have L1': "?L - {1} \<subseteq> ?L1 - {1}" using L1 s1(4) by auto
    have suf: "ok" if "addable (file_bytes d off s 1) name" "run_at ?B (Suc ?m) False j" for j
      using run_after_first [OF that(2) B2(1,3)] that(1) s3(10) f2 B2(2) by simp
    show ?thesis
    proof (cases ok)
      case True
      obtain s' where s': "dir_close p s3 = Some s'" "fs_inv d off n s'" "files s' = files s" "free_map_file s' = free_map_file s"
        "names d off s' = names d off s3" "keeps d off (live (names d off s3) (inodes s3)) s3 s'" "nodes_keep s s'"
        using session_finish [OF inv s3(2) se3] by blast
      have run: "filesys_create name l e s = Some (True, s')" using un True s'(1) by simp
      have nm: "names d off s' = (names d off s)(name \<mapsto> x)" using s'(5) s3(8) s2(3) s1(4) True by simp
      have nn: "names d off s name = None" using s3(10) True f2 by (simp add: addable_def names_def)
      have xr: "unat x \<in> live (names d off s3) (inodes s3)"
        using s'(5) nm named_add_new [of "names d off s" name x] nn by (auto intro: named_live)
      have "live (names d off s2) (inodes s2) \<subseteq> live (names d off s3) (inodes s3)"
        unfolding s3(5) live_def using s'(5) nm named_add_new [of "names d off s" name x] nn s2(3) s1(4) by auto
      then have "?L - {1} \<subseteq> live (names d off s3) (inodes s3)" using L1' s2(3,4) by auto
      then have "keeps d off (?L - {1}) s s'"
        by (intro keeps_trans [OF keeps_mono [OF k2 L1'] keeps_mono [OF s'(6)]])
      moreover have "unat x \<noteq> 0" using x0 unat_eq_iff32 [of x 0] by simp
      then have "file_bytes d off s' (unat x) = replicate (nat l) 0" using s'(6) xr s3(11) True by (simp add: keeps_def)
      moreover have "unat x \<notin> ?L1" using g by (auto simp: own_def)
      then have "unat x \<notin> ?L" using L1 s1(4) by auto
      ultimately have "\<exists>x. names d off s' = (names d off s)(name \<mapsto> x) \<and> file_bytes d off s' (unat x) = replicate (nat l) 0 \<and> unat x \<notin> ?L"
        using nm by blast
      with \<open>keeps d off (?L - {1}) s s'\<close> show ?thesis
        using run s'(2-4,7) s3(10) True f2 by (intro exI [of _ True] exI [of _ s']) simp
    next
      case False
      have nm3: "names d off s3 = names d off s" using s3(8) False s2(3) s1(4) by simp
      have g3: "\<forall>k \<in> live (names d off s3) (inodes s3). unat x \<notin> own (dino d off s3) k" using s3(12) False nm3 s3(5) s2(3) s1(4) by simp
      obtain s4 where s4: "free_map_release x 1 s3 = Some s4" "core d off n (?R(i := Suc (?R i))) ?Q s4" "names d off s4 = names d off s3"
        "keeps d off (live (names d off s3) (inodes s3)) s3 s4" "files s4 = files s3" "dirs s4 = dirs s3" "inodes s4 = inodes s3"
        "free_map_file s4 = free_map_file s3" "allocs s3 \<le> allocs s4"
        using core_release_one [OF s3(2) xn _ g3] s3(12) False by blast
      have se4: "session d off n s p i s4" by (rule session_same [OF se3 s4(6,5,8,9,7)])
      obtain s' where s': "dir_close p s4 = Some s'" "fs_inv d off n s'" "files s' = files s" "free_map_file s' = free_map_file s"
        "names d off s' = names d off s4" "keeps d off (live (names d off s4) (inodes s4)) s4 s'" "nodes_keep s s'"
        using session_finish [OF inv s4(2) se4] by blast
      have run: "filesys_create name l e s = Some (False, s')" using un False s4(1) s'(1) by simp
      have l4: "live (names d off s4) (inodes s4) = ?L1" "live (names d off s3) (inodes s3) = ?L1"
        using s4(3,7) nm3 s3(5) s2(4) s1(4) by simp_all
      have "keeps d off (?L1 - {1}) s s'"
        by (rule keeps_trans [OF keeps_trans [OF k2 keeps_mono [OF s4(4) [unfolded l4] Diff_subset]]
          keeps_mono [OF s'(6) [unfolded l4] Diff_subset]])
      then have "keeps d off (?L - {1}) s s'" using keeps_mono L1' by blast
      then show ?thesis
        using run s' s4(3) nm3 suf False by (intro exI [of _ False] exI [of _ s']) auto
    qed
  qed
qed

section \<open>Removing a file\<close>

lemma filesys_remove_ok:
  assumes inv: "fs_inv d off n s" and name: "0 \<notin> set name"
  shows "\<exists>s'. filesys_remove name s = Some (names d off s name \<noteq> None, s') \<and> fs_inv d off n s' \<and> files s' = files s \<and>
    free_map_file s' = free_map_file s \<and> nodes_keep s s' \<and> names d off s' = (names d off s)(name := None) \<and>
    keeps d off (live (names d off s') (inodes s') - {1}) s s' \<and>
    (\<forall>x. names d off s name = Some x \<longrightarrow>
      ((\<forall>j y. inodes s j = Some y \<longrightarrow> i_sector y \<noteq> x) \<longrightarrow>
        (\<exists>y. i_sector y = x \<and> idata y = dino d off s (unat x) \<and> bm_abs (free_map s') = freed y (bm_abs (free_map s)))) \<and>
      ((\<exists>j y. inodes s j = Some y \<and> i_sector y = x) \<longrightarrow> bm_abs (free_map s') = bm_abs (free_map s)))"
proof -
  let ?R = "refs s" and ?Q = "denies s"
  have t: "tables_ok s" and cs: "core d off n ?R ?Q s" using inv by (simp_all add: fs_inv_def)
  obtain p i s1 where s1: "dir_open_root s = Some (p, s1)" "core d off n (?R(i := Suc (?R i))) ?Q s1" "session d off n s p i s1"
    "names d off s1 = names d off s" "dino d off s1 = dino d off s" "file_bytes d off s1 = file_bytes d off s"
    "free_map s1 = free_map s" "p \<noteq> 0" "\<forall>j. j \<noteq> i \<longrightarrow> inodes s1 j = inodes s j"
    using session_start [OF inv] by blast
  obtain ino1 where r1: "root_at s1 p i ino1" using sessionD(1) [OF s1(3)] by blast
  have i1: "inodes s1 i = Some ino1" "i_sector ino1 = 1" using r1 by (auto simp: root_at_def)
  show ?thesis
  proof (cases "names d off s name")
    case None
    obtain dr where at: "dir_at d off n s1 p dr ino1" using root_dir_at(1) [OF s1(2) r1] by blast
    have "find (hit (file_bytes d off s1 1) name) [0..<slots (file_bytes d off s1 1)] = None"
      using None s1(6) by (simp add: names_def dir_map_def)
    then obtain s2 where s2: "lookup p name s1 = Some (None, s2)" "io s1 s2" "media s2 = media s1"
      using lookup_ok [OF at name root_dir_at(2) [OF s1(2) r1, symmetric]] by auto
    note c2 = core_read [OF s1(2) s2(2,3)] and f2 = io_frame [OF s2(2)]
    obtain s' where s': "dir_close p s2 = Some s'" "fs_inv d off n s'" "files s' = files s" "free_map_file s' = free_map_file s"
      "names d off s' = names d off s2" "keeps d off (live (names d off s2) (inodes s2)) s2 s'"
      "live (names d off s') (inodes s') \<subseteq> live (names d off s2) (inodes s2)" "nodes_keep s s'"
      using session_finish [OF inv c2(1) session_io [OF s1(3) s2(2)]] by blast
    have run: "filesys_remove name s = Some (False, s')"
      using s1(1,8) s2(1) s'(1) dir_atD(2,3) [OF at] by (simp add: filesys_remove_def dir_remove_def inode_close_def)
    have "keeps d off (live (names d off s') (inodes s') - {1}) s2 s'" 
      by (rule keeps_mono [OF s'(6)]) (use s'(7) in blast)
    then have "keeps d off (live (names d off s') (inodes s') - {1}) s s'" using c2(3,4) s1(5,6) by (simp add: keeps_def)
    moreover have "names d off s' = (names d off s)(name := None)" using s'(5) c2(2) s1(4) None by (simp add: fun_upd_idem)
    ultimately show ?thesis using run s'(2-4,8) None by (intro exI [of _ s']) simp
  next
    case (Some x)
    have nx: "names d off s1 name = Some x" using Some s1(4) by simp
    obtain s2 where s2: "dir_remove p name s1 = Some (True, s2)" "core d off n (?R(i := Suc (?R i))) ?Q s2"
      "names d off s2 = (names d off s1)(name := None)" "keeps d off (live (names d off s2) (inodes s2) - {1}) s1 s2"
      "files s2 = files s1" "dirs s2 = dirs s1" "free_map_file s2 = free_map_file s1" "allocs s1 \<le> allocs s2"
      "inodes s2 i = inodes s1 i" "dom (inodes s2) = dom (inodes s1)"
      "\<forall>j y. inodes s1 j = Some y \<longrightarrow> (\<exists>y'. inodes s2 j = Some y' \<and> i_sector y' = i_sector y)"
      "(\<forall>j y. inodes s1 j = Some y \<longrightarrow> i_sector y \<noteq> x) \<longrightarrow>
        (\<exists>y. i_sector y = x \<and> idata y = dino d off s1 (unat x) \<and> bm_abs (free_map s2) = freed y (bm_abs (free_map s1)))"
      "(\<exists>j y. inodes s1 j = Some y \<and> i_sector y = x) \<longrightarrow> bm_abs (free_map s2) = bm_abs (free_map s1)"
      using dir_remove_core [OF s1(2) r1 name nx] by (elim exE conjE) (rule that)
    have i2: "inodes s2 i = Some ino1" using s2(9) i1 by simp
    have nk: "nodes_keep s s2"
      unfolding nodes_keep_def
    proof (intro allI impI)
      fix l z z' assume l: "inodes s l = Some z" "inodes s2 l = Some z'"
      obtain z1 where z1: "inodes s1 l = Some z1" using l(2) s2(10) by blast
      then have "i_sector z' = i_sector z1" using s2(11) l(2) by force
      moreover have "i_sector z1 = i_sector z" using sessionD(3) [OF s1(3)] l(1) z1 unfolding nodes_keep_def by blast
      ultimately show "i_sector z' = i_sector z" by simp
    qed
    have se2: "session d off n s p i s2" by (rule session_step [OF s1(3) s2(6,5,7,8) i2 i1(2) nk])
    obtain s' where s': "dir_close p s2 = Some s'" "fs_inv d off n s'" "files s' = files s" "free_map_file s' = free_map_file s"
      "names d off s' = names d off s2" "keeps d off (live (names d off s2) (inodes s2)) s2 s'" "bm_abs (free_map s') = bm_abs (free_map s2)"
      "live (names d off s') (inodes s') \<subseteq> live (names d off s2) (inodes s2)" "nodes_keep s s'"
      using session_finish [OF inv s2(2) se2] by blast
    have run: "filesys_remove name s = Some (True, s')" using s1(1,8) s2(1) s'(1) by (simp add: filesys_remove_def)
    have xn: "x \<noteq> 1" using coreD(6) [OF cs] ranI [of "names d off s" name x, OF Some] by (auto simp: names_ok_def)
    have op1: "\<exists>j y. inodes s1 j = Some y \<and> i_sector y = x" if "inodes s j = Some y" "i_sector y = x" for j y
    proof -
      have "j \<noteq> i" using that xn sessionD(4) [OF s1(3)] by auto
      then show ?thesis using that s1(9) by (intro exI [of _ j] exI [of _ y]) simp
    qed
    have op2: "\<exists>j y. inodes s j = Some y \<and> i_sector y = x" if "inodes s1 j = Some y" "i_sector y = x" for j y
    proof -
      have "j \<noteq> i" using that xn i1 by auto
      then show ?thesis using that s1(9) by (intro exI [of _ j] exI [of _ y]) simp
    qed
    have k2: "keeps d off (live (names d off s') (inodes s') - {1}) s s'"
    proof (rule keeps_trans)
      have "keeps d off (live (names d off s') (inodes s') - {1}) s1 s2"
        by (rule keeps_mono [OF s2(4)]) (use s'(8) in blast)
      then show "keeps d off (live (names d off s') (inodes s') - {1}) s s2" using s1(5,6) by (simp add: keeps_def)
      show "keeps d off (live (names d off s') (inodes s') - {1}) s2 s'"
        by (rule keeps_mono [OF s'(6)]) (use s'(8) in blast)
    qed
    have fr: "\<exists>y. i_sector y = x \<and> idata y = dino d off s (unat x) \<and> bm_abs (free_map s') = freed y (bm_abs (free_map s))"
      if "\<forall>j y. inodes s j = Some y \<longrightarrow> i_sector y \<noteq> x"
    proof -
      have "\<forall>j y. inodes s1 j = Some y \<longrightarrow> i_sector y \<noteq> x" using op2 that by blast
      then show ?thesis using s2(12) s'(7) s1(5,7) by simp
    qed
    have kp: "bm_abs (free_map s') = bm_abs (free_map s)" if "\<exists>j y. inodes s j = Some y \<and> i_sector y = x"
      using that op1 s2(13) s'(7) s1(7) by auto
    have "names d off s' = (names d off s)(name := None)" using s'(5) s2(3) s1(4) by simp
    then show ?thesis using run s'(2-4,9) Some k2 fr kp by (intro exI [of _ s']) simp
  qed
qed

section \<open>Open files\<close>

lemma fs_inv_file:
  assumes inv: "fs_inv d off n s" and c: "core d off n (refs s') (denies s') s'" and k: "nodes_keep s s'"
    and f: "files s f = Some fl" and f': "files s' = (files s)(f := v)"
    and v: "\<And>fl'. v = Some fl' \<Longrightarrow> f_inode fl' = f_inode fl \<and> 0 \<le> pos fl'"
    and same: "dirs s' = dirs s" "free_map_file s' = free_map_file s" "allocs s \<le> allocs s'"
  shows "fs_inv d off n s'"
proof -
  have t: "tables_ok s" using inv by (simp add: fs_inv_def)
  note T = tablesD [OF t]
  have F: "\<exists>gl'. files s g = Some gl' \<and> f_inode gl' = f_inode gl \<and> 0 \<le> pos gl" if "files s' g = Some gl" for g gl
    using that f f' v T(3) by (cases "g = f") auto
  have fin: "finite (dom (files s'))" "finite (dom (dirs s'))" using T(1,2) f' same(1) by simp_all
  have pos_refs: "0 < refs s' (f_inode gl)" if "files s' g = Some gl" for g gl
  proof -
    have "g \<in> file_refs s' (f_inode gl)" using that by (simp add: file_refs_def)
    moreover have "finite (file_refs s' (f_inode gl))" by (rule finite_subset [OF _ fin(1)]) (auto simp: file_refs_def)
    ultimately show ?thesis by (auto simp: refs_def card_gt_0_iff)
  qed
  have pos_refs': "0 < refs s' (dir_inode dr)" if "dirs s' q = Some dr" for q dr
  proof -
    have "q \<in> dir_refs s' (dir_inode dr)" using that by (simp add: dir_refs_def)
    moreover have "finite (dir_refs s' (dir_inode dr))" by (rule finite_subset [OF _ fin(2)]) (auto simp: dir_refs_def)
    ultimately show ?thesis by (auto simp: refs_def card_gt_0_iff)
  qed
  have "tables_ok s'"
    unfolding tables_ok_def
  proof (intro conjI allI impI ballI, goal_cases)
    case (3 g)
    then show ?case using T(3,5) F same(1) by fastforce
  next
    case (4 g)
    then have "g \<le> allocs s" using T(3,5) F same(1) by fastforce
    then show ?case using same(3) by simp
  next
    case (5 g gl)
    then show ?case using F by blast
  next
    case (6 g gl)
    obtain gl' where g: "files s g = Some gl'" "f_inode gl' = f_inode gl" using F [OF 6] by blast
    obtain z where z: "inodes s (f_inode gl) = Some z" "g \<noteq> free_map_file s \<longrightarrow> i_sector z \<noteq> 0 \<and> i_sector z \<noteq> 1" using T(4) [OF g(1)] g(2) by auto
    obtain z' where z': "inodes s' (f_inode gl) = Some z'" using core_node [OF c pos_refs [OF 6]] by blast
    have "i_sector z' = i_sector z" using k z(1) z' unfolding nodes_keep_def by blast
    then show ?case using z' z(2) same(2) by simp
  next
    case (7 q dr)
    then show ?case using T(5) same(1) by auto
  next
    case (8 q dr)
    then have g: "dirs s q = Some dr" using same(1) by simp
    obtain z where z: "inodes s (dir_inode dr) = Some z" "i_sector z = 1" using T(6) [OF g] by blast
    obtain z' where z': "inodes s' (dir_inode dr) = Some z'" using core_node [OF c pos_refs' [OF 8]] by blast
    have "i_sector z' = i_sector z" using k z(1) z' unfolding nodes_keep_def by blast
    then show ?case using z' z(2) by simp
  qed (use fin in auto)
  then show ?thesis using c by (simp add: fs_inv_def)
qed

text \<open>A file of the user with its inode.\<close>

definition user_file :: "'a fsys_scheme \<Rightarrow> ptr \<Rightarrow> ofile \<Rightarrow> inode \<Rightarrow> bool" where
  "user_file s f fl ino \<longleftrightarrow> files s f = Some fl \<and> f \<noteq> free_map_file s \<and> inodes s (f_inode fl) = Some ino"

lemma user_file_sector:
  assumes "fs_inv d off n s" and "user_file s f fl ino"
  shows "i_sector ino \<noteq> 0" and "i_sector ino \<noteq> 1" and "unat (i_sector ino) \<notin> {0, 1}" and "f \<noteq> 0" and "0 \<le> pos fl"
proof -
  have t: "tables_ok s" using assms(1) by (simp add: fs_inv_def)
  have u: "files s f = Some fl" "f \<noteq> free_map_file s" "inodes s (f_inode fl) = Some ino" using assms(2) by (simp_all add: user_file_def)
  show i: "i_sector ino \<noteq> 0" "i_sector ino \<noteq> 1" using tablesD(4) [OF t u(1)] u(2,3) by auto
  then show "unat (i_sector ino) \<notin> {0, 1}" using unat_eq_iff32 [of "i_sector ino" 0] unat_eq_iff32 [of "i_sector ino" 1] by simp
  show "f \<noteq> 0" "0 \<le> pos fl" using tablesD(3) [OF t u(1)] by simp_all
qed

lemma refs_file_upd:
  assumes "files s f = Some fl" and "files s' = (files s)(f \<mapsto> fl')" and "f_inode fl' = f_inode fl" and "dirs s' = dirs s"
  shows "refs s' = refs s" and "deny_write fl' = deny_write fl \<Longrightarrow> denies s' = denies s"
proof -
  have "file_refs s' i = file_refs s i" for i using assms by (auto simp: file_refs_def)
  then show "refs s' = refs s" using assms(4) by (simp add: refs_def dir_refs_def fun_eq_iff)
  have "deny_refs s' i = deny_refs s i" if "deny_write fl' = deny_write fl" for i using assms that by (auto simp: deny_refs_def)
  then show "deny_write fl' = deny_write fl \<Longrightarrow> denies s' = denies s" by (simp add: denies_def fun_eq_iff)
qed

lemma refs_file_del:
  assumes t: "tables_ok s" and f: "files s f = Some fl" "files s' = (files s)(f := None)" "dirs s' = dirs s" "\<not> deny_write fl"
  shows "refs s' = (refs s)(f_inode fl := refs s (f_inode fl) - 1)" and "denies s' = denies s"
proof -
  have "file_refs s' i = (if i = f_inode fl then file_refs s i - {f} else file_refs s i)" for i
    using f(1,2) by (auto simp: file_refs_def)
  moreover have "f \<in> file_refs s (f_inode fl)" using f(1) by (simp add: file_refs_def)
  moreover have "dir_refs s' i = dir_refs s i" for i by (simp add: dir_refs_def f(3))
  moreover have "card (file_refs s (f_inode fl)) > 0" using calculation(2) finite_refs(1) [OF t] by (auto simp: card_gt_0_iff)
  ultimately show "refs s' = (refs s)(f_inode fl := refs s (f_inode fl) - 1)"
    using finite_refs(1) [OF t] by (auto simp: refs_def fun_eq_iff)
  have "deny_refs s' i = deny_refs s i" for i using f by (auto simp: deny_refs_def)
  then show "denies s' = denies s" by (simp add: denies_def fun_eq_iff)
qed

end
