(* ===== verification/Fs_Files.thy ===== *)
theory Fs_Files
  imports Fs_Api
begin

text \<open>
  Operations on open files keep the invariant of the file system, and sequences of
  calls of the whole interface: no call of a program fails an assertion.
\<close>

section \<open>Reading, writing, seeking\<close>

lemma user_fileD: "user_file s f fl ino \<Longrightarrow> files s f = Some fl \<and> f \<noteq> free_map_file s \<and> inodes s (f_inode fl) = Some ino"
  by (simp add: user_file_def)

text \<open>Changing an open file's position.\<close>

lemma fs_inv_pos:
  fixes s s1 :: "'a fsys_scheme"
  assumes inv: "fs_inv d off n s" and u: "user_file s f fl ino" and p: "0 \<le> q"
    and c: "core d off n (refs s) (denies s) s1" and f1: "files s1 = files s" "dirs s1 = dirs s" "free_map_file s1 = free_map_file s"
      "inodes s1 = inodes s" "allocs s \<le> allocs s1"
  shows "fs_inv d off n (s1\<lparr>files := (files s1)(f \<mapsto> fl\<lparr>pos := q\<rparr>)\<rparr>)" (is "fs_inv d off n ?s")
proof -
  have u': "files s f = Some fl" "f \<noteq> free_map_file s" "inodes s (f_inode fl) = Some ino" using user_fileD [OF u] by simp_all
  have ff: "files ?s = (files s)(f \<mapsto> fl\<lparr>pos := q\<rparr>)" "dirs ?s = dirs s" using f1 by simp_all
  have "refs ?s = refs s" "denies ?s = denies s"
    using refs_file_upd [of s f fl ?s "fl\<lparr>pos := q\<rparr>"] u'(1) ff by simp_all
  moreover have "core d off n (refs s) (denies s) ?s"
    using core_files [OF c, of "(files s1)(f \<mapsto> fl\<lparr>pos := q\<rparr>)"] u'(2) f1(3) by simp
  ultimately have "core d off n (refs ?s) (denies ?s) ?s" by simp
  moreover have "nodes_keep s ?s" using f1(4) by (simp add: nodes_keep_def)
  ultimately show ?thesis using p f1 by (intro fs_inv_file [OF inv _ _ u'(1) ff(1)]) auto
qed

lemma view_files [simp]:
  "names d off (s\<lparr>files := F\<rparr>) = names d off s" "dino d off (s\<lparr>files := F\<rparr>) = dino d off s"
  "file_bytes d off (s\<lparr>files := F\<rparr>) = file_bytes d off s"
  using files_cong [of d off "s\<lparr>files := F\<rparr>" s] by simp_all

lemma file_read_inv:
  assumes inv: "fs_inv d off n s" and u: "user_file s f fl ino"
  shows "\<exists>s'. file_read f sz s = Some (take (nat sz) (drop (nat (pos fl)) (file_bytes d off s (unat (i_sector ino)))), s') \<and>
    fs_inv d off n s' \<and> names d off s' = names d off s \<and> file_bytes d off s' = file_bytes d off s \<and>
    inodes s' = inodes s \<and> free_map_file s' = free_map_file s \<and> (let cs = file_bytes d off s (unat (i_sector ino)) in
    files s' = (files s)(f \<mapsto> fl\<lparr>pos := pos fl + int (min (nat sz) (length cs - nat (pos fl)))\<rparr>))"
proof -
  have c: "core d off n (refs s) (denies s) s" using inv by (simp add: fs_inv_def)
  have u': "files s f = Some fl" "inodes s (f_inode fl) = Some ino" using user_fileD [OF u] by simp_all
  let ?bs = "take (nat sz) (drop (nat (pos fl)) (file_bytes d off s (unat (i_sector ino))))"
  have "mem_ok s (allocs s)" using coreD(2) [OF c] by (simp add: mem_total_def)
  then obtain s1 where s1: "inode_read_at (f_inode fl) sz (pos fl) s = Some (?bs, s1)" "io s s1" "media s1 = media s"
    using inode_read_at_ok [OF coreD(1) [OF c] u'(2) core_open_file(2) [OF c u'(2)] user_file_sector(5) [OF inv u], of sz]
      core_open_file(3) [OF c u'(2)] by auto
  note c1 = core_read [OF c s1(2,3)] and f1 = io_frame [OF s1(2)]
  let ?s = "s1\<lparr>files := (files s1)(f \<mapsto> fl\<lparr>pos := pos fl + int (length ?bs)\<rparr>)\<rparr>"
  have "fs_inv d off n ?s"
    using user_file_sector(5) [OF inv u] f1 by (intro fs_inv_pos [OF inv u _ c1(1)]) simp_all
  moreover have "file_read f sz s = Some (?bs, ?s)" using u'(1) s1(1) by (simp add: file_read_def)
  ultimately show ?thesis using c1(2,4) f1 by (intro exI [of _ ?s]) (simp add: min.commute)
qed

lemma file_write_inv:
  assumes inv: "fs_inv d off n s" and u: "user_file s f fl ino" and b: "length buf = nat sz"
  shows "\<exists>k s'. file_write f buf sz s = Some (int k, s') \<and> fs_inv d off n s' \<and> names d off s' = names d off s \<and>
    files s' = (files s)(f \<mapsto> fl\<lparr>pos := pos fl + int k\<rparr>) \<and> inodes s' = inodes s \<and> free_map_file s' = free_map_file s \<and>
    (let x = unat (i_sector ino); cs = file_bytes d off s x in
     k = (if denies s (f_inode fl) = 0 then min (nat sz) (length cs - nat (pos fl)) else 0) \<and>
     file_bytes d off s' x = (if k = 0 then cs else overlay cs (nat (pos fl)) (take k buf)) \<and>
     (\<forall>y \<in> live (names d off s) (inodes s). y \<noteq> x \<longrightarrow> file_bytes d off s' y = file_bytes d off s y))"
proof -
  have c: "core d off n (refs s) (denies s) s" using inv by (simp add: fs_inv_def)
  have u': "files s f = Some fl" "inodes s (f_inode fl) = Some ino" using user_fileD [OF u] by simp_all
  note o = core_open [OF c u'(2)] and sec = user_file_sector [OF inv u]
  let ?x = "unat (i_sector ino)"
  have cl: "length (file_bytes d off s ?x) = len ino" using core_open_file(3) [OF c u'(2), symmetric] by simp
  show ?thesis
  proof (cases "denies s (f_inode fl) = 0")
    case False
    then have w: "inode_write_at (f_inode fl) buf sz (pos fl) s = Some (int 0, s)" using u'(2) o(4) by (simp add: inode_write_at_def)
    let ?s = "s\<lparr>files := (files s)(f \<mapsto> fl\<lparr>pos := pos fl + int 0\<rparr>)\<rparr>"
    have "fs_inv d off n ?s" using sec(5) by (intro fs_inv_pos [OF inv u _ c]) simp_all
    moreover have "file_write f buf sz s = Some (int 0, ?s)" using u'(1) w by (simp add: file_write_def)
    ultimately show ?thesis using False by (intro exI [of _ 0] exI [of _ ?s]) simp
  next
    case True
    then have dw: "deny_write_cnt ino = 0" using o(4) by simp
    have bl: "nat sz \<le> length buf" using b by simp
    have mk: "mem_ok s (allocs s)" using coreD(2) [OF c] by (simp add: mem_total_def)
    from inode_write_at_ok [OF coreD(1) [OF c] u'(2) core_open_file(2) [OF c u'(2)] sec(5) bl dw] mk
    obtain s1 k where s1: "inode_write_at (f_inode fl) buf sz (pos fl) s = Some (int k, s1)" "io s s1" "fsdev d off n s1"
      "written_bytes d off n s s1 (base ino + nat (pos fl)) (take k buf)" "k \<le> length buf" "k = 0 \<or> nat (pos fl) + k \<le> len ino"
      "k = min (nat sz) (len ino - nat (pos fl))" by blast
    have fit: "take k buf = [] \<or> nat (pos fl) + length (take k buf) \<le> len ino" using s1(5,6) by auto
    note W = core_written [OF c u'(2) s1(2-4) fit]
    note c1 = W(3) [OF sec(3)] and f1 = io_frame [OF s1(2)]
    have nm: "names d off s1 = names d off s" using W(4) sec(3) by simp
    have xl: "?x \<in> live (names d off s) (inodes s)" by (rule open_live [of "inodes s" "f_inode fl", OF u'(2)])
    let ?s = "s1\<lparr>files := (files s1)(f \<mapsto> fl\<lparr>pos := pos fl + int k\<rparr>)\<rparr>"
    have i: "fs_inv d off n ?s" using sec(5) f1 by (intro fs_inv_pos [OF inv u _ c1]) simp_all
    have run: "file_write f buf sz s = Some (int k, ?s)" using u'(1) s1(1) by (simp add: file_write_def)
    have e1: "content d off s1 ino = file_bytes d off s1 ?x" "content d off s ino = file_bytes d off s ?x"
      using core_open_file(3) [OF c1, of "f_inode fl" ino] u'(2) f1(1) core_open_file(3) [OF c u'(2)] by simp_all
    have ok: "ino_ok n ino" by (rule core_open_file(2) [OF c u'(2)])
    have "file_bytes d off s1 ?x = (if k = 0 then file_bytes d off s ?x else overlay (file_bytes d off s ?x) (nat (pos fl)) (take k buf))"
    proof (cases "k = 0")
      case True
      then show ?thesis using content_apart [OF s1(4) ok] e1 by simp
    next
      case False
      then have "nat (pos fl) + length (take k buf) \<le> len ino" using s1(5,6) by simp
      then show ?thesis using content_overlay [OF s1(4) _ ok] e1 False by simp
    qed
    moreover have "\<forall>y \<in> live (names d off s) (inodes s). y \<noteq> ?x \<longrightarrow> file_bytes d off s1 y = file_bytes d off s y" using W(2) by blast
    ultimately show ?thesis
      using run i nm f1(1,2,6) s1(7) True cl by (intro exI [of _ k] exI [of _ ?s]) (simp add: Let_def)
  qed
qed

section \<open>Denying writes\<close>

lemma denies_less:
  assumes t: "tables_ok s" and f: "files s f = Some fl" "\<not> deny_write fl"
  shows "Suc (denies s (f_inode fl)) \<le> refs s (f_inode fl)"
proof -
  have "insert f (deny_refs s (f_inode fl)) \<subseteq> file_refs s (f_inode fl)" "f \<notin> deny_refs s (f_inode fl)"
    using f by (auto simp: deny_refs_def file_refs_def)
  then have "card (insert f (deny_refs s (f_inode fl))) \<le> card (file_refs s (f_inode fl))"
    using card_mono [OF finite_refs(1) [OF t]] by blast
  then show ?thesis using \<open>f \<notin> _\<close> finite_refs(3) [OF t] by (simp add: denies_def refs_def)
qed

lemma denies_upd:
  assumes t: "tables_ok s" and f: "files s f = Some fl" "files s' = (files s)(f \<mapsto> fl\<lparr>deny_write := b\<rparr>)" "deny_write fl = (\<not> b)"
  shows "denies s' = (denies s)(f_inode fl := if b then Suc (denies s (f_inode fl)) else denies s (f_inode fl) - 1)"
proof -
  have e: "deny_refs s' i = (if i = f_inode fl then if b then insert f (deny_refs s i) else deny_refs s i - {f} else deny_refs s i)" for i
    using f by (auto simp: deny_refs_def)
  have "b \<Longrightarrow> f \<notin> deny_refs s i" "\<not> b \<Longrightarrow> f \<in> deny_refs s (f_inode fl)" for i using f(1,3) by (auto simp: deny_refs_def)
  then show ?thesis using finite_refs(3) [OF t] by (auto simp: denies_def e fun_eq_iff)
qed

text \<open>The flag of a file and the counter of its inode change together.\<close>

lemma fs_inv_deny:
  assumes inv: "fs_inv d off n s" and u: "user_file s f fl ino" and b: "deny_write fl = (\<not> b)"
    and s': "s' = s\<lparr>files := (files s)(f \<mapsto> fl\<lparr>deny_write := b\<rparr>),
       inodes := (inodes s)(f_inode fl \<mapsto> ino\<lparr>deny_write_cnt := deny_write_cnt ino + (if b then 1 else - 1)\<rparr>)\<rparr>"
  shows "fs_inv d off n s'" and "0 < deny_write_cnt ino \<or> b" and "deny_write_cnt ino + (if b then 1 else 0) \<le> open_cnt ino"
    and "user_file s' f (fl\<lparr>deny_write := b\<rparr>) (ino\<lparr>deny_write_cnt := deny_write_cnt ino + (if b then 1 else - 1)\<rparr>)"
proof -
  let ?i = "f_inode fl" and ?fl = "fl\<lparr>deny_write := b\<rparr>" and ?ino = "ino\<lparr>deny_write_cnt := deny_write_cnt ino + (if b then 1 else - 1)\<rparr>"
  have c: "core d off n (refs s) (denies s) s" and t: "tables_ok s" using inv by (simp_all add: fs_inv_def)
  have u': "files s f = Some fl" "f \<noteq> free_map_file s" "inodes s ?i = Some ino" using user_fileD [OF u] by simp_all
  note o = core_open [OF c u'(3)] and sec = user_file_sector [OF inv u]
  have fs: "files s' = (files s)(f \<mapsto> ?fl)" "dirs s' = dirs s" by (simp_all add: s')
  note dn = denies_upd [OF t u'(1) fs(1) b] and rf = refs_file_upd(1) [OF u'(1) fs(1) _ fs(2)]
  have q1: "Suc (denies s ?i) \<le> refs s ?i" if b using denies_less [OF t u'(1)] b that by simp
  have q2: "0 < denies s ?i" if "\<not> b"
  proof -
    have "f \<in> deny_refs s ?i" using u'(1) b that by (simp add: deny_refs_def)
    then show ?thesis using finite_refs(3) [OF t] by (auto simp: denies_def card_gt_0_iff)
  qed
  show "0 < deny_write_cnt ino \<or> b" using o(4) q2 by auto
  show "deny_write_cnt ino + (if b then 1 else 0) \<le> open_cnt ino" using o(2,4,5) q1 by auto
  let ?s1 = "s\<lparr>files := (files s)(f \<mapsto> ?fl)\<rparr>"
  have c1: "core d off n (refs s) (denies s) ?s1" by (rule core_files [OF c]) (use u'(2) in simp)
  have "node_ok (dino d off ?s1) (names d off ?s1) (refs s ?i) (denies s' ?i) ?ino"
    using o q1 q2 sec(3) unfolding dn node_ok_def by (auto simp: of_nat_diff)
  then have "core d off n ((refs s)(?i := refs s ?i)) ((denies s)(?i := denies s' ?i)) (?s1\<lparr>inodes := (inodes ?s1)(?i \<mapsto> ?ino)\<rparr>)"
    by (rule core_update_inode [OF c1, rotated 2]) (use u'(3) in simp_all)
  moreover have "(denies s)(?i := denies s' ?i) = denies s'" unfolding dn by simp
  ultimately have c': "core d off n (refs s') (denies s') s'" using rf by (simp add: s')
  have nk: "nodes_keep s s'" using u'(3) by (auto simp: nodes_keep_def s')
  show "fs_inv d off n s'"
    by (rule fs_inv_file [OF inv c' nk u'(1) fs(1)]) (use sec(5) in \<open>auto simp: s'\<close>)
  show "user_file s' f ?fl ?ino" using u'(2) by (simp add: user_file_def s')
qed

lemma view_inodes [simp]:
  "names d off (s\<lparr>inodes := I\<rparr>) = names d off s" "dino d off (s\<lparr>inodes := I\<rparr>) = dino d off s"
  "file_bytes d off (s\<lparr>inodes := I\<rparr>) = file_bytes d off s"
  using files_cong [of d off "s\<lparr>inodes := I\<rparr>" s] by simp_all

lemma file_deny_write_inv:
  assumes inv: "fs_inv d off n s" and u: "user_file s f fl ino"
  shows "\<exists>s'. file_deny_write f s = Some s' \<and> fs_inv d off n s' \<and> names d off s' = names d off s \<and>
    file_bytes d off s' = file_bytes d off s \<and> files s' = (files s)(f \<mapsto> fl\<lparr>deny_write := True\<rparr>) \<and>
    nodes_keep s s' \<and> free_map_file s' = free_map_file s"
proof (cases "deny_write fl")
  case True
  then have "file_deny_write f s = Some s" using user_fileD [OF u] user_file_sector(4) [OF inv u] by (simp add: file_deny_write_def)
  moreover have "fl\<lparr>deny_write := True\<rparr> = fl" using True by simp
  ultimately show ?thesis using inv user_fileD [OF u] by (intro exI [of _ s]) (simp add: fun_upd_idem nodes_keep_def)
next
  case False
  let ?s = "s\<lparr>files := (files s)(f \<mapsto> fl\<lparr>deny_write := True\<rparr>),
       inodes := (inodes s)(f_inode fl \<mapsto> ino\<lparr>deny_write_cnt := deny_write_cnt ino + (if True then 1 else - 1)\<rparr>)\<rparr>"
  note d = fs_inv_deny [OF inv u, of True ?s]
  have "file_deny_write f s = Some ?s"
    using user_fileD [OF u] user_file_sector(4) [OF inv u] False d(3) by (simp add: file_deny_write_def inode_deny_write_def Let_def)
  moreover have "nodes_keep s ?s" using user_fileD [OF u] by (simp add: nodes_keep_def)
  ultimately show ?thesis using d(1) False by (intro exI [of _ ?s]) simp
qed

lemma file_allow_write_inv:
  assumes inv: "fs_inv d off n s" and u: "user_file s f fl ino"
  shows "\<exists>s' ino'. file_allow_write f s = Some s' \<and> fs_inv d off n s' \<and> names d off s' = names d off s \<and>
    file_bytes d off s' = file_bytes d off s \<and> dino d off s' = dino d off s \<and> files s' = (files s)(f \<mapsto> fl\<lparr>deny_write := False\<rparr>) \<and>
    user_file s' f (fl\<lparr>deny_write := False\<rparr>) ino' \<and> i_sector ino' = i_sector ino \<and> removed ino' = removed ino \<and>
    idata ino' = idata ino \<and> free_map s' = free_map s \<and> free_map_file s' = free_map_file s \<and>
    inodes s' = (inodes s)(f_inode fl \<mapsto> ino') \<and> refs s' = refs s"
proof (cases "deny_write fl")
  case False
  then have "file_allow_write f s = Some s" using user_fileD [OF u] user_file_sector(4) [OF inv u] by (simp add: file_allow_write_def)
  moreover have e: "fl\<lparr>deny_write := False\<rparr> = fl" using False by simp
  ultimately show ?thesis using inv u user_fileD [OF u] by (intro exI [of _ s] exI [of _ ino]) (simp add: fun_upd_idem)
next
  case True
  let ?ino = "ino\<lparr>deny_write_cnt := deny_write_cnt ino + (if False then 1 else - 1)\<rparr>"
  let ?s = "s\<lparr>files := (files s)(f \<mapsto> fl\<lparr>deny_write := False\<rparr>), inodes := (inodes s)(f_inode fl \<mapsto> ?ino)\<rparr>"
  note d = fs_inv_deny [OF inv u, of False ?s]
  have "refs ?s = refs s" using refs_file_upd(1) [of s f fl ?s "fl\<lparr>deny_write := False\<rparr>"] user_fileD [OF u] by simp
  moreover have "file_allow_write f s = Some ?s"
    using user_fileD [OF u] user_file_sector(4) [OF inv u] True d(2,3) by (simp add: file_allow_write_def inode_allow_write_def)
  ultimately show ?thesis using d(1,4) True by (intro exI [of _ ?s] exI [of _ ?ino]) simp
qed

section \<open>Closing and reopening\<close>

lemma file_close_inv:
  assumes inv: "fs_inv d off n s" and u: "user_file s f fl ino"
  shows "\<exists>s'. file_close f s = Some s' \<and> fs_inv d off n s' \<and> names d off s' = names d off s \<and> files s' = (files s)(f := None) \<and>
    free_map_file s' = free_map_file s \<and> nodes_keep s s' \<and> keeps d off (live (names d off s') (inodes s')) s s' \<and>
    bm_abs (free_map s') = (if refs s (f_inode fl) = 1 \<and> removed ino then freed ino (bm_abs (free_map s)) else bm_abs (free_map s))"
proof -
  let ?fl = "fl\<lparr>deny_write := False\<rparr>"
  obtain s1 ino1 where s1: "file_allow_write f s = Some s1" "fs_inv d off n s1" "names d off s1 = names d off s"
    "file_bytes d off s1 = file_bytes d off s" "dino d off s1 = dino d off s" "files s1 = (files s)(f \<mapsto> ?fl)"
    "user_file s1 f ?fl ino1" "i_sector ino1 = i_sector ino" "removed ino1 = removed ino" "idata ino1 = idata ino"
    "free_map s1 = free_map s" "free_map_file s1 = free_map_file s" "inodes s1 = (inodes s)(f_inode fl \<mapsto> ino1)" "refs s1 = refs s"
    using file_allow_write_inv [OF inv u] by blast
  let ?i = "f_inode fl"
  have c1: "core d off n (refs s1) (denies s1) s1" and t1: "tables_ok s1" using s1(2) by (simp_all add: fs_inv_def)
  have u1: "files s1 f = Some ?fl" "f \<noteq> free_map_file s1" "inodes s1 ?i = Some ino1" using user_fileD [OF s1(7)] by simp_all
  have q: "Suc (denies s1 ?i) \<le> refs s1 ?i" using denies_less [OF t1 u1(1)] by simp
  have nz: "i_sector ino1 \<noteq> 0" using user_file_sector(1) [OF s1(2,7)] .
  from inode_close_ok [OF c1 u1(3) q nz] obtain s2 where s2: "inode_close ?i s1 = Some s2"
    "core d off n ((refs s1)(?i := refs s1 ?i - 1)) (denies s1) s2" "names d off s2 = names d off s1"
    "\<forall>k \<in> live (names d off s1) (if refs s1 ?i = 1 then (inodes s1)(?i := None) else inodes s1). dino d off s2 k = dino d off s1 k \<and>
       (k \<noteq> 0 \<longrightarrow> file_bytes d off s2 k = file_bytes d off s1 k)"
    "files s2 = files s1" "dirs s2 = dirs s1" "free_map_file s2 = free_map_file s1" "allocs s1 \<le> allocs s2"
    "inodes s2 = (inodes s1)(?i := if refs s1 ?i = 1 then None else Some (ino1\<lparr>open_cnt := open_cnt ino1 - 1\<rparr>))"
    "bm_abs (free_map s2) = (if refs s1 ?i = 1 \<and> removed ino1 then freed ino1 (bm_abs (free_map s1)) else bm_abs (free_map s1))" by blast
  let ?s = "s2\<lparr>files := (files s2)(f := None)\<rparr>"
  have fs: "files ?s = (files s1)(f := None)" "dirs ?s = dirs s1" using s2(5,6) by simp_all
  note rf = refs_file_del [OF t1 u1(1) fs]
  have "core d off n ((refs s1)(?i := refs s1 ?i - 1)) (denies s1) ?s" by (rule core_files [OF s2(2)]) (use u1(2) s2(7) in simp)
  then have c': "core d off n (refs ?s) (denies ?s) ?s" using rf by simp
  have nk: "nodes_keep s1 ?s" using u1(3) s2(9) by (auto simp: nodes_keep_def)
  have fi: "fs_inv d off n ?s"
    by (rule fs_inv_file [OF s1(2) c' nk u1(1) fs(1)]) (use s2(6-8) in auto)
  have run: "file_close f s = Some ?s"
    using s1(1) u1(1) s2(1,5) user_file_sector(4) [OF inv u] by (simp add: file_close_def)
  have "live (names d off s1) (inodes s2) \<subseteq> live (names d off s1) (if refs s1 ?i = 1 then (inodes s1)(?i := None) else inodes s1)"
  proof (cases "refs s1 ?i = 1")
    case True
    then show ?thesis using s2(9) by simp
  next
    case False
    have "live (names d off s1) (inodes s2) = live (names d off s1) (inodes s1)"
      using live_update [of "inodes s1" ?i ino1 "ino1\<lparr>open_cnt := open_cnt ino1 - 1\<rparr>"] u1(3) s2(9) False by simp
    then show ?thesis using False by simp
  qed
  from keeps_mono [OF s2(4) [folded keeps_def] this]
  have "keeps d off (live (names d off ?s) (inodes ?s)) s ?s" using s1(4,5) s2(3) by (simp add: keeps_def)
  moreover have "nodes_keep s ?s" using s1(8,13) s2(9) user_fileD [OF u] by (auto simp: nodes_keep_def split: if_splits)
  moreover have "freed ino1 = freed ino" using s1(8,10) by (simp add: freed_def fun_eq_iff)
  ultimately show ?thesis
    using run fi fs(1) s1(3,6,9,11,12,14) s2(3,7,10) by (intro exI [of _ ?s]) simp
qed

lemma file_reopen_inv:
  assumes inv: "fs_inv d off n s" and u: "user_file s f fl ino"
  shows "\<exists>f' s'. file_reopen f s = Some (f', s') \<and> fs_inv d off n s' \<and> names d off s' = names d off s \<and>
    file_bytes d off s' = file_bytes d off s \<and> f' \<noteq> 0 \<and> files s f' = None \<and> free_map_file s' = free_map_file s \<and>
    files s' = (files s)(f' \<mapsto> \<lparr>f_inode = f_inode fl, pos = 0, deny_write = False\<rparr>) \<and> nodes_keep s s'"
proof -
  let ?i = "f_inode fl" and ?ino = "ino\<lparr>open_cnt := open_cnt ino + 1\<rparr>"
  have c: "core d off n (refs s) (denies s) s" and t: "tables_ok s" using inv by (simp_all add: fs_inv_def)
  have u': "files s f = Some fl" "f \<noteq> free_map_file s" "inodes s ?i = Some ino" using user_fileD [OF u] by simp_all
  note sec = user_file_sector [OF inv u]
  let ?s1 = "s\<lparr>inodes := (inodes s)(?i \<mapsto> ?ino)\<rparr>"
  note c1 = core_reopen [OF c u'(3)]
  have i0: "?i \<noteq> 0" using core_open(9) [OF c u'(3)] by simp
  obtain fl0 where "files s (free_map_file s) = Some fl0" using coreD(10) [OF c] by blast
  then have "free_map_file s \<le> allocs s" using tablesD(3) [OF t] by blast
  then have fm: "free_map_file ?s1 \<le> allocs ?s1" by simp
  obtain f' s2 where s2: "file_open ?i ?s1 = Some (f', s2)" "core d off n ((refs s)(?i := Suc (refs s ?i))) (denies s) s2"
    "f' = Suc (allocs ?s1)" "allocs s2 = f'" "files s2 = (files ?s1)(f' \<mapsto> \<lparr>f_inode = ?i, pos = 0, deny_write = False\<rparr>)"
    "inodes s2 = inodes ?s1" "dirs s2 = dirs ?s1" "free_map_file s2 = free_map_file ?s1" "names d off s2 = names d off ?s1"
    "file_bytes d off s2 = file_bytes d off ?s1"
    using file_open_ok [OF c1(2) i0 fm] by blast
  have nk: "nodes_keep s s2" using u'(3) s2(6) by (auto simp: nodes_keep_def)
  have fl': "files s2 = (files s)(f' \<mapsto> \<lparr>f_inode = ?i, pos = 0, deny_write = False\<rparr>)" "allocs s < f'" using s2(3,5) by simp_all
  have i2: "inodes s2 ?i = Some ?ino" using s2(6) by simp
  have "fs_inv d off n s2"
    by (rule fs_inv_open_file [OF inv _ nk fl' _ _ _ _ _ _ _ _, where ino = ?ino]) (use s2(2,4,7,8) i2 sec in simp_all)
  moreover have "file_reopen f s = Some (f', s2)" using u'(1) c1(1) s2(1) by (simp add: file_reopen_def)
  moreover have "files s f' = None" using tablesD(7) [OF t fl'(2)] by simp
  ultimately show ?thesis using nk fl' s2(3,8,9,10) by (intro exI [of _ f'] exI [of _ s2]) simp
qed

lemma file_seek_inv:
  assumes inv: "fs_inv d off n s" and u: "user_file s f fl ino" and p: "0 \<le> p"
  shows "\<exists>s'. file_seek f p s = Some s' \<and> fs_inv d off n s' \<and> names d off s' = names d off s \<and>
    file_bytes d off s' = file_bytes d off s \<and> files s' = (files s)(f \<mapsto> fl\<lparr>pos := p\<rparr>) \<and> inodes s' = inodes s \<and>
    free_map_file s' = free_map_file s"
proof -
  let ?s = "s\<lparr>files := (files s)(f \<mapsto> fl\<lparr>pos := p\<rparr>)\<rparr>"
  have c: "core d off n (refs s) (denies s) s" using inv by (simp add: fs_inv_def)
  have "fs_inv d off n ?s" by (rule fs_inv_pos [OF inv u p c]) simp_all
  moreover have "file_seek f p s = Some ?s" using user_fileD [OF u] user_file_sector(4) [OF inv u] p by (simp add: file_seek_def)
  ultimately show ?thesis by (intro exI [of _ ?s]) simp
qed

end
