(* ===== verification/Fs_Mount.thy ===== *)
theory Fs_Mount
  imports Fs_Files
begin

text \<open>
  Starting the file system (\<open>filesys_init\<close>): mounting a disk that holds a file
  system, and formatting one that does not. Both establish the invariant of theory
  \<open>Fs_Api\<close>; mounting finds the names and contents that were on the disk.
\<close>

section \<open>Reading the free map\<close>

lemma words_of_put32: "words_of (concat (map put32 ws) @ []) = ws"
proof (induction ws)
  case (Cons w ws)
  have "get32 (put32 w @ []) 0 = w" by (rule get32_put32)
  then have "get32 [ucast w, ucast (drop_bit 8 w), ucast (drop_bit 16 w), ucast (drop_bit 24 w)] 0 = w" by (simp add: put32_def)
  then show ?case using Cons by (simp add: put32_def)
qed simp

lemma same_div_mod_less: "(i :: nat) < n \<Longrightarrow> i div c = n div c \<Longrightarrow> i mod c < n mod c"
  by (metis div_mult_mod_eq nat_add_left_cancel_less)

lemma last_word_index:
  assumes "(n :: nat) mod 32 \<noteq> 0"
  shows "(n + 31) div 32 - 1 = n div 32"
proof -
  define q r where "q = n div 32" and "r = n mod 32"
  have n: "n = 32 * q + r" and "0 < r" "r < 32" using assms by (simp_all add: q_def r_def)
  then have "(n + 31) div 32 = q + 1" by (simp add: div_nat_eqI)
  then show ?thesis by (simp add: q_def)
qed

lemma bit_last_mask:
  assumes "bm_inv b" and "i < unat (bit_cnt b)" and "i div 32 = unat (elem_cnt (bit_cnt b)) - 1"
  shows "bit (last_mask b) (i mod 32)"
proof -
  let ?n = "unat (bit_cnt b)"
  have e: "unat (elem_cnt (bit_cnt b)) = (?n + 31) div 32" using unat_elem_cnt [of "bit_cnt b"] assms(1) by (simp add: bm_inv_def)
  have m: "unat (bit_cnt b mod ELEM_BITS) = ?n mod 32" by (simp add: ELEM_BITS_def unat_mod)
  show ?thesis
  proof (cases "bit_cnt b mod ELEM_BITS = 0")
    case True
    then show ?thesis by (simp add: last_mask_def Let_def)
  next
    case False
    then have "?n mod 32 \<noteq> 0" using m unat_eq_iff32 [of "bit_cnt b mod ELEM_BITS" 0] by simp
    then have "i div 32 = ?n div 32" using last_word_index [of ?n] assms(3) e by metis
    then have "i mod 32 < ?n mod 32" by (rule same_div_mod_less [OF assms(2)])
    moreover have "push_bit (unat (bit_cnt b mod ELEM_BITS)) 1 - 1 = (mask (?n mod 32) :: u32)"
      unfolding m by (simp add: mask_eq_exp_minus_1 push_bit_of_1)
    ultimately show ?thesis using False by (simp add: last_mask_def Let_def bit_mask_iff)
  qed
qed

lemma bitmap_read_ok:
  assumes fm: "fm_file d off n s fi" and cs: "content d off s fi = bits_bytes b'"
    and b': "length (bits b') = length (bits (free_map s))" "bit_cnt b' = bit_cnt (free_map s)" and n: "0 < n"
  shows "\<exists>b s'. bitmap_read (free_map s) (free_map_file s) s = Some (True, b, s') \<and> io s s' \<and> media s' = media s \<and>
    bm_inv b \<and> bit_cnt b = bit_cnt (free_map s) \<and> bm_abs b = bm_abs b' \<and> length (bits b) = length (bits (free_map s))"
proof -
  let ?b = "free_map s"
  obtain fl where F: "fsdev d off n s" "mem_total s" "files s (free_map_file s) = Some fl" "inodes s (f_inode fl) = Some fi"
    "ino_ok n fi" "bm_inv ?b" "unat (bit_cnt ?b) = n" "len fi = 4 * length (bits ?b)"
    using fm by (auto simp: fm_file_def)
  have sz: "sint (byte_cnt (bit_cnt ?b)) = int (4 * length (bits ?b))"
    using sint_byte_cnt [OF F(6)] F(7) fsdev_bound [OF F(1)] by simp
  have l: "length (bits_bytes b') = 4 * length (bits ?b)" using b'(1) by simp
  have "mem_ok s (allocs s)" using F(2) by (simp add: mem_total_def)
  then obtain s' where r: "inode_read_at (f_inode fl) (int (4 * length (bits ?b))) 0 s = Some (bits_bytes b', s')" "io s s'" "media s' = media s"
    using inode_read_at_ok [OF F(1,4,5), of 0 "int (4 * length (bits ?b))"] cs l by (auto simp: nat_mult_distrib)
  let ?k = "unat (elem_cnt (bit_cnt ?b)) - 1"
  let ?ws = "(bits b')[?k := bits b' ! ?k AND last_mask ?b]"
  have w: "words_of (bits_bytes b' @ drop (length (bits_bytes b')) (concat (map put32 (bits ?b)))) = bits b'"
    using words_of_put32 [of "bits b'"] l length_bits_bytes [of ?b] by (simp add: bits_bytes_def)
  have pos: "0 < bit_cnt ?b" using F(7) n by (simp add: word_less_nat_alt)
  have "bitmap_read ?b (free_map_file s) s = Some (True, ?b\<lparr>bits := ?ws\<rparr>, s')"
    using F(3) r(1) w sz l pos by (simp add: bitmap_read_def file_read_at_def Let_def)
  moreover have "bm_inv (?b\<lparr>bits := ?ws\<rparr>)" using F(6) b'(1) by (simp add: bm_inv_def)
  moreover have "bm_abs (?b\<lparr>bits := ?ws\<rparr>) = bm_abs b'"
  proof (rule nth_equalityI)
    show "length (bm_abs (?b\<lparr>bits := ?ws\<rparr>)) = length (bm_abs b')" using b'(2) by simp
    fix i assume "i < length (bm_abs (?b\<lparr>bits := ?ws\<rparr>))"
    then have i: "i < unat (bit_cnt ?b)" by simp
    have "i div 32 < length (bits b')" using i F(6) b'(1) by (auto simp: bm_inv_def less_mult_imp_div_less)
    then have "bit (?ws ! (i div 32)) (i mod 32) = bit (bits b' ! (i div 32)) (i mod 32)"
      using bit_last_mask [OF F(6) i] by (cases "i div 32 = ?k") (auto simp: bit_and_iff)
    then show "bm_abs (?b\<lparr>bits := ?ws\<rparr>) ! i = bm_abs b' ! i" using i b'(2) by (simp add: nth_bm_abs)
  qed
  ultimately show ?thesis using r(2,3) b'(1) by (intro exI [of _ "?b\<lparr>bits := ?ws\<rparr>"] exI [of _ s']) simp
qed

section \<open>Mounting\<close>

text \<open>The device holds a file system whose free map is \<open>b\<close>.\<close>

definition volume :: "nat \<Rightarrow> nat \<Rightarrow> nat \<Rightarrow> bitmap \<Rightarrow> 'a fsys_scheme \<Rightarrow> bool" where
  "volume d off n b s \<longleftrightarrow> fsdev d off n s \<and> bm_inv b \<and> unat (bit_cnt b) = n \<and>
     layout n (named (names d off s)) (dino d off s) (bm_abs b) \<and> names_ok (names d off s) \<and>
     dir_ok (file_bytes d off s 1) \<and> map_sync (file_bytes d off s 0) b"

lemma volumeD:
  assumes "volume d off n b s"
  shows "fsdev d off n s" and "bm_inv b" and "unat (bit_cnt b) = n"
    and "layout n (named (names d off s)) (dino d off s) (bm_abs b)" and "names_ok (names d off s)"
    and "dir_ok (file_bytes d off s 1)" and "map_sync (file_bytes d off s 0) b"
  using assms unfolding volume_def by blast+

lemma fs_inv_volume:
  assumes "fs_inv d off n s"
  shows "volume d off n (free_map s) s"
proof -
  have c: "core d off n (refs s) (denies s) s" using assms by (simp add: fs_inv_def)
  have "named (names d off s) \<subseteq> live (names d off s) (inodes s)" by (auto simp: live_def)
  then show ?thesis using coreD [OF c] layout_mono [OF coreD(5) [OF c]] by (simp add: volume_def)
qed

text \<open>The state at boot: nothing is open.\<close>

definition closed :: "'a fsys_scheme \<Rightarrow> bool" where
  "closed s \<longleftrightarrow> mem_total s \<and> inodes s = Map.empty \<and> open_inodes s = [] \<and> files s = Map.empty \<and> dirs s = Map.empty"

definition opened :: "nat \<Rightarrow> nat \<Rightarrow> (ptr \<Rightarrow> u64) \<Rightarrow> 'a fsys_scheme \<Rightarrow> 'a fsys_scheme" where
  "opened d off cnt s = s\<lparr>allocs := Suc (Suc (allocs s)), open_inodes := [Suc (allocs s)], read_cnt := cnt,
     inodes := [Suc (allocs s) \<mapsto> \<lparr>i_sector = 0, open_cnt = 1, removed = False, deny_write_cnt = 0, idata = dino d off s 0\<rparr>],
     files := [Suc (Suc (allocs s)) \<mapsto> \<lparr>f_inode = Suc (allocs s), pos = 0, deny_write = False\<rparr>],
     free_map_file := Suc (Suc (allocs s))\<rparr>"

lemma open_free_map:
  assumes cl: "closed s" and dev: "fsdev d off n s" and n: "0 < n"
  shows "\<exists>cnt s1 s2. inode_open FREE_MAP_SECTOR s = Some (Suc (allocs s), s1) \<and>
    file_open (Suc (allocs s)) s1 = Some (Suc (Suc (allocs s)), s2) \<and>
    s2\<lparr>free_map_file := Suc (Suc (allocs s))\<rparr> = opened d off cnt s"
proof -
  have C: "mem_total s" "inodes s = Map.empty" "open_inodes s = []" "files s = Map.empty" using cl by (simp_all add: closed_def)
  let ?i = "Suc (allocs s)"
  let ?s1 = "s\<lparr>allocs := ?i, open_inodes := [?i]\<rparr>"
  have m: "maps_to (blocks ?s1) (fs_device s) d off n" using dev by (simp add: fsdev_def)
  have z: "unat (0 :: u32) < n" using n by simp
  obtain cnt where r: "block_read (fs_device s) 0 ?s1 = Some (sect d off s 0, ?s1\<lparr>read_cnt := cnt\<rparr>)"
    using block_read_maps [OF m refl z] by (auto simp: sect_def)
  let ?ino = "\<lparr>i_sector = 0, open_cnt = 1, removed = False, deny_write_cnt = 0, idata = dino d off s 0\<rparr>"
  let ?s2 = "s\<lparr>allocs := ?i, open_inodes := [?i], read_cnt := cnt, inodes := [?i \<mapsto> ?ino]\<rparr>"
  have "inode_open FREE_MAP_SECTOR s = Some (?i, ?s2)"
    using r C by (simp add: inode_open_def malloc_def mem_total_def Let_def dino_def FREE_MAP_SECTOR_def)
  moreover have "file_open ?i ?s2 = Some (Suc ?i, ?s2\<lparr>allocs := Suc ?i, files := [Suc ?i \<mapsto> \<lparr>f_inode = ?i, pos = 0, deny_write = False\<rparr>]\<rparr>)"
    using C by (simp add: file_open_def malloc_def mem_total_def Let_def)
  ultimately show ?thesis by - (intro exI [of _ cnt] exI conjI, assumption, assumption, simp add: opened_def)
qed

lemma opened_simps [simp]:
  "sect d' off' (opened d off cnt s) = sect d' off' s" "fsdev d' off' n' (opened d off cnt s) = fsdev d' off' n' s"
  "mem_total (opened d off cnt s) = mem_total s" "free_map (opened d off cnt s) = free_map s"
  "media (opened d off cnt s) = media s" "dirs (opened d off cnt s) = dirs s" "fs_device (opened d off cnt s) = fs_device s"
  "allocs (opened d off cnt s) = Suc (Suc (allocs s))" "free_map_file (opened d off cnt s) = Suc (Suc (allocs s))"
  by (simp_all add: opened_def sect_def fsdev_def mem_total_def fun_eq_iff)

lemma opened_fm:
  assumes "fsdev d off n s" and "mem_total s" and "dok n (dino d off s 0)" and "bm_inv (free_map s)"
    and "unat (bit_cnt (free_map s)) = n" and "d_length (dino d off s 0) = int (4 * length (bits (free_map s)))"
  shows "fm_file d off n (opened d off cnt s)
    \<lparr>i_sector = 0, open_cnt = 1, removed = False, deny_write_cnt = 0, idata = dino d off s 0\<rparr>"
  using assms dok_ino [of n "\<lparr>i_sector = 0, open_cnt = 1, removed = False, deny_write_cnt = 0, idata = dino d off s 0\<rparr>"]
  by (simp add: fm_file_def) (simp add: opened_def len_def)

lemma opened_refs:
  assumes "files s' = files (opened d off cnt s)" and "dirs s' = Map.empty"
  shows "refs s' = (\<lambda>i. if i = Suc (allocs s) then 1 else 0)" and "denies s' = (\<lambda>_. 0)"
proof -
  have f: "files s' = [Suc (Suc (allocs s)) \<mapsto> \<lparr>f_inode = Suc (allocs s), pos = 0, deny_write = False\<rparr>]"
    using assms(1) by (simp add: opened_def)
  have "file_refs s' i = (if i = Suc (allocs s) then {Suc (Suc (allocs s))} else {})" for i
    unfolding file_refs_def f by auto
  moreover have "dir_refs s' i = {}" for i by (simp add: dir_refs_def assms(2))
  moreover have "deny_refs s' i = {}" for i unfolding deny_refs_def f by simp
  ultimately show "refs s' = (\<lambda>i. if i = Suc (allocs s) then 1 else 0)" "denies s' = (\<lambda>_. 0)"
    by (simp_all add: refs_def denies_def fun_eq_iff)
qed

lemma opened_fs_inv:
  fixes s s' :: "'a fsys_scheme"
  assumes v: "volume d off n b s" and cl: "closed s" and o: "io (opened d off cnt s) s0" "media s0 = media s" and s': "s' = s0\<lparr>free_map := b'\<rparr>"
    and b': "bm_inv b'" "bit_cnt b' = bit_cnt b" "bm_abs b' = bm_abs b"
  shows "fs_inv d off n s'" and "names d off s' = names d off s" and "file_bytes d off s' = file_bytes d off s"
    and "files s' = files (opened d off cnt s)" and "dirs s' = Map.empty" and "inodes s' = inodes (opened d off cnt s)"
proof -
  note V = volumeD [OF v]
  note I = io_frame [OF o(1)]
  have C: "mem_total s" "dirs s = Map.empty" using cl by (simp_all add: closed_def)
  have sec: "sect d off s' = sect d off s" using o(2) s' by (simp add: sect_def fun_eq_iff)
  note E = files_cong [OF sec]
  show "names d off s' = names d off s" "file_bytes d off s' = file_bytes d off s" by (rule E)+
  show fl: "files s' = files (opened d off cnt s)" and dr: "dirs s' = Map.empty" and ins: "inodes s' = inodes (opened d off cnt s)"
    using I s' C by simp_all
  have z: "dino d off s' = dino d off s" "names d off s' = names d off s" by (rule E)+
  let ?i = "Suc (allocs s)"
  let ?ino = "\<lparr>i_sector = 0, open_cnt = 1, removed = False, deny_write_cnt = 0, idata = dino d off s 0\<rparr>"
  have in1: "inodes s' = [?i \<mapsto> ?ino]" using ins by (simp add: opened_def)
  have al: "Suc ?i \<le> allocs s'" using I s' by simp
  have os: "open_inodes s' = [?i]" using I s' by (simp add: opened_def)
  have ff: "free_map_file s' = Suc ?i" using I s' by simp
  have f1: "files s' = [Suc ?i \<mapsto> \<lparr>f_inode = ?i, pos = 0, deny_write = False\<rparr>]" using fl by (simp add: opened_def)
  have lv: "live (names d off s) (inodes s') = named (names d off s)" by (auto simp: live_def in1 named_def)
  have fm: "free_map s' = b'" using s' by simp
  have 1: "itab_ok (dino d off s') (names d off s') (refs s') (denies s') (inodes s') (open_inodes s') (allocs s')"
    unfolding opened_refs [OF fl dr] z os in1
    by (rule itabI) (use al in \<open>auto simp: node_ok_def split: if_splits\<close>)
  have 2: "fsdev d off n s'" using V(1) I o(2) s' by (simp add: fsdev_def opened_def)
  have 3: "mem_total s'" using C I s' by (simp add: mem_total_def opened_def)
  have 4: "layout n (live (names d off s') (inodes s')) (dino d off s') (bm_abs (free_map s'))"
    using V(4) b'(3) unfolding z lv fm by simp
  have 5: "map_sync (file_bytes d off s' 0) (free_map s')"
    using V(2,7) b' unfolding E fm by (auto simp: map_sync_def bm_inv_def)
  have 6: "bm_inv (free_map s')" "unat (bit_cnt (free_map s')) = n" using b' V(3) fm by simp_all
  have 7: "names_ok (names d off s')" "dir_ok (file_bytes d off s' 1)" unfolding E by (rule V)+
  have 8: "\<exists>fl i0. free_map_file s' \<noteq> 0 \<and> files s' (free_map_file s') = Some fl \<and> inodes s' (f_inode fl) = Some i0 \<and> i_sector i0 = 0"
    by (simp add: ff f1 in1)
  have "core d off n (refs s') (denies s') s'" by (rule coreI [OF 2 3 6 4 7(1) 1 7(2) 5 8])
  moreover have "tables_ok s'" using al by (auto simp: tables_ok_def f1 dr in1 ff)
  ultimately show "fs_inv d off n s'" by (simp add: fs_inv_def)
qed

lemma free_map_open_ok:
  fixes s :: "'a fsys_scheme"
  assumes v: "volume d off n b s" and cl: "closed s" and n: "0 < n" and fm: "bm_inv (free_map s)" "bit_cnt (free_map s) = bit_cnt b"
  shows "\<exists>s'. free_map_open s = Some s' \<and> fs_inv d off n s' \<and> names d off s' = names d off s \<and>
    file_bytes d off s' = file_bytes d off s \<and> bm_abs (free_map s') = bm_abs b \<and> dirs s' = Map.empty \<and>
    dom (files s') = {free_map_file s'}"
proof -
  note V = volumeD [OF v]
  obtain cnt s1 s2 where o: "inode_open FREE_MAP_SECTOR s = Some (Suc (allocs s), s1)"
    "file_open (Suc (allocs s)) s1 = Some (Suc (Suc (allocs s)), s2)"
    "s2\<lparr>free_map_file := Suc (Suc (allocs s))\<rparr> = opened d off cnt s"
    using open_free_map [OF cl V(1) n] by blast
  let ?o = "opened d off cnt s"
  let ?ino = "\<lparr>i_sector = 0, open_cnt = 1, removed = False, deny_write_cnt = 0, idata = dino d off s 0\<rparr>"
  have d0: "dok n (dino d off s 0)" using layoutD [OF V(4)] by simp
  obtain b' where b': "file_bytes d off s 0 = bits_bytes b'" "bit_cnt b' = bit_cnt b" "length (bits b') = length (bits b)" "bm_abs b' = bm_abs b"
    using V(7) by (auto simp: map_sync_def)
  have lb: "length (bits (free_map s)) = length (bits b)" using V(2) fm by (simp add: bm_inv_def)
  have cs: "content d off s ?ino = file_bytes d off s 0"
    using content_dnode [of d off s ?ino] by (simp add: file_bytes_def)
  then have "len ?ino = 4 * length (bits b)" using b' length_content [of d off s ?ino] by simp
  then have "d_length (dino d off s 0) = int (4 * length (bits (free_map s)))"
    using d0 lb by (auto simp: len_def dok_def)
  then have f: "fm_file d off n ?o ?ino"
    using opened_fm [OF V(1) _ d0 fm(1), of cnt] cl V(3) fm(2) by (simp add: closed_def)
  have "content d off ?o ?ino = bits_bytes b'" using files_cong(4) [of d off ?o s] cs b'(1) by simp
  then obtain b2 s3 where r: "bitmap_read (free_map s) (Suc (Suc (allocs s))) ?o = Some (True, b2, s3)" "io ?o s3" "media s3 = media s"
    "bm_inv b2" "bit_cnt b2 = bit_cnt (free_map s)" "bm_abs b2 = bm_abs b'"
    using bitmap_read_ok [OF f, of b'] b' lb fm(2) n by auto
  have "free_map s2 = free_map s" using arg_cong [OF o(3), of free_map] by simp
  then have "free_map_open s = Some (s3\<lparr>free_map := b2\<rparr>)" using o r(1) by (simp add: free_map_open_def Let_def)
  moreover note opened_fs_inv [OF v cl r(2,3) refl r(4)] 
  ultimately show ?thesis
    using r(5,6) b'(2,4) fm(2) io_frame(2,6) [OF r(2)] by (intro exI [of _ "s3\<lparr>free_map := b2\<rparr>"]) (simp add: opened_def)
qed

text \<open>The kernel's state when \<open>filesys_init\<close> is called: the file system device is known, nothing is open.\<close>

definition boot :: "nat \<Rightarrow> nat \<Rightarrow> nat \<Rightarrow> 'a fsys_scheme \<Rightarrow> bool" where
  "boot d off n s \<longleftrightarrow> block_by_role s BLOCK_FILESYS \<noteq> 0 \<and> fsdev d off n (s\<lparr>fs_device := block_by_role s BLOCK_FILESYS\<rparr>) \<and>
     mem_total s \<and> inodes s = Map.empty \<and> files s = Map.empty \<and> dirs s = Map.empty \<and> free_map_file s = 0"

lemma free_map_init_ok:
  assumes dev: "fsdev d off n s" and m: "mem_total s" and n: "2 \<le> n" and j: "(n + 31) div 32 \<le> length junk"
  shows "\<exists>b. free_map_init junk s = Some (s\<lparr>allocs := Suc (Suc (allocs s)), free_map := b\<rparr>) \<and> bm_inv b \<and> unat (bit_cnt b) = n \<and>
    bm_abs b = (replicate n False)[0 := True, 1 := True]"
proof -
  obtain blk where blk: "blocks s (fs_device s) = Some blk" "unat (bsize blk) = n"
    using dev maps_to_size [of "blocks s" "fs_device s" d off n] by (auto simp: fsdev_def)
  have b28: "n \<le> 2 ^ 28" using fsdev_bound [OF dev] by simp
  let ?c = "bsize blk"
  have e: "unat (elem_cnt ?c) = (n + 31) div 32" using unat_elem_cnt [of ?c] blk b28 by simp
  obtain b0 where b0: "bitmap_create ?c True (Some (take (unat (elem_cnt ?c)) junk)) = Some (Some b0)" "bm_inv b0" "bit_cnt b0 = ?c"
    "bm_abs b0 = replicate n False"
    using bitmap_create_abs [of ?c "take (unat (elem_cnt ?c)) junk"] blk b28 e j by auto
  have "0 < bit_cnt b0" "1 < bit_cnt b0" using b0(3) blk(2) n by (simp_all add: word_less_nat_alt)
  then obtain b1 where b1: "bitmap_mark b0 FREE_MAP_SECTOR = Some b1" "bm_inv b1" "bit_cnt b1 = ?c" "bm_abs b1 = (replicate n False)[0 := True]"
    "1 < bit_cnt b1"
    using bitmap_set_abs [OF b0(2), of 0 True] b0(3,4) by (auto simp: bitmap_set_def FREE_MAP_SECTOR_def)
  obtain b2 where b2: "bitmap_mark b1 ROOT_DIR_SECTOR = Some b2" "bm_inv b2" "bit_cnt b2 = ?c" "bm_abs b2 = (replicate n False)[0 := True, 1 := True]"
    using bitmap_set_abs [OF b1(2,5), of True] b1(3,4) by (auto simp: bitmap_set_def ROOT_DIR_SECTOR_def)
  have "free_map_init junk s = Some (s\<lparr>allocs := Suc (Suc (allocs s)), free_map := b2\<rparr>)"
    using blk(1) m b0(1) b1(1) b2(1) by (simp add: free_map_init_def block_size_def malloc_def mem_total_def Let_def)
  then show ?thesis using b2 blk(2) by (intro exI [of _ b2]) simp
qed

text \<open>The state when \<open>free_map_open\<close> or \<open>do_format\<close> is called.\<close>

definition started :: "bitmap \<Rightarrow> 'a fsys_scheme \<Rightarrow> 'a fsys_scheme" where
  "started b s = s\<lparr>fs_device := block_by_role s BLOCK_FILESYS, open_inodes := [], allocs := Suc (Suc (allocs s)), free_map := b\<rparr>"

lemma started_simps [simp]: "sect d off (started b s) = sect d off s" "free_map (started b s) = b"
  by (simp_all add: started_def sect_def fun_eq_iff)

lemma filesys_init_start:
  assumes b: "boot d off n s" and n: "2 \<le> n" and j: "(n + 31) div 32 \<le> length junk"
  shows "\<exists>b. filesys_init junk format s =
      do { s \<leftarrow> (if format then do_format (started b s) else Some (started b s)); free_map_open s } \<and>
    bm_inv b \<and> unat (bit_cnt b) = n \<and> bm_abs b = (replicate n False)[0 := True, 1 := True] \<and>
    fsdev d off n (started b s) \<and> closed (started b s)"
proof -
  let ?s = "s\<lparr>fs_device := block_by_role s BLOCK_FILESYS, open_inodes := []\<rparr>"
  have B: "block_by_role s BLOCK_FILESYS \<noteq> 0" "fsdev d off n ?s" "mem_total ?s" "mem_total s" "inodes s = Map.empty" "files s = Map.empty" "dirs s = Map.empty"
    using b by (simp_all add: boot_def mem_total_def)
  obtain b where "free_map_init junk ?s = Some (?s\<lparr>allocs := Suc (Suc (allocs ?s)), free_map := b\<rparr>)" and b1: "bm_inv b" "unat (bit_cnt b) = n"
    "bm_abs b = (replicate n False)[0 := True, 1 := True]"
    using free_map_init_ok [OF B(2,3) n j] by blast
  then have f: "free_map_init junk ?s = Some (started b s)" by (simp add: started_def)
  have "filesys_init junk format s =
      do { s \<leftarrow> (if format then do_format (started b s) else Some (started b s)); free_map_open s }"
    using B(1) f by (simp add: filesys_init_def block_get_role_def is_role_def inode_init_def Let_def)
  moreover have "fsdev d off n (started b s)" "closed (started b s)"
    using B by (simp_all add: started_def closed_def fsdev_def mem_total_def)
  ultimately show ?thesis using b1 by blast
qed

lemma filesys_mount_ok:
  assumes b: "boot d off n s" and v: "volume d off n bm (s\<lparr>fs_device := block_by_role s BLOCK_FILESYS\<rparr>)" and n: "2 \<le> n"
    and j: "(n + 31) div 32 \<le> length junk"
  shows "\<exists>s'. filesys_init junk False s = Some s' \<and> fs_inv d off n s' \<and> names d off s' = names d off s \<and>
    file_bytes d off s' = file_bytes d off s \<and> bm_abs (free_map s') = bm_abs bm \<and> dirs s' = Map.empty \<and> dom (files s') = {free_map_file s'}"
proof -
  obtain b where I: "filesys_init junk False s = free_map_open (started b s)" "bm_inv b" "unat (bit_cnt b) = n"
    "fsdev d off n (started b s)" "closed (started b s)"
    using filesys_init_start [OF assms(1,3,4), of False] by auto
  note E = files_cong [OF started_simps(1) [of d off b s]]
  have sec: "sect d off (s\<lparr>fs_device := block_by_role s BLOCK_FILESYS\<rparr>) = sect d off s" by (simp add: sect_def fun_eq_iff)
  note E' = files_cong [OF sec]
  have "volume d off n bm (started b s)" using volumeD [OF v] I(4) unfolding volume_def E E' by simp
  then show ?thesis
    using free_map_open_ok [of d off n bm "started b s"] I volumeD(3) [OF v] n unfolding E by (simp add: unat_eq_iff32 [symmetric])
qed

section \<open>Formatting\<close>

lemma inode_create_raw:
  fixes s s1 :: "'a fsys_scheme"
  assumes m: "mem_total s" and l: "0 \<le> l" "l < 2 ^ 31" and al: "free_map_allocate (bytes_to_sectors l) (s\<lparr>allocs := Suc (allocs s)\<rparr>) = Some (Some (word_of_nat a), s1)"
    and dev: "fsdev d off n s1" and x: "x < n" and a: "a + unat (bytes_to_sectors l) \<le> n"
  shows "\<exists>s'. inode_create (word_of_nat x) l s = Some (True, s') \<and> io s1 s' \<and> fsdev d off n s' \<and>
    (\<forall>j < n. sect d off s' j = (if a \<le> j \<and> j < a + unat (bytes_to_sectors l) then replicate 512 0
       else if j = x then disk_bytes \<lparr>d_start = word_of_nat a, d_length = l, d_magic = INODE_MAGIC\<rparr> else sect d off s1 j))"
proof -
  let ?di = "\<lparr>d_start = word_of_nat a, d_length = l, d_magic = INODE_MAGIC\<rparr>"
  have pd: "length (disk_bytes ?di) = 512" using parse_disk_bytes(2) [of ?di] l by simp
  obtain s2 where s2: "block_write (fs_device s1) (word_of_nat x) (disk_bytes ?di) s1 = Some s2" "io s1 s2" "fsdev d off n s2"
    "\<forall>j < n. sect d off s2 j = (if j = x then disk_bytes ?di else sect d off s1 j)"
    using fs_block_write [OF dev x pd] by blast
  obtain s3 where s3: "foldM (\<lambda>i s. block_write (fs_device s) (word_of_nat a + word_of_nat i) (replicate 512 0) s) [0..<unat (bytes_to_sectors l)] s2 = Some s3"
    "io s2 s3" "fsdev d off n s3"
    "\<forall>j < n. sect d off s3 j = (if a \<le> j \<and> j < a + unat (bytes_to_sectors l) then replicate 512 0 else sect d off s2 j)"
    using zero_sectors [OF s2(3) a] by blast
  have "inode_create (word_of_nat x) l s = Some (True, s3)"
    using l(1) m al s2(1) s3(1) by (simp add: inode_create_def malloc_def mem_total_def Let_def)
  then show ?thesis using io_trans [OF s2(2) s3(2)] s2(4) s3(3,4) by (intro exI [of _ s3]) simp
qed

text \<open>The free map's file has \<open>map_sectors n\<close> sectors.\<close>

definition map_sectors :: "nat \<Rightarrow> nat" where
  "map_sectors n = (4 * ((n + 31) div 32) + 511) div 512"

lemma map_sectors_eq:
  assumes "n \<le> 2 ^ 28"
  shows "unat (bytes_to_sectors (int (4 * ((n + 31) div 32)))) = map_sectors n" and "4 * ((n + 31) div 32) < 2 ^ 31"
proof -
  have "(n + 31) div 32 \<le> (2 ^ 28 + 31) div 32" using assms by (intro div_le_mono) simp
  then show l: "4 * ((n + 31) div 32) < 2 ^ 31" by simp
  have "secs \<lparr>d_start = 0, d_length = int (4 * ((n + 31) div 32)), d_magic = 0\<rparr> = map_sectors n"
    using l by (subst secs_eq) (simp_all add: map_sectors_def nat_mult_distrib)
  then show "unat (bytes_to_sectors (int (4 * ((n + 31) div 32)))) = map_sectors n" by (simp add: secs_def)
qed

lemma map_sectors_pos: "0 < n \<Longrightarrow> 0 < map_sectors n"
proof -
  assume "0 < n"
  then have "32 \<le> n + 31" by simp
  then have "(n + 31) div 32 \<noteq> 0" by (simp add: div_eq_0_iff)
  then have "512 \<le> 4 * ((n + 31) div 32) + 511" by simp
  then show ?thesis unfolding map_sectors_def by (simp add: div_greater_zero_iff)
qed

text \<open>The map of \<open>n\<close> sectors in which the first \<open>k\<close> are in use.\<close>

definition upto_map :: "nat \<Rightarrow> nat \<Rightarrow> bool list" where
  "upto_map k n = map (\<lambda>i. i < k) [0..<n]"

lemma length_upto_map [simp]: "length (upto_map k n) = n"
  by (simp add: upto_map_def)

lemma nth_upto_map [simp]: "i < n \<Longrightarrow> upto_map k n ! i = (i < k)"
  by (simp add: upto_map_def)

lemma upto_map_2: "2 \<le> n \<Longrightarrow> (replicate n False)[0 := True, 1 := True] = upto_map 2 n"
  by (rule nth_equalityI) (auto simp: nth_list_update)

lemma upto_map_run:
  assumes "0 < c" and "k + c \<le> n"
  shows "first_run (upto_map k n) 0 c False = Some k" and "replace_range k c True (upto_map k n) = upto_map (k + c) n"
proof -
  have "\<not> run_at (upto_map k n) c False i" if "i < k" for i
    using that assms by (auto simp: run_at_def intro!: exI [of _ 0])
  moreover have "run_at (upto_map k n) c False k" using assms by (simp add: run_at_def)
  ultimately show "first_run (upto_map k n) 0 c False = Some k" by (simp add: first_run_Some_iff)
  show "replace_range k c True (upto_map k n) = upto_map (k + c) n"
    by (rule nth_equalityI) (auto simp: nth_replace_range)
qed

definition map_header :: "nat \<Rightarrow> inode_disk" where
  "map_header n = \<lparr>d_start = 2, d_length = int (4 * ((n + 31) div 32)), d_magic = INODE_MAGIC\<rparr>"

definition map_inode :: "nat \<Rightarrow> inode" where
  "map_inode n = \<lparr>i_sector = 0, open_cnt = 1, removed = False, deny_write_cnt = 0, idata = map_header n\<rparr>"

lemma map_header_ok:
  assumes "n \<le> 2 ^ 28" and "2 + map_sectors n \<le> n"
  shows "secs (map_header n) = map_sectors n" and "dok n (map_header n)" and "extent (map_header n) = {2..<2 + map_sectors n}"
    and "parse_inode (disk_bytes (map_header n)) = map_header n"
proof -
  show s: "secs (map_header n) = map_sectors n"
    unfolding secs_def map_header_def inode_disk.simps by (rule map_sectors_eq(1) [OF assms(1)])
  have l: "nat (d_length (map_header n)) < 2 ^ 31" "0 \<le> d_length (map_header n)" using map_sectors_eq(2) [OF assms(1)] by (simp_all add: map_header_def)
  then have l': "d_length (map_header n) < 2 ^ 31" by (simp add: nat_less_iff)
  have st: "unat (d_start (map_header n)) = 2" by (simp add: map_header_def)
  show "dok n (map_header n)" unfolding dok_def s st using l l' assms(2) by simp
  show "extent (map_header n) = {2..<2 + map_sectors n}" by (simp add: extent_def s st)
  show "parse_inode (disk_bytes (map_header n)) = map_header n" using parse_disk_bytes(1) [OF l(2) l'] .
qed

lemma map_inode_simps [simp]: "idata (map_inode n) = map_header n" "len (map_inode n) = 4 * ((n + 31) div 32)"
  by (simp_all add: map_inode_def map_header_def len_def nat_mult_distrib)

lemma map_write_frame:
  assumes w: "written_bytes d off n s s' (base (map_inode n)) (bits_bytes b)" and dev: "fsdev d off n s" "fsdev d off n s'"
    and b: "length (bits b) = (n + 31) div 32" and n: "2 + map_sectors n \<le> n" and j: "j < n" "j < 2 \<or> 2 + map_sectors n \<le> j"
  shows "sect d off s' j = sect d off s j"
proof -
  have n28: "n \<le> 2 ^ 28" using fsdev_bound [OF dev(1)] by simp
  note H = map_header_ok [OF n28 n]
  have w': "written_bytes d off n s s' (base (map_inode n) + 0) (bits_bytes b)" using w by simp
  show ?thesis by (rule written_frame [OF w' _ dev _ j(1)]) (use b H j in auto)
qed

text \<open>The file of the free map is open and nothing else.\<close>

definition only_map :: "nat \<Rightarrow> 'a fsys_scheme \<Rightarrow> bool" where
  "only_map n s \<longleftrightarrow> mem_total s \<and> dirs s = Map.empty \<and> (\<exists>i > 0. inodes s = [i \<mapsto> map_inode n] \<and> open_inodes s = [i] \<and>
     files s = [free_map_file s \<mapsto> \<lparr>f_inode = i, pos = 0, deny_write = False\<rparr>] \<and> free_map_file s \<noteq> 0)"

lemma only_map_io: "only_map n s \<Longrightarrow> io s s' \<Longrightarrow> only_map n s'"
  using io_frame [of s s'] by (auto simp: only_map_def mem_total_def)

lemma free_map_create_ok:
  fixes s :: "'a fsys_scheme"
  assumes cl: "closed s" and dev: "fsdev d off n s" and ff: "free_map_file s = 0" and b: "bm_inv (free_map s)" "unat (bit_cnt (free_map s)) = n"
    "bm_abs (free_map s) = upto_map 2 n" and n: "2 + map_sectors n \<le> n"
  shows "\<exists>s'. free_map_create s = Some s' \<and> fm_file d off n s' (map_inode n) \<and> only_map n s' \<and>
    bm_abs (free_map s') = upto_map (2 + map_sectors n) n \<and> dino d off s' 0 = map_header n"
proof -
  let ?s0 = "s\<lparr>allocs := Suc (allocs s)\<rparr>" and ?m = "map_sectors n" and ?l = "int (4 * ((n + 31) div 32))"
  have n28: "n \<le> 2 ^ 28" and n0: "0 < n" using fsdev_bound [OF dev] n by simp_all
  note ms = map_sectors_eq [OF n28] and H = map_header_ok [OF n28 n]
  have sz: "sint (bitmap_file_size (free_map s)) = ?l"
    using sint_byte_cnt [OF b(1)] b(1,2) n28 by (simp add: bitmap_file_size_def bm_inv_def)
  have run: "first_run (bm_abs (free_map s)) 0 ?m False = Some 2" "replace_range 2 ?m True (upto_map 2 n) = upto_map (2 + ?m) n"
    using upto_map_run [OF map_sectors_pos [OF n0] n] b(3) by simp_all
  have z: "(0 :: u32) \<le> bit_cnt (free_map s)" by simp
  obtain b1 where b1: "bitmap_scan_and_flip (free_map s) 0 (bytes_to_sectors ?l) False = Some (2, b1)" "(2 :: u32) \<noteq> BITMAP_ERROR"
    "bm_inv b1" "bit_cnt b1 = bit_cnt (free_map s)" "bm_abs b1 = upto_map (2 + ?m) n"
    using bitmap_scan_and_flip_abs [OF b(1) z, of "bytes_to_sectors ?l" False] run b(3) unfolding ms(1) by auto
  let ?s1 = "s\<lparr>allocs := Suc (allocs s), free_map := b1\<rparr>"
  have al: "free_map_allocate (bytes_to_sectors ?l) ?s0 = Some (Some (word_of_nat 2), ?s1)"
    using b1(1,2) ff by (simp add: free_map_allocate_def Let_def)
  have dev1: "fsdev d off n ?s1" using dev by simp
  have C: "mem_total s" "closed ?s1" using cl by (simp_all add: closed_def)
  have l: "0 \<le> ?l" "?l < 2 ^ 31" using ms(2) by (simp_all only: of_nat_0_le_iff) (simp add: nat_less_iff [symmetric])
  obtain s2 where s2: "inode_create (word_of_nat 0) ?l s = Some (True, s2)" "io ?s1 s2" "fsdev d off n s2"
    "\<forall>j < n. sect d off s2 j = (if 2 \<le> j \<and> j < 2 + ?m then replicate 512 0 else if j = 0 then disk_bytes (map_header n) else sect d off ?s1 j)"
    using inode_create_raw [OF C(1) l al dev1 n0] n unfolding ms(1) by (auto simp: map_header_def)
  have d2: "dino d off s2 0 = map_header n" using s2(4) n0 H(4) by (simp add: dino_def)
  have C2: "closed s2" "free_map s2 = b1" using C(2) io_frame [OF s2(2)] by (auto simp: closed_def mem_total_def)
  obtain cnt s3 s4 where o: "inode_open FREE_MAP_SECTOR s2 = Some (Suc (allocs s2), s3)"
    "file_open (Suc (allocs s2)) s3 = Some (Suc (Suc (allocs s2)), s4)"
    "s4\<lparr>free_map_file := Suc (Suc (allocs s2))\<rparr> = opened d off cnt s2"
    using open_free_map [OF C2(1) s2(3) n0] by blast
  let ?o = "opened d off cnt s2"
  have lb: "length (bits b1) = (n + 31) div 32" using b1(3,4) b(2) by (simp add: bm_inv_def)
  have f: "fm_file d off n ?o (map_inode n)"
    using opened_fm [OF s2(3), of cnt] C2 d2 H(2) b1(3,4) b(2) lb by (simp add: closed_def map_inode_def) (simp add: map_header_def)
  obtain s5 where s5: "bitmap_write b1 (Suc (Suc (allocs s2))) ?o = Some (True, s5)" "io ?o s5" "fsdev d off n s5"
    "written_bytes d off n ?o s5 (base (map_inode n)) (bits_bytes b1)"
    using bitmap_write_ok [OF f] C2(2) by auto
  have "free_map s4 = b1" using arg_cong [OF o(3), of free_map] C2(2) by simp
  then have "free_map_create s = Some s5"
    using s2(1) o s5(1) sz by (simp add: free_map_create_def Let_def FREE_MAP_SECTOR_def)
  moreover have "fm_file d off n s5 (map_inode n)"
    using f s5(3) io_frame [OF s5(2)] by (auto simp: fm_file_def mem_total_def)
  moreover have "only_map n ?o" using C2(1) d2 by (simp add: only_map_def closed_def) (simp add: opened_def map_inode_def)
  then have "only_map n s5" using s5(2) by (rule only_map_io)
  moreover have "sect d off s5 0 = sect d off ?o 0"
    by (rule map_write_frame [OF s5(4) _ s5(3) lb n n0]) (use s2(3) in simp_all)
  then have "dino d off s5 0 = map_header n" using d2 by (simp add: dino_def)
  ultimately show ?thesis using io_frame(5) [OF s5(2)] C2(2) b1(5) by (intro exI [of _ s5]) simp
qed

definition root_header :: "nat \<Rightarrow> inode_disk" where
  "root_header n = \<lparr>d_start = word_of_nat (2 + map_sectors n), d_length = 320, d_magic = INODE_MAGIC\<rparr>"

lemma root_header_ok:
  assumes "n \<le> 2 ^ 28" and "3 + map_sectors n \<le> n"
  shows "secs (root_header n) = 1" and "dok n (root_header n)" and "extent (root_header n) = {2 + map_sectors n}"
    and "parse_inode (disk_bytes (root_header n)) = root_header n"
proof -
  show s: "secs (root_header n) = 1" by (subst secs_eq) (simp_all add: root_header_def)
  have u: "unat (d_start (root_header n)) = 2 + map_sectors n"
    unfolding root_header_def inode_disk.simps by (rule unat_of_nat_small) (use assms in simp)
  show "dok n (root_header n)" unfolding dok_def s u using assms(2) by (simp add: root_header_def)
  show "extent (root_header n) = {2 + map_sectors n}" unfolding extent_def s u by auto
  show "parse_inode (disk_bytes (root_header n)) = root_header n" by (rule parse_disk_bytes(1)) (simp_all add: root_header_def)
qed

lemma root_create_ok:
  fixes s :: "'a fsys_scheme"
  assumes fm: "fm_file d off n s (map_inode n)" and om: "only_map n s" and b: "bm_abs (free_map s) = upto_map (2 + map_sectors n) n"
    and d0: "dino d off s 0 = map_header n" and n: "3 + map_sectors n \<le> n"
  shows "\<exists>s'. dir_create ROOT_DIR_SECTOR 16 s = Some (True, s') \<and> fsdev d off n s' \<and> only_map n s' \<and>
    bm_inv (free_map s') \<and> unat (bit_cnt (free_map s')) = n \<and> bm_abs (free_map s') = upto_map (3 + map_sectors n) n \<and>
    dino d off s' 0 = map_header n \<and> file_bytes d off s' 0 = bits_bytes (free_map s') \<and>
    dino d off s' 1 = root_header n \<and> file_bytes d off s' 1 = replicate 320 0"
proof -
  let ?m = "map_sectors n" and ?s0 = "s\<lparr>allocs := Suc (allocs s)\<rparr>"
  have dev: "fsdev d off n s" using fm by (simp add: fm_file_def)
  have n28: "n \<le> 2 ^ 28" and n1: "1 < n" and n2: "2 + ?m \<le> n" using fsdev_bound [OF dev] n by simp_all
  note M = map_header_ok [OF n28 n2] and H = root_header_ok [OF n28 n]
  have c1: "unat (bytes_to_sectors 320) = 1" using H(1) by (simp add: secs_def root_header_def)
  have fm0: "fm_file d off n ?s0 (map_inode n)" using fm by (simp add: fm_file_def)
  have run: "first_run (bm_abs (free_map ?s0)) 0 1 False = Some (2 + ?m)" "replace_range (2 + ?m) 1 True (upto_map (2 + ?m) n) = upto_map (3 + ?m) n"
    using upto_map_run [of 1 "2 + ?m" n] n b by (simp_all add: numeral_3_eq_3)
  obtain b1 s1 where s1: "free_map_allocate (bytes_to_sectors 320) ?s0 = Some (Some (word_of_nat (2 + ?m)), s1)"
    "fm_update d off n (map_inode n) b1 ?s0 s1" "bm_abs b1 = upto_map (3 + ?m) n"
    using free_map_allocate_ok [OF fm0, of "bytes_to_sectors 320"] run b unfolding c1 by auto
  have u: "io (?s0\<lparr>free_map := b1\<rparr>) s1" "written_bytes d off n ?s0 s1 (base (map_inode n)) (bits_bytes b1)" "bm_inv b1"
    "bit_cnt b1 = bit_cnt (free_map s)" "fm_file d off n s1 (map_inode n)" "content d off s1 (map_inode n) = bits_bytes b1" "fsdev d off n s1"
    using s1(2) io_frame(5) [of "?s0\<lparr>free_map := b1\<rparr>" s1] by (auto simp: fm_update_def fm_sync_def fm_file_def)
  have bn: "unat (bit_cnt b1) = n" using u(4) fm by (simp add: fm_file_def)
  then have lb: "length (bits b1) = (n + 31) div 32" using u(3) by (simp add: bm_inv_def)
  have dev0: "fsdev d off n ?s0" using dev by simp
  have f1: "sect d off s1 j = sect d off s j" if "j < 2" for j
    using map_write_frame [OF u(2) dev0 u(7) lb n2, of j] that n1 by simp
  have mt: "mem_total s" using fm by (simp add: fm_file_def)
  obtain s2 where s2: "inode_create (word_of_nat 1) 320 s = Some (True, s2)" "io s1 s2" "fsdev d off n s2"
    "\<forall>j < n. sect d off s2 j = (if 2 + ?m \<le> j \<and> j < 2 + ?m + 1 then replicate 512 0 else if j = 1 then disk_bytes (root_header n) else sect d off s1 j)"
    using inode_create_raw [OF mt _ _ s1(1) u(7) n1] n unfolding c1 root_header_def by auto
  have e0: "dino d off s1 0 = map_header n" using f1 [of 0] d0 by (simp add: dino_def)
  have d2: "dino d off s2 0 = map_header n" "dino d off s2 1 = root_header n"
    using s2(4) n1 e0 H(4) by (simp_all add: dino_def)
  have "file_bytes d off s2 0 = file_bytes d off s1 0"
  proof (rule file_frame(2))
    show "dok n (dino d off s1 0)" using e0 M(2) by simp
    fix j assume "j \<in> own (dino d off s1) 0"
    then have "j = 0 \<or> 2 \<le> j \<and> j < 2 + ?m" using e0 M(3) by (auto simp: own_def)
    then show "sect d off s2 j = sect d off s1 j" using s2(4) n2 by auto
  qed
  also have "\<dots> = bits_bytes b1"
    using u(6) content_dnode [of d off s1 "map_inode n"] e0 by (simp add: file_bytes_def)
  finally have fb0: "file_bytes d off s2 0 = bits_bytes b1" .
  have "file_bytes d off s2 1 = replicate 320 0"
    unfolding file_bytes_def d2(2) using file_zero [OF H(2), of d off s2] s2(4) H(3) n by (simp add: root_header_def)
  moreover have "only_map n ?s0" "only_map n (?s0\<lparr>free_map := b1\<rparr>)" using om by (simp_all add: only_map_def)
  then have "only_map n s2" using only_map_io [OF only_map_io [OF _ u(1)] s2(2)] by simp
  moreover have "free_map s2 = b1" using io_frame(5) [OF s2(2)] io_frame(5) [OF u(1)] by simp
  moreover have "dir_create ROOT_DIR_SECTOR 16 s = Some (True, s2)" using s2(1) by (simp add: dir_create_def ROOT_DIR_SECTOR_def)
  ultimately show ?thesis using s2(3) u(3) bn s1(3) d2 fb0 by (intro exI [of _ s2]) simp
qed

lemma only_map_close:
  assumes om: "only_map n s"
  shows "\<exists>s'. free_map_close s = Some s' \<and> s' = s\<lparr>open_inodes := [], inodes := Map.empty, files := Map.empty\<rparr>"
proof -
  obtain i where i: "0 < i" "inodes s = [i \<mapsto> map_inode n]" "open_inodes s = [i]"
    "files s = [free_map_file s \<mapsto> \<lparr>f_inode = i, pos = 0, deny_write = False\<rparr>]" "free_map_file s \<noteq> 0"
    using om by (auto simp: only_map_def)
  have "inode_close i s = Some (s\<lparr>open_inodes := [], inodes := Map.empty\<rparr>)"
    using i(1-3) by (simp add: inode_close_def upd_inode_def map_inode_def Let_def)
  then show ?thesis using i(4,5) by (simp add: free_map_close_def file_close_def file_allow_write_def)
qed

lemma zero_slot: "k < slots (replicate c 0) \<Longrightarrow> \<not> in_use (slot (replicate c 0) k)"
  using slot_fits [of k "replicate c 0"] by (simp add: slot_def parse_entry_def)

lemma empty_root: "dir_map (replicate c 0) = Map.empty" "dir_ok (replicate c 0)"
  using zero_slot [of _ c] by (auto simp: dir_map_def dir_ok_def hit_def fun_eq_iff find_None_iff)

lemma format_volume:
  assumes dev: "fsdev d off n s" and b: "bm_inv b" "unat (bit_cnt b) = n" "bm_abs b = upto_map (3 + map_sectors n) n"
    and 0: "dino d off s 0 = map_header n" "file_bytes d off s 0 = bits_bytes b"
    and 1: "dino d off s 1 = root_header n" "file_bytes d off s 1 = replicate 320 0" and n: "3 + map_sectors n \<le> n"
  shows "volume d off n b s" and "names d off s = Map.empty"
proof -
  have n28: "n \<le> 2 ^ 28" and n2: "2 + map_sectors n \<le> n" using fsdev_bound [OF dev] n by simp_all
  note M = map_header_ok [OF n28 n2] and H = root_header_ok [OF n28 n]
  show nm: "names d off s = Map.empty" unfolding names_def 1(2) by (rule empty_root)
  have nd: "named (names d off s) = {0, 1}" by (simp add: named_def nm)
  have own: "own (dino d off s) 0 = insert 0 {2..<2 + map_sectors n}" "own (dino d off s) 1 = {1, 2 + map_sectors n}"
    unfolding own_def 0(1) 1(1) M(3) H(3) by auto
  have "layout n {0, 1} (dino d off s) (bm_abs b)"
    unfolding layout_def
  proof (intro conjI ballI impI)
    fix k assume "k \<in> {0, 1 :: nat}"
    then consider "k = 0" | "k = 1" by blast
    then show "k < n" "dok n (dino d off s k)" "k \<notin> extent (dino d off s k)"
      by (cases; use n M(2) H(2) M(3) H(3) 0(1) 1(1) in simp)+
    fix j assume "j \<in> own (dino d off s) k"
    with \<open>k \<in> {0, 1}\<close> have "j < 3 + map_sectors n" unfolding insert_iff empty_iff using own by auto
    then show "bm_abs b ! j" using b(3) n by simp
  qed (use own in auto)
  then show "volume d off n b s"
    unfolding volume_def nd using dev b 0(2) empty_root [of 320] 1(2) nm by (simp add: names_ok_def)
qed

lemma filesys_format_ok:
  assumes b: "boot d off n s" and n: "3 + map_sectors n \<le> n" and j: "(n + 31) div 32 \<le> length junk"
  shows "\<exists>s'. filesys_init junk True s = Some s' \<and> fs_inv d off n s' \<and> names d off s' = Map.empty \<and>
    bm_abs (free_map s') = upto_map (3 + map_sectors n) n \<and> dirs s' = Map.empty \<and> dom (files s') = {free_map_file s'} \<and>
    file_bytes d off s' 1 = replicate 320 0"
proof -
  have n2: "2 \<le> n" "2 + map_sectors n \<le> n" using n by simp_all
  obtain bm where I: "filesys_init junk True s = do { s \<leftarrow> do_format (started bm s); free_map_open s }" "bm_inv bm" "unat (bit_cnt bm) = n"
    "bm_abs bm = upto_map 2 n" "fsdev d off n (started bm s)" "closed (started bm s)"
    using filesys_init_start [OF b n2(1) j, of True] upto_map_2 [OF n2(1)] by auto
  have "free_map_file (started bm s) = 0" using b by (simp add: started_def boot_def)
  then obtain s1 where s1: "free_map_create (started bm s) = Some s1" "fm_file d off n s1 (map_inode n)" "only_map n s1"
    "bm_abs (free_map s1) = upto_map (2 + map_sectors n) n" "dino d off s1 0 = map_header n"
    using free_map_create_ok [OF I(6,5)] I(2-4) n2(2) by auto
  obtain s2 where s2: "dir_create ROOT_DIR_SECTOR 16 s1 = Some (True, s2)" "fsdev d off n s2" "only_map n s2"
    "bm_inv (free_map s2)" "unat (bit_cnt (free_map s2)) = n" "bm_abs (free_map s2) = upto_map (3 + map_sectors n) n"
    "dino d off s2 0 = map_header n" "file_bytes d off s2 0 = bits_bytes (free_map s2)"
    "dino d off s2 1 = root_header n" "file_bytes d off s2 1 = replicate 320 0"
    using root_create_ok [OF s1(2-5) n] by (elim exE conjE) (rule that)
  let ?s3 = "s2\<lparr>open_inodes := [], inodes := Map.empty, files := Map.empty\<rparr>"
  have "do_format (started bm s) = Some ?s3" using s1(1) s2(1) only_map_close [OF s2(3)] by (simp add: do_format_def)
  then have i: "filesys_init junk True s = free_map_open ?s3" using I(1) by simp
  have sec: "sect d off ?s3 = sect d off s2" by simp
  note E = files_cong [OF sec]
  have cl: "closed ?s3" using s2(3) by (simp add: closed_def only_map_def)
  have v: "volume d off n (free_map s2) ?s3" "names d off ?s3 = Map.empty"
    using format_volume [of d off n ?s3 "free_map s2"] s2(2,4-10) n unfolding E by simp_all
  show ?thesis
    using free_map_open_ok [OF v(1) cl] s2(4,6,10) n2(1) v(2) i unfolding E by auto
qed

end
