(* ===== verification/Fs_Calls.thy ===== *)
theory Fs_Calls
  imports Fs_Mount
begin

text \<open>
  The file system as its clients see it: an abstract file system of names, contents
  and handles, the calls of \<open>filesys/filesys.h\<close> and \<open>filesys/file.h\<close> on it, and the
  proof that the implementation refines it call by call and over whole sequences.
\<close>

section \<open>The abstract file system\<close>

text \<open>
  A file is known by a number; a handle is a file, a position and whether the handle
  denies writing. A file without a name exists as long as a handle refers to it.
\<close>

record afs =
  a_names :: "u8 list \<Rightarrow> u32 option"
  a_data :: "u32 \<Rightarrow> u8 list option"
  a_open :: "ptr \<Rightarrow> (u32 \<times> int \<times> bool) option"

definition used :: "(u8 list \<Rightarrow> u32 option) \<Rightarrow> (ptr \<Rightarrow> (u32 \<times> int \<times> bool) option) \<Rightarrow> u32 set" where
  "used N H = ran N \<union> fst ` ran H"

definition collect :: "afs \<Rightarrow> afs" where
  "collect a = a\<lparr>a_data := a_data a |` used (a_names a) (a_open a)\<rparr>"

definition empty_afs :: afs where
  "empty_afs = \<lparr>a_names = Map.empty, a_data = Map.empty, a_open = Map.empty\<rparr>"

datatype fs_call =
    Create "u8 list" int dir_entry
  | Open "u8 list"
  | Remove "u8 list"
  | Read ptr int
  | Write ptr "u8 list" int
  | Seek ptr int
  | Tell ptr
  | Size ptr
  | Deny ptr
  | Allow ptr
  | Reopen ptr
  | Close ptr

datatype fs_res = Done | Bool bool | Ptr ptr | Num int | Bytes "u8 list"

inductive astep :: "fs_call \<Rightarrow> fs_res \<Rightarrow> afs \<Rightarrow> afs \<Rightarrow> bool" where
  a_create: "a_names a name = None \<Longrightarrow> 0 < length name \<Longrightarrow> length name \<le> NAME_MAX \<Longrightarrow> x \<notin> dom (a_data a) \<Longrightarrow>
    astep (Create name l e) (Bool True) a
      (a\<lparr>a_names := (a_names a)(name \<mapsto> x), a_data := (a_data a)(x \<mapsto> replicate (nat l) 0)\<rparr>)"
| a_create_fails: "astep (Create name l e) (Bool False) a a"
| a_open_name: "a_names a name = Some x \<Longrightarrow> f \<noteq> 0 \<Longrightarrow> a_open a f = None \<Longrightarrow>
    astep (Open name) (Ptr f) a (a\<lparr>a_open := (a_open a)(f \<mapsto> (x, 0, False))\<rparr>)"
| a_open_fails: "a_names a name = None \<Longrightarrow> astep (Open name) (Ptr 0) a a"
| a_remove: "astep (Remove name) (Bool (a_names a name \<noteq> None)) a (collect (a\<lparr>a_names := (a_names a)(name := None)\<rparr>))"
| a_read: "a_open a f = Some (x, p, w) \<Longrightarrow> a_data a x = Some cs \<Longrightarrow> bs = take (nat sz) (drop (nat p) cs) \<Longrightarrow>
    astep (Read f sz) (Bytes bs) a (a\<lparr>a_open := (a_open a)(f \<mapsto> (x, p + int (length bs), w))\<rparr>)"
| a_write: "a_open a f = Some (x, p, w) \<Longrightarrow> a_data a x = Some cs \<Longrightarrow>
    k = (if \<exists>q. (x, q, True) \<in> ran (a_open a) then 0 else min (nat sz) (length cs - nat p)) \<Longrightarrow>
    astep (Write f buf sz) (Num (int k)) a
      (a\<lparr>a_data := (a_data a)(x \<mapsto> overlay cs (nat p) (take k buf)), a_open := (a_open a)(f \<mapsto> (x, p + int k, w))\<rparr>)"
| a_seek: "a_open a f = Some (x, p, w) \<Longrightarrow> astep (Seek f q) Done a (a\<lparr>a_open := (a_open a)(f \<mapsto> (x, q, w))\<rparr>)"
| a_tell: "a_open a f = Some (x, p, w) \<Longrightarrow> astep (Tell f) (Num p) a a"
| a_size: "a_open a f = Some (x, p, w) \<Longrightarrow> a_data a x = Some cs \<Longrightarrow> astep (Size f) (Num (int (length cs))) a a"
| a_deny: "a_open a f = Some (x, p, w) \<Longrightarrow> astep (Deny f) Done a (a\<lparr>a_open := (a_open a)(f \<mapsto> (x, p, True))\<rparr>)"
| a_allow: "a_open a f = Some (x, p, w) \<Longrightarrow> astep (Allow f) Done a (a\<lparr>a_open := (a_open a)(f \<mapsto> (x, p, False))\<rparr>)"
| a_reopen: "a_open a f = Some (x, p, w) \<Longrightarrow> g \<noteq> 0 \<Longrightarrow> a_open a g = None \<Longrightarrow>
    astep (Reopen f) (Ptr g) a (a\<lparr>a_open := (a_open a)(g \<mapsto> (x, 0, False))\<rparr>)"
| a_close: "a_open a f = Some (x, p, w) \<Longrightarrow> astep (Close f) Done a (collect (a\<lparr>a_open := (a_open a)(f := None)\<rparr>))"

inductive_cases astep_readE: "astep (Read f sz) r a a'"
inductive_cases astep_writeE: "astep (Write f buf sz) r a a'"
inductive_cases astep_openE: "astep (Open name) r a a'"
inductive_cases astep_removeE: "astep (Remove name) r a a'"

section \<open>The calls of the implementation\<close>

fun fs_exec :: "fs_call \<Rightarrow> 'a fsys_scheme \<Rightarrow> (fs_res \<times> 'a fsys_scheme) option" where
  "fs_exec (Create name l e) s = do { (ok, s) \<leftarrow> filesys_create name l e s; Some (Bool ok, s) }"
| "fs_exec (Open name) s = do { (f, s) \<leftarrow> filesys_open name s; Some (Ptr f, s) }"
| "fs_exec (Remove name) s = do { (ok, s) \<leftarrow> filesys_remove name s; Some (Bool ok, s) }"
| "fs_exec (Read f sz) s = do { (bs, s) \<leftarrow> file_read f sz s; Some (Bytes bs, s) }"
| "fs_exec (Write f buf sz) s = do { (k, s) \<leftarrow> file_write f buf sz s; Some (Num k, s) }"
| "fs_exec (Seek f p) s = do { s \<leftarrow> file_seek f p s; Some (Done, s) }"
| "fs_exec (Tell f) s = do { p \<leftarrow> file_tell f s; Some (Num p, s) }"
| "fs_exec (Size f) s = do { l \<leftarrow> file_length f s; Some (Num l, s) }"
| "fs_exec (Deny f) s = do { s \<leftarrow> file_deny_write f s; Some (Done, s) }"
| "fs_exec (Allow f) s = do { s \<leftarrow> file_allow_write f s; Some (Done, s) }"
| "fs_exec (Reopen f) s = do { (g, s) \<leftarrow> file_reopen f s; Some (Ptr g, s) }"
| "fs_exec (Close f) s = do { s \<leftarrow> file_close f s; Some (Done, s) }"

text \<open>
  What a caller has to respect: names are strings, sizes and positions are not
  negative, a buffer is as long as the caller says, and a handle is one that was
  opened and not closed.
\<close>

definition handle :: "'a fsys_scheme \<Rightarrow> ptr \<Rightarrow> (u32 \<times> int \<times> bool) option" where
  "handle s f = (if f = free_map_file s then None
     else do { fl \<leftarrow> files s f; ino \<leftarrow> inodes s (f_inode fl); Some (i_sector ino, pos fl, deny_write fl) })"

fun allowed :: "'a fsys_scheme \<Rightarrow> fs_call \<Rightarrow> bool" where
  "allowed s (Create name l e) \<longleftrightarrow> 0 \<notin> set name \<and> length (ename e) = 15 \<and> 0 \<le> l \<and> l < 2 ^ 31"
| "allowed s (Open name) \<longleftrightarrow> 0 \<notin> set name"
| "allowed s (Remove name) \<longleftrightarrow> 0 \<notin> set name"
| "allowed s (Read f sz) \<longleftrightarrow> handle s f \<noteq> None"
| "allowed s (Write f buf sz) \<longleftrightarrow> handle s f \<noteq> None \<and> length buf = nat sz"
| "allowed s (Seek f p) \<longleftrightarrow> handle s f \<noteq> None \<and> 0 \<le> p"
| "allowed s (Tell f) \<longleftrightarrow> handle s f \<noteq> None"
| "allowed s (Size f) \<longleftrightarrow> handle s f \<noteq> None"
| "allowed s (Deny f) \<longleftrightarrow> handle s f \<noteq> None"
| "allowed s (Allow f) \<longleftrightarrow> handle s f \<noteq> None"
| "allowed s (Reopen f) \<longleftrightarrow> handle s f \<noteq> None"
| "allowed s (Close f) \<longleftrightarrow> handle s f \<noteq> None"

definition afs_of :: "nat \<Rightarrow> nat \<Rightarrow> 'a fsys_scheme \<Rightarrow> afs" where
  "afs_of d off s = \<lparr>a_names = names d off s,
     a_data = (\<lambda>x. Some (file_bytes d off s (unat x))) |` used (names d off s) (handle s), a_open = handle s\<rparr>"

section \<open>Handles\<close>

lemma handle_user:
  assumes "handle s f = Some h"
  obtains fl ino where "user_file s f fl ino" and "h = (i_sector ino, pos fl, deny_write fl)"
  using assms that by (auto simp: handle_def user_file_def split: if_splits bind_splits)

lemma user_handle: "user_file s f fl ino \<Longrightarrow> handle s f = Some (i_sector ino, pos fl, deny_write fl)"
  by (simp add: handle_def user_file_def)

lemma used_live:
  assumes inv: "fs_inv d off n s" and x: "x \<in> used (names d off s) (handle s)"
  shows "unat x \<in> live (names d off s) (inodes s) - {1}" and "unat x \<noteq> 0" and "x \<noteq> 0" and "x \<noteq> 1"
proof -
  have c: "core d off n (refs s) (denies s) s" using inv by (simp add: fs_inv_def)
  consider "x \<in> ran (names d off s)" | f h where "handle s f = Some h" "x = fst h" using x by (auto simp: used_def ran_def)
  then have "unat x \<in> live (names d off s) (inodes s) \<and> x \<noteq> 0 \<and> x \<noteq> 1"
  proof cases
    case 1
    then show ?thesis using coreD(6) [OF c] by (auto simp: names_ok_def named_def intro!: named_live)
  next
    case (2 f h)
    then obtain fl ino where u: "user_file s f fl ino" "x = i_sector ino" by (auto elim: handle_user)
    then show ?thesis
      using user_file_sector(1,2) [OF inv u(1)] open_live [of "inodes s" "f_inode fl" ino] user_fileD [OF u(1)] by simp
  qed
  moreover from this have "unat x \<noteq> 0" "unat x \<noteq> 1" using unat_eq_iff32 [of x 0] unat_eq_iff32 [of x 1] by simp_all
  ultimately show "unat x \<in> live (names d off s) (inodes s) - {1}" "unat x \<noteq> 0" "x \<noteq> 0" "x \<noteq> 1" by auto
qed

lemma handle_same:
  assumes inv: "fs_inv d off n s" and inv': "fs_inv d off n s'" and k: "nodes_keep s s'"
    and f: "free_map_file s' = free_map_file s" "files s' g = files s g"
  shows "handle s' g = handle s g"
proof (cases "files s g")
  case (Some fl)
  obtain z where "inodes s (f_inode fl) = Some z" using tablesD(4) [of s g fl] inv Some by (auto simp: fs_inv_def)
  moreover obtain z' where "inodes s' (f_inode fl) = Some z'" using tablesD(4) [of s' g fl] inv' Some f(2) by (auto simp: fs_inv_def)
  moreover from calculation have "i_sector z' = i_sector z" using k unfolding nodes_keep_def by blast
  ultimately show ?thesis using f Some by (simp add: handle_def)
qed (use f in \<open>simp add: handle_def\<close>)

lemma handle_upd:
  assumes inv: "fs_inv d off n s" and inv': "fs_inv d off n s'" and k: "nodes_keep s s'" and f: "free_map_file s' = free_map_file s"
    and u: "user_file s f fl ino" and F: "files s' = (files s)(f \<mapsto> fl')" "f_inode fl' = f_inode fl"
  shows "handle s' = (handle s)(f \<mapsto> (i_sector ino, pos fl', deny_write fl'))"
proof
  fix g
  show "handle s' g = ((handle s)(f \<mapsto> (i_sector ino, pos fl', deny_write fl'))) g"
  proof (cases "g = f")
    case True
    obtain z where z: "inodes s' (f_inode fl') = Some z" using tablesD(4) [of s' f fl'] inv' F(1) by (auto simp: fs_inv_def)
    then have "i_sector z = i_sector ino" using k user_fileD [OF u] F(2) unfolding nodes_keep_def by metis
    then show ?thesis using True z F f user_fileD [OF u] by (simp add: handle_def)
  next
    case False
    then show ?thesis using handle_same [OF inv inv' k f, of g] F(1) by simp
  qed
qed

lemma handle_free_map [simp]: "handle s (free_map_file s) = None"
  by (simp add: handle_def)

lemma handle_new:
  assumes inv: "fs_inv d off n s" and inv': "fs_inv d off n s'" and k: "nodes_keep s s'" and f: "free_map_file s' = free_map_file s"
    and new: "files s f = None" and F: "files s' = (files s)(f \<mapsto> fl)" "inodes s' (f_inode fl) = Some ino"
  shows "handle s' = (handle s)(f \<mapsto> (i_sector ino, pos fl, deny_write fl))" and "handle s f = None"
proof -
  have "core d off n (refs s) (denies s) s" using inv by (simp add: fs_inv_def)
  then have "f \<noteq> free_map_file s" using new coreD(10) [of d off n "refs s" "denies s" s] by auto
  then have "handle s' f = Some (i_sector ino, pos fl, deny_write fl)" using F f by (simp add: handle_def)
  then show "handle s' = (handle s)(f \<mapsto> (i_sector ino, pos fl, deny_write fl))"
    using handle_same [OF inv inv' k f] F(1) by (auto simp: fun_eq_iff)
  show "handle s f = None" using new by (simp add: handle_def)
qed

lemma handle_all: 
  assumes "fs_inv d off n s" and "fs_inv d off n s'" and "nodes_keep s s'" and "free_map_file s' = free_map_file s" and "files s' = files s"
  shows "handle s' = handle s"
  using handle_same [OF assms(1-4)] assms(5) by (simp add: fun_eq_iff)

lemma afs_of_simps [simp]: "a_names (afs_of d off s) = names d off s" "a_open (afs_of d off s) = handle s"
  by (simp_all add: afs_of_def)

lemma afs_data:
  "a_data (afs_of d off s) x = (if x \<in> used (names d off s) (handle s) then Some (file_bytes d off s (unat x)) else None)"
  by (simp add: afs_of_def restrict_map_def)

lemma handle_used: "handle s f = Some (x, p, w) \<Longrightarrow> x \<in> used N (handle s)"
  by (force simp: used_def ran_def)

lemma afs_handle_data: "handle s f = Some (x, p, w) \<Longrightarrow> a_data (afs_of d off s) x = Some (file_bytes d off s (unat x))"
  by (simp add: afs_data handle_used)

lemma afsI:
  assumes "names d off s' = a_names a" and "handle s' = a_open a"
    and "\<And>x. a_data a x = (if x \<in> used (names d off s') (handle s') then Some (file_bytes d off s' (unat x)) else None)"
  shows "afs_of d off s' = a"
proof -
  have "a_data (afs_of d off s') = a_data a" using assms(3) by (simp add: afs_data fun_eq_iff)
  then show ?thesis using assms(1,2) by (cases a) (simp add: afs_of_def)
qed

text \<open>Writing keeps the sets of files in use; the position of a handle does not matter to it.\<close>

lemma used_upd: "H f = Some (x, p, w) \<Longrightarrow> used N (H(f \<mapsto> (x, q, v))) = used N H"
proof -
  assume h: "H f = Some (x, p, w)"
  have "y \<in> fst ` ran (H(f \<mapsto> (x, q, v))) \<longleftrightarrow> y \<in> fst ` ran H" for y
  proof
    assume "y \<in> fst ` ran (H(f \<mapsto> (x, q, v)))"
    then obtain g t where g: "(H(f \<mapsto> (x, q, v))) g = Some t" "y = fst t" by (auto simp: ran_def)
    then show "y \<in> fst ` ran H" using imageI [OF ranI [of H f, OF h], of fst] imageI [OF ranI [of H g], of _ fst]
      by (cases "g = f") (auto intro: rev_image_eqI)
  next
    assume "y \<in> fst ` ran H"
    then obtain g t where g: "H g = Some t" "y = fst t" by (auto simp: ran_def)
    then show "y \<in> fst ` ran (H(f \<mapsto> (x, q, v)))"
      using h imageI [OF ranI [of "H(f \<mapsto> (x, q, v))" f], of _ fst] imageI [OF ranI [of "H(f \<mapsto> (x, q, v))" g], of _ fst]
      by (cases "g = f") (auto intro: rev_image_eqI)
  qed
  then show ?thesis by (auto simp: used_def)
qed

lemma used_new: "x \<in> ran N \<union> fst ` ran H \<Longrightarrow> H f = None \<Longrightarrow> used N (H(f \<mapsto> (x, q, v))) = used N H"
  by (auto simp: used_def)

section \<open>Every call refines the abstract file system\<close>

definition refines :: "nat \<Rightarrow> nat \<Rightarrow> nat \<Rightarrow> 'a fsys_scheme \<Rightarrow> fs_call \<Rightarrow> bool" where
  "refines d off n s c \<longleftrightarrow> (\<exists>r s'. fs_exec c s = Some (r, s') \<and> fs_inv d off n s' \<and> astep c r (afs_of d off s) (afs_of d off s'))"

lemma refinesI:
  assumes "fs_exec c s = Some (r, s')" and "fs_inv d off n s'" and "astep c r (afs_of d off s) a" and "afs_of d off s' = a"
  shows "refines d off n s c"
  unfolding refines_def using assms by blast

lemma nodes_keep_same: "inodes s' = inodes s \<Longrightarrow> nodes_keep s s'"
  by (simp add: nodes_keep_def)

text \<open>A call that changes one handle of a file and no contents.\<close>

lemma afs_handle_upd:
  assumes inv: "fs_inv d off n s" "fs_inv d off n s'" and k: "nodes_keep s s'" and f: "free_map_file s' = free_map_file s"
    and u: "user_file s f fl ino" and F: "files s' = (files s)(f \<mapsto> fl')" "f_inode fl' = f_inode fl"
    and nm: "names d off s' = names d off s" "file_bytes d off s' = file_bytes d off s"
  shows "afs_of d off s' = (afs_of d off s)\<lparr>a_open := (handle s)(f \<mapsto> (i_sector ino, pos fl', deny_write fl'))\<rparr>"
proof (rule afsI)
  note h = handle_upd [OF inv k f u F]
  show "handle s' = a_open ((afs_of d off s)\<lparr>a_open := (handle s)(f \<mapsto> (i_sector ino, pos fl', deny_write fl'))\<rparr>)" by (simp add: h)
  fix x
  show "a_data ((afs_of d off s)\<lparr>a_open := (handle s)(f \<mapsto> (i_sector ino, pos fl', deny_write fl'))\<rparr>) x =
    (if x \<in> used (names d off s') (handle s') then Some (file_bytes d off s' (unat x)) else None)"
    using used_upd [of "handle s" f _ _ _ "names d off s" "pos fl'" "deny_write fl'", OF user_handle [OF u]] by (simp add: h nm afs_data)
qed (simp add: nm)

lemma refines_read:
  assumes inv: "fs_inv d off n s" and u: "user_file s f fl ino"
  shows "refines d off n s (Read f sz)"
proof -
  let ?cs = "file_bytes d off s (unat (i_sector ino))" and ?m = "\<lambda>cs. min (nat sz) (length cs - nat (pos fl))"
  obtain s' where s': "file_read f sz s = Some (take (nat sz) (drop (nat (pos fl)) ?cs), s')" "fs_inv d off n s'"
    "names d off s' = names d off s" "file_bytes d off s' = file_bytes d off s" "inodes s' = inodes s" "free_map_file s' = free_map_file s"
    "files s' = (files s)(f \<mapsto> fl\<lparr>pos := pos fl + int (?m ?cs)\<rparr>)"
    using file_read_inv [OF inv u, of sz] unfolding Let_def by (elim exE conjE) (rule that)
  have l: "length (take (nat sz) (drop (nat (pos fl)) ?cs)) = ?m ?cs" by (simp add: min.commute)
  show ?thesis
  proof (rule refinesI)
    show "fs_exec (Read f sz) s = Some (Bytes (take (nat sz) (drop (nat (pos fl)) ?cs)), s')" using s'(1) by simp
    show "astep (Read f sz) (Bytes (take (nat sz) (drop (nat (pos fl)) ?cs))) (afs_of d off s) ((afs_of d off s)\<lparr>a_open :=
      (a_open (afs_of d off s))(f \<mapsto> (i_sector ino, pos fl + int (length (take (nat sz) (drop (nat (pos fl)) ?cs))), deny_write fl))\<rparr>)"
      by (rule a_read) (use user_handle [OF u] afs_handle_data [OF user_handle [OF u]] in simp_all)
    show "afs_of d off s' = (afs_of d off s)\<lparr>a_open :=
      (a_open (afs_of d off s))(f \<mapsto> (i_sector ino, pos fl + int (length (take (nat sz) (drop (nat (pos fl)) ?cs))), deny_write fl))\<rparr>"
      unfolding l using afs_handle_upd [OF inv s'(2) nodes_keep_same [OF s'(5)] s'(6) u s'(7) _ s'(3,4)] by simp
  qed (rule s'(2))
qed

lemma refines_seek:
  assumes inv: "fs_inv d off n s" and u: "user_file s f fl ino" and p: "0 \<le> p"
  shows "refines d off n s (Seek f p)"
proof -
  obtain s' where s': "file_seek f p s = Some s'" "fs_inv d off n s'" "names d off s' = names d off s" "file_bytes d off s' = file_bytes d off s"
    "files s' = (files s)(f \<mapsto> fl\<lparr>pos := p\<rparr>)" "inodes s' = inodes s" "free_map_file s' = free_map_file s"
    using file_seek_inv [OF inv u p] by blast
  show ?thesis
    by (rule refinesI [OF _ s'(2) a_seek]) (use s'(1) user_handle [OF u]
      afs_handle_upd [OF inv s'(2) nodes_keep_same [OF s'(6)] s'(7) u s'(5) _ s'(3,4)] in simp_all)
qed

lemma refines_deny:
  assumes inv: "fs_inv d off n s" and u: "user_file s f fl ino"
  shows "refines d off n s (Deny f)"
proof -
  obtain s' where s': "file_deny_write f s = Some s'" "fs_inv d off n s'" "names d off s' = names d off s" "file_bytes d off s' = file_bytes d off s"
    "files s' = (files s)(f \<mapsto> fl\<lparr>deny_write := True\<rparr>)" "nodes_keep s s'" "free_map_file s' = free_map_file s"
    using file_deny_write_inv [OF inv u] by blast
  show ?thesis
    by (rule refinesI [OF _ s'(2) a_deny]) (use s'(1) user_handle [OF u]
      afs_handle_upd [OF inv s'(2,6,7) u s'(5) _ s'(3,4)] in simp_all)
qed

lemma refines_allow:
  assumes inv: "fs_inv d off n s" and u: "user_file s f fl ino"
  shows "refines d off n s (Allow f)"
proof -
  obtain s' ino' where s': "file_allow_write f s = Some s'" "fs_inv d off n s'" "names d off s' = names d off s" "file_bytes d off s' = file_bytes d off s"
    "files s' = (files s)(f \<mapsto> fl\<lparr>deny_write := False\<rparr>)" "free_map_file s' = free_map_file s"
    "inodes s' = (inodes s)(f_inode fl \<mapsto> ino')" "i_sector ino' = i_sector ino"
    using file_allow_write_inv [OF inv u] by blast
  have "nodes_keep s s'" using s'(7,8) user_fileD [OF u] by (auto simp: nodes_keep_def)
  note h = afs_handle_upd [OF inv s'(2) this s'(6) u s'(5) _ s'(3,4)]
  show ?thesis by (rule refinesI [OF _ s'(2) a_allow]) (use s'(1) user_handle [OF u] h in simp_all)
qed

lemma refines_tell:
  assumes inv: "fs_inv d off n s" and u: "user_file s f fl ino"
  shows "refines d off n s (Tell f)"
  by (rule refinesI [OF _ inv a_tell]) (use user_handle [OF u] user_fileD [OF u] user_file_sector(4) [OF inv u] in
    \<open>simp_all add: file_tell_def\<close>)

lemma refines_size:
  assumes inv: "fs_inv d off n s" and u: "user_file s f fl ino"
  shows "refines d off n s (Size f)"
proof (rule refinesI [OF _ inv a_size])
  have c: "core d off n (refs s) (denies s) s" using inv by (simp add: fs_inv_def)
  have u': "files s f = Some fl" "inodes s (f_inode fl) = Some ino" using user_fileD [OF u] by simp_all
  have "length (file_bytes d off s (unat (i_sector ino))) = len ino" using core_open_file(3) [OF c u'(2), symmetric] by simp
  moreover have "0 \<le> d_length (idata ino)" using core_open_file(2) [OF c u'(2)] by (simp add: ino_ok_def)
  ultimately show "fs_exec (Size f) s = Some (Num (int (length (file_bytes d off s (unat (i_sector ino))))), s)"
    using u' user_file_sector(4) [OF inv u] by (simp add: file_length_def inode_length_def len_def)
qed (use user_handle [OF u] afs_handle_data [OF user_handle [OF u]] in simp_all)

lemma denies_handle:
  assumes inv: "fs_inv d off n s" and u: "user_file s f fl ino"
  shows "denies s (f_inode fl) = 0 \<longleftrightarrow> (\<nexists>q. (i_sector ino, q, True) \<in> ran (handle s))"
proof -
  have c: "core d off n (refs s) (denies s) s" and t: "tables_ok s" using inv by (simp_all add: fs_inv_def)
  have "denies s (f_inode fl) = 0 \<longleftrightarrow> deny_refs s (f_inode fl) = {}" using finite_refs(3) [OF t] by (simp add: denies_def)
  also have "\<dots> \<longleftrightarrow> (\<nexists>q. (i_sector ino, q, True) \<in> ran (handle s))"
  proof -
    have "\<exists>q. (i_sector ino, q, True) \<in> ran (handle s)" if r: "g \<in> deny_refs s (f_inode fl)" for g
    proof -
      obtain gl where g: "files s g = Some gl" "f_inode gl = f_inode fl" "deny_write gl" using r by (auto simp: deny_refs_def)
      have "g \<noteq> free_map_file s"
      proof
        assume "g = free_map_file s"
        then have "i_sector ino = 0" using coreD(10) [OF c] g(1,2) user_fileD [OF u] by auto
        then show False using user_file_sector(1) [OF inv u] by simp
      qed
      then have "user_file s g gl ino" using g(1,2) user_fileD [OF u] by (simp add: user_file_def)
      then show ?thesis using user_handle [of s g gl ino] g(3) by (auto simp: ran_def)
    qed
    moreover have "g \<in> deny_refs s (f_inode fl)" if h: "handle s g = Some (i_sector ino, q, True)" for g q
    proof -
      obtain gl gi where g: "user_file s g gl gi" "(i_sector ino, q, True) = (i_sector gi, pos gl, deny_write gl)"
        using h by (rule handle_user)
      have "f_inode gl = f_inode fl"
        using itab_parts(3) [OF coreD(7) [OF c], of "f_inode gl" gi "f_inode fl" ino] user_fileD [OF u] user_fileD [OF g(1)] g(2) by simp
      then show ?thesis using user_fileD [OF g(1)] g(2) by (simp add: deny_refs_def)
    qed
    ultimately show ?thesis by (auto simp: ran_def)
  qed
  finally show ?thesis .
qed

lemma overlay_nil [simp]: "overlay cs p [] = cs"
  by (simp add: overlay_def)

lemma refines_write:
  assumes inv: "fs_inv d off n s" and u: "user_file s f fl ino" and b: "length buf = nat sz"
  shows "refines d off n s (Write f buf sz)"
proof -
  let ?x = "i_sector ino" and ?cs = "file_bytes d off s (unat (i_sector ino))"
  obtain k s' where s': "file_write f buf sz s = Some (int k, s')" "fs_inv d off n s'" "names d off s' = names d off s"
    "files s' = (files s)(f \<mapsto> fl\<lparr>pos := pos fl + int k\<rparr>)" "inodes s' = inodes s" "free_map_file s' = free_map_file s"
    "k = (if denies s (f_inode fl) = 0 then min (nat sz) (length ?cs - nat (pos fl)) else 0)"
    "file_bytes d off s' (unat ?x) = (if k = 0 then ?cs else overlay ?cs (nat (pos fl)) (take k buf))"
    "\<forall>y \<in> live (names d off s) (inodes s). y \<noteq> unat ?x \<longrightarrow> file_bytes d off s' y = file_bytes d off s y"
    using file_write_inv [OF inv u b] unfolding Let_def by (elim exE conjE) (rule that)
  have x: "file_bytes d off s' (unat ?x) = overlay ?cs (nat (pos fl)) (take k buf)" using s'(8) by simp
  have k: "k = (if \<exists>q. (?x, q, True) \<in> ran (handle s) then 0 else min (nat sz) (length ?cs - nat (pos fl)))"
    using s'(7) denies_handle [OF inv u] by simp
  note hu = user_handle [OF u]
  have h: "handle s' = (handle s)(f \<mapsto> (?x, pos fl + int k, deny_write fl))"
    using handle_upd [OF inv s'(2) nodes_keep_same [OF s'(5)] s'(6) u s'(4)] by simp
  have us: "used (names d off s) ((handle s)(f \<mapsto> (?x, pos fl + int k, deny_write fl))) = used (names d off s) (handle s)"
    by (rule used_upd [of "handle s" f, OF hu])
  let ?a = "(afs_of d off s)\<lparr>a_data := (a_data (afs_of d off s))(?x \<mapsto> overlay ?cs (nat (pos fl)) (take k buf)),
    a_open := (a_open (afs_of d off s))(f \<mapsto> (?x, pos fl + int k, deny_write fl))\<rparr>"
  show ?thesis
  proof (rule refinesI [OF _ s'(2)])
    show "fs_exec (Write f buf sz) s = Some (Num (int k), s')" using s'(1) by simp
    show "astep (Write f buf sz) (Num (int k)) (afs_of d off s) ?a"
      by (rule a_write) (use hu k afs_handle_data [of s f ?x, OF hu] in simp_all)
    show "afs_of d off s' = ?a"
    proof (rule afsI)
      fix y
      show "a_data ?a y = (if y \<in> used (names d off s') (handle s') then Some (file_bytes d off s' (unat y)) else None)"
      proof (cases "y = ?x")
        case True
        then show ?thesis unfolding s'(3) h us using x handle_used [of s f ?x, OF hu] by simp
      next
        case False
        then have "unat y \<noteq> unat ?x" by (simp add: unat_eq_iff32)
        then show ?thesis unfolding s'(3) h us using False used_live(1) [OF inv, of y] s'(9) by (simp add: afs_data)
      qed
    qed (simp_all add: s'(3) h)
  qed
qed

text \<open>A call that opens a file that is in use.\<close>

lemma afs_new_handle:
  assumes inv: "fs_inv d off n s" "fs_inv d off n s'" and k: "nodes_keep s s'" and f: "free_map_file s' = free_map_file s"
    and new: "files s f = None" and F: "files s' = (files s)(f \<mapsto> fl)" "inodes s' (f_inode fl) = Some ino"
    and nm: "names d off s' = names d off s" and x: "i_sector ino \<in> used (names d off s) (handle s)"
    and fb: "\<And>y. y \<in> used (names d off s) (handle s) \<Longrightarrow> file_bytes d off s' (unat y) = file_bytes d off s (unat y)"
  shows "afs_of d off s' = (afs_of d off s)\<lparr>a_open := (handle s)(f \<mapsto> (i_sector ino, pos fl, deny_write fl))\<rparr>" and "handle s f = None"
proof -
  note h = handle_new [OF inv k f new F]
  show "handle s f = None" by (rule h)
  have us: "used (names d off s) ((handle s)(f \<mapsto> (i_sector ino, pos fl, deny_write fl))) = used (names d off s) (handle s)"
    by (rule used_new [where H = "handle s" and f = f, OF _ h(2)]) (use x in \<open>simp add: used_def\<close>)
  show "afs_of d off s' = (afs_of d off s)\<lparr>a_open := (handle s)(f \<mapsto> (i_sector ino, pos fl, deny_write fl))\<rparr>"
    by (rule afsI) (simp_all add: h(1) nm us afs_data fb)
qed

lemma refines_reopen:
  assumes inv: "fs_inv d off n s" and u: "user_file s f fl ino"
  shows "refines d off n s (Reopen f)"
proof -
  let ?fl = "\<lparr>f_inode = f_inode fl, pos = 0, deny_write = False\<rparr>"
  obtain g s' where s': "file_reopen f s = Some (g, s')" "fs_inv d off n s'" "names d off s' = names d off s"
    "file_bytes d off s' = file_bytes d off s" "g \<noteq> 0" "files s g = None" "free_map_file s' = free_map_file s"
    "files s' = (files s)(g \<mapsto> ?fl)" "nodes_keep s s'"
    using file_reopen_inv [OF inv u] by blast
  obtain z where z: "inodes s' (f_inode ?fl) = Some z" using tablesD(4) [of s' g ?fl] s'(2,8) by (auto simp: fs_inv_def)
  have zs: "i_sector z = i_sector ino" using s'(9) z user_fileD [OF u] unfolding nodes_keep_def by auto
  have "i_sector z \<in> used (names d off s) (handle s)" using handle_used [of s f, OF user_handle [OF u]] zs by simp
  note h = afs_new_handle [OF inv s'(2,9,7,6,8) z s'(3) this]
  show ?thesis by (rule refinesI [OF _ s'(2) a_reopen]) (use s'(1,4,5) user_handle [OF u] h zs in simp_all)
qed

lemma keeps_used:
  assumes inv: "fs_inv d off n s" and k: "keeps d off (live (names d off s) (inodes s) - {1}) s s'" and y: "y \<in> used (names d off s) (handle s)"
  shows "file_bytes d off s' (unat y) = file_bytes d off s (unat y)"
  using used_live [OF inv y] k by (simp add: keeps_def)

lemma refines_open:
  assumes inv: "fs_inv d off n s" and name: "0 \<notin> set name"
  shows "refines d off n s (Open name)"
proof -
  obtain f s' where s': "filesys_open name s = Some (f, s')" "fs_inv d off n s'" "names d off s' = names d off s"
    "keeps d off (live (names d off s) (inodes s)) s s'" "free_map_file s' = free_map_file s" "nodes_keep s s'"
    "case names d off s name of
       None \<Rightarrow> f = 0 \<and> files s' = files s
     | Some x \<Rightarrow> \<exists>i ino. f \<noteq> 0 \<and> files s f = None \<and> files s' = (files s)(f \<mapsto> \<lparr>f_inode = i, pos = 0, deny_write = False\<rparr>) \<and>
         inodes s' i = Some ino \<and> i_sector ino = x"
    using filesys_open_ok [OF inv name] by (elim exE conjE) (rule that)
  note kp = keeps_used [OF inv keeps_mono [OF s'(4) Diff_subset]]
  show ?thesis
  proof (cases "names d off s name")
    case None
    then have f: "f = 0" "files s' = files s" using s'(7) by simp_all
    have "afs_of d off s' = afs_of d off s"
      using handle_all [OF inv s'(2,6,5) f(2)] s'(3) kp by (intro afsI) (simp_all add: afs_data)
    then show ?thesis by (intro refinesI [OF _ s'(2) a_open_fails]) (use s'(1) f(1) None in simp_all)
  next
    case (Some x)
    then obtain i ino where f: "f \<noteq> 0" "files s f = None" "files s' = (files s)(f \<mapsto> \<lparr>f_inode = i, pos = 0, deny_write = False\<rparr>)"
      "inodes s' i = Some ino" "i_sector ino = x" using s'(7) by auto
    have "i_sector ino \<in> used (names d off s) (handle s)" using Some f(5) ranI [of "names d off s" name x] by (simp add: used_def)
    note h = afs_new_handle [OF inv s'(2,6,5) f(2,3) _ s'(3) this kp]
    show ?thesis by (rule refinesI [OF _ s'(2) a_open_name]) (use s'(1) f h Some in simp_all)
  qed
qed

lemma refines_create:
  assumes inv: "fs_inv d off n s" and name: "0 \<notin> set name" and e: "length (ename e) = 15" and len: "0 \<le> l" "l < 2 ^ 31"
  shows "refines d off n s (Create name l e)"
proof -
  let ?N = "names d off s"
  obtain ok s' where s': "filesys_create name l e s = Some (ok, s')" "fs_inv d off n s'" "files s' = files s"
    "keeps d off (live ?N (inodes s) - {1}) s s'" "free_map_file s' = free_map_file s" "nodes_keep s s'"
    "if ok then \<exists>x. names d off s' = ?N(name \<mapsto> x) \<and> file_bytes d off s' (unat x) = replicate (nat l) 0 \<and> unat x \<notin> live ?N (inodes s)
     else names d off s' = ?N" "\<not> addable (file_bytes d off s 1) name \<longrightarrow> \<not> ok"
    using filesys_create_ok [OF assms] by (elim exE conjE) (rule that)
  note h = handle_all [OF inv s'(2,6,5,3)] and kp = keeps_used [OF inv s'(4)]
  show ?thesis
  proof (cases ok)
    case False
    then have "afs_of d off s' = afs_of d off s" using s'(7) kp by (intro afsI) (simp_all add: afs_data h)
    then show ?thesis by (intro refinesI [OF _ s'(2) a_create_fails]) (use s'(1) False in simp_all)
  next
    case True
    then obtain x where x: "names d off s' = ?N(name \<mapsto> x)" "file_bytes d off s' (unat x) = replicate (nat l) 0" "unat x \<notin> live ?N (inodes s)"
      using s'(7) by auto
    have a: "?N name = None" "0 < length name" "length name \<le> NAME_MAX" using s'(8) True by (auto simp: addable_def names_def)
    have xu: "x \<notin> used ?N (handle s)" using used_live(1) [OF inv, of x] x(3) by blast
    have us: "used (?N(name \<mapsto> x)) (handle s) = insert x (used ?N (handle s))" using a(1) by (auto simp: used_def)
    show ?thesis
    proof (rule refinesI [OF _ s'(2) a_create])
      show "fs_exec (Create name l e) s = Some (Bool True, s')" using s'(1) True by simp
      show "x \<notin> dom (a_data (afs_of d off s))" using xu by (simp add: afs_data domIff)
      show "afs_of d off s' = (afs_of d off s)\<lparr>a_names := (a_names (afs_of d off s))(name \<mapsto> x),
        a_data := (a_data (afs_of d off s))(x \<mapsto> replicate (nat l) 0)\<rparr>"
        using xu x(2) kp by (intro afsI) (auto simp: afs_data h x(1) us)
    qed (use a in simp_all)
  qed
qed

text \<open>A call after which fewer files are in use.\<close>

lemma afs_collect:
  assumes inv: "fs_inv d off n s'" and k: "keeps d off (live (names d off s') (inodes s') - {1}) s s'"
    and sub: "used (names d off s') (handle s') \<subseteq> used (names d off s) (handle s)"
    and a: "names d off s' = a_names a" "handle s' = a_open a" "a_data a = a_data (afs_of d off s)"
  shows "afs_of d off s' = collect a"
proof (rule afsI)
  fix x
  show "a_data (collect a) x = (if x \<in> used (names d off s') (handle s') then Some (file_bytes d off s' (unat x)) else None)"
    using sub a used_live [OF inv, of x] k by (auto simp: collect_def restrict_map_def afs_data keeps_def)
qed (simp_all add: collect_def a)

lemma refines_remove:
  assumes inv: "fs_inv d off n s" and name: "0 \<notin> set name"
  shows "refines d off n s (Remove name)"
proof -
  obtain s' where s': "filesys_remove name s = Some (names d off s name \<noteq> None, s')" "fs_inv d off n s'" "files s' = files s"
    "free_map_file s' = free_map_file s" "nodes_keep s s'" "names d off s' = (names d off s)(name := None)"
    "keeps d off (live (names d off s') (inodes s') - {1}) s s'"
    using filesys_remove_ok [OF inv name] by (elim exE conjE) (rule that)
  note h = handle_all [OF inv s'(2,5,4,3)]
  have "used (names d off s') (handle s') \<subseteq> used (names d off s) (handle s)"
    unfolding h s'(6) by (auto simp: used_def ran_def split: if_splits)
  note a = afs_collect [OF s'(2,7) this]
  show ?thesis by (rule refinesI [OF _ s'(2) a_remove]) (use s'(1) in simp, intro a, simp_all add: s'(6) h)
qed

lemma refines_close:
  assumes inv: "fs_inv d off n s" and u: "user_file s f fl ino"
  shows "refines d off n s (Close f)"
proof -
  obtain s' where s': "file_close f s = Some s'" "fs_inv d off n s'" "names d off s' = names d off s" "files s' = (files s)(f := None)"
    "free_map_file s' = free_map_file s" "nodes_keep s s'" "keeps d off (live (names d off s') (inodes s')) s s'"
    using file_close_inv [OF inv u] by (elim exE conjE) (rule that)
  have h: "handle s' = (handle s)(f := None)"
  proof
    fix g
    show "handle s' g = ((handle s)(f := None)) g"
      using handle_same [OF inv s'(2,6,5), of g] s'(4) by (cases "g = f") (simp_all add: handle_def)
  qed
  have "used (names d off s') (handle s') \<subseteq> used (names d off s) (handle s)"
    unfolding h s'(3) by (force simp: used_def ran_def split: if_splits)
  note a = afs_collect [OF s'(2) keeps_mono [OF s'(7) Diff_subset] this]
  show ?thesis
    by (rule refinesI [OF _ s'(2) a_close]) (use s'(1) user_handle [OF u] in simp, use user_handle [OF u] in simp, intro a, simp_all add: s'(3) h)
qed

lemma allowed_refines:
  assumes inv: "fs_inv d off n s" and a: "allowed s c"
  shows "refines d off n s c"
proof -
  have u: "\<exists>fl ino. user_file s f fl ino" if h: "\<exists>y. handle s f = Some y" for f using h by (blast elim: handle_user)
  show ?thesis
  proof (cases c)
    case (Create name l e)
    then show ?thesis using a refines_create [OF inv] by simp
  next
    case (Open name)
    then show ?thesis using a refines_open [OF inv] by simp
  next
    case (Remove name)
    then show ?thesis using a refines_remove [OF inv] by simp
  qed (use a in \<open>auto simp del: split_paired_Ex dest!: u intro: refines_read [OF inv] refines_write [OF inv] refines_seek [OF inv]
    refines_tell [OF inv] refines_size [OF inv] refines_deny [OF inv] refines_allow [OF inv] refines_reopen [OF inv] refines_close [OF inv]\<close>)
qed

section \<open>Sequences of calls\<close>

inductive trace :: "('c \<Rightarrow> 'r \<Rightarrow> 's \<Rightarrow> 's \<Rightarrow> bool) \<Rightarrow> 's \<Rightarrow> ('c \<times> 'r) list \<Rightarrow> 's \<Rightarrow> bool" for step s0 where
  trace_nil: "trace step s0 [] s0"
| trace_snoc: "trace step s0 t s \<Longrightarrow> step c r s s' \<Longrightarrow> trace step s0 (t @ [(c, r)]) s'"

definition fs_step :: "fs_call \<Rightarrow> fs_res \<Rightarrow> 'a fsys_scheme \<Rightarrow> 'a fsys_scheme \<Rightarrow> bool" where
  "fs_step c r s s' \<longleftrightarrow> allowed s c \<and> fs_exec c s = Some (r, s')"

text \<open>
  A component whose operations, called as its clients may call them, never fail and
  simulate an abstract step: so do sequences of calls.
\<close>

locale simulation =
  fixes exec :: "'c \<Rightarrow> 's \<Rightarrow> ('r \<times> 's) option" and may :: "'s \<Rightarrow> 'c \<Rightarrow> bool" and good :: "'s \<Rightarrow> bool"
    and view :: "'s \<Rightarrow> 'v" and astep :: "'c \<Rightarrow> 'r \<Rightarrow> 'v \<Rightarrow> 'v \<Rightarrow> bool"
  assumes simulate: "good s \<Longrightarrow> may s c \<Longrightarrow> \<exists>r s'. exec c s = Some (r, s') \<and> good s' \<and> astep c r (view s) (view s')"
begin

lemma one_step: "good s \<Longrightarrow> may s c \<and> exec c s = Some (r, s') \<Longrightarrow> good s' \<and> astep c r (view s) (view s')"
  using simulate by fastforce

lemma many_steps:
  "trace (\<lambda>c r s s'. may s c \<and> exec c s = Some (r, s')) s0 t s \<Longrightarrow> good s0 \<Longrightarrow> good s \<and> trace astep (view s0) t (view s)"
proof (induction rule: trace.induct)
  case trace_nil
  then show ?case by (auto intro: trace.trace_nil)
next
  case (trace_snoc t s c r s')
  then show ?case using one_step [of s c r s'] by (auto intro: trace.trace_snoc)
qed

lemma no_failure: "good s \<Longrightarrow> may s c \<Longrightarrow> exec c s \<noteq> None"
  using simulate by fastforce

end

lemma fs_simulation:
  "fs_inv d off n s \<Longrightarrow> allowed s c \<Longrightarrow>
    \<exists>r s'. fs_exec c s = Some (r, s') \<and> fs_inv d off n s' \<and> astep c r (afs_of d off s) (afs_of d off s')"
  using allowed_refines unfolding refines_def .

interpretation fs_sim: simulation fs_exec allowed "fs_inv d off n" "afs_of d off" astep for d off n
  by unfold_locales (rule fs_simulation)

lemma fs_step_eq: "fs_step = (\<lambda>c r s s'. allowed s c \<and> fs_exec c s = Some (r, s'))"
  by (simp add: fs_step_def fun_eq_iff)

lemma formatted_afs:
  assumes "names d off s = Map.empty" and "dom (files s) = {free_map_file s}"
  shows "afs_of d off s = empty_afs"
proof -
  have "handle s f = None" for f
    using assms(2) by (cases "files s f") (auto simp: handle_def)
  then have "handle s = Map.empty" by (simp add: fun_eq_iff)
  then show ?thesis using assms(1) by (simp add: afs_of_def empty_afs_def used_def restrict_map_def)
qed

section \<open>A small disk\<close>

definition demo_boot :: fsys where
  "demo_boot = \<lparr>allocs = 9, mem_ok = (\<lambda>_. True),
     blocks = [1 \<mapsto> \<lparr>bname = [], btype = BLOCK_FILESYS, bsize = 64, ops = Ide 0\<rparr>], all_blocks = [1],
     block_by_role = (\<lambda>_. 1), read_cnt = (\<lambda>_. 0), write_cnt = (\<lambda>_. 0), media = (\<lambda>_ _. replicate 512 0),
     fs_device = 0, inodes = Map.empty, open_inodes = [], files = Map.empty, dirs = Map.empty,
     free_map = \<lparr>bit_cnt = 0, bits = []\<rparr>, free_map_file = 0\<rparr>"

lemma demo_boot: "boot 0 0 64 demo_boot" "3 + map_sectors 64 \<le> 64" "(64 + 31) div 32 \<le> length [7, 7 :: u32]" "map_sectors 64 = 1"
proof -
  have "maps_to (blocks demo_boot) 1 0 0 (unat (bsize \<lparr>bname = [], btype = BLOCK_FILESYS, bsize = 64, ops = Ide 0\<rparr>))"
    by (rule maps_to.disk) (simp_all add: demo_boot_def)
  then show "boot 0 0 64 demo_boot" by (simp add: boot_def fsdev_def mem_total_def demo_boot_def)
  show "map_sectors 64 = 1" "3 + map_sectors 64 \<le> 64" by (simp_all add: map_sectors_def)
qed simp

lemma volume_transfer:
  assumes v: "volume d off n b s" and dev: "fsdev d off n s'" and same: "\<forall>k < n. sect d off s' k = sect d off s k"
  shows "volume d off n b s'" and "names d off s' = names d off s"
    and "\<And>k. k \<in> named (names d off s) \<Longrightarrow> file_bytes d off s' k = file_bytes d off s k"
proof -
  note V = volumeD [OF v]
  have f: "dino d off s' k = dino d off s k \<and> file_bytes d off s' k = file_bytes d off s k" if k: "k \<in> named (names d off s)" for k
  proof -
    have "sect d off s' j = sect d off s j" if "j \<in> own (dino d off s) k" for j
      using layout_own [OF V(4) k] that same by blast
    with file_frame [OF layoutD(2) [OF V(4) k], of s'] show ?thesis by blast
  qed
  show n: "names d off s' = names d off s" using f [of 1] by (simp add: names_def)
  show "file_bytes d off s' k = file_bytes d off s k" if "k \<in> named (names d off s)" for k using f [OF that] by simp
  have "layout n (named (names d off s)) (dino d off s') (bm_abs b)" using V(4) layout_cong [of "named (names d off s)"] f by blast
  then show "volume d off n b s'" unfolding volume_def n using dev V f [of 0] f [of 1] by simp
qed

section \<open>Properties of the file system\<close>

text \<open>
  C8: Every call of the file system's interface that respects its preconditions
  returns (no assertion fails and no memory error occurs, provided memory does not
  run out), keeps the invariant of the disk and of the tables of open files, and does
  what the call does on the abstract file system of names, contents and handles: a
  write changes the bytes of that file and of no other and is refused while a handle
  denies it, a removed file lives until its last handle is closed.
\<close>

theorem fs_call_refines:
  assumes "fs_inv d off n s" and "allowed s c"
  shows "\<exists>r s'. fs_exec c s = Some (r, s') \<and> fs_inv d off n s' \<and> astep c r (afs_of d off s) (afs_of d off s')"
  by (rule fs_simulation [OF assms])

lemma demo_formatted:
  "\<exists>s. filesys_init [7, 7] True demo_boot = Some s \<and> fs_inv 0 0 64 s \<and> afs_of 0 0 s = empty_afs"
  using filesys_format_ok [OF demo_boot(1-3)] formatted_afs by blast

theorem fs_call_refines_witness:
  "\<exists>s r s'. filesys_init [7, 7] True demo_boot = Some s \<and> fs_inv 0 0 64 s \<and>
     allowed s (Create [97, 98] 700 \<lparr>inode_sector = 5, ename = replicate 15 3, in_use = True\<rparr>) \<and>
     fs_exec (Create [97, 98] 700 \<lparr>inode_sector = 5, ename = replicate 15 3, in_use = True\<rparr>) s = Some (r, s') \<and>
     astep (Create [97, 98] 700 \<lparr>inode_sector = 5, ename = replicate 15 3, in_use = True\<rparr>) r empty_afs (afs_of 0 0 s')"
proof -
  let ?c = "Create [97, 98] 700 \<lparr>inode_sector = 5, ename = replicate 15 3, in_use = True\<rparr>"
  obtain s where s: "filesys_init [7, 7] True demo_boot = Some s" "fs_inv 0 0 64 s" "afs_of 0 0 s = empty_afs"
    using demo_formatted by blast
  have a: "allowed s ?c" by simp
  from fs_call_refines [OF s(2) a] s a show ?thesis by auto
qed



text \<open>
  C11: The disk holds the whole file system after every call: starting the kernel on
  it again, with or without shutting down before, finds every name with its contents;
  only the handles are gone, and the files that had no name any more.
\<close>

theorem filesys_remount:
  assumes "fs_inv d off n s" and "boot d off n s0" and "\<forall>k < n. sect d off s0 k = sect d off s k" and "(n + 31) div 32 \<le> length junk"
  shows "\<exists>s'. filesys_init junk False s0 = Some s' \<and> fs_inv d off n s' \<and>
    afs_of d off s' = collect ((afs_of d off s)\<lparr>a_open := Map.empty\<rparr>)"
proof -
  let ?s1 = "s0\<lparr>fs_device := block_by_role s0 BLOCK_FILESYS\<rparr>"
  note v = fs_inv_volume [OF assms(1)]
  have dev: "fsdev d off n ?s1" using assms(2) by (simp add: boot_def)
  have sec: "sect d off ?s1 = sect d off s0" by (simp add: sect_def fun_eq_iff)
  note t = volume_transfer [OF v dev, unfolded sec, OF assms(3)]
  have n: "2 \<le> n" using layoutD(1) [OF volumeD(4) [OF v], of 1] by simp
  obtain s' where s': "filesys_init junk False s0 = Some s'" "fs_inv d off n s'" "names d off s' = names d off s0"
    "file_bytes d off s' = file_bytes d off s0" "dom (files s') = {free_map_file s'}"
    using filesys_mount_ok [OF assms(2) t(1) n assms(4)] by blast
  have h: "handle s' = Map.empty"
  proof
    fix f show "handle s' f = None" using s'(5) by (cases "files s' f") (auto simp: handle_def)
  qed
  have nm: "names d off s' = names d off s" using s'(3) t(2) files_cong(3) [OF sec] by simp
  have "afs_of d off s' = collect ((afs_of d off s)\<lparr>a_open := Map.empty\<rparr>)"
  proof (rule afsI)
    fix x
    have "file_bytes d off s' (unat x) = file_bytes d off s (unat x)" if "x \<in> ran (names d off s)"
      using t(3) [of "unat x"] that s'(4) files_cong(2) [OF sec] by (auto simp: named_def)
    then show "a_data (collect ((afs_of d off s)\<lparr>a_open := Map.empty\<rparr>)) x =
      (if x \<in> used (names d off s') (handle s') then Some (file_bytes d off s' (unat x)) else None)"
      unfolding h nm by (simp add: collect_def restrict_map_def afs_data used_def)
  qed (simp_all add: collect_def h nm)
  then show ?thesis using s'(1,2) by blast
qed

theorem filesys_remount_witness:
  "\<exists>s s'. filesys_init [7, 7] True demo_boot = Some s \<and> boot 0 0 64 (demo_boot\<lparr>media := media s\<rparr>) \<and>
     filesys_init [7, 7] False (demo_boot\<lparr>media := media s\<rparr>) = Some s' \<and> fs_inv 0 0 64 s' \<and> afs_of 0 0 s' = empty_afs"
proof -
  obtain s where s: "filesys_init [7, 7] True demo_boot = Some s" "fs_inv 0 0 64 s" "afs_of 0 0 s = empty_afs"
    using demo_formatted by blast
  let ?s0 = "demo_boot\<lparr>media := media s\<rparr>"
  have "fsdev 0 0 64 s" using s(2) coreD(1) by (auto simp: fs_inv_def)
  then have b: "boot 0 0 64 ?s0" using demo_boot(1) by (simp add: boot_def fsdev_def mem_total_def)
  have "\<forall>k < 64. sect 0 0 ?s0 k = sect 0 0 s k" by (simp add: sect_def)
  from filesys_remount [OF s(2) b this demo_boot(3)] s(1,3) b show ?thesis by (auto simp: collect_def empty_afs_def)
qed

end
