(* ===== verification/Arith64.thy ===== *)
theory Arith64
  imports Prelude "HOL-Library.Signed_Division"
begin

text \<open>
  64-bit division on a 32-bit machine (\<open>lib/arithmetic.c\<close>): \<open>udiv64\<close> computes the
  quotient with the processor's 64-by-32-bit division, whose trap is the value
  \<open>None\<close>, and at most one correction.
\<close>

section \<open>The code\<close>

text \<open>The instruction traps if the divisor is 0 or the quotient has more than 32 bits.\<close>

definition divl :: "u64 \<Rightarrow> u32 \<Rightarrow> u32 option" where
  "divl n d = (if d = 0 \<or> unat n div unat d \<ge> 2 ^ 32 then None else Some (word_of_nat (unat n div unat d)))"

definition nlz :: "u32 \<Rightarrow> nat" where
  "nlz x =
     (let (n, x) = (if x \<le> 0x0000FFFF then (16, push_bit 16 x) else (0, x));
          (n, x) = (if x \<le> 0x00FFFFFF then (n + 8, push_bit 8 x) else (n, x));
          (n, x) = (if x \<le> 0x0FFFFFFF then (n + 4, push_bit 4 x) else (n, x));
          (n, x) = (if x \<le> 0x3FFFFFFF then (n + 2, push_bit 2 x) else (n, x))
      in if x \<le> 0x7FFFFFFF then n + 1 else n)"

definition udiv64 :: "u64 \<Rightarrow> u64 \<Rightarrow> u64 option" where
  "udiv64 n d =
     (if drop_bit 32 d = 0 then do {
        let b = (push_bit 32 1 :: u64);
        let n1 = (ucast (drop_bit 32 n) :: u32);
        let n0 = (ucast n :: u32);
        let d0 = (ucast d :: u32);
        ASSERT (d0 \<noteq> 0);
        q \<leftarrow> divl (b * ucast (n1 mod d0) + ucast n0) d0;
        Some (ucast q + b * ucast (n1 div d0)) }
      else if n < d then Some 0
      else do {
        let d1 = (ucast (drop_bit 32 d) :: u32);
        let s = nlz d1;
        q \<leftarrow> divl (drop_bit 1 n) (ucast (drop_bit 32 (push_bit s d)));
        let q = (ucast (drop_bit (31 - s) q) :: u64);
        Some (if n - (q - 1) * d < d then q - 1 else q) })"

text \<open>The remainders are returned as 32-bit values.\<close>

definition umod64 :: "u64 \<Rightarrow> u64 \<Rightarrow> u32 option" where
  "umod64 n d = do { q \<leftarrow> udiv64 n d; Some (ucast (n - d * q)) }"

definition sdiv64 :: "u64 \<Rightarrow> u64 \<Rightarrow> u64 option" where
  "sdiv64 n d = do {
     let n_abs = (if 0 \<le> sint n then n else - n);
     let d_abs = (if 0 \<le> sint d then d else - d);
     q_abs \<leftarrow> udiv64 n_abs d_abs;
     Some (if (sint n < 0) = (sint d < 0) then q_abs else - q_abs) }"

definition smod64 :: "u64 \<Rightarrow> u64 \<Rightarrow> u32 option" where
  "smod64 n d = do { q \<leftarrow> sdiv64 n d; Some (ucast (n - d * q)) }"

text \<open>The routines that the compiler calls; the conversions of the remainders extend them again.\<close>

definition divdi3 :: "u64 \<Rightarrow> u64 \<Rightarrow> u64 option" where
  "divdi3 n d = sdiv64 n d"

definition moddi3 :: "u64 \<Rightarrow> u64 \<Rightarrow> u64 option" where
  "moddi3 n d = map_option scast (smod64 n d)"

definition udivdi3 :: "u64 \<Rightarrow> u64 \<Rightarrow> u64 option" where
  "udivdi3 n d = udiv64 n d"

definition umoddi3 :: "u64 \<Rightarrow> u64 \<Rightarrow> u64 option" where
  "umoddi3 n d = map_option ucast (umod64 n d)"

section \<open>Leading zeros\<close>

lemma unat_push_small:
  fixes x :: "'a::len word"
  assumes "unat x * 2 ^ k < 2 ^ LENGTH('a)"
  shows "unat (push_bit k x) = unat x * 2 ^ k"
  unfolding unsigned_push_bit_eq using assms by (simp add: push_bit_eq_mult take_bit_nat_eq_self)

text \<open>One stage: a value below \<open>2 ^ (32 - c)\<close> is shifted by \<open>c\<close> bits.\<close>

lemma nlz_stage:
  fixes x :: u32
  assumes "2 ^ (32 - 2 * c) \<le> unat x" and "c \<le> 16" and "unat m = 2 ^ (32 - c) - 1"
  shows "\<exists>j x'. (if x \<le> m then (k + c, push_bit c x) else (k, x)) = (k + j, x') \<and> j \<le> c \<and> unat x' = unat x * 2 ^ j \<and> 2 ^ (32 - c) \<le> unat x'"
proof (cases "x \<le> m")
  case True
  then have "unat x < 2 ^ (32 - c)" using assms(3) by (simp add: word_le_nat_alt le_less_trans)
  then have "unat x * 2 ^ c < 2 ^ (32 - c) * 2 ^ c" by simp
  also have "\<dots> = 2 ^ 32" using assms(2) by (simp flip: power_add)
  finally have u: "unat (push_bit c x) = unat x * 2 ^ c" by (simp add: unat_push_small)
  have "(2 :: nat) ^ (32 - c) = 2 ^ (32 - 2 * c) * 2 ^ c" using assms(2) by (simp flip: power_add)
  also have "\<dots> \<le> unat x * 2 ^ c" using assms(1) by simp
  finally show ?thesis using True u by (intro exI [of _ c] exI [of _ "push_bit c x"]) simp
next
  case False
  then have "2 ^ (32 - c) \<le> unat x" using assms(3) by (simp add: word_le_nat_alt)
  then show ?thesis using False by (intro exI [of _ 0] exI [of _ x]) simp
qed

lemma nlz_ok:
  assumes "x \<noteq> 0"
  shows "2 ^ 31 \<le> unat x * 2 ^ nlz x" and "unat x * 2 ^ nlz x < 2 ^ 32" and "nlz x \<le> 31"
proof -
  have x: "2 ^ (32 - 2 * 16) \<le> unat x" using assms by (simp add: Suc_le_eq unat_gt_0)
  obtain j1 x1 where 1: "(if x \<le> 0x0000FFFF then (16, push_bit 16 x) else (0, x)) = (j1, x1)" "j1 \<le> 16" "unat x1 = unat x * 2 ^ j1" "2 ^ (32 - 2 * 8) \<le> unat x1"
    using nlz_stage [where m = "0xFFFF" and k = 0, OF x] unfolding add_0 by auto
  obtain j2 x2 where 2: "(if x1 \<le> 0x00FFFFFF then (j1 + 8, push_bit 8 x1) else (j1, x1)) = (j1 + j2, x2)" "j2 \<le> 8" "unat x2 = unat x1 * 2 ^ j2" "2 ^ (32 - 2 * 4) \<le> unat x2"
    using nlz_stage [where m = "0x00FFFFFF" and k = j1, OF 1(4)] by auto
  obtain j3 x3 where 3: "(if x2 \<le> 0x0FFFFFFF then (j1 + j2 + 4, push_bit 4 x2) else (j1 + j2, x2)) = (j1 + j2 + j3, x3)" "j3 \<le> 4" "unat x3 = unat x2 * 2 ^ j3" "2 ^ (32 - 2 * 2) \<le> unat x3"
    using nlz_stage [where m = "0x0FFFFFFF" and k = "j1 + j2", OF 2(4)] by auto
  obtain j4 x4 where 4: "(if x3 \<le> 0x3FFFFFFF then (j1 + j2 + j3 + 2, push_bit 2 x3) else (j1 + j2 + j3, x3)) = (j1 + j2 + j3 + j4, x4)" "j4 \<le> 2" "unat x4 = unat x3 * 2 ^ j4" "2 ^ (32 - 2 * 1) \<le> unat x4"
    using nlz_stage [where m = "0x3FFFFFFF" and k = "j1 + j2 + j3", OF 3(4)] by auto
  obtain j5 x5 where 5: "(if x4 \<le> 0x7FFFFFFF then (j1 + j2 + j3 + j4 + 1, push_bit 1 x4) else (j1 + j2 + j3 + j4, x4)) = (j1 + j2 + j3 + j4 + j5, x5)" "j5 \<le> 1" "unat x5 = unat x4 * 2 ^ j5" "2 ^ (32 - 1) \<le> unat x5"
    using nlz_stage [where m = "0x7FFFFFFF" and k = "j1 + j2 + j3 + j4", OF 4(4)] by auto
  have "nlz x = fst (if x4 \<le> 0x7FFFFFFF then (j1 + j2 + j3 + j4 + 1, push_bit 1 x4) else (j1 + j2 + j3 + j4, x4))"
    unfolding nlz_def Let_def 1(1) prod.case 2(1) 3(1) 4(1) by simp
  then have n: "nlz x = j1 + j2 + j3 + j4 + j5" unfolding 5(1) by simp
  have u: "unat x5 = unat x * 2 ^ nlz x" unfolding n 5(3) 4(3) 3(3) 2(3) 1(3) by (simp add: power_add)
  show "2 ^ 31 \<le> unat x * 2 ^ nlz x" using 5(4) unfolding u by simp
  show "unat x * 2 ^ nlz x < 2 ^ 32" using u32_lt [of x5] unfolding u by simp
  show "nlz x \<le> 31" using 1(2) 2(2) 3(2) 4(2) 5(2) n by linarith
qed

section \<open>The estimate is off by at most one\<close>

text \<open>
  \<open>v\<close> is the divisor's leading 32 bits after shifting it by \<open>s\<close>; the estimate divides
  by \<open>v * 2 ^ (32 - s)\<close>, which is at most the divisor.
\<close>

lemma estimate:
  fixes n D v :: nat
  assumes s: "s \<le> 31" and v: "v = D * 2 ^ s div 2 ^ 32" "2 ^ 31 \<le> v" and n: "n < 2 ^ 64"
  shows "n div D \<le> n div 2 div v div 2 ^ (31 - s)" and "n div 2 div v div 2 ^ (31 - s) \<le> Suc (n div D)"
proof -
  define E where "E = v * 2 ^ (32 - s)"
  have p: "(2 :: nat) ^ (32 - s) * 2 ^ s = 2 ^ 32" "(2 :: nat) * 2 ^ (31 - s) = 2 ^ (32 - s)" "(2 :: nat) ^ (31 - s) * 2 ^ s = 2 ^ 31"
    using s by (simp_all flip: power_add power_Suc add: Suc_diff_le)
  have "n div 2 div v div 2 ^ (31 - s) = n div (2 * v * 2 ^ (31 - s))" by (simp flip: div_mult2_eq)
  then have q: "n div 2 div v div 2 ^ (31 - s) = n div E" unfolding E_def p(2) [symmetric] by (simp add: ac_simps)
  have "E * 2 ^ s = v * 2 ^ 32" unfolding E_def by (simp add: p(1) mult.assoc)
  moreover have "v * 2 ^ 32 \<le> D * 2 ^ s" unfolding v(1) by (rule div_times_less_eq_dividend)
  moreover have "D * 2 ^ s < (v + 1) * 2 ^ 32" unfolding v(1) using dividend_less_div_times [of "2 ^ 32" "D * 2 ^ s"] by simp
  ultimately have le: "E * 2 ^ s \<le> D * 2 ^ s" and gt: "D * 2 ^ s < (E + 2 ^ (32 - s)) * 2 ^ s"
    by (simp_all add: distrib_right p(1))
  have ED: "E \<le> D" using le by simp
  have DE: "D < E + 2 ^ (32 - s)" using gt by simp
  have "2 ^ 31 * 2 ^ (32 - s) \<le> E" unfolding E_def using v(2) by simp
  moreover have "(2 :: nat) ^ (63 - s) = 2 ^ 31 * 2 ^ (32 - s)" using s by (subst power_add [symmetric]) (rule arg_cong [where f = "(^) 2"], arith)
  ultimately have E63: "2 ^ (63 - s) \<le> E" by simp
  have E0: "0 < E" using E63 by (rule less_le_trans [rotated]) simp
  show "n div D \<le> n div 2 div v div 2 ^ (31 - s)" unfolding q by (rule div_le_mono2 [OF E0 ED])
  have "n div D < 2 ^ Suc s"
  proof -
    have "(2 :: nat) ^ 64 = 2 ^ Suc s * 2 ^ (63 - s)" using s by (simp flip: power_add power_Suc)
    also have "\<dots> \<le> 2 ^ Suc s * D" using E63 ED by (intro mult_le_mono2) simp
    finally show ?thesis using n by (intro less_mult_imp_div_less) (rule less_le_trans)
  qed
  then have Q: "Suc (n div D) \<le> 2 ^ Suc s" by simp
  have "D - E \<le> 2 ^ (32 - s) - 1" using DE by simp
  then have "Suc (n div D) * (D - E) \<le> 2 ^ Suc s * (2 ^ (32 - s) - 1)" using Q by (intro mult_le_mono)
  also have "\<dots> \<le> 2 ^ (63 - s)"
  proof (cases "s = 31")
    case False
    then have "(2 :: nat) ^ Suc s * (2 ^ (32 - s) - 1) \<le> 2 ^ Suc s * 2 ^ (32 - s)" by simp
    also have "\<dots> = 2 ^ 33" using s by (simp flip: power_add power_Suc)
    also have "\<dots> \<le> 2 ^ (63 - s)" using False s by (intro power_increasing) simp_all
    finally show ?thesis .
  qed simp
  finally have "Suc (n div D) * (D - E) \<le> E" using E63 by simp
  moreover have "Suc (n div D) * D = Suc (n div D) * (D - E) + Suc (n div D) * E" using ED by (simp flip: distrib_left)
  moreover have "n < Suc (n div D) * D" using dividend_less_div_times [of D n] E0 ED by (simp add: ac_simps)
  ultimately have "n < Suc (Suc (n div D)) * E" by simp
  then have "n div E < Suc (Suc (n div D))" by (simp add: less_mult_imp_div_less)
  then show "n div 2 div v div 2 ^ (31 - s) \<le> Suc (n div D)" unfolding q by simp
qed

section \<open>Division is division\<close>

lemma u64_lt: "unat (x :: u64) < 2 ^ 64"
  using unsigned_less [of x, where ?'a = nat] by simp

lemma unat_drop_bit: "unat (drop_bit k x) = unat x div 2 ^ k"
  unfolding unat_drop_bit_eq by (rule drop_bit_eq_div)

lemma unat_high: "unat (ucast (drop_bit 32 (x :: u64)) :: u32) = unat x div 2 ^ 32"
proof -
  have "unat x div 2 ^ 32 < 2 ^ 32" using u64_lt [of x] by (intro less_mult_imp_div_less) simp
  then show ?thesis by (simp add: unsigned_ucast_eq unat_drop_bit take_bit_nat_eq_self)
qed

lemma unat_low: "unat (ucast (x :: u64) :: u32) = unat x mod 2 ^ 32"
  by (simp add: unsigned_ucast_eq take_bit_eq_mod)

lemma unat_up: "unat (ucast (x :: u32) :: u64) = unat x"
  using u32_lt [of x] by (simp add: unsigned_ucast_eq take_bit_nat_eq_self del: u32_lt)

lemma u64_eqI: "unat x = unat y \<Longrightarrow> x = (y :: u64)"
  by (simp add: word_unat_eq_iff)

lemma short_division_gen:
  fixes b d h l :: nat
  assumes "0 < d" and l: "l < b"
  shows "(b * (h mod d) + l) div d + b * (h div d) = (b * h + l) div d" and "(b * (h mod d) + l) div d < b" and "b * (h mod d) + l \<le> b * h + l"
proof -
  define q r where "q = h div d" and "r = h mod d"
  have h: "h = r + q * d" and r: "r < d" using assms(1) by (simp_all add: q_def r_def)
  have "b * h + l = (b * r + l) + (b * q) * d" unfolding h by (simp add: algebra_simps)
  then have "(b * h + l) div d = ((b * r + l) + (b * q) * d) div d" by (simp only:)
  also have "\<dots> = b * q + (b * r + l) div d" using assms(1) by (subst div_mult_self1) simp_all
  finally show "(b * (h mod d) + l) div d + b * (h div d) = (b * h + l) div d" by (simp add: q_def r_def)
  have "b * r + l < b * Suc r" using l by simp
  also have "\<dots> \<le> b * d" using r by (intro mult_le_mono2) simp
  finally show "(b * (h mod d) + l) div d < b" unfolding r_def by (rule less_mult_imp_div_less)
  show "b * (h mod d) + l \<le> b * h + l" by simp
qed

lemma short_division:
  fixes n d :: nat
  assumes "0 < d"
  shows "(2 ^ 32 * (n div 2 ^ 32 mod d) + n mod 2 ^ 32) div d + 2 ^ 32 * (n div 2 ^ 32 div d) = n div d"
    and "(2 ^ 32 * (n div 2 ^ 32 mod d) + n mod 2 ^ 32) div d < 2 ^ 32"
    and "2 ^ 32 * (n div 2 ^ 32 mod d) + n mod 2 ^ 32 \<le> n"
proof -
  have l: "n mod 2 ^ 32 < (2 ^ 32 :: nat)" by simp
  have e: "2 ^ 32 * (n div 2 ^ 32) + n mod 2 ^ 32 = n" by simp
  note g = short_division_gen [OF assms l, of "n div 2 ^ 32", unfolded e]
  show "(2 ^ 32 * (n div 2 ^ 32 mod d) + n mod 2 ^ 32) div d + 2 ^ 32 * (n div 2 ^ 32 div d) = n div d" by (rule g)
  show "(2 ^ 32 * (n div 2 ^ 32 mod d) + n mod 2 ^ 32) div d < 2 ^ 32" by (rule g)
  show "2 ^ 32 * (n div 2 ^ 32 mod d) + n mod 2 ^ 32 \<le> n" by (rule g)
qed

lemma udiv64_short:
  assumes "d \<noteq> 0" and "drop_bit 32 d = 0"
  shows "udiv64 n d = Some (n div d)"
proof -
  let ?b = "2 ^ 32 :: nat" and ?h = "unat n div 2 ^ 32" and ?d = "unat d"
  have "?d div 2 ^ 32 = 0" using assms(2) unat_drop_bit [of 32 d] by simp
  then have d32: "?d < 2 ^ 32" by (simp add: div_eq_0_iff)
  have dp: "0 < ?d" using assms(1) by (simp add: unat_gt_0)
  have d0: "unat (ucast d :: u32) = ?d" using d32 by (simp add: unat_low)
  then have nz: "(ucast d :: u32) \<noteq> 0" using dp by auto
  let ?hi = "ucast (drop_bit 32 n) :: u32" and ?lo = "ucast n :: u32" and ?e = "ucast d :: u32"
  have r: "unat (?hi mod ?e) = ?h mod ?d" "unat (?hi div ?e) = ?h div ?d"
    by (simp_all add: unat_mod unat_div unat_high d0)
  have bm: "push_bit 32 1 * x = push_bit 32 (x :: u64)" for x by (simp add: push_bit_eq_mult)
  have h32: "?h < 2 ^ 32" using u64_lt [of n] by (intro less_mult_imp_div_less) simp
  have m32: "?h mod ?d \<le> ?h" by simp
  have m: "?h mod ?d < 2 ^ 32" "?h div ?d < 2 ^ 32" by (rule le_less_trans [OF _ h32], simp)+
  have u1: "unat (push_bit 32 (ucast (?hi mod ?e) :: u64)) = ?b * (?h mod ?d)"
    using m by (subst unat_push_small) (simp_all add: unat_up r)
  have u2: "unat (push_bit 32 (ucast (?hi div ?e) :: u64)) = ?b * (?h div ?d)"
    using m by (subst unat_push_small) (simp_all add: unat_up r)
  note sd = short_division [OF dp, of "unat n"]
  have u3: "unat (push_bit 32 (ucast (?hi mod ?e) :: u64) + ucast ?lo) = ?b * (?h mod ?d) + unat n mod ?b"
    using le_less_trans [OF sd(3) u64_lt] by (subst unat_add_lem [THEN iffD1]) (simp_all add: u1 unat_up unat_low)
  define q where "q = (?b * (?h mod ?d) + unat n mod ?b) div ?d"
  have qs: "q + ?b * (?h div ?d) = unat n div ?d" "q < ?b" using sd(1,2) unfolding q_def .
  have dv: "divl (push_bit 32 (ucast (?hi mod ?e) :: u64) + ucast ?lo) ?e = Some (word_of_nat q)"
    using nz qs(2) unfolding divl_def u3 d0 q_def [symmetric] by (simp add: not_le)
  have qu: "unat (ucast (word_of_nat q :: u32) :: u64) = q" unfolding unat_up using qs(2) by (intro unat_of_nat_small) simp
  have lt: "q + ?b * (?h div ?d) < 2 ^ 64" unfolding qs(1) by (rule le_less_trans [OF div_le_dividend u64_lt])
  have "unat (ucast (word_of_nat q :: u32) + push_bit 32 (ucast (?hi div ?e)) :: u64) = q + ?b * (?h div ?d)"
    using lt by (subst unat_add_lem [THEN iffD1]) (simp_all only: u2 qu, simp)
  then have "(ucast (word_of_nat q :: u32) + push_bit 32 (ucast (?hi div ?e)) :: u64) = n div d"
    unfolding qs(1) by (intro u64_eqI) (simp add: unat_div)
  then show ?thesis unfolding udiv64_def Let_def bm using assms(2) nz dv by simp
qed

lemma udiv64_long:
  assumes "drop_bit 32 d \<noteq> 0" and "d \<le> n"
  shows "udiv64 n d = Some (n div d)"
proof -
  let ?D = "unat d" and ?N = "unat n"
  define h where "h = (ucast (drop_bit 32 d) :: u32)"
  define s where "s = nlz h"
  have hu: "unat h = ?D div 2 ^ 32" unfolding h_def by (rule unat_high)
  have "?D div 2 ^ 32 \<noteq> 0" using assms(1) unat_drop_bit [of 32 d] unat_0 by (metis word_unat_eq_iff)
  then have "h \<noteq> 0" using hu by auto
  note z = nlz_ok [OF this, folded s_def]
  have sh: "?D * 2 ^ s < 2 ^ 64"
  proof -
    have "?D < Suc (unat h) * 2 ^ 32" unfolding hu using dividend_less_div_times [of "2 ^ 32" ?D] by simp
    then have "?D * 2 ^ s < Suc (unat h) * 2 ^ 32 * 2 ^ s" by simp
    also have "\<dots> = Suc (unat h) * 2 ^ s * 2 ^ 32" by (simp only: ac_simps)
    also have "Suc (unat h) * 2 ^ s \<le> 2 ^ 32"
    proof -
      have "(2 :: nat) ^ 32 = 2 ^ (32 - s) * 2 ^ s" using z(3) by (simp flip: power_add)
      then have "unat h * 2 ^ s < 2 ^ (32 - s) * 2 ^ s" using z(2) by (simp only:)
      then have "unat h < 2 ^ (32 - s)" by simp
      then have "Suc (unat h) * 2 ^ s \<le> 2 ^ (32 - s) * 2 ^ s" by (intro mult_le_mono1) simp
      then show ?thesis using z(3) by (simp flip: power_add)
    qed
    finally show ?thesis by simp
  qed
  define v where "v = ?D * 2 ^ s div 2 ^ 32"
  have us: "unat (push_bit s d) = ?D * 2 ^ s" using sh by (simp add: unat_push_small)
  have vu: "unat (ucast (drop_bit 32 (push_bit s d)) :: u32) = v" unfolding unat_high us v_def ..
  have "unat h * 2 ^ s * 2 ^ 32 \<le> ?D * 2 ^ s" unfolding hu using div_times_less_eq_dividend [of ?D "2 ^ 32"] by simp
  then have "unat h * 2 ^ s \<le> v" unfolding v_def by (simp add: less_eq_div_iff_mult_less_eq)
  then have v31: "2 ^ 31 \<le> v" using z(1) by simp
  note est = estimate [OF z(3) v_def v31 u64_lt [of n]]
  define q where "q = ?N div 2 div v div 2 ^ (31 - s)"
  have n2: "unat (drop_bit 1 n) = ?N div 2" using unat_drop_bit [of 1 n] by simp
  have q32: "?N div 2 div v < 2 ^ 32"
  proof (rule less_mult_imp_div_less)
    have "?N div 2 < 2 ^ 32 * 2 ^ 31" using u64_lt [of n] by simp
    also have "\<dots> \<le> 2 ^ 32 * v" using v31 by (intro mult_le_mono2)
    finally show "?N div 2 < 2 ^ 32 * v" .
  qed
  have v0: "(ucast (drop_bit 32 (push_bit s d)) :: u32) \<noteq> 0" using vu v31 by auto
  have dv: "divl (drop_bit 1 n) (ucast (drop_bit 32 (push_bit s d))) = Some (word_of_nat (?N div 2 div v))"
    unfolding divl_def vu n2 using v0 q32 by (simp add: not_le)
  let ?q = "ucast (drop_bit (31 - s) (word_of_nat (?N div 2 div v) :: u32)) :: u64"
  have qu: "unat ?q = q" unfolding unat_up unat_drop_bit q_def using q32 by (subst unat_of_nat_small) simp_all
  have ge: "?D \<le> ?N" using assms(2) by (simp add: word_le_nat_alt)
  have D0: "0 < ?D" using \<open>?D div 2 ^ 32 \<noteq> 0\<close> by (intro gr0I) simp
  have Q1: "1 \<le> ?N div ?D" using ge D0 by (simp add: Suc_le_eq div_greater_zero_iff)
  have q1: "1 \<le> q" using est(1) Q1 unfolding q_def by simp
  have um: "unat (?q - 1) = q - 1" using qu q1 by (simp add: unat_sub word_le_nat_alt)
  have le: "(q - 1) * ?D \<le> ?N"
  proof -
    have "(q - 1) * ?D \<le> ?N div ?D * ?D" using est(2) unfolding q_def by (intro mult_le_mono1) simp
    then show ?thesis by (rule le_trans [OF _ div_times_less_eq_dividend])
  qed
  have u1: "unat ((?q - 1) * d) = (q - 1) * ?D"
    using le_less_trans [OF le u64_lt] by (subst unat_mult_lem [THEN iffD1]) (simp_all add: um)
  have u2: "unat (n - (?q - 1) * d) = ?N - (q - 1) * ?D" using le by (subst unat_sub) (simp_all add: word_le_nat_alt u1)
  have "(if n - (?q - 1) * d < d then ?q - 1 else ?q) = n div d"
  proof (cases "q = ?N div ?D")
    case True
    have "?N - (q - 1) * ?D = ?N mod ?D + ?D"
    proof -
      have "?N = q * ?D + ?N mod ?D" unfolding True by simp
      moreover have "q * ?D = (q - 1) * ?D + ?D" using q1 by (cases q) simp_all
      ultimately show ?thesis by linarith
    qed
    then have "\<not> n - (?q - 1) * d < d" by (simp add: word_less_nat_alt u2)
    then show ?thesis using True qu by (simp add: unat_div word_unat_eq_iff)
  next
    case False
    then have e: "q - 1 = ?N div ?D" using est unfolding q_def [symmetric] by simp
    then have "?N - (q - 1) * ?D = ?N mod ?D" by (simp add: minus_div_mult_eq_mod)
    then have "n - (?q - 1) * d < d" using D0 by (simp add: word_less_nat_alt u2)
    then show ?thesis using e um by (simp add: unat_div word_unat_eq_iff)
  qed
  moreover have "\<not> n < d" using assms(2) by simp
  ultimately show ?thesis
    unfolding udiv64_def Let_def h_def [symmetric] s_def [symmetric] using assms(1) dv by simp
qed

lemma udiv64_ok:
  assumes "d \<noteq> 0"
  shows "udiv64 n d = Some (n div d)"
proof (cases "drop_bit 32 d = 0 \<or> d \<le> n")
  case False
  then have "n div d = 0" by (intro u64_eqI) (simp add: unat_div word_le_nat_alt)
  then show ?thesis using False by (simp add: udiv64_def not_le)
qed (use udiv64_short [OF assms] udiv64_long in blast)

section \<open>Signed division and remainders\<close>

lemma abs_word:
  fixes n :: u64
  shows "(if 0 \<le> sint n then n else - n) = word_of_int \<bar>sint n\<bar>" and "uint (word_of_int \<bar>sint n\<bar> :: u64) = \<bar>sint n\<bar>"
proof -
  have n: "word_of_int (sint n) = n" by simp
  show "(if 0 \<le> sint n then n else - n) = word_of_int \<bar>sint n\<bar>" by (cases "0 \<le> sint n") (simp_all flip: wi_hom_neg)
  have "- (2 ^ 63) \<le> sint n" "sint n < 2 ^ 63" using sint_ge [of n] sint_lt [of n] by simp_all
  then show "uint (word_of_int \<bar>sint n\<bar> :: u64) = \<bar>sint n\<bar>" by (simp add: uint_word_of_int)
qed

lemma sdiv64_ok:
  assumes "d \<noteq> 0"
  shows "sdiv64 n d = Some (word_of_int (sint n sdiv sint d))"
proof -
  let ?q = "word_of_int \<bar>sint n\<bar> div word_of_int \<bar>sint d\<bar> :: u64"
  have q: "?q = word_of_int (\<bar>sint n\<bar> div \<bar>sint d\<bar>)"
    by (simp only: word_div_def abs_word(2))
  have d: "sint d \<noteq> 0"
  proof
    assume "sint d = 0"
    then have "word_of_int (sint d) = (0 :: u64)" by simp
    then show False using assms by simp
  qed
  then have "(word_of_int \<bar>sint d\<bar> :: u64) \<noteq> 0" using abs_word(2) [of d] by auto
  then have u: "udiv64 (word_of_int \<bar>sint n\<bar>) (word_of_int \<bar>sint d\<bar>) = Some ?q" by (rule udiv64_ok)
  have "(if (sint n < 0) = (sint d < 0) then ?q else - ?q) = word_of_int (sint n sdiv sint d)"
    unfolding q signed_divide_int_def using d by (auto simp: sgn_if simp flip: wi_hom_neg)
  then show ?thesis unfolding sdiv64_def Let_def abs_word(1) u by simp
qed

lemma umod64_ok: "d \<noteq> 0 \<Longrightarrow> umod64 n d = Some (ucast (n mod d))"
  by (simp add: umod64_def udiv64_ok minus_mult_div_eq_mod)

text \<open>Dividing by 0 traps, as the processor's instruction does.\<close>

lemma udiv64_zero: "udiv64 n 0 = None"
  by (simp add: udiv64_def)

lemma sdiv64_zero: "sdiv64 n 0 = None"
  by (simp add: sdiv64_def udiv64_zero)

section \<open>Properties\<close>

text \<open>
  C0: The routines for 64-bit division that the compiler calls agree with division:
  unsigned division is the quotient, signed division the quotient rounded to zero
  (with the one overflow, of the smallest number by \<open>-1\<close>, wrapping around), neither
  traps unless the divisor is 0, and then both do.
\<close>

theorem division_correct:
  "udivdi3 n d = (if d = 0 then None else Some (n div d)) \<and>
   divdi3 n d = (if d = 0 then None else Some (word_of_int (sint n sdiv sint d)))"
  by (simp add: udivdi3_def divdi3_def udiv64_ok udiv64_zero sdiv64_ok sdiv64_zero)

text \<open>
  C0: The routine for the unsigned 64-bit remainder returns only the low 32 bits of
  the remainder, since \<open>umod64\<close> returns a 32-bit value: the result is right exactly
  when the remainder is below \<open>2 ^ 32\<close>. The remainder of \<open>2 ^ 32\<close> by \<open>2 ^ 33\<close> comes out as 0.
\<close>

theorem remainder_truncated:
  "(\<forall>n d. umoddi3 n d = (if d = 0 then None else Some (take_bit 32 (n mod d)))) \<and>
   umoddi3 (2 ^ 32) (2 ^ 33) = Some 0 \<and> (2 ^ 32 :: u64) mod 2 ^ 33 = 2 ^ 32"
proof -
  have g: "umoddi3 n d = (if d = 0 then None else Some (take_bit 32 (n mod d)))" for n d
  proof (cases "d = 0")
    case True
    then show ?thesis by (simp add: umoddi3_def umod64_def udiv64_zero)
  next
    case False
    have "ucast (ucast x :: u32) = take_bit 32 x" for x :: u64 by (rule bit_word_eqI) (auto simp: bit_take_bit_iff bit_ucast_iff)
    then show ?thesis using False by (simp add: umoddi3_def umod64_ok)
  qed
  moreover have "(2 ^ 32 :: u64) mod 2 ^ 33 = 2 ^ 32" by simp
  moreover have "take_bit 32 (2 ^ 32 :: u64) = 0" by simp
  ultimately show ?thesis by simp
qed

end
