(* ===== verification/Syscall.thy ===== *)
theory Syscall
  imports Fs_Calls Vaddr
begin

text \<open>
  System calls (\<open>userprog/syscall.c\<close>) and the file descriptors of a process
  (\<open>userprog/process.c\<close>). The state adds to the file system what the calls see of
  the process: the user memory that its page directory maps, its descriptor table,
  the console and the file lock. A fault of the kernel on a user address is a
  panic (\<open>kill\<close> in \<open>userprog/exception.c\<close>), the value \<open>None\<close>.
\<close>

unbundle bit_operations_syntax

record usys =
  fs :: fsys
  umem :: "u32 \<Rightarrow> u8 option"
  uwritable :: "u32 \<Rightarrow> bool"
  next_fd :: int
  fd_table :: "int \<Rightarrow> ptr"
  file_locked :: bool
  keys :: "nat \<Rightarrow> u8"
  keys_read :: nat
  console :: "u8 list"

definition load_user32 :: "u32 \<Rightarrow> usys \<Rightarrow> u32 option" where
  "load_user32 a s = do {
     b0 \<leftarrow> umem s a; b1 \<leftarrow> umem s (a + 1); b2 \<leftarrow> umem s (a + 2); b3 \<leftarrow> umem s (a + 3);
     Some (get32 [b0, b1, b2, b3] 0) }"

definition store_user :: "u32 \<Rightarrow> u8 \<Rightarrow> usys \<Rightarrow> usys option" where
  "store_user a v s = do { ASSERT (umem s a \<noteq> None \<and> uwritable s a); Some (s\<lparr>umem := (umem s)(a \<mapsto> v)\<rparr>) }"

fun load_bytes :: "nat \<Rightarrow> u32 \<Rightarrow> usys \<Rightarrow> u8 list option" where
  "load_bytes 0 a s = Some []"
| "load_bytes (Suc n) a s = do { b \<leftarrow> umem s a; bs \<leftarrow> load_bytes n (a + 1) s; Some (b # bs) }"

fun store_bytes :: "u32 \<Rightarrow> u8 list \<Rightarrow> usys \<Rightarrow> usys option" where
  "store_bytes a [] s = Some s"
| "store_bytes a (b # bs) s = do { s \<leftarrow> store_user a b s; store_bytes (a + 1) bs s }"

section \<open>File descriptors\<close>

text \<open>
  The table is two pages that hold 2048 pointers, from descriptor 2 on; an index past
  them is outside the table.
\<close>

definition FD_END :: int where "FD_END = 2050"

definition process_add_file :: "ptr \<Rightarrow> usys \<Rightarrow> (int \<times> usys) option" where
  "process_add_file f s =
     (if f = 0 then Some (- 1, s)
      else do {
        let fd = next_fd s;
        ASSERT (2 \<le> fd \<and> fd < FD_END);
        Some (fd, s\<lparr>next_fd := next_fd s + 1, fd_table := (fd_table s)(fd := f)\<rparr>) })"

definition process_get_file :: "int \<Rightarrow> usys \<Rightarrow> ptr" where
  "process_get_file fd s = (if fd \<le> 1 \<or> next_fd s \<le> fd then 0 else fd_table s fd)"

definition process_close_file :: "int \<Rightarrow> usys \<Rightarrow> usys option" where
  "process_close_file fd s =
     (if fd \<le> 1 \<or> next_fd s \<le> fd then Some s
      else do {
        g \<leftarrow> file_close (fd_table s fd) (fs s);
        Some (s\<lparr>fs := g, fd_table := (fd_table s)(fd := 0)\<rparr>) })"

section \<open>Arguments\<close>

text \<open>A check that fails ends the process with the given status.\<close>

datatype 'v stop = Go 'v | Stop int

definition check_address :: "u32 \<Rightarrow> bool" where
  "check_address addr \<longleftrightarrow> is_user_vaddr addr \<and> addr \<ge> 0x08048000"

definition check_address4 :: "u32 \<Rightarrow> bool" where
  "check_address4 addr \<longleftrightarrow> check_address addr \<and> check_address (addr + 3)"

fun get_args :: "nat \<Rightarrow> u32 \<Rightarrow> usys \<Rightarrow> u32 list stop option" where
  "get_args 0 esp s = Some (Go [])"
| "get_args (Suc n) esp s =
     (let esp = esp + 4 in
      if \<not> check_address4 esp then Some (Stop (- 1))
      else do {
        v \<leftarrow> load_user32 esp s;
        r \<leftarrow> get_args n esp s;
        Some (case r of Stop k \<Rightarrow> Stop k | Go vs \<Rightarrow> Go (v # vs)) })"

definition get_arguments :: "u32 \<Rightarrow> nat \<Rightarrow> usys \<Rightarrow> u32 list stop option" where
  "get_arguments esp count s = do { ASSERT (1 \<le> count \<and> count \<le> 4); get_args count esp s }"

fun check_user_string_l :: "u32 \<Rightarrow> nat \<Rightarrow> bool" where
  "check_user_string_l str 0 \<longleftrightarrow> True"
| "check_user_string_l str (Suc n) \<longleftrightarrow> check_address str \<and> check_user_string_l (str + 1) n"

partial_function (option) check_user_string :: "u32 \<Rightarrow> usys \<Rightarrow> bool option" where
  "check_user_string str s =
     (if \<not> check_address str then Some False
      else do {
        c \<leftarrow> umem s str;
        if c = 0 then Some True else check_user_string (str + 1) s })"

partial_function (option) strlen_user :: "u32 \<Rightarrow> nat \<Rightarrow> usys \<Rightarrow> nat option" where
  "strlen_user str k s = do { c \<leftarrow> umem s str; if c = 0 then Some k else strlen_user (str + 1) (Suc k) s }"

text \<open>The copy in kernel memory, \<open>None\<close> for the null pointer; \<open>malloc\<close> of 0 bytes is null.\<close>

definition get_user_string_l :: "u32 \<Rightarrow> nat \<Rightarrow> usys \<Rightarrow> (u8 list option \<times> usys) option" where
  "get_user_string_l str sz s = do {
     let (b, g) = (if sz = 0 then (0, fs s) else malloc (fs s));
     let s = s\<lparr>fs := g\<rparr>;
     if b = 0 then Some (None, s)
     else do { bs \<leftarrow> load_bytes sz str s; Some (Some bs, s) } }"

definition get_user_string :: "u32 \<Rightarrow> usys \<Rightarrow> (u8 list option \<times> usys) option" where
  "get_user_string str s = do { k \<leftarrow> strlen_user str 0 s; get_user_string_l str (k + 1) s }"

text \<open>The words of \<open>args\<close>: a value from the user's stack, or the address of a copied string.\<close>

datatype arg = Word u32 | Str "u8 list"

definition flagged :: "u32 \<Rightarrow> nat \<Rightarrow> bool" where
  "flagged flag i \<longleftrightarrow> flag AND drop_bit i 8 \<noteq> 0"

text \<open>Freeing something that was not allocated fails the allocator's checks.\<close>

definition free_single_user_string :: "arg list \<Rightarrow> u32 \<Rightarrow> nat \<Rightarrow> arg list option" where
  "free_single_user_string args flag i =
     (if flagged flag i then do {
        ASSERT (case args ! i of Str _ \<Rightarrow> True | Word p \<Rightarrow> p = 0);
        Some (args[i := Word 0]) }
      else Some args)"

definition free_user_strings :: "arg list \<Rightarrow> u32 \<Rightarrow> arg list option" where
  "free_user_strings args flag = do {
     ASSERT (flag \<le> 15);
     foldM (\<lambda>i args. free_single_user_string args flag i) [0..<4] args }"

definition get_single_user_string :: "arg list \<Rightarrow> u32 \<Rightarrow> nat \<Rightarrow> usys \<Rightarrow> (arg list stop \<times> usys) option" where
  "get_single_user_string args flag i s =
     (if flagged flag i then
        (case args ! i of
           Str _ \<Rightarrow> None
         | Word str \<Rightarrow> do {
             (b, s) \<leftarrow> get_user_string str s;
             case b of
               Some bs \<Rightarrow> Some (Go (args[i := Str bs]), s)
             | None \<Rightarrow> do {
                 _ \<leftarrow> free_user_strings (args[i := Word 0]) (flag AND drop_bit i 0xf0);
                 Some (Stop (- 1), s) } })
      else Some (Go args, s))"

definition check_single_user_string :: "arg list \<Rightarrow> u32 \<Rightarrow> nat \<Rightarrow> usys \<Rightarrow> bool option" where
  "check_single_user_string args flag i s =
     (if flagged flag i then (case args ! i of Str _ \<Rightarrow> None | Word str \<Rightarrow> check_user_string str s)
      else Some True)"

fun check_strings :: "nat list \<Rightarrow> arg list \<Rightarrow> u32 \<Rightarrow> usys \<Rightarrow> bool option" where
  "check_strings [] args flag s = Some True"
| "check_strings (i # is) args flag s = do {
     ok \<leftarrow> check_single_user_string args flag i s;
     if ok then check_strings is args flag s else Some False }"

fun get_strings :: "nat list \<Rightarrow> arg list \<Rightarrow> u32 \<Rightarrow> usys \<Rightarrow> (arg list stop \<times> usys) option" where
  "get_strings [] args flag s = Some (Go args, s)"
| "get_strings (i # is) args flag s = do {
     (r, s) \<leftarrow> get_single_user_string args flag i s;
     case r of Stop k \<Rightarrow> Some (Stop k, s) | Go args \<Rightarrow> get_strings is args flag s }"

definition get_user_strings :: "arg list \<Rightarrow> u32 \<Rightarrow> usys \<Rightarrow> (arg list stop \<times> usys) option" where
  "get_user_strings args flag s = do {
     ASSERT (flag \<le> 15);
     ok \<leftarrow> check_strings [0..<4] args flag s;
     if \<not> ok then Some (Stop (- 1), s) else get_strings [0..<4] args flag s }"

section \<open>The calls\<close>

definition acquire_file_lock :: "usys \<Rightarrow> usys option" where
  "acquire_file_lock s = do { ASSERT (\<not> file_locked s); Some (s\<lparr>file_locked := True\<rparr>) }"

definition release_file_lock :: "usys \<Rightarrow> usys option" where
  "release_file_lock s = do { ASSERT (file_locked s); Some (s\<lparr>file_locked := False\<rparr>) }"

text \<open>\<open>unsigned\<close> sizes and positions become the signed \<open>off_t\<close>. \<open>e\<close>: the uninitialised entry of \<open>dir_add\<close>.\<close>

definition create :: "u8 list \<Rightarrow> u32 \<Rightarrow> dir_entry \<Rightarrow> usys \<Rightarrow> (bool \<times> usys) option" where
  "create name initial_size e s = do {
     (ok, g) \<leftarrow> filesys_create name (sint initial_size) e (fs s);
     Some (ok, s\<lparr>fs := g\<rparr>) }"

definition remove :: "u8 list \<Rightarrow> usys \<Rightarrow> (bool \<times> usys) option" where
  "remove name s = do { (ok, g) \<leftarrow> filesys_remove name (fs s); Some (ok, s\<lparr>fs := g\<rparr>) }"

definition open_file :: "u8 list \<Rightarrow> usys \<Rightarrow> (int \<times> usys) option" where
  "open_file name s = do {
     s \<leftarrow> acquire_file_lock s;
     (f, g) \<leftarrow> filesys_open name (fs s);
     (result, s) \<leftarrow> process_add_file f (s\<lparr>fs := g\<rparr>);
     s \<leftarrow> release_file_lock s;
     Some (result, s) }"

definition filesize :: "int \<Rightarrow> usys \<Rightarrow> int option" where
  "filesize fd s = (let f = process_get_file fd s in if f = 0 then Some (- 1) else file_length f (fs s))"

text \<open>The keys that \<open>input_getc\<close> will deliver come from an oracle.\<close>

fun read_keys :: "nat \<Rightarrow> u32 \<Rightarrow> usys \<Rightarrow> usys option" where
  "read_keys 0 buffer s = Some s"
| "read_keys (Suc n) buffer s = do {
     let k = keys s (keys_read s);
     s \<leftarrow> store_user buffer k (s\<lparr>keys_read := keys_read s + 1\<rparr>);
     read_keys n (buffer + 1) s }"

definition sys_read :: "int \<Rightarrow> u32 \<Rightarrow> u32 \<Rightarrow> usys \<Rightarrow> (u32 \<times> usys) option" where
  "sys_read fd buffer sz s = do {
     s \<leftarrow> acquire_file_lock s;
     if fd = 0 then do {
       s \<leftarrow> read_keys (unat sz) buffer s;
       s \<leftarrow> release_file_lock s;
       Some (sz, s) }
     else do {
       let f = process_get_file fd s;
       if f = 0 then do { s \<leftarrow> release_file_lock s; Some (- 1, s) }
       else do {
         (bs, g) \<leftarrow> file_read f (sint sz) (fs s);
         s \<leftarrow> store_bytes buffer bs (s\<lparr>fs := g\<rparr>);
         s \<leftarrow> release_file_lock s;
         Some (word_of_nat (length bs), s) } } }"

text \<open>The buffer is null if it could not be copied; using it then faults unless nothing is read from it.\<close>

definition sys_write :: "int \<Rightarrow> u8 list option \<Rightarrow> u32 \<Rightarrow> usys \<Rightarrow> (u32 \<times> usys) option" where
  "sys_write fd buffer sz s = do {
     s \<leftarrow> acquire_file_lock s;
     if fd = 1 then do {
       bs \<leftarrow> (if sz = 0 then Some [] else buffer);
       let s = s\<lparr>console := console s @ bs\<rparr>;
       s \<leftarrow> release_file_lock s;
       Some (sz, s) }
     else do {
       let f = process_get_file fd s;
       if f = 0 then do { s \<leftarrow> release_file_lock s; Some (0, s) }
       else do {
         bs \<leftarrow> (if sint sz \<le> 0 then Some [] else buffer);
         (n, g) \<leftarrow> file_write f bs (sint sz) (fs s);
         s \<leftarrow> release_file_lock (s\<lparr>fs := g\<rparr>);
         Some (word_of_int n, s) } } }"

definition seek :: "int \<Rightarrow> u32 \<Rightarrow> usys \<Rightarrow> usys option" where
  "seek fd position s = (let f = process_get_file fd s in if f = 0 then Some s
     else do { g \<leftarrow> file_seek f (sint position) (fs s); Some (s\<lparr>fs := g\<rparr>) })"

definition tell :: "int \<Rightarrow> usys \<Rightarrow> u32 stop option" where
  "tell fd s = (let f = process_get_file fd s in
     if f = 0 then Some (Stop (- 1)) else do { p \<leftarrow> file_tell f (fs s); Some (Go (word_of_int p)) })"

definition close :: "int \<Rightarrow> usys \<Rightarrow> usys option" where
  "close fd s = process_close_file fd s"

section \<open>The handler\<close>

text \<open>
  How a call ends: it returns, with a value in \<open>eax\<close> or without; the process exits;
  the machine is switched off; or the call goes on in the process layer, with the
  command line for \<open>exec\<close> or the child for \<open>wait\<close>.
\<close>

datatype outcome = Return "u32 option" | Exit int | Halt | Exec "u8 list" | Wait int

definition SYS_HALT :: u32 where "SYS_HALT = 0"
definition SYS_EXIT :: u32 where "SYS_EXIT = 1"
definition SYS_EXEC :: u32 where "SYS_EXEC = 2"
definition SYS_WAIT :: u32 where "SYS_WAIT = 3"
definition SYS_CREATE :: u32 where "SYS_CREATE = 4"
definition SYS_REMOVE :: u32 where "SYS_REMOVE = 5"
definition SYS_OPEN :: u32 where "SYS_OPEN = 6"
definition SYS_FILESIZE :: u32 where "SYS_FILESIZE = 7"
definition SYS_READ :: u32 where "SYS_READ = 8"
definition SYS_WRITE :: u32 where "SYS_WRITE = 9"
definition SYS_SEEK :: u32 where "SYS_SEEK = 10"
definition SYS_TELL :: u32 where "SYS_TELL = 11"
definition SYS_CLOSE :: u32 where "SYS_CLOSE = 12"

definition string_of :: "arg \<Rightarrow> u8 list" where
  "string_of a = (case a of Str bs \<Rightarrow> takeWhile (\<lambda>c. c \<noteq> 0) bs | Word _ \<Rightarrow> [])"

text \<open>The calls with a file name first, which is copied before the call and freed after it.\<close>

definition with_name ::
  "u32 \<Rightarrow> nat \<Rightarrow> (u8 list \<Rightarrow> u32 list \<Rightarrow> usys \<Rightarrow> (outcome \<times> usys) option) \<Rightarrow> usys \<Rightarrow> (outcome \<times> usys) option" where
  "with_name esp count k s = do {
     r \<leftarrow> get_arguments esp count s;
     case r of
       Stop st \<Rightarrow> Some (Exit st, s)
     | Go vs \<Rightarrow> do {
         (r, s) \<leftarrow> get_user_strings (map Word vs) 8 s;
         case r of
           Stop st \<Rightarrow> Some (Exit st, s)
         | Go args \<Rightarrow> do {
             (out, s) \<leftarrow> k (string_of (args ! 0)) vs s;
             _ \<leftarrow> free_user_strings args 8;
             Some (out, s) } } }"

text \<open>The calls whose arguments are numbers.\<close>

definition with_args ::
  "u32 \<Rightarrow> nat \<Rightarrow> (u32 list \<Rightarrow> usys \<Rightarrow> (outcome \<times> usys) option) \<Rightarrow> usys \<Rightarrow> (outcome \<times> usys) option" where
  "with_args esp count k s = do {
     r \<leftarrow> get_arguments esp count s;
     case r of Stop st \<Rightarrow> Some (Exit st, s) | Go vs \<Rightarrow> k vs s }"

definition bool_word :: "bool \<Rightarrow> u32" where
  "bool_word b = (if b then 1 else 0)"

definition syscall_handler :: "dir_entry \<Rightarrow> u32 \<Rightarrow> usys \<Rightarrow> (outcome \<times> usys) option" where
  "syscall_handler e esp s =
     (if \<not> check_address4 esp then Some (Exit (- 1), s)
      else do {
        nr \<leftarrow> load_user32 esp s;
        if nr = SYS_HALT then Some (Halt, s)
        else if nr = SYS_EXIT then with_args esp 1 (\<lambda>a s. Some (Exit (sint (a ! 0)), s)) s
        else if nr = SYS_CREATE then
          with_name esp 2 (\<lambda>name a s. do {
            (ok, s) \<leftarrow> create name (a ! 1) e s; Some (Return (Some (bool_word ok)), s) }) s
        else if nr = SYS_REMOVE then
          with_name esp 1 (\<lambda>name a s. do {
            (ok, s) \<leftarrow> remove name s; Some (Return (Some (bool_word ok)), s) }) s
        else if nr = SYS_WRITE then
          with_args esp 3 (\<lambda>a s.
            if \<not> check_user_string_l (a ! 1) (unat (a ! 2)) then Some (Exit (- 1), s)
            else do {
              (b, s) \<leftarrow> get_user_string_l (a ! 1) (unat (a ! 2)) s;
              (n, s) \<leftarrow> sys_write (sint (a ! 0)) b (a ! 2) s;
              Some (Return (Some n), s) }) s
        else if nr = SYS_EXEC then with_name esp 1 (\<lambda>name a s. Some (Exec name, s)) s
        else if nr = SYS_WAIT then with_args esp 1 (\<lambda>a s. Some (Wait (sint (a ! 0)), s)) s
        else if nr = SYS_OPEN then
          with_name esp 1 (\<lambda>name a s. do {
            (fd, s) \<leftarrow> open_file name s; Some (Return (Some (word_of_int fd)), s) }) s
        else if nr = SYS_FILESIZE then
          with_args esp 1 (\<lambda>a s. do { l \<leftarrow> filesize (sint (a ! 0)) s; Some (Return (Some (word_of_int l)), s) }) s
        else if nr = SYS_READ then
          with_args esp 3 (\<lambda>a s.
            if \<not> check_user_string_l (a ! 1) (unat (a ! 2)) then Some (Exit (- 1), s)
            else do { (n, s) \<leftarrow> sys_read (sint (a ! 0)) (a ! 1) (a ! 2) s; Some (Return (Some n), s) }) s
        else if nr = SYS_SEEK then
          with_args esp 2 (\<lambda>a s. do { s \<leftarrow> seek (sint (a ! 0)) (a ! 1) s; Some (Return None, s) }) s
        else if nr = SYS_TELL then
          with_args esp 1 (\<lambda>a s. do {
            r \<leftarrow> tell (sint (a ! 0)) s;
            Some (case r of Stop st \<Rightarrow> Exit st | Go p \<Rightarrow> Return (Some p), s) }) s
        else if nr = SYS_CLOSE then
          with_args esp 1 (\<lambda>a s. do { s \<leftarrow> close (sint (a ! 0)) s; Some (Return None, s) }) s
        else Some (Exit (- 1), s) })"

section \<open>Invariant\<close>

text \<open>Every descriptor in use refers to an open file of its own.\<close>

definition fds_ok :: "usys \<Rightarrow> bool" where
  "fds_ok s \<longleftrightarrow> 2 \<le> next_fd s \<and> next_fd s \<le> FD_END \<and>
     (\<forall>fd. 2 \<le> fd \<and> fd < next_fd s \<and> fd_table s fd \<noteq> 0 \<longrightarrow> handle (fs s) (fd_table s fd) \<noteq> None) \<and>
     (\<forall>fd fd'. 2 \<le> fd \<and> fd < next_fd s \<and> 2 \<le> fd' \<and> fd' < next_fd s \<and> fd_table s fd \<noteq> 0 \<and> fd_table s fd = fd_table s fd' \<longrightarrow> fd = fd')"

definition usys_ok :: "nat \<Rightarrow> nat \<Rightarrow> nat \<Rightarrow> usys \<Rightarrow> bool" where
  "usys_ok d off n s \<longleftrightarrow> fs_inv d off n (fs s) \<and> fds_ok s \<and> \<not> file_locked s"

text \<open>Every address that the checks accept is mapped and writable.\<close>

definition all_mapped :: "usys \<Rightarrow> bool" where
  "all_mapped s \<longleftrightarrow> (\<forall>a. check_address a \<longrightarrow> umem s a \<noteq> None \<and> uwritable s a)"

lemma fs_inv_allocs:
  assumes inv: "fs_inv d off n s"
  shows "fs_inv d off n (s\<lparr>allocs := Suc (allocs s)\<rparr>)" and "afs_of d off (s\<lparr>allocs := Suc (allocs s)\<rparr>) = afs_of d off s"
    and "handle (s\<lparr>allocs := Suc (allocs s)\<rparr>) = handle s"
proof -
  let ?s = "s\<lparr>allocs := Suc (allocs s)\<rparr>"
  have "core d off n (refs s) (denies s) ?s" using inv core_allocs [of d off n _ _ s "Suc (allocs s)"] by (simp add: fs_inv_def)
  then show i: "fs_inv d off n ?s" by (rule fs_inv_same [OF inv _ nodes_keep_same]) simp_all
  show h: "handle ?s = handle s" by (simp add: handle_def fun_eq_iff)
  show "afs_of d off ?s = afs_of d off s" by (rule afsI) (simp_all add: h afs_data)
qed

section \<open>Arguments of mapped memory\<close>

lemma check_address_nat: "check_address a \<longleftrightarrow> 0x08048000 \<le> unat a \<and> unat a < 0xc0000000"
  by (auto simp: check_address_def is_user_vaddr_def PHYS_BASE_def word_le_nat_alt word_less_nat_alt)

lemma check4_bytes:
  assumes "check_address4 a" and "k \<le> 3"
  shows "check_address (a + word_of_nat k)"
proof -
  have "unat (a + word_of_nat k) = unat a + k"
    using assms by (subst unat_add_lem [THEN iffD1]) (auto simp: check_address4_def check_address_nat unat_of_nat_small)
  moreover have "unat (a + 3) = unat a + 3"
    using assms by (subst unat_add_lem [THEN iffD1]) (auto simp: check_address4_def check_address_nat)
  ultimately show ?thesis using assms by (auto simp: check_address4_def check_address_nat)
qed

lemma load_user32_mapped:
  assumes "all_mapped s" and "check_address4 a"
  shows "\<exists>v. load_user32 a s = Some v"
proof -
  have "umem s (a + word_of_nat k) \<noteq> None" if "k \<le> 3" for k using check4_bytes [OF assms(2) that] assms(1) by (simp add: all_mapped_def)
  from this [of 0] this [of 1] this [of 2] this [of 3] show ?thesis by (auto simp: load_user32_def)
qed

lemma get_args_mapped:
  assumes m: "all_mapped s"
  shows "(\<exists>st. get_args n esp s = Some (Stop st)) \<or>
    (\<exists>vs. get_args n esp s = Some (Go vs) \<and> length vs = n \<and> (\<forall>i < n. load_user32 (esp + 4 * word_of_nat (Suc i)) s = Some (vs ! i)))"
proof (induction n arbitrary: esp)
  case (Suc n)
  show ?case
  proof (cases "check_address4 (esp + 4)")
    case True
    then obtain v where v: "load_user32 (esp + 4) s = Some v" using load_user32_mapped [OF m] by blast
    have e: "esp + 4 + 4 * word_of_nat (Suc i) = esp + 4 * word_of_nat (Suc (Suc i))" for i by (simp add: algebra_simps)
    show ?thesis
      using Suc.IH [of "esp + 4"]
    proof (elim disjE exE conjE)
      fix vs assume g: "get_args n (esp + 4) s = Some (Go vs)" "length vs = n"
        "\<forall>i < n. load_user32 (esp + 4 + 4 * word_of_nat (Suc i)) s = Some (vs ! i)"
      have "load_user32 (esp + 4 * word_of_nat (Suc i)) s = Some ((v # vs) ! i)" if "i < Suc n" for i
      proof (cases i)
        case (Suc j)
        then have "load_user32 (esp + 4 + 4 * word_of_nat (Suc j)) s = Some (vs ! j)" using that g(3) by blast
        then show ?thesis unfolding e Suc by simp
      qed (use v in simp)
      then show ?thesis using True v g(1,2) by (intro disjI2 exI [of _ "v # vs"]) (simp add: Let_def)
    qed (use True v in \<open>simp add: Let_def\<close>)
  qed (simp add: Let_def)
qed simp

text \<open>The bytes of the user's memory from \<open>str\<close> on up to a terminator, all inside the user's range.\<close>

fun user_string :: "usys \<Rightarrow> u32 \<Rightarrow> nat \<Rightarrow> bool" where
  "user_string s str 0 \<longleftrightarrow> check_address str \<and> umem s str = Some 0"
| "user_string s str (Suc k) \<longleftrightarrow> check_address str \<and> (\<exists>c. umem s str = Some c \<and> c \<noteq> 0) \<and> user_string s (str + 1) k"

lemma check_user_string_mapped:
  assumes m: "all_mapped s"
  shows "\<exists>b. check_user_string str s = Some b \<and> (b \<longrightarrow> (\<exists>k. user_string s str k))"
proof (induction "2 ^ 32 - unat str" arbitrary: str rule: less_induct)
  case less
  show ?case
  proof (cases "check_address str")
    case True
    then obtain c where c: "umem s str = Some c" using m by (auto simp: all_mapped_def)
    show ?thesis
    proof (cases "c = 0")
      case True
      then have "user_string s str 0" using \<open>check_address str\<close> c by simp
      then have "\<exists>k. user_string s str k" ..
      moreover have "check_user_string str s = Some True" using \<open>check_address str\<close> c True by (subst check_user_string.simps) simp
      ultimately show ?thesis by blast
    next
      case False
      have "unat (str + 1) = Suc (unat str)" using True by (subst unat_add_lem [THEN iffD1]) (simp_all add: check_address_nat)
      then have lt: "2 ^ 32 - unat (str + 1) < 2 ^ 32 - unat str" using True by (intro diff_less_mono2) (simp_all add: check_address_nat)
      obtain b where b: "check_user_string (str + 1) s = Some b" "b \<longrightarrow> (\<exists>k. user_string s (str + 1) k)" using less [OF lt] by blast
      have "b \<longrightarrow> (\<exists>k. user_string s str k)"
      proof
        assume b
        then obtain k where "user_string s (str + 1) k" using b(2) by blast
        then have "user_string s str (Suc k)" using True c False by simp
        then show "\<exists>k. user_string s str k" ..
      qed
      moreover have "check_user_string str s = Some b" using True c False b(1) by (subst check_user_string.simps) simp
      ultimately show ?thesis by blast
    qed
  next
    case False
    then have "check_user_string str s = Some False" by (subst check_user_string.simps) simp
    then show ?thesis by blast
  qed
qed

lemma strlen_user_ok: "user_string s str k \<Longrightarrow> strlen_user str j s = Some (j + k)"
proof (induction k arbitrary: str j)
  case 0
  then show ?case by (subst strlen_user.simps) simp
next
  case (Suc k)
  then show ?case by (subst strlen_user.simps) auto
qed

lemma load_bytes_ok: "user_string s str k \<Longrightarrow> \<exists>bs. load_bytes (Suc k) str s = Some (bs @ [0]) \<and> length bs = k \<and> 0 \<notin> set bs"
proof (induction k arbitrary: str)
  case 0
  then show ?case by (intro exI [of _ "[]"]) simp
next
  case (Suc k)
  have u: "user_string s (str + 1) k" using Suc.prems by simp
  obtain c where c: "umem s str = Some c" "c \<noteq> 0" using Suc.prems by auto
  obtain bs where bs: "load_bytes (Suc k) (str + 1) s = Some (bs @ [0])" "length bs = k" "0 \<notin> set bs" using Suc.IH [OF u] by blast
  have "load_bytes (Suc (Suc k)) str s = Some ((c # bs) @ [0])" using c(1) bs(1) by (subst load_bytes.simps) (simp del: load_bytes.simps)
  then show ?case using bs(2,3) c(2) by (intro exI [of _ "c # bs"]) simp
qed

lemma flagged_8 [simp]: "flagged 8 0" "\<not> flagged 8 (Suc 0)" "\<not> flagged 8 2" "\<not> flagged 8 3"
  by (simp_all add: flagged_def)

definition bumped :: "usys \<Rightarrow> usys" where
  "bumped s = s\<lparr>fs := (fs s)\<lparr>allocs := Suc (allocs (fs s))\<rparr>\<rparr>"

lemma upt_4: "[0..<4] = [0, Suc 0, 2, 3]"
  by (simp add: upt_rec numeral_2_eq_2 numeral_3_eq_3)

lemma get_user_strings_mapped:
  assumes m: "all_mapped s" and mem: "mem_total (fs s)" and vs: "vs \<noteq> []"
  shows "get_user_strings (map Word vs) 8 s = Some (Stop (- 1), s) \<or>
    (\<exists>bs. get_user_strings (map Word vs) 8 s = Some (Go (Str bs # map Word (tl vs)), bumped s))"
proof -
  obtain v ws where v: "vs = v # ws" using vs by (cases vs) auto
  obtain b where b: "check_user_string v s = Some b" "b \<longrightarrow> (\<exists>k. user_string s v k)" using check_user_string_mapped [OF m] by blast
  have c: "check_strings [0..<4] (map Word vs) 8 s = Some b"
    using b(1) by (cases b) (simp_all add: upt_4 check_single_user_string_def v)
  show ?thesis
  proof (cases b)
    case True
    then obtain k where k: "user_string s v k" using b(2) by blast
    have s': "s\<lparr>fs := (fs s)\<lparr>allocs := Suc (allocs (fs s))\<rparr>\<rparr> = bumped s" by (simp add: bumped_def)
    have lb: "load_bytes n a (bumped s) = load_bytes n a s" for n a by (induction n arbitrary: a) (simp_all add: bumped_def)
    obtain bs where bs: "load_bytes (Suc k) v s = Some (bs @ [0])" using load_bytes_ok [OF k] by blast
    have "get_user_string v s = Some (Some (bs @ [0]), bumped s)"
      using strlen_user_ok [OF k, of 0] bs mem
      by (simp add: get_user_string_def get_user_string_l_def malloc_def mem_total_def s' lb del: load_bytes.simps)
    then have "get_strings [0..<4] (map Word vs) 8 s = Some (Go (Str (bs @ [0]) # map Word ws), bumped s)"
      by (simp add: upt_4 get_single_user_string_def v)
    then show ?thesis using c True by (simp add: get_user_strings_def v)
  qed (use c in \<open>simp add: get_user_strings_def\<close>)
qed

lemma free_user_strings_8: "free_user_strings (Str bs # args) 8 = Some (Word 0 # args)"
  by (simp add: free_user_strings_def upt_4 free_single_user_string_def)

text \<open>What a call leaves behind: the invariant, and one step of the abstract file system or none.\<close>

definition served :: "nat \<Rightarrow> nat \<Rightarrow> nat \<Rightarrow> (fs_call \<Rightarrow> bool) \<Rightarrow> usys \<Rightarrow> usys \<Rightarrow> bool" where
  "served d off n P s s' \<longleftrightarrow> usys_ok d off n s' \<and> all_mapped s' \<and>
     (afs_of d off (fs s') = afs_of d off (fs s) \<or>
      (\<exists>c r. P c \<and> astep c r (afs_of d off (fs s)) (afs_of d off (fs s'))))"

lemma served_refl: "usys_ok d off n s \<Longrightarrow> all_mapped s \<Longrightarrow> served d off n P s s"
  by (simp add: served_def)

lemma bumped_ok:
  assumes ok: "usys_ok d off n s" and m: "all_mapped s"
  shows "usys_ok d off n (bumped s)" and "all_mapped (bumped s)" and "afs_of d off (fs (bumped s)) = afs_of d off (fs s)"
    and "next_fd (bumped s) = next_fd s" and "load_user32 a (bumped s) = load_user32 a s"
proof -
  have i: "fs_inv d off n (fs s)" using ok by (simp add: usys_ok_def)
  show "usys_ok d off n (bumped s)" "afs_of d off (fs (bumped s)) = afs_of d off (fs s)"
    using ok fs_inv_allocs [OF i] by (simp_all add: usys_ok_def fds_ok_def bumped_def)
qed (use m in \<open>simp_all add: all_mapped_def bumped_def load_user32_def\<close>)

lemma served_bumped:
  assumes ok: "usys_ok d off n s" and m: "all_mapped s" and "served d off n P (bumped s) s'"
  shows "served d off n P s s'"
  using assms(3) bumped_ok(3) [OF ok m] by (simp add: served_def)

lemma with_args_served:
  assumes ok: "usys_ok d off n s" and m: "all_mapped s" and c: "1 \<le> count" "count \<le> 4"
    and k: "\<And>vs. length vs = count \<Longrightarrow> (\<forall>i < count. load_user32 (esp + 4 * word_of_nat (Suc i)) s = Some (vs ! i)) \<Longrightarrow>
      \<exists>out s'. k vs s = Some (out, s') \<and> served d off n P s s'"
  shows "\<exists>out s'. with_args esp count k s = Some (out, s') \<and> served d off n P s s'"
  using get_args_mapped [OF m, of count esp]
proof (elim disjE exE conjE)
  fix st assume "get_args count esp s = Some (Stop st)"
  then show ?thesis using served_refl [OF ok m] c by (simp add: with_args_def get_arguments_def)
next
  fix vs assume "get_args count esp s = Some (Go vs)" and l: "length vs = count"
    "\<forall>i < count. load_user32 (esp + 4 * word_of_nat (Suc i)) s = Some (vs ! i)"
  then have "with_args esp count k s = k vs s" using c by (simp add: with_args_def get_arguments_def)
  then show ?thesis using k [OF l] by simp
qed

lemma with_name_served:
  assumes ok: "usys_ok d off n s" and m: "all_mapped s" and c: "1 \<le> count" "count \<le> 4"
    and k: "\<And>name vs. 0 \<notin> set name \<Longrightarrow> length vs = count \<Longrightarrow>
      (\<forall>i < count. load_user32 (esp + 4 * word_of_nat (Suc i)) s = Some (vs ! i)) \<Longrightarrow>
      \<exists>out s'. k name vs (bumped s) = Some (out, s') \<and> served d off n P (bumped s) s'"
  shows "\<exists>out s'. with_name esp count k s = Some (out, s') \<and> served d off n P s s'"
  using get_args_mapped [OF m, of count esp]
proof (elim disjE exE conjE)
  fix st assume "get_args count esp s = Some (Stop st)"
  then show ?thesis using served_refl [OF ok m] c by (simp add: with_name_def get_arguments_def)
next
  fix vs assume g: "get_args count esp s = Some (Go vs)" and l: "length vs = count"
    "\<forall>i < count. load_user32 (esp + 4 * word_of_nat (Suc i)) s = Some (vs ! i)"
  have vs: "vs \<noteq> []" using l(1) c(1) by auto
  have mem: "mem_total (fs s)" using ok coreD(2) by (auto simp: usys_ok_def fs_inv_def)
  show ?thesis
    using get_user_strings_mapped [OF m mem vs]
  proof (elim disjE exE)
    assume "get_user_strings (map Word vs) 8 s = Some (Stop (- 1), s)"
    then show ?thesis using g c served_refl [OF ok m] by (simp add: with_name_def get_arguments_def)
  next
    fix bs assume gs: "get_user_strings (map Word vs) 8 s = Some (Go (Str bs # map Word (tl vs)), bumped s)"
    have "0 \<notin> set (string_of (Str bs))" by (auto simp: string_of_def dest: set_takeWhileD)
    then obtain out s' where "k (string_of (Str bs)) vs (bumped s) = Some (out, s')" "served d off n P (bumped s) s'"
      using k [OF _ l] by blast
    then show ?thesis
      using g gs c served_bumped [OF ok m] by (simp add: with_name_def get_arguments_def free_user_strings_8)
  qed
qed

end
