(* ===== verification/Spec2Isabelle.thy ===== *)
theory Spec2Isabelle
  imports Prelude Bitmap Vaddr Cstring Synch Bytes Palloc Kernel_List List_Sort Pagedir Thread Sched Sched_Inv
    Sched_Safe Sched_Demo Descriptors Intq Char_Devices Block Inode Inode_IO Directory Directory_Map Free_Map Fs_Core Fs_Ops Fs_Api Fs_Files Fs_Mount Fs_Calls Arith64 Syscall
begin

text \<open>
  A model of the Pintos kernel (\<open>src/cau15841-pintos2-qemu-linux\<close>; paths below are
  relative to it), with the theorems that make its parts correct.

  \<^bold>\<open>Conventions.\<close> A machine word is a \<open>w word\<close>, so arithmetic wraps as it does in C;
  \<open>off_t\<close> is an \<open>int\<close> with truncating division. A failed \<open>ASSERT\<close>, a \<open>PANIC\<close>, an access
  outside the objects of the model and a loop that never ends are \<open>None\<close>; every
  operation that returns has the value \<open>Some\<close>. A theorem that an operation succeeds
  therefore also says that none of the assertions on its way fails. Loops that are
  not structural are \<open>partial_function (option)\<close> and there is no fuel: the theorems
  about them show that they return, by induction on what the loop decreases.
  Hardware and the success of \<open>malloc\<close> are oracles of the state (\<open>hw\<close>, \<open>mem_ok\<close>), so the
  theorems hold for everything a device may answer and for every failed allocation.

  \<^bold>\<open>Libraries.\<close>
  \<^item> \<open>Prelude\<close>: the monad of failing operations, \<open>ASSERT\<close>, monadic loops, words,
    \<open>lib/round.h\<close>. \<open>Bytes\<close>: little-endian words in a byte memory.
  \<^item> \<open>Bitmap\<close>: \<open>lib/kernel/bitmap.c\<close>, an array of 32-bit elements; the locale \<open>bit_array\<close> is
    the contract the allocators use.
  \<^item> \<open>Cstring\<close>: \<open>lib/string.c\<close> over a byte memory, overlapping arguments included.
  \<^item> \<open>Kernel_List\<close>, \<open>List_Sort\<close>: \<open>lib/kernel/list.c\<close> on a heap of \<open>prev\<close>/\<open>next\<close> pointers, related
    to HOL lists; the natural merge sort is shown to be a stable sort.

  \<^bold>\<open>Memory.\<close>
  \<^item> \<open>Vaddr\<close>: \<open>threads/vaddr.h\<close>, \<open>threads/pte.h\<close>. \<open>Palloc\<close>: \<open>threads/palloc.c\<close>, both pools and
    both policies. \<open>Pagedir\<close>: \<open>userprog/pagedir.c\<close> on page tables stored in the memory.
  \<^item> \<open>Descriptors\<close>: \<open>userprog/gdt.c\<close>, the gates and handler registration of
    \<open>threads/interrupt.c\<close> and \<open>userprog/exception.c\<close>.

  \<^bold>\<open>Threads.\<close>
  \<^item> \<open>Synch\<close>: the data part of \<open>threads/synch.c\<close>. \<open>Thread\<close>: \<open>threads/thread.c\<close>, whose state holds
    every thread with its place in the code (\<open>pc\<close>), the run queue and the semaphores.
  \<^item> \<open>Sched\<close>: the blocking operations and an inductive step relation in which the
    running thread executes any operation of the interface and timer interrupts
    arrive whenever interrupts are on. \<open>Sched_Inv\<close>: the invariant and its
    preservation by each step. \<open>Sched_Safe\<close>: mutual exclusion, no lost wake-up, no
    failing assertion. \<open>Sched_Demo\<close>: a concrete run; \<open>thread_create\<close>.

  \<^bold>\<open>Devices.\<close>
  \<^item> \<open>Intq\<close>: \<open>devices/intq.c\<close>, whose invariant refines a bounded FIFO (locale
    \<open>bounded_queue\<close>). \<open>Char_Devices\<close>: \<open>devices/serial.c\<close>, \<open>devices/input.c\<close>, \<open>devices/kbd.c\<close>.
  \<^item> \<open>Block\<close>: \<open>devices/block.c\<close>, \<open>devices/partition.c\<close>; a chain of partitions maps sectors to a
    disk, and distinct partitions do not interfere.

  \<^bold>\<open>File system.\<close>
  \<^item> \<open>Inode\<close>: \<open>filesys/inode.c\<close>, \<open>filesys/file.c\<close>, \<open>filesys/free-map.c\<close> and the file transfer of
    bitmaps. \<open>Inode_IO\<close>: reading and writing an inode are reading and overwriting the
    sequence of bytes its sectors hold.
  \<^bold>\<open>Not modelled.\<close> Assembly (\<open>loader.S\<close>, \<open>start.S\<close>, \<open>switch.S\<close>, \<open>intr-stubs.S\<close>): its effect on
  the C side (initial frames, saved registers) is part of the model of the callers.
  Output (\<open>lib/stdio.c\<close>, consoles, statistics, \<open>devices/vga.c\<close>): nothing reads it back.
  The port protocol of \<open>devices/ide.c\<close>: a disk is its contents. User programs
  (\<open>examples\<close>, \<open>lib/user\<close>) and host utilities (\<open>utils\<close>).
\<close>

end
